(* ===== verification/Prelude.thy ===== *)
theory Prelude
  imports Main "HOL-Library.Word"
begin

unbundle bit_operations_syntax

text \<open>
  Vocabulary shared by the components: the widths of the C integers, the ways a C function
  can fail, arrays whose cells may be uninitialised, and the interface of a FIFO queue
  (\<open>fifo\<close>), which three ring buffers of the program implement.
\<close>

section \<open>Integers, strings, faults\<close>

type_synonym u8 = "8 word"
type_synonym u16 = "16 word"
type_synonym u32 = "32 word"
type_synonym u64 = "64 word"

text \<open>A C string is a char list without its terminating NUL; \<open>NULL\<close> is \<open>None\<close>.\<close>

type_synonym cstr = string

text \<open>
  What a C function may run into: a failing \<^verbatim>\<open>assert\<close>, the dereference of a null pointer, an
  access outside an array, a loop that does not end, the use of freed memory, the use of
  memory that was not initialised; or it calls \<^verbatim>\<open>exit\<close>.
\<close>

datatype fault = AssertFail | NullDeref | OutOfBounds | Diverges | UseAfterFree | Uninitialised | Exit

type_synonym 'a result = "fault + 'a"

text \<open>Sequencing of fallible steps: the first fault is the result.\<close>

definition rbind :: "'a result \<Rightarrow> ('a \<Rightarrow> 'b result) \<Rightarrow> 'b result" where
  "rbind r f = (case r of Inl e \<Rightarrow> Inl e | Inr x \<Rightarrow> f x)"

lemma rbind_simps [simp]:
  "rbind (Inl e) f = Inl e"
  "rbind (Inr x) f = f x"
  by (simp_all add: rbind_def)

lemma rbind_Inr_iff: "rbind r f = Inr y \<longleftrightarrow> (\<exists>x. r = Inr x \<and> f x = Inr y)"
  by (cases r) auto

lemma rbind_split_asm:
  "rbind r f = Inr y \<Longrightarrow> (\<And>x. r = Inr x \<Longrightarrow> f x = Inr y \<Longrightarrow> P) \<Longrightarrow> P"
  by (auto simp: rbind_Inr_iff)

lemma rbind_cong [fundef_cong]:
  "r = r' \<Longrightarrow> (\<And>x. r' = Inr x \<Longrightarrow> f x = f' x) \<Longrightarrow> rbind r f = rbind r' f'"
  by (cases r') auto

text \<open>The value an \<open>assert\<close> guards.\<close>

definition cassert :: "bool \<Rightarrow> unit result" where
  "cassert b = (if b then Inr () else Inl AssertFail)"

lemma cassert_simps [simp]:
  "cassert True = Inr ()"
  "cassert False = Inl AssertFail"
  "cassert b = Inr u \<longleftrightarrow> b"
  by (simp_all add: cassert_def)

section \<open>Ring arithmetic\<close>

text \<open>The number of live cells of a ring \<open>[head, tail)\<close> of \<open>cap\<close> cells.\<close>

definition ring_len :: "nat \<Rightarrow> nat \<Rightarrow> nat \<Rightarrow> nat" where
  "ring_len cap h t = (if h \<le> t then t - h else t + cap - h)"

definition ring_next :: "nat \<Rightarrow> nat \<Rightarrow> nat" where
  "ring_next cap i = (if i + 1 \<ge> cap then 0 else i + 1)"

definition ring_list :: "nat \<Rightarrow> nat \<Rightarrow> nat \<Rightarrow> 'a option list \<Rightarrow> 'a list" where
  "ring_list cap h t a = map (\<lambda>i. the (a ! ((h + i) mod cap))) [0..<ring_len cap h t]"

text \<open>The representation invariant of a ring: indices in range, live cells initialised.\<close>

definition ring_ok :: "nat \<Rightarrow> nat \<Rightarrow> nat \<Rightarrow> 'a option list \<Rightarrow> bool" where
  "ring_ok cap h t a \<longleftrightarrow> length a = cap \<and> h < cap \<and> t < cap \<and>
     (\<forall>i < ring_len cap h t. a ! ((h + i) mod cap) \<noteq> None)"

lemma ring_next_mod: "i < cap \<Longrightarrow> ring_next cap i = (i + 1) mod cap"
  by (auto simp: ring_next_def not_le intro!: mod_less[symmetric] dest: le_antisym[rotated])

lemma ring_next_less: "i < cap \<Longrightarrow> ring_next cap i < cap"
  by (auto simp: ring_next_def)

lemma ring_len_less: "h < cap \<Longrightarrow> t < cap \<Longrightarrow> ring_len cap h t < cap"
  by (auto simp: ring_len_def)

lemma ring_len_0: "h < cap \<Longrightarrow> t < cap \<Longrightarrow> ring_len cap h t = 0 \<longleftrightarrow> h = t"
  by (auto simp: ring_len_def)

lemma ring_tail: "h < cap \<Longrightarrow> t < cap \<Longrightarrow> (h + ring_len cap h t) mod cap = t"
  by (auto simp: ring_len_def)

lemma ring_len_push:
  "h < cap \<Longrightarrow> t < cap \<Longrightarrow> ring_next cap t \<noteq> h \<Longrightarrow>
   ring_len cap h (ring_next cap t) = Suc (ring_len cap h t)"
  by (auto simp: ring_len_def ring_next_def split: if_splits)

lemma ring_len_full:
  "h < cap \<Longrightarrow> t < cap \<Longrightarrow> ring_next cap t = h \<Longrightarrow> Suc (ring_len cap h t) = cap"
  by (auto simp: ring_len_def ring_next_def split: if_splits)

lemma ring_len_pop:
  "h < cap \<Longrightarrow> t < cap \<Longrightarrow> h \<noteq> t \<Longrightarrow>
   Suc (ring_len cap (ring_next cap h) t) = ring_len cap h t"
  by (auto simp: ring_len_def ring_next_def split: if_splits)

lemma ring_mod:
  "h < cap \<Longrightarrow> i < cap \<Longrightarrow> (h + i) mod cap = (if h + i < cap then h + i else h + i - cap)"
  for h :: nat
  by (simp add: mod_if)

lemma ring_index_inj:
  "h < cap \<Longrightarrow> i < cap \<Longrightarrow> j < cap \<Longrightarrow> (h + i) mod cap = (h + j) mod cap \<Longrightarrow> i = j"
  for h :: nat
  by (auto simp: ring_mod split: if_splits)

lemma ring_live_not_tail:
  assumes "h < cap" "t < cap" "i < ring_len cap h t"
  shows "t \<noteq> (h + i) mod cap"
  using assms ring_len_less [of h cap t] by (auto simp: ring_mod ring_len_def split: if_splits)

lemma ring_write:
  assumes "ring_ok cap h t a"
  shows "map (\<lambda>i. the (a[t := Some x] ! ((h + i) mod cap))) [0..<Suc (ring_len cap h t)] =
         ring_list cap h t a @ [x]"
proof -
  have "h < cap" "t < cap" "length a = cap"
    using assms by (auto simp: ring_ok_def)
  then show ?thesis
    by (auto simp: ring_list_def ring_tail ring_live_not_tail)
qed

lemma ring_ok_write:
  assumes "ring_ok cap h t a" "i \<le> ring_len cap h t"
  shows "a[t := Some x] ! ((h + i) mod cap) \<noteq> None"
proof -
  have "h < cap" "t < cap" "length a = cap"
    using assms by (auto simp: ring_ok_def)
  with assms show ?thesis
    by (cases "i = ring_len cap h t") (auto simp: ring_ok_def ring_tail ring_live_not_tail)
qed

text \<open>Writing at the tail and advancing it appends, unless the tail meets the head.\<close>

lemma ring_push:
  assumes ok: "ring_ok cap h t a" and nf: "ring_next cap t \<noteq> h"
  shows "ring_ok cap h (ring_next cap t) (a[t := Some x])"
    and "ring_list cap h (ring_next cap t) (a[t := Some x]) = ring_list cap h t a @ [x]"
proof -
  have r: "h < cap" "t < cap" "length a = cap"
    using ok by (auto simp: ring_ok_def)
  have len: "ring_len cap h (ring_next cap t) = Suc (ring_len cap h t)"
    using r nf by (simp add: ring_len_push)
  show "ring_ok cap h (ring_next cap t) (a[t := Some x])"
    using r ring_ok_write [OF ok] by (simp add: ring_ok_def len ring_next_less less_Suc_eq_le)
  show "ring_list cap h (ring_next cap t) (a[t := Some x]) = ring_list cap h t a @ [x]"
    unfolding ring_list_def [of cap h "ring_next cap t"] len by (rule ring_write [OF ok])
qed

text \<open>Advancing the head removes the first element.\<close>

lemma ring_pop:
  assumes ok: "ring_ok cap h t a" and ne: "h \<noteq> t"
  shows "ring_ok cap (ring_next cap h) t a"
    and "ring_list cap h t a = the (a ! h) # ring_list cap (ring_next cap h) t a"
    and "a ! h \<noteq> None"
proof -
  have r: "h < cap" "t < cap" "length a = cap"
    using ok by (auto simp: ring_ok_def)
  have len: "ring_len cap h t = Suc (ring_len cap (ring_next cap h) t)"
    using r ne by (simp add: ring_len_pop)
  have step: "(ring_next cap h + i) mod cap = (h + Suc i) mod cap" for i
    using r by (simp add: ring_next_mod mod_simps)
  show "ring_ok cap (ring_next cap h) t a"
    using ok r unfolding ring_ok_def len by (auto simp: step ring_next_less)
  show "ring_list cap h t a = the (a ! h) # ring_list cap (ring_next cap h) t a"
    unfolding ring_list_def len using r
    by (simp add: step upt_conv_Cons map_Suc_upt [symmetric] del: upt_Suc)
  show "a ! h \<noteq> None"
    using ok r len unfolding ring_ok_def by (metis add_0_right mod_less zero_less_Suc)
qed

text \<open>A full ring is unrolled into a larger array, its elements first and in order.\<close>

lemma ring_unroll:
  fixes x :: 'a
  assumes ok: "ring_ok cap h t a" and full: "ring_next cap t = h" and big: "cap < cap'"
  defines "b \<equiv> map (\<lambda>i. a[t := Some x] ! ((h + i) mod cap)) [0..<cap] @ replicate (cap' - cap) None"
  shows "ring_ok cap' 0 cap b" and "ring_list cap' 0 cap b = ring_list cap h t a @ [x]"
proof -
  have r: "h < cap" "t < cap" "length a = cap"
    using ok by (auto simp: ring_ok_def)
  have len: "cap = Suc (ring_len cap h t)"
    using r full by (simp add: ring_len_full)
  have b: "b ! ((0 + i) mod cap') = a[t := Some x] ! ((h + i) mod cap)" if "i < cap" for i
    using that big by (simp add: b_def nth_append)
  have lb: "length b = cap'"
    using big by (simp add: b_def)
  have l0: "ring_len cap' 0 cap = cap"
    by (simp add: ring_len_def)
  show "ring_ok cap' 0 cap b"
    using big lb b ring_ok_write [OF ok, of _ x] len
    unfolding ring_ok_def l0 by (metis less_Suc_eq_le less_nat_zero_code linorder_neqE_nat)
  have "ring_list cap' 0 cap b = map (\<lambda>i. the (a[t := Some x] ! ((h + i) mod cap))) [0..<cap]"
    unfolding ring_list_def l0 using b by simp
  then show "ring_list cap' 0 cap b = ring_list cap h t a @ [x]"
    using ring_write [OF ok, of x] len by simp
qed

lemma ring_list_Nil: "ring_ok cap h t a \<Longrightarrow> ring_list cap h t a = [] \<longleftrightarrow> h = t"
  by (simp add: ring_list_def ring_ok_def ring_len_0)

lemma length_ring_list [simp]: "length (ring_list cap h t a) = ring_len cap h t"
  by (simp add: ring_list_def)

section \<open>FIFO queues\<close>

text \<open>
  What a client of a queue relies on: \<open>push\<close> appends to the abstract contents, \<open>pop\<close>
  takes the first element or reports that there is none, and both keep the invariant.
\<close>

datatype 'm qop = Push 'm | Pop

text \<open>
  A history: pushes and pops in the order in which the lock serialised them. \<open>fifo_run\<close> gives
  the final queue and what the pops returned.
\<close>

primrec fifo_run :: "('q \<Rightarrow> 'm \<Rightarrow> 'q) \<Rightarrow> ('q \<Rightarrow> 'm option \<times> 'q) \<Rightarrow> 'q \<Rightarrow> 'm qop list \<Rightarrow> 'm list \<times> 'q" where
  "fifo_run push pop q [] = ([], q)"
| "fifo_run push pop q (c # cs) =
     (case c of
        Push m \<Rightarrow> fifo_run push pop (push q m) cs
      | Pop \<Rightarrow> (case pop q of
                 (None, q') \<Rightarrow> fifo_run push pop q' cs
               | (Some m, q') \<Rightarrow> (let (out, q'') = fifo_run push pop q' cs in (m # out, q''))))"

primrec pushed :: "'m qop list \<Rightarrow> 'm list" where
  "pushed [] = []"
| "pushed (c # cs) = (case c of Push m \<Rightarrow> m # pushed cs | Pop \<Rightarrow> pushed cs)"

text \<open>Popping until \<open>None\<close> (\<open>fuel\<close> bounds the pops) empties the queue in order.\<close>

primrec fifo_drain :: "('q \<Rightarrow> 'm option \<times> 'q) \<Rightarrow> nat \<Rightarrow> 'q \<Rightarrow> 'm list \<times> 'q" where
  "fifo_drain pop 0 q = ([], q)"
| "fifo_drain pop (Suc n) q = (case pop q of
      (None, q') \<Rightarrow> ([], q')
    | (Some m, q') \<Rightarrow> (let (out, q'') = fifo_drain pop n q' in (m # out, q'')))"

locale fifo =
  fixes push :: "'q \<Rightarrow> 'm \<Rightarrow> 'q"
    and pop :: "'q \<Rightarrow> 'm option \<times> 'q"
    and contents :: "'q \<Rightarrow> 'm list"
    and invar :: "'q \<Rightarrow> bool"
  assumes invar_push: "invar q \<Longrightarrow> invar (push q m)"
    and invar_pop: "invar q \<Longrightarrow> invar (snd (pop q))"
    and contents_push: "invar q \<Longrightarrow> contents (push q m) = contents q @ [m]"
    and pop_Nil: "invar q \<Longrightarrow> contents q = [] \<Longrightarrow> fst (pop q) = None \<and> contents (snd (pop q)) = []"
    and pop_Cons: "invar q \<Longrightarrow> contents q = x # xs \<Longrightarrow>
                   fst (pop q) = Some x \<and> contents (snd (pop q)) = xs"
begin

lemma pop_None_iff: "invar q \<Longrightarrow> fst (pop q) = None \<longleftrightarrow> contents q = []"
  by (cases "contents q") (auto dest: pop_Nil pop_Cons)

text \<open>
  Whatever the interleaving, the messages taken out followed by those still queued are the
  initial contents followed by what was pushed: none lost, none twice, none overtaken.
\<close>

lemma run_fifo:
  "invar q \<Longrightarrow> fifo_run push pop q cs = (out, q') \<Longrightarrow> invar q' \<and> out @ contents q' = contents q @ pushed cs"
proof (induction cs arbitrary: q out)
  case Nil
  then show ?case by simp
next
  case (Cons c cs)
  show ?case
  proof (cases c)
    case (Push m)
    with Cons.IH [OF invar_push [OF Cons.prems(1)], of m out] Cons.prems show ?thesis
      by (auto simp: contents_push)
  next
    case Pop
    obtain r q1 where p: "pop q = (r, q1)" by fastforce
    have inv1: "invar q1"
      using invar_pop [OF Cons.prems(1)] p by simp
    show ?thesis
    proof (cases "contents q")
      case Nil
      then have "r = None" "contents q1 = []"
        using pop_Nil [OF Cons.prems(1)] p by auto
      with Cons.IH [OF inv1] Cons.prems Pop p Nil show ?thesis by auto
    next
      case (Cons x xs)
      then have "r = Some x" "contents q1 = xs"
        using pop_Cons [OF Cons.prems(1)] p by auto
      with Cons.IH [OF inv1] Cons.prems Pop p Cons show ?thesis
        by (auto split: prod.splits)
    qed
  qed
qed

lemma drain_all:
  "invar q \<Longrightarrow> length (contents q) < n \<Longrightarrow>
   fst (fifo_drain pop n q) = contents q \<and> contents (snd (fifo_drain pop n q)) = [] \<and> invar (snd (fifo_drain pop n q))"
proof (induction n arbitrary: q)
  case 0
  then show ?case by simp
next
  case (Suc n)
  obtain r q1 where p: "pop q = (r, q1)" by fastforce
  have inv1: "invar q1"
    using invar_pop [OF Suc.prems(1)] p by simp
  show ?case
  proof (cases "contents q")
    case Nil
    then show ?thesis
      using pop_Nil [OF Suc.prems(1)] p inv1 by auto
  next
    case (Cons x xs)
    then have "r = Some x" "contents q1 = xs"
      using pop_Cons [OF Suc.prems(1)] p by auto
    with Suc.IH [OF inv1] Suc.prems Cons p show ?thesis
      by (auto split: prod.splits)
  qed
qed

end

end
