(* ===== verification/AoiMap.thy ===== *)
theory AoiMap
  imports Prelude
begin

text \<open>
  The hash map from ids to objects of \<^verbatim>\<open>service-src/service_caoi.c\<close>: chained scatter with Brent's
  variation, as in Lua tables. A slot that is not in its main position is moved away when an
  id hashes there; free slots are taken from the top; the table doubles when none is left.
  Dropping an id leaves its slot in the chain without an object. Object pointers are
  references (\<open>objref\<close>); the allocator is \<^verbatim>\<open>my_alloc\<close>, of which the accounting is kept.
\<close>

section \<open>Data\<close>

type_synonym objref = nat

definition INVALID_ID :: u32 where "INVALID_ID = NOT 0"
definition PRE_ALLOC :: nat where "PRE_ALLOC = 16"

record map_slot =
  sl_id :: u32
  sl_obj :: "objref option"
  sl_next :: int

text \<open>\<^verbatim>\<open>size\<close> is the length of \<open>mp_slot\<close>.\<close>

record amap =
  mp_lastfree :: int
  mp_slot :: "map_slot list"

record alloc_cookie =
  ck_count :: int
  ck_max :: int
  ck_current :: int

text \<open>Sizes of the structs on a 64-bit target.\<close>

definition sizeof_map_slot :: int where "sizeof_map_slot = 24"
definition sizeof_map :: int where "sizeof_map = 16"

section \<open>Operations\<close>

text \<open>\<^verbatim>\<open>my_alloc\<close> with a null pointer, and with a pointer to give back.\<close>

definition my_alloc :: "int \<Rightarrow> alloc_cookie \<Rightarrow> alloc_cookie" where
  "my_alloc sz c =
     (let current = ck_current c + sz in
      \<lparr>ck_count = ck_count c + 1, ck_max = (if ck_max c < current then current else ck_max c),
       ck_current = current\<rparr>)"

definition my_free :: "int \<Rightarrow> alloc_cookie \<Rightarrow> alloc_cookie" where
  "my_free sz c = c\<lparr>ck_count := ck_count c - 1, ck_current := ck_current c - sz\<rparr>"

definition mainposition :: "map_slot list \<Rightarrow> u32 \<Rightarrow> nat" where
  "mainposition slot oid = unat (oid AND (of_nat (length slot) - 1))"

text \<open>The walk to the predecessor of slot \<open>s\<close> in its chain, at most \<open>n\<close> steps.\<close>

primrec find_last :: "map_slot list \<Rightarrow> nat \<Rightarrow> nat \<Rightarrow> nat \<Rightarrow> nat result" where
  "find_last slot s 0 lst = Inl Diverges"
| "find_last slot s (Suc n) lst =
     (if sl_next (slot ! lst) = int s then Inr lst
      else rbind (cassert (sl_next (slot ! lst) \<ge> 0)) (\<lambda>_.
           find_last slot s n (nat (sl_next (slot ! lst)))))"

text \<open>The loop on \<^verbatim>\<open>lastfree\<close>: the free slot found, if any, and the new \<^verbatim>\<open>lastfree\<close>.\<close>

function find_free :: "map_slot list \<Rightarrow> int \<Rightarrow> nat option \<times> int" where
  "find_free slot lastfree =
     (if lastfree \<ge> 0 then
        if sl_id (slot ! nat lastfree) = INVALID_ID then (Some (nat lastfree), lastfree - 1)
        else find_free slot (lastfree - 1)
      else (None, lastfree))"
  by pat_completeness auto
termination
  by (relation "measure (\<lambda>(slot, lastfree). nat (lastfree + 1))") auto

declare find_free.simps [simp del]

definition empty_slot :: map_slot where
  "empty_slot = \<lparr>sl_id = INVALID_ID, sl_obj = None, sl_next = -1\<rparr>"

text \<open>
  \<^verbatim>\<open>map_insert\<close> and \<^verbatim>\<open>rehash\<close> call each other; the first argument bounds the depth of the calls.
  \<open>rehash_loop\<close> is the loop of \<^verbatim>\<open>rehash\<close> over the old slots.
\<close>

function (sequential) map_insert ::
    "nat \<Rightarrow> u32 \<Rightarrow> objref \<Rightarrow> alloc_cookie \<times> amap \<Rightarrow> (alloc_cookie \<times> amap) result"
  and rehash_loop ::
    "nat \<Rightarrow> map_slot list \<Rightarrow> alloc_cookie \<times> amap \<Rightarrow> (alloc_cookie \<times> amap) result" where
  "map_insert 0 oid obj (c, m) = Inl Diverges"
| "map_insert (Suc n) oid obj (c, m) =
     (let slot = mp_slot m; s = mainposition slot oid in
      if sl_id (slot ! s) = INVALID_ID then
        Inr (c, m\<lparr>mp_slot := slot[s := (slot ! s)\<lparr>sl_id := oid, sl_obj := Some obj\<rparr>]\<rparr>)
      else if mainposition slot (sl_id (slot ! s)) \<noteq> s then
        rbind (find_last slot s (length slot) (mainposition slot (sl_id (slot ! s)))) (\<lambda>last.
        let temp_id = sl_id (slot ! s);
            temp_obj = sl_obj (slot ! s);
            slot1 = slot[last := (slot ! last)\<lparr>sl_next := sl_next (slot ! s)\<rparr>];
            slot2 = slot1[s := \<lparr>sl_id = oid, sl_obj = Some obj, sl_next = -1\<rparr>];
            m' = m\<lparr>mp_slot := slot2\<rparr>
        in case temp_obj of
             Some temp \<Rightarrow> map_insert n temp_id temp (c, m')
           | None \<Rightarrow> Inr (c, m'))
      else
        (case find_free slot (mp_lastfree m) of
           (Some t, lastfree) \<Rightarrow>
             (let slot1 = slot[t := \<lparr>sl_id = oid, sl_obj = Some obj, sl_next = sl_next (slot ! s)\<rparr>];
                  slot2 = slot1[s := (slot1 ! s)\<lparr>sl_next := int t\<rparr>]
              in Inr (c, m\<lparr>mp_lastfree := lastfree, mp_slot := slot2\<rparr>))
         | (None, lastfree) \<Rightarrow>
             (let size = 2 * length slot;
                  c1 = my_alloc (int size * sizeof_map_slot) c;
                  m1 = \<lparr>mp_lastfree = int size - 1, mp_slot = replicate size empty_slot\<rparr>
              in rbind (rehash_loop n slot (c1, m1)) (\<lambda>(c2, m2).
                 map_insert n oid obj (my_free (int (length slot) * sizeof_map_slot) c2, m2)))))"
| "rehash_loop n [] (c, m) = Inr (c, m)"
| "rehash_loop n (s # ss) (c, m) =
     (case sl_obj s of
        Some obj \<Rightarrow> rbind (map_insert n (sl_id s) obj (c, m)) (rehash_loop n ss)
      | None \<Rightarrow> rehash_loop n ss (c, m))"
  by pat_completeness auto
termination
  by (relation "measures [\<lambda>x. case x of Inl (n, _) \<Rightarrow> n | Inr (n, _) \<Rightarrow> n,
        \<lambda>x. case x of Inl _ \<Rightarrow> 0 | Inr (_, ss, _) \<Rightarrow> Suc (length ss)]") auto

declare map_insert.simps [simp del]

text \<open>A call of \<^verbatim>\<open>map_insert\<close> goes at most four calls deep (shown below).\<close>

definition INSERT_DEPTH :: nat where "INSERT_DEPTH = 4"

text \<open>The \<^verbatim>\<open>for (;;)\<close> walk of \<^verbatim>\<open>map_query\<close> and \<^verbatim>\<open>map_drop\<close>: the slot that has the id, if any.\<close>

primrec query_walk :: "map_slot list \<Rightarrow> u32 \<Rightarrow> nat \<Rightarrow> nat \<Rightarrow> nat option result" where
  "query_walk slot oid 0 s = Inl Diverges"
| "query_walk slot oid (Suc n) s =
     (if sl_id (slot ! s) = oid then Inr (Some s)
      else if sl_next (slot ! s) < 0 then Inr None
      else query_walk slot oid n (nat (sl_next (slot ! s))))"

primrec foreach_loop :: "(objref \<Rightarrow> 's \<Rightarrow> 's result) \<Rightarrow> map_slot list \<Rightarrow> 's \<Rightarrow> 's result" where
  "foreach_loop func [] ud = Inr ud"
| "foreach_loop func (s # ss) ud =
     (case sl_obj s of
        Some obj \<Rightarrow> rbind (func obj ud) (foreach_loop func ss)
      | None \<Rightarrow> foreach_loop func ss ud)"

text \<open>No callback of the program changes the map, so the loop reads the slots as they are at the start.\<close>

definition map_foreach :: "amap \<Rightarrow> (objref \<Rightarrow> 's \<Rightarrow> 's result) \<Rightarrow> 's \<Rightarrow> 's result" where
  "map_foreach m func ud = foreach_loop func (mp_slot m) ud"

definition map_drop :: "u32 \<Rightarrow> amap \<Rightarrow> (objref option \<times> amap) result" where
  "map_drop oid m =
     rbind (query_walk (mp_slot m) oid (length (mp_slot m)) (mainposition (mp_slot m) oid)) (\<lambda>r.
     case r of
       Some s \<Rightarrow> Inr (sl_obj (mp_slot m ! s), m\<lparr>mp_slot := (mp_slot m)[s := (mp_slot m ! s)\<lparr>sl_obj := None\<rparr>]\<rparr>)
     | None \<Rightarrow> Inr (None, m))"

definition map_delete :: "amap \<Rightarrow> alloc_cookie \<Rightarrow> alloc_cookie" where
  "map_delete m c = my_free sizeof_map (my_free (int (length (mp_slot m)) * sizeof_map_slot) c)"

definition map_new :: "alloc_cookie \<Rightarrow> alloc_cookie \<times> amap" where
  "map_new c =
     (my_alloc (int PRE_ALLOC * sizeof_map_slot) (my_alloc sizeof_map c),
      \<lparr>mp_lastfree = int PRE_ALLOC - 1, mp_slot = replicate PRE_ALLOC empty_slot\<rparr>)"

section \<open>Chains\<close>

text \<open>\<open>seg S xs e\<close>: the slots \<open>xs\<close> are linked one to the next and the last one to \<open>e\<close>.\<close>

fun seg :: "map_slot list \<Rightarrow> nat list \<Rightarrow> int \<Rightarrow> bool" where
  "seg S [] e = True"
| "seg S (x # xs) e \<longleftrightarrow> sl_next (S ! x) = (case xs of [] \<Rightarrow> e | y # _ \<Rightarrow> int y) \<and> seg S xs e"

lemma seg_append:
  "seg S (xs @ ys) e \<longleftrightarrow> seg S xs (case ys of [] \<Rightarrow> e | y # _ \<Rightarrow> int y) \<and> seg S ys e"
  by (induction xs) (auto split: list.splits)

lemma seg_cong:
  "(\<And>i. i \<in> set xs \<Longrightarrow> sl_next (S ! i) = sl_next (S' ! i)) \<Longrightarrow> seg S xs e \<longleftrightarrow> seg S' xs e"
  by (induction xs) auto

lemma query_walk_seg:
  "seg S (x # xs) (-1) \<Longrightarrow> length (x # xs) \<le> n \<Longrightarrow>
   query_walk S oid n x = Inr (find (\<lambda>i. sl_id (S ! i) = oid) (x # xs))"
proof (induction xs arbitrary: x n)
  case Nil
  then show ?case by (cases n) auto
next
  case (Cons y ys)
  then show ?case by (cases n) auto
qed

lemma find_last_seg:
  "seg S (x # xs) (int s) \<Longrightarrow> s \<notin> set xs \<Longrightarrow> length (x # xs) \<le> n \<Longrightarrow>
   find_last S s n x = Inr (last (x # xs))"
proof (induction xs arbitrary: x n)
  case Nil
  then show ?case by (cases n) auto
next
  case (Cons y ys)
  then show ?case by (cases n) auto
qed

text \<open>A slot is used when it has an id; it belongs to the chain of its main position.\<close>

definition used :: "map_slot list \<Rightarrow> nat \<Rightarrow> bool" where
  "used S i \<longleftrightarrow> i < length S \<and> sl_id (S ! i) \<noteq> INVALID_ID"

definition members :: "map_slot list \<Rightarrow> nat \<Rightarrow> nat set" where
  "members S h = {i. used S i \<and> mainposition S (sl_id (S ! i)) = h}"

definition chain :: "map_slot list \<Rightarrow> nat \<Rightarrow> nat list \<Rightarrow> bool" where
  "chain S h xs \<longleftrightarrow> distinct xs \<and> seg S xs (-1) \<and> set xs = members S h \<and> (xs \<noteq> [] \<longrightarrow> hd xs = h)"

definition chained :: "map_slot list \<Rightarrow> bool" where
  "chained S \<longleftrightarrow> (\<forall>h < length S. \<exists>xs. chain S h xs)"

definition slots_ok :: "map_slot list \<Rightarrow> bool" where
  "slots_ok S \<longleftrightarrow> (\<exists>k. length S = 2 ^ k \<and> 4 \<le> k \<and> k \<le> 31) \<and>
     (\<forall>i < length S. \<not> used S i \<longrightarrow> S ! i = empty_slot) \<and>
     (\<forall>i j. used S i \<longrightarrow> used S j \<longrightarrow> sl_id (S ! i) = sl_id (S ! j) \<longrightarrow> i = j) \<and>
     chained S"

definition map_ok :: "amap \<Rightarrow> bool" where
  "map_ok m \<longleftrightarrow> slots_ok (mp_slot m) \<and> -1 \<le> mp_lastfree m \<and> mp_lastfree m < int (length (mp_slot m)) \<and>
     (\<forall>i < length (mp_slot m). mp_lastfree m < int i \<longrightarrow> used (mp_slot m) i)"

text \<open>The map that a table stands for.\<close>

definition lookup :: "map_slot list \<Rightarrow> u32 \<rightharpoonup> objref" where
  "lookup S oid = (case find (\<lambda>s. sl_id s = oid \<and> sl_id s \<noteq> INVALID_ID) S of Some s \<Rightarrow> sl_obj s | None \<Rightarrow> None)"

lemma mainposition_mod:
  assumes "length S = 2 ^ k" "k \<le> 31"
  shows "mainposition S oid = unat oid mod 2 ^ k"
proof -
  have "(of_nat (length S) :: u32) - 1 = mask k"
    using assms by (simp add: mask_eq_exp_minus_1)
  then have "mainposition S oid = unat (take_bit k oid)"
    by (simp only: mainposition_def take_bit_eq_mask)
  also have "\<dots> = unat oid mod 2 ^ k"
    by (simp only: unsigned_take_bit_eq) (simp only: take_bit_eq_mod)
  finally show ?thesis .
qed

lemma mainposition_less: "slots_ok S \<Longrightarrow> mainposition S oid < length S"
  by (auto simp: slots_ok_def mainposition_mod)

lemma mainposition_cong: "length S = length S' \<Longrightarrow> mainposition S = mainposition S'"
  by (simp add: mainposition_def fun_eq_iff)

lemma slots_okD:
  assumes "slots_ok S"
  shows "i < length S \<Longrightarrow> \<not> used S i \<Longrightarrow> S ! i = empty_slot"
    "used S i \<Longrightarrow> used S j \<Longrightarrow> sl_id (S ! i) = sl_id (S ! j) \<Longrightarrow> i = j"
    "h < length S \<Longrightarrow> \<exists>xs. chain S h xs"
  using assms unfolding slots_ok_def chained_def by blast+

lemma used_length: "used S i \<Longrightarrow> i < length S"
  by (simp add: used_def)

lemma chain_length: "chain S h xs \<Longrightarrow> length xs \<le> length S"
proof -
  assume c: "chain S h xs"
  then have "set xs \<subseteq> {..<length S}" by (auto simp: chain_def members_def used_def)
  then have "card (set xs) \<le> length S" using card_mono [of "{..<length S}" "set xs"] by simp
  then show ?thesis using c by (metis chain_def distinct_card)
qed

lemma lookup_used:
  assumes "slots_ok S" "used S i"
  shows "lookup S (sl_id (S ! i)) = sl_obj (S ! i)"
proof -
  let ?P = "\<lambda>s. sl_id s = sl_id (S ! i) \<and> sl_id s \<noteq> INVALID_ID"
  obtain s where f: "find ?P S = Some s"
  proof (cases "find ?P S")
    case None
    then have "\<not> ?P (S ! i)"
      using nth_mem [OF used_length [OF assms(2)]] unfolding find_None_iff by blast
    with assms(2) show ?thesis by (simp add: used_def)
  qed
  then obtain j where "j < length S" "?P (S ! j)" "s = S ! j"
    by (auto simp: find_Some_iff)
  then have "s = S ! i"
    using slots_okD(2) [OF assms(1), of j i] assms(2) by (auto simp: used_def)
  with f show ?thesis by (simp add: lookup_def)
qed

lemma lookup_None: "(\<And>i. used S i \<Longrightarrow> sl_id (S ! i) \<noteq> oid) \<Longrightarrow> lookup S oid = None"
  by (cases "find (\<lambda>s. sl_id s = oid \<and> sl_id s \<noteq> INVALID_ID) S")
    (auto simp: lookup_def find_Some_iff used_def)

text \<open>The walk from the main position of an id finds the slot of the id, if there is one.\<close>

lemma find_distinct_iff:
  "find P xs = (if \<exists>x \<in> set xs. P x then Some (THE x. x \<in> set xs \<and> P x) else None)"
  if "\<And>x y. x \<in> set xs \<Longrightarrow> y \<in> set xs \<Longrightarrow> P x \<Longrightarrow> P y \<Longrightarrow> x = y"
proof (cases "\<exists>x \<in> set xs. P x")
  case True
  then obtain y where y: "find P xs = Some y" by (cases "find P xs") (auto simp: find_None_iff)
  then have "y \<in> set xs" "P y" by (auto simp: find_Some_iff)
  with that have "(THE x. x \<in> set xs \<and> P x) = y" by (intro the_equality) auto
  with True y show ?thesis by simp
qed (auto simp: find_None_iff)

lemma query_walk_ok:
  assumes ok: "slots_ok S" and oid: "oid \<noteq> INVALID_ID"
  shows "query_walk S oid (length S) (mainposition S oid) =
    Inr (if \<exists>i. used S i \<and> sl_id (S ! i) = oid then Some (THE i. used S i \<and> sl_id (S ! i) = oid) else None)"
proof -
  let ?s = "mainposition S oid"
  have s: "?s < length S" by (rule mainposition_less [OF ok])
  show ?thesis
  proof (cases "used S ?s")
    case False
    then have "S ! ?s = empty_slot" by (rule slots_okD(1) [OF ok s])
    moreover have "\<not> (\<exists>i. used S i \<and> sl_id (S ! i) = oid)"
    proof
      assume "\<exists>i. used S i \<and> sl_id (S ! i) = oid"
      then obtain i where "i \<in> members S ?s" by (auto simp: members_def)
      moreover obtain xs where xs: "chain S ?s xs" using slots_okD(3) [OF ok s] by blast
      ultimately have "?s \<in> members S ?s" by (metis chain_def empty_iff list.set(1) list.set_sel(1))
      with False show False by (simp add: members_def)
    qed
    moreover have "length S \<noteq> 0" using s by auto
    then obtain n where "length S = Suc n" using not0_implies_Suc by blast
    ultimately show ?thesis using oid by (simp add: empty_slot_def)
  next
    case True
    let ?h = "mainposition S (sl_id (S ! ?s))"
    obtain xs where xs: "chain S ?h xs" using slots_okD(3) [OF ok mainposition_less [OF ok]] by blast
    with True have "?s \<in> set xs" by (auto simp: chain_def members_def)
    then obtain ys zs where yz: "xs = ys @ ?s # zs" by (auto simp: in_set_conv_decomp)
    have "seg S (?s # zs) (-1)" using xs unfolding chain_def yz seg_append by blast
    moreover have "length (?s # zs) \<le> length S" using chain_length [OF xs] yz by simp
    ultimately have w: "query_walk S oid (length S) ?s = Inr (find (\<lambda>i. sl_id (S ! i) = oid) (?s # zs))"
      by (rule query_walk_seg)
    have mem: "set (?s # zs) \<subseteq> members S ?h" using xs yz by (auto simp: chain_def)
    have all: "i \<in> set (?s # zs)" if i: "used S i" "sl_id (S ! i) = oid" for i
    proof -
      obtain us where us: "chain S ?s us" using slots_okD(3) [OF ok s] by blast
      have "i \<in> members S ?s" using i by (simp add: members_def)
      with us have ne: "us \<noteq> []" "hd us = ?s" by (auto simp: chain_def)
      then have "?s \<in> members S ?s" using us by (metis chain_def list.set_sel(1))
      then have h: "?h = ?s" by (simp add: members_def)
      then have "hd xs = ?s" using xs yz by (auto simp: chain_def)
      then have "ys = []" using xs yz by (cases ys) (auto simp: chain_def)
      then show ?thesis using \<open>i \<in> members S ?s\<close> xs h yz by (auto simp: chain_def)
    qed
    have "find (\<lambda>i. sl_id (S ! i) = oid) (?s # zs) =
        (if \<exists>i \<in> set (?s # zs). sl_id (S ! i) = oid
         then Some (THE i. i \<in> set (?s # zs) \<and> sl_id (S ! i) = oid) else None)"
      using mem slots_okD(2) [OF ok] by (intro find_distinct_iff) (auto simp: members_def)
    moreover have "i \<in> set (?s # zs) \<and> sl_id (S ! i) = oid \<longleftrightarrow> used S i \<and> sl_id (S ! i) = oid" for i
      using all mem by (auto simp: members_def)
    ultimately show ?thesis unfolding w by (simp only: Bex_def)
  qed
qed

section \<open>Insertion\<close>

lemma lookup_eqI:
  assumes "slots_ok S" "\<And>i. used S i \<Longrightarrow> f (sl_id (S ! i)) = sl_obj (S ! i)"
    "\<And>x. f x \<noteq> None \<Longrightarrow> \<exists>i. used S i \<and> sl_id (S ! i) = x"
  shows "lookup S = f"
proof
  fix x
  show "lookup S x = f x"
  proof (cases "\<exists>i. used S i \<and> sl_id (S ! i) = x")
    case True
    then show ?thesis using lookup_used [OF assms(1)] assms(2) by metis
  next
    case False
    then have "lookup S x = None" by (intro lookup_None) blast
    moreover have "f x = None" using assms(3) [of x] False by blast
    ultimately show ?thesis by simp
  qed
qed

lemma lookup_Some_used: "lookup S x \<noteq> None \<Longrightarrow> \<exists>i. used S i \<and> sl_id (S ! i) = x"
proof (rule ccontr)
  assume "lookup S x \<noteq> None" "\<nexists>i. used S i \<and> sl_id (S ! i) = x"
  then show False using lookup_None [of S x] by simp
qed

text \<open>What one writes into the table keeps it well formed if the chains do.\<close>

lemma slots_okI:
  assumes "slots_ok S" "length S' = length S"
    "\<And>i. i < length S \<Longrightarrow> \<not> used S' i \<Longrightarrow> S' ! i = empty_slot"
    "\<And>i j. used S' i \<Longrightarrow> used S' j \<Longrightarrow> sl_id (S' ! i) = sl_id (S' ! j) \<Longrightarrow> i = j"
    "\<And>h. h < length S \<Longrightarrow> \<exists>xs. chain S' h xs"
  shows "slots_ok S'"
  using assms unfolding slots_ok_def chained_def by fastforce

lemma members_hd:
  assumes "slots_ok S" "s < length S" "s \<notin> members S s"
  shows "members S s = {}"
proof -
  obtain xs where xs: "chain S s xs" using slots_okD(3) [OF assms(1,2)] by blast
  then have "xs = []" using assms(3) by (metis chain_def list.set_sel(1))
  with xs show ?thesis by (simp add: chain_def)
qed

lemma chain_cong:
  assumes "chain S h xs" "members S' h = members S h"
    "\<And>i. i \<in> members S h \<Longrightarrow> sl_next (S' ! i) = sl_next (S ! i)"
  shows "chain S' h xs"
  using assms seg_cong [of xs S' S] by (simp add: chain_def)

definition fresh :: "map_slot list \<Rightarrow> u32 \<Rightarrow> bool" where
  "fresh S oid \<longleftrightarrow> oid \<noteq> INVALID_ID \<and> (\<forall>i. used S i \<longrightarrow> sl_id (S ! i) \<noteq> oid)"

text \<open>Into a free main position.\<close>

lemma insert_free:
  fixes obj :: objref
  assumes ok: "slots_ok S" and fr: "fresh S oid" and s: "s = mainposition S oid" "\<not> used S s"
  defines "S' \<equiv> S[s := \<lparr>sl_id = oid, sl_obj = Some obj, sl_next = -1\<rparr>]"
  shows "slots_ok S'" "lookup S' = (lookup S)(oid \<mapsto> obj)" "used S' i \<longleftrightarrow> used S i \<or> i = s"
proof -
  have sl: "s < length S" unfolding s(1) by (rule mainposition_less [OF ok])
  have len: "length S' = length S" by (simp add: S'_def)
  have main: "mainposition S' = mainposition S" by (rule mainposition_cong [OF len])
  have nth: "S' ! i = (if i = s then \<lparr>sl_id = oid, sl_obj = Some obj, sl_next = -1\<rparr> else S ! i)" for i
    using sl by (simp add: S'_def nth_list_update)
  show us: "used S' i \<longleftrightarrow> used S i \<or> i = s" for i
    using sl fr by (auto simp: used_def len nth fresh_def)
  have mem: "members S' h = members S h \<union> (if h = s then {s} else {})" for h
    using s by (auto simp: members_def us main nth)
  have "s \<notin> members S s" using s(2) by (simp add: members_def)
  note empty = members_hd [OF ok sl this]
  show ok': "slots_ok S'"
  proof (rule slots_okI [OF ok len])
    fix h assume h: "h < length S"
    show "\<exists>xs. chain S' h xs"
    proof (cases "h = s")
      case True
      then show ?thesis using empty by (intro exI [of _ "[s]"]) (simp add: chain_def mem nth)
    next
      case False
      obtain xs where "chain S h xs" using slots_okD(3) [OF ok h] by blast
      then have "chain S' h xs"
        by (rule chain_cong, simp add: mem False) (use s(2) in \<open>auto simp: nth members_def\<close>)
      then show ?thesis by blast
    qed
  qed (use us nth slots_okD(1,2) [OF ok] fr in \<open>auto simp: fresh_def split: if_splits\<close>)
  show "lookup S' = (lookup S)(oid \<mapsto> obj)"
  proof (rule lookup_eqI [OF ok'])
    fix x assume "((lookup S)(oid \<mapsto> obj)) x \<noteq> None"
    then have "x = oid \<or> (\<exists>i. used S i \<and> sl_id (S ! i) = x)"
      using lookup_Some_used [of S x] by (auto split: if_splits)
    then show "\<exists>i. used S' i \<and> sl_id (S' ! i) = x"
      using us nth s(2) by (metis map_slot.select_convs(1))
  qed (use us nth lookup_used [OF ok] fr in \<open>auto simp: fresh_def split: if_splits\<close>)
qed

text \<open>Into a main position taken by a slot of another chain, which is cut out.\<close>

definition displaced :: "nat \<Rightarrow> nat \<Rightarrow> u32 \<Rightarrow> objref \<Rightarrow> map_slot list \<Rightarrow> map_slot list" where
  "displaced l s oid obj S = S[l := (S ! l)\<lparr>sl_next := sl_next (S ! s)\<rparr>, s := \<lparr>sl_id = oid, sl_obj = Some obj, sl_next = -1\<rparr>]"

lemma displaced_slots:
  assumes fr: "fresh S oid" and s: "s = mainposition S oid" "used S s" "mainposition S (sl_id (S ! s)) \<noteq> s" and l: "l < length S" "l \<noteq> s"
  shows "length (displaced l s oid obj S) = length S" "mainposition (displaced l s oid obj S) = mainposition S"
    "displaced l s oid obj S ! i = (if i = s then \<lparr>sl_id = oid, sl_obj = Some obj, sl_next = -1\<rparr>
      else if i = l then (S ! l)\<lparr>sl_next := sl_next (S ! s)\<rparr> else S ! i)"
    "used (displaced l s oid obj S) i \<longleftrightarrow> used S i"
    "members (displaced l s oid obj S) g = (members S g - {s}) \<union> (if g = s then {s} else {})"
proof -
  let ?S = "displaced l s oid obj S"
  have sl: "s < length S" using s(2) by (simp add: used_def)
  show len: "length ?S = length S" by (simp add: displaced_def)
  show main: "mainposition ?S = mainposition S" by (rule mainposition_cong [OF len])
  show nth: "?S ! i = (if i = s then \<lparr>sl_id = oid, sl_obj = Some obj, sl_next = -1\<rparr>
      else if i = l then (S ! l)\<lparr>sl_next := sl_next (S ! s)\<rparr> else S ! i)" for i
    using sl l by (simp add: displaced_def nth_list_update)
  show us: "used ?S i \<longleftrightarrow> used S i" for i
    using sl fr s(2) l by (auto simp: used_def len nth fresh_def)
  show "members ?S g = (members S g - {s}) \<union> (if g = s then {s} else {})"
    using s(2,3) by (auto simp: members_def us main nth s(1) [symmetric])
qed

lemma cut_out:
  assumes sg: "seg S (ys @ s # zs) (-1)" and d: "distinct (ys @ s # zs)" and ne: "ys \<noteq> []" "l = last ys"
    and nth: "\<And>i. i \<noteq> s \<Longrightarrow> S' ! i = (if i = l then (S ! l)\<lparr>sl_next := sl_next (S ! s)\<rparr> else S ! i)"
  shows "seg S' (ys @ zs) (-1)"
proof -
  let ?n = "case zs of [] \<Rightarrow> -1 | y # _ \<Rightarrow> int y"
  have sg': "seg S ys (int s)" "seg S (s # zs) (-1)" using sg unfolding seg_append by auto
  have bl: "ys = butlast ys @ [l]" using ne by simp
  have ls: "l \<noteq> s" using d ne last_in_set [OF ne(1)] by auto
  have "seg S (butlast ys @ [l]) (int s)" using sg'(1) bl by simp
  then have "seg S (butlast ys) (int l)" by (simp add: seg_append)
  moreover have "l \<notin> set (butlast ys)" using d bl by (metis distinct_append not_distinct_conv_prefix)
  moreover have "S' ! i = S ! i" if "i \<in> set (butlast ys)" for i
    using that calculation(2) d in_set_butlastD [OF that] nth [of i] by (cases "i = l") auto
  ultimately have "seg S' (butlast ys) (int l)" by (subst seg_cong [of _ S' S]) auto
  moreover have "sl_next (S' ! l) = ?n" using ls sg'(2) by (simp add: nth)
  ultimately have "seg S' (butlast ys @ [l]) ?n" by (simp add: seg_append)
  moreover have "S' ! i = S ! i" if "i \<in> set zs" for i
  proof -
    have "i \<noteq> s" "i \<noteq> l" using that d last_in_set [OF ne(1)] ne(2) by auto
    then show ?thesis using nth by simp
  qed
  then have "seg S' zs (-1)" using sg'(2) by (subst seg_cong [of _ S' S]) auto
  ultimately show ?thesis using bl by (simp add: seg_append)
qed

lemma insert_displace:
  assumes ok: "slots_ok S" and fr: "fresh S oid" and s: "s = mainposition S oid" "used S s"
    and h: "h = mainposition S (sl_id (S ! s))" "h \<noteq> s"
  obtains l where "find_last S s (length S) h = Inr l" "l \<noteq> s" "l < length S"
    and "let S' = S[l := (S ! l)\<lparr>sl_next := sl_next (S ! s)\<rparr>, s := \<lparr>sl_id = oid, sl_obj = Some obj, sl_next = -1\<rparr>]
         in slots_ok S' \<and> lookup S' = (lookup S)(sl_id (S ! s) := None, oid \<mapsto> obj) \<and>
            (\<forall>i. used S' i \<longleftrightarrow> used S i) \<and> h \<in> members S' h \<and> fresh S' (sl_id (S ! s))"
proof -
  have sl: "s < length S" unfolding s(1) by (rule mainposition_less [OF ok])
  have hl: "h < length S" unfolding h(1) by (rule mainposition_less [OF ok])
  obtain xs where xs: "chain S h xs" using slots_okD(3) [OF ok hl] by blast
  have sm: "s \<in> members S h" using s(2) h(1) by (simp add: members_def)
  then have "s \<in> set xs" using xs by (simp add: chain_def)
  then obtain ys zs where yz: "xs = ys @ s # zs" by (auto simp: in_set_conv_decomp)
  have ne: "ys \<noteq> []" using xs h(2) by (auto simp: chain_def yz)
  define l where "l = last ys"
  have hd: "hd ys = h" using xs ne by (simp add: chain_def yz)
  have d: "distinct (ys @ s # zs)" and sg: "seg S (ys @ s # zs) (-1)" using xs by (simp_all add: chain_def yz)
  have l: "l \<noteq> s" "l < length S" "l \<in> members S h"
    using d ne xs last_in_set [OF ne] by (auto simp: chain_def yz l_def members_def used_def)
  have "seg S ys (int s)" using sg unfolding seg_append by auto
  then have "find_last S s (length S) (hd ys) = Inr (last (hd ys # tl ys))"
    by (intro find_last_seg) (use ne d chain_length [OF xs] in \<open>auto simp: yz dest: list.set_sel(2) [rotated]\<close>)
  then have fl: "find_last S s (length S) h = Inr l" using ne hd by (metis l_def list.collapse)
  define S' where "S' = displaced l s oid obj S"
  have other: "mainposition S (sl_id (S ! s)) \<noteq> s" using h by simp
  note slots = displaced_slots [OF fr s other l(2,1), of obj, folded S'_def]
  note nth = slots(3) and us = slots(4) and mem = slots(5)
  have "s \<notin> members S s" using h by (simp add: members_def)
  note empty = members_hd [OF ok sl this]
  have ok': "slots_ok S'"
  proof (rule slots_okI [OF ok slots(1)])
    fix g assume g: "g < length S"
    consider "g = s" | "g = h" | "g \<noteq> s" "g \<noteq> h" by blast
    then show "\<exists>xs. chain S' g xs"
    proof cases
      case 1
      then show ?thesis using empty by (intro exI [of _ "[s]"]) (simp add: chain_def mem nth)
    next
      case 2
      have "seg S' (ys @ zs) (-1)" by (rule cut_out [OF sg d ne l_def]) (simp add: nth)
      then show ?thesis
        using d ne hd xs 2 h(2) by (intro exI [of _ "ys @ zs"]) (auto simp: chain_def mem yz)
    next
      case 3
      obtain us where "chain S g us" using slots_okD(3) [OF ok g] by blast
      moreover have "s \<notin> members S g" "l \<notin> members S g" using 3 sm l by (auto simp: members_def)
      ultimately have "chain S' g us"
        by (intro chain_cong [of S g us S']) (use 3 in \<open>auto simp: mem nth\<close>)
      then show ?thesis by blast
    qed
  qed (use us nth slots_okD(1,2) [OF ok] fr l s(2) in \<open>auto simp: fresh_def members_def split: if_splits\<close>)
  have "lookup S' = (lookup S)(sl_id (S ! s) := None, oid \<mapsto> obj)"
  proof (rule lookup_eqI [OF ok'])
    fix x assume "((lookup S)(sl_id (S ! s) := None, oid \<mapsto> obj)) x \<noteq> None"
    then consider "x = oid" | i where "used S i" "sl_id (S ! i) = x" "i \<noteq> s"
      using lookup_Some_used [of S x] by (auto split: if_splits)
    then show "\<exists>i. used S' i \<and> sl_id (S' ! i) = x"
      by cases (use us nth s(2) in \<open>auto intro: exI [of _ s]\<close>)
  qed (use us nth lookup_used [OF ok] fr s(2) slots_okD(2) [OF ok] l in
      \<open>auto simp: fresh_def members_def split: if_splits\<close>)
  moreover have "h \<in> set xs" using ne hd yz by (metis hd_in_set UnI1 set_append)
  then have "h \<in> members S' h" using xs h(2) by (simp add: mem chain_def)
  moreover have "fresh S' (sl_id (S ! s))"
    using us nth slots_okD(2) [OF ok _ s(2)] fr s(2) l by (auto simp: fresh_def used_def members_def split: if_splits)
  ultimately show ?thesis
    using that [OF fl l(1,2)] ok' us unfolding S'_def displaced_def Let_def by blast
qed

text \<open>Behind a main position that is taken by its own chain, into a free slot.\<close>

lemma insert_chain:
  fixes obj :: objref
  assumes ok: "slots_ok S" and fr: "fresh S oid" and s: "s = mainposition S oid" "s \<in> members S s"
    and t: "t < length S" "\<not> used S t"
  defines "S1 \<equiv> S[t := \<lparr>sl_id = oid, sl_obj = Some obj, sl_next = sl_next (S ! s)\<rparr>]"
  defines "S' \<equiv> S1[s := (S1 ! s)\<lparr>sl_next := int t\<rparr>]"
  shows "slots_ok S'" "lookup S' = (lookup S)(oid \<mapsto> obj)" "used S' i \<longleftrightarrow> used S i \<or> i = t"
    "length S' = length S"
proof -
  have sl: "s < length S" unfolding s(1) by (rule mainposition_less [OF ok])
  have st: "s \<noteq> t" using s(2) t(2) by (auto simp: members_def)
  show len: "length S' = length S" by (simp add: S'_def S1_def)
  have main: "mainposition S' = mainposition S" by (rule mainposition_cong [OF len])
  have nth: "S' ! i = (if i = t then \<lparr>sl_id = oid, sl_obj = Some obj, sl_next = sl_next (S ! s)\<rparr>
      else if i = s then (S ! s)\<lparr>sl_next := int t\<rparr> else S ! i)" for i
    using sl t st by (simp add: S'_def S1_def nth_list_update)
  show us: "used S' i \<longleftrightarrow> used S i \<or> i = t" for i
    using sl t fr by (auto simp: used_def len nth fresh_def)
  have mem: "members S' h = members S h \<union> (if h = s then {t} else {})" for h
    using s t st by (auto simp: members_def us main nth)
  show ok': "slots_ok S'"
  proof (rule slots_okI [OF ok len])
    fix h assume h: "h < length S"
    obtain xs where xs: "chain S h xs" using slots_okD(3) [OF ok h] by blast
    show "\<exists>xs. chain S' h xs"
    proof (cases "h = s")
      case True
      then obtain zs where zs: "xs = s # zs"
        using xs s(2) by (cases xs) (auto simp: chain_def)
      have tz: "t \<notin> set xs" using xs t(2) by (auto simp: chain_def members_def)
      have "seg S' zs (-1)"
        using xs tz zs by (subst seg_cong [of _ S' S]) (auto simp: nth chain_def)
      then have "seg S' (s # t # zs) (-1)"
        using st xs zs by (auto simp: nth chain_def)
      then show ?thesis
        using xs zs tz st True by (intro exI [of _ "s # t # zs"]) (auto simp: chain_def mem)
    next
      case False
      then have "chain S' h xs" using xs
        by (intro chain_cong [OF xs], simp add: mem False) (use s t in \<open>auto simp: nth members_def\<close>)
      then show ?thesis by blast
    qed
  qed (use us nth slots_okD(1,2) [OF ok] fr s(2) in \<open>auto simp: fresh_def members_def split: if_splits\<close>)
  show "lookup S' = (lookup S)(oid \<mapsto> obj)"
  proof (rule lookup_eqI [OF ok'])
    fix x assume "((lookup S)(oid \<mapsto> obj)) x \<noteq> None"
    then consider "x = oid" | i where "used S i" "sl_id (S ! i) = x"
      using lookup_Some_used [of S x] by (auto split: if_splits)
    then show "\<exists>i. used S' i \<and> sl_id (S' ! i) = x"
    proof cases
      case 1
      then show ?thesis using us nth by (intro exI [of _ t]) simp
    next
      case (2 i)
      then show ?thesis using us nth t(2) by (intro exI [of _ i]) auto
    qed
  qed (use us nth lookup_used [OF ok] fr s(2) in \<open>auto simp: fresh_def members_def split: if_splits\<close>)
qed

lemma find_free_ok:
  assumes "lf < int (length S)" "-1 \<le> lf"
  shows "case find_free S lf of
      (Some t, lf') \<Rightarrow> t < length S \<and> \<not> used S t \<and> lf' = int t - 1 \<and> int t \<le> lf \<and>
        (\<forall>i < length S. int t < int i \<longrightarrow> int i \<le> lf \<longrightarrow> used S i)
    | (None, lf') \<Rightarrow> lf' = -1 \<and> (\<forall>i < length S. int i \<le> lf \<longrightarrow> used S i)"
  using assms
proof (induction S lf rule: find_free.induct)
  case (1 S lf)
  show ?case
  proof (cases "lf \<ge> 0 \<and> sl_id (S ! nat lf) \<noteq> INVALID_ID")
    case True
    then have u: "used S (nat lf)" using 1(2) by (simp add: used_def nat_less_iff)
    have eq: "find_free S lf = find_free S (lf - 1)" using True by (subst find_free.simps) simp
    have le: "int i \<le> lf \<longleftrightarrow> int i \<le> lf - 1 \<or> i = nat lf" for i using True by auto
    from "1.IH" True "1.prems" show ?thesis
      unfolding eq by (auto simp: le u split: prod.splits option.splits)
  next
    case False
    then show ?thesis
      using "1.prems" by (subst find_free.simps) (auto simp: used_def nat_less_iff)
  qed
qed

text \<open>What an insertion that finds a free slot does.\<close>

definition room :: "map_slot list \<Rightarrow> bool" where
  "room S \<longleftrightarrow> (\<exists>i < length S. \<not> used S i)"

definition load :: "map_slot list \<Rightarrow> nat" where
  "load S = card {i. used S i}"

definition inserted :: "u32 \<Rightarrow> objref \<Rightarrow> amap \<Rightarrow> amap \<Rightarrow> bool" where
  "inserted oid obj m m' \<longleftrightarrow> map_ok m' \<and> lookup (mp_slot m') = (lookup (mp_slot m))(oid \<mapsto> obj) \<and>
     length (mp_slot m') = length (mp_slot m) \<and> load (mp_slot m') \<le> Suc (load (mp_slot m)) \<and>
     (\<forall>x. x \<noteq> oid \<longrightarrow> fresh (mp_slot m) x \<longrightarrow> fresh (mp_slot m') x)"

lemma finite_used: "finite {i. used S i}"
  by (rule finite_subset [of _ "{..<length S}"]) (auto simp: used_def)

lemma load_le: "load S \<le> length S"
proof -
  have "{i. used S i} \<subseteq> {..<length S}" by (auto simp: used_def)
  then have "card {i. used S i} \<le> card {..<length S}" by (intro card_mono) simp_all
  then show ?thesis by (simp add: load_def)
qed

lemma room_load: "load S < length S \<Longrightarrow> room S"
proof (rule ccontr)
  assume l: "load S < length S" "\<not> room S"
  then have "{i. used S i} = {..<length S}" by (auto simp: room_def used_def)
  with l(1) show False by (simp add: load_def)
qed

lemma load_insert: "(\<And>i. used S' i \<longleftrightarrow> used S i \<or> i = t) \<Longrightarrow> load S' \<le> Suc (load S)"
proof -
  assume "\<And>i. used S' i \<longleftrightarrow> used S i \<or> i = t"
  then have "{i. used S' i} = insert t {i. used S i}" by auto
  then show ?thesis using finite_used [of S] by (simp add: load_def card_insert_if)
qed

lemma find_free_room:
  assumes "map_ok m" "room (mp_slot m)"
  obtains t where "find_free (mp_slot m) (mp_lastfree m) = (Some t, int t - 1)" "t < length (mp_slot m)"
    "\<not> used (mp_slot m) t" "\<And>i. int t < int i \<Longrightarrow> i < length (mp_slot m) \<Longrightarrow> used (mp_slot m) i"
proof -
  let ?S = "mp_slot m"
  have lf: "mp_lastfree m < int (length ?S)" "-1 \<le> mp_lastfree m"
    and above: "\<And>i. i < length ?S \<Longrightarrow> mp_lastfree m < int i \<Longrightarrow> used ?S i"
    using assms(1) by (auto simp: map_ok_def)
  note ff = find_free_ok [OF lf]
  obtain r lf' where r: "find_free ?S (mp_lastfree m) = (r, lf')" by fastforce
  show ?thesis
  proof (cases r)
    case None
    then have "used ?S i" if "i < length ?S" for i
      using ff r above [OF that] that by (cases "int i \<le> mp_lastfree m") auto
    with assms(2) show ?thesis by (auto simp: room_def)
  next
    case (Some t)
    then have t: "t < length ?S" "\<not> used ?S t" "lf' = int t - 1" "int t \<le> mp_lastfree m"
      "\<forall>i < length ?S. int t < int i \<longrightarrow> int i \<le> mp_lastfree m \<longrightarrow> used ?S i"
      using ff r by auto
    have "used ?S i" if "int t < int i" "i < length ?S" for i
      using t(5) above that by (cases "int i \<le> mp_lastfree m") auto
    then show ?thesis using that [of t] t r Some by blast
  qed
qed

lemma insert_at_chain:
  assumes ok: "map_ok m" and fr: "fresh (mp_slot m) oid" and rm: "room (mp_slot m)"
    and s: "mainposition (mp_slot m) oid \<in> members (mp_slot m) (mainposition (mp_slot m) oid)"
  shows "\<exists>m'. map_insert (Suc n) oid obj (c, m) = Inr (c, m') \<and> inserted oid obj m m'"
proof -
  let ?S = "mp_slot m" and ?s = "mainposition (mp_slot m) oid"
  obtain t where t: "find_free ?S (mp_lastfree m) = (Some t, int t - 1)" "t < length ?S"
    "\<not> used ?S t" "\<And>i. int t < int i \<Longrightarrow> i < length ?S \<Longrightarrow> used ?S i"
    using find_free_room [OF ok rm] by metis
  have sok: "slots_ok ?S" using ok by (simp add: map_ok_def)
  define S1 where "S1 = ?S[t := \<lparr>sl_id = oid, sl_obj = Some obj, sl_next = sl_next (?S ! ?s)\<rparr>]"
  define S' where "S' = S1[?s := (S1 ! ?s)\<lparr>sl_next := int t\<rparr>]"
  note ins = insert_chain [OF sok fr refl s t(2,3), of obj, folded S1_def, folded S'_def]
  have main: "sl_id (?S ! ?s) \<noteq> INVALID_ID" "mainposition ?S (sl_id (?S ! ?s)) = ?s"
    using s by (auto simp: members_def used_def)
  let ?m' = "m\<lparr>mp_lastfree := int t - 1, mp_slot := S'\<rparr>"
  have "map_insert (Suc n) oid obj (c, m) = Inr (c, ?m')"
    using t(1) main by (simp add: map_insert.simps Let_def S1_def S'_def)
  moreover have "inserted oid obj m ?m'"
    unfolding inserted_def
  proof (intro conjI allI impI)
    show "map_ok ?m'" using ins t(2,4) by (auto simp: map_ok_def)
    show "load (mp_slot ?m') \<le> Suc (load ?S)" using load_insert [of S' ?S t] ins(3) by simp
    show "fresh (mp_slot ?m') x" if "x \<noteq> oid" "fresh ?S x" for x
    proof -
      have "sl_id (S' ! i) = (if i = t then oid else sl_id (?S ! i))" if "used S' i" for i
        using t(2,3) main mainposition_less [OF sok, of oid] s that
        by (auto simp: S'_def S1_def nth_list_update members_def)
      with that ins(3) show ?thesis by (auto simp: fresh_def)
    qed
  qed (use ins in simp_all)
  ultimately show ?thesis by blast
qed

lemma insert_at_free:
  assumes ok: "map_ok m" and fr: "fresh (mp_slot m) oid" and free: "\<not> used (mp_slot m) (mainposition (mp_slot m) oid)"
  shows "\<exists>m'. map_insert (Suc n) oid obj (c, m) = Inr (c, m') \<and> inserted oid obj m m'"
proof -
  let ?S = "mp_slot m" and ?s = "mainposition (mp_slot m) oid"
  have sok: "slots_ok ?S" using ok by (simp add: map_ok_def)
  have sl: "?s < length ?S" by (rule mainposition_less [OF sok])
  define S' where "S' = ?S[?s := \<lparr>sl_id = oid, sl_obj = Some obj, sl_next = -1\<rparr>]"
  note ins = insert_free [OF sok fr refl free, of obj, folded S'_def]
  have e: "?S ! ?s = empty_slot" by (rule slots_okD(1) [OF sok sl free])
  have "map_insert (Suc n) oid obj (c, m) = Inr (c, m\<lparr>mp_slot := S'\<rparr>)"
    using e by (simp add: map_insert.simps Let_def S'_def empty_slot_def)
  moreover have "inserted oid obj m (m\<lparr>mp_slot := S'\<rparr>)"
    unfolding inserted_def
  proof (intro conjI allI impI)
    show "map_ok (m\<lparr>mp_slot := S'\<rparr>)" using ok ins by (auto simp: map_ok_def S'_def)
    show "load (mp_slot (m\<lparr>mp_slot := S'\<rparr>)) \<le> Suc (load ?S)" using load_insert [of S' ?S ?s] ins(3) by simp
    show "fresh (mp_slot (m\<lparr>mp_slot := S'\<rparr>)) x" if "x \<noteq> oid" "fresh ?S x" for x
      using that ins(3) sl by (auto simp: fresh_def S'_def nth_list_update)
  qed (use ins in \<open>simp_all add: S'_def\<close>)
  ultimately show ?thesis by blast
qed

text \<open>The slot that was in the way is inserted again behind its own main position.\<close>

lemma insert_at_other:
  assumes ok: "map_ok m" and fr: "fresh (mp_slot m) oid" and rm: "room (mp_slot m)" and s: "s = mainposition (mp_slot m) oid"
    and u: "used (mp_slot m) s" "mainposition (mp_slot m) (sl_id (mp_slot m ! s)) \<noteq> s"
  shows "\<exists>m'. map_insert (Suc (Suc n)) oid obj (c, m) = Inr (c, m') \<and> inserted oid obj m m'"
proof -
  let ?S = "mp_slot m" and ?x = "sl_id (mp_slot m ! s)"
  let ?h = "mainposition ?S ?x"
  have sok: "slots_ok ?S" using ok by (simp add: map_ok_def)
  have sl: "s < length ?S" using u(1) by (simp add: used_def)
  obtain l where l: "find_last ?S s (length ?S) ?h = Inr l" "l \<noteq> s" "l < length ?S"
    "let S' = displaced l s oid obj ?S
       in slots_ok S' \<and> lookup S' = (lookup ?S)(?x := None, oid \<mapsto> obj) \<and>
          (\<forall>i. used S' i \<longleftrightarrow> used ?S i) \<and> ?h \<in> members S' ?h \<and> fresh S' ?x"
    unfolding displaced_def using insert_displace [OF sok fr s u(1) refl u(2), of obj] by blast
  define S' where "S' = displaced l s oid obj ?S"
  have ins: "slots_ok S'" "lookup S' = (lookup ?S)(?x := None, oid \<mapsto> obj)"
    "\<And>i. used S' i \<longleftrightarrow> used ?S i" "?h \<in> members S' ?h" "fresh S' ?x"
    using l(4) by (simp_all add: Let_def S'_def)
  have len: "length S' = length ?S" by (simp add: S'_def displaced_def)
  let ?m = "m\<lparr>mp_slot := S'\<rparr>"
  have mok: "map_ok ?m" using ok ins by (auto simp: map_ok_def len)
  have ld: "load S' = load ?S" using ins(3) by (simp add: load_def)
  have fr': "fresh S' x" if "x \<noteq> oid" "fresh ?S x" for x
    using that ins(3) displaced_slots(3) [OF fr s u l(3,2), of obj, folded S'_def] by (auto simp: fresh_def)
  have step: "map_insert (Suc (Suc n)) oid obj (c, m) = (case sl_obj (?S ! s) of
      Some temp \<Rightarrow> map_insert (Suc n) ?x temp (c, ?m) | None \<Rightarrow> Inr (c, ?m))"
    using u l(1) s by (cases "sl_obj (?S ! s)") (simp_all add: map_insert.simps(2) Let_def S'_def displaced_def used_def)
  have old: "lookup ?S ?x = sl_obj (?S ! s)" by (rule lookup_used [OF sok u(1)])
  have ne: "?x \<noteq> oid" using fr u(1) by (auto simp: fresh_def)
  show ?thesis
  proof (cases "sl_obj (?S ! s)")
    case None
    then have "lookup S' = (lookup ?S)(oid \<mapsto> obj)" using ins(2) old by (auto simp: fun_eq_iff)
    then have "inserted oid obj m ?m" using mok len ld fr' by (simp add: inserted_def)
    then show ?thesis using step None by auto
  next
    case (Some temp)
    have "room (mp_slot ?m)" using rm ins(3) len by (simp add: room_def)
    then obtain m' where m': "map_insert (Suc n) ?x temp (c, ?m) = Inr (c, m')" "inserted ?x temp ?m m'"
      using insert_at_chain [OF mok, of ?x n temp c] ins(4,5) by (auto simp: mainposition_cong [OF len])
    have "lookup (mp_slot m') = (lookup ?S)(oid \<mapsto> obj)"
      using m'(2) ins(2) old Some ne by (auto simp: inserted_def fun_eq_iff)
    moreover have "fresh (mp_slot m') x" if "x \<noteq> oid" "fresh ?S x" for x
    proof -
      have "x \<noteq> ?x" using that(2) u(1) by (auto simp: fresh_def)
      then show ?thesis using m'(2) fr' [OF that] by (simp add: inserted_def)
    qed
    ultimately have "inserted oid obj m m'" using m'(2) len ld by (simp add: inserted_def)
    then show ?thesis using step Some m'(1) by auto
  qed
qed

lemma insert_room:
  assumes ok: "map_ok m" and fr: "fresh (mp_slot m) oid" and rm: "room (mp_slot m)"
  shows "\<exists>m'. map_insert (Suc (Suc n)) oid obj (c, m) = Inr (c, m') \<and> inserted oid obj m m'"
proof -
  let ?S = "mp_slot m" and ?s = "mainposition (mp_slot m) oid"
  consider "\<not> used ?S ?s" | "used ?S ?s" "mainposition ?S (sl_id (?S ! ?s)) \<noteq> ?s" | "?s \<in> members ?S ?s"
    by (auto simp: members_def)
  then show ?thesis
    by cases (use insert_at_free [OF ok fr] insert_at_other [OF ok fr rm refl] insert_at_chain [OF ok fr rm] in blast)+
qed

section \<open>Rehashing\<close>

text \<open>The live entries of a list of slots.\<close>

definition entries :: "map_slot list \<Rightarrow> (u32 \<times> objref) list" where
  "entries ss = List.map_filter (\<lambda>s. map_option (Pair (sl_id s)) (sl_obj s)) ss"

lemma entries_simps [simp]:
  "entries [] = []"
  "entries (s # ss) = (case sl_obj s of Some obj \<Rightarrow> (sl_id s, obj) # entries ss | None \<Rightarrow> entries ss)"
  by (auto simp: entries_def map_filter_simps split: option.splits)

lemma entries_set: "x \<in> set (entries ss) \<longleftrightarrow> (\<exists>s \<in> set ss. sl_id s = fst x \<and> sl_obj s = Some (snd x))"
  by (induction ss) (auto split: option.splits)

lemma length_entries: "length (entries ss) \<le> length ss"
  by (induction ss) (auto split: option.splits)

lemma rehash_loop_ok:
  assumes "map_ok m" "distinct (map fst (entries ss))" "\<forall>e \<in> set (entries ss). fresh (mp_slot m) (fst e)"
    "load (mp_slot m) + length (entries ss) \<le> length (mp_slot m)"
  shows "\<exists>m'. rehash_loop (Suc (Suc n)) ss (c, m) = Inr (c, m') \<and> map_ok m' \<and>
    lookup (mp_slot m') = lookup (mp_slot m) ++ map_of (entries ss) \<and>
    length (mp_slot m') = length (mp_slot m) \<and> load (mp_slot m') \<le> load (mp_slot m) + length (entries ss) \<and>
    (\<forall>x. x \<notin> fst ` set (entries ss) \<longrightarrow> fresh (mp_slot m) x \<longrightarrow> fresh (mp_slot m') x)"
  using assms
proof (induction ss arbitrary: m)
  case Nil
  then show ?case by simp
next
  case (Cons s ss)
  show ?case
  proof (cases "sl_obj s")
    case None
    then show ?thesis using Cons.IH [of m] Cons.prems by simp
  next
    case (Some obj)
    have fr: "fresh (mp_slot m) (sl_id s)" using Cons.prems(3) Some by simp
    have rm: "room (mp_slot m)" using Cons.prems(4) Some by (intro room_load) simp
    obtain m1 where m1: "map_insert (Suc (Suc n)) (sl_id s) obj (c, m) = Inr (c, m1)"
      "inserted (sl_id s) obj m m1"
      using insert_room [OF Cons.prems(1) fr rm] by blast
    have d: "sl_id s \<notin> fst ` set (entries ss)" "distinct (map fst (entries ss))"
      using Cons.prems(2) Some by auto
    have "fresh (mp_slot m1) (fst e)" if "e \<in> set (entries ss)" for e
    proof -
      have "fst e \<noteq> sl_id s" using that d(1) by (metis image_eqI)
      then show ?thesis using m1(2) Cons.prems(3) Some that by (simp add: inserted_def)
    qed
    then obtain m' where m': "rehash_loop (Suc (Suc n)) ss (c, m1) = Inr (c, m')" "map_ok m'"
      "lookup (mp_slot m') = lookup (mp_slot m1) ++ map_of (entries ss)"
      "length (mp_slot m') = length (mp_slot m1)" "load (mp_slot m') \<le> load (mp_slot m1) + length (entries ss)"
      "\<forall>x. x \<notin> fst ` set (entries ss) \<longrightarrow> fresh (mp_slot m1) x \<longrightarrow> fresh (mp_slot m') x"
      using Cons.IH [of m1] m1(2) d(2) Cons.prems(4) Some by (auto simp: inserted_def)
    have "map_of (entries ss) (sl_id s) = None" using d(1) by (simp add: map_of_eq_None_iff)
    then have "lookup (mp_slot m') = lookup (mp_slot m) ++ map_of (entries (s # ss))"
      using m'(3) m1(2) Some by (auto simp: inserted_def fun_eq_iff map_add_def split: option.splits)
    moreover have "rehash_loop (Suc (Suc n)) (s # ss) (c, m) = Inr (c, m')"
      using m1(1) m'(1) Some by (simp add: map_insert.simps)
    moreover have "fresh (mp_slot m') x" if "x \<notin> fst ` set (entries (s # ss))" "fresh (mp_slot m) x" for x
      using that m'(6) m1(2) Some by (auto simp: inserted_def)
    moreover have "load (mp_slot m') \<le> load (mp_slot m) + length (entries (s # ss))"
      using m'(5) m1(2) Some by (simp add: inserted_def)
    moreover have "length (mp_slot m') = length (mp_slot m)"
      using m'(4) m1(2) by (simp add: inserted_def)
    ultimately show ?thesis
      using m'(2) by blast
  qed
qed

lemma slots_ok_empty:
  assumes "4 \<le> k" "k \<le> 31"
  shows "slots_ok (replicate (2 ^ k) empty_slot)" "used (replicate n empty_slot) i \<longleftrightarrow> False"
    "lookup (replicate n empty_slot) = Map.empty"
proof -
  show u: "used (replicate n empty_slot) i \<longleftrightarrow> False" for n i
    by (simp add: used_def empty_slot_def)
  then have "chain (replicate (2 ^ k) empty_slot) h []" for h
    by (simp add: chain_def members_def)
  then show "slots_ok (replicate (2 ^ k) empty_slot)"
    using assms u unfolding slots_ok_def chained_def by auto
  show "lookup (replicate n empty_slot) = Map.empty"
    using lookup_None [of "replicate n empty_slot"] u by (auto simp: fun_eq_iff)
qed

lemma map_ok_empty:
  assumes "4 \<le> k" "k \<le> 31"
  shows "map_ok \<lparr>mp_lastfree = int (2 ^ k) - 1, mp_slot = replicate (2 ^ k) empty_slot\<rparr>"
proof -
  have "\<not> int (2 ^ k) - 1 < int i" if "i < 2 ^ k" for i :: nat
    using that by linarith
  then show ?thesis
    using slots_ok_empty(1) [OF assms] unfolding map_ok_def by (simp del: of_nat_power)
qed

lemma entries_distinct:
  assumes "\<And>i j. i < length T \<Longrightarrow> j < length T \<Longrightarrow> sl_obj (T ! i) \<noteq> None \<Longrightarrow> sl_obj (T ! j) \<noteq> None \<Longrightarrow>
    sl_id (T ! i) = sl_id (T ! j) \<Longrightarrow> i = j"
  shows "distinct (map fst (entries T))"
  using assms
proof (induction T)
  case (Cons s T)
  have "distinct (map fst (entries T))"
    by (rule Cons.IH) (use Cons.prems [of "Suc _" "Suc _"] in auto)
  moreover have "sl_id s \<notin> fst ` set (entries T)" if so: "sl_obj s \<noteq> None"
  proof
    assume "sl_id s \<in> fst ` set (entries T)"
    then obtain e where "e \<in> set (entries T)" "fst e = sl_id s" by auto
    then obtain s' where "s' \<in> set T" "sl_id s' = sl_id s" "sl_obj s' \<noteq> None" by (auto simp: entries_set)
    then obtain j where "j < length T" "sl_id (T ! j) = sl_id s" "sl_obj (T ! j) \<noteq> None"
      by (metis in_set_conv_nth)
    with Cons.prems [of 0 "Suc j"] so show False by simp
  qed
  ultimately show ?case by (auto split: option.splits)
qed simp

lemma entries_lookup:
  assumes ok: "slots_ok S"
  shows "distinct (map fst (entries S))" "map_of (entries S) = lookup S" "INVALID_ID \<notin> fst ` set (entries S)"
proof -
  have inv: "sl_id s \<noteq> INVALID_ID" if "s \<in> set S" "sl_obj s \<noteq> None" for s
  proof -
    obtain i where i: "i < length S" "s = S ! i" using \<open>s \<in> set S\<close> by (auto simp: in_set_conv_nth)
    then have "used S i"
      using that(2) slots_okD(1) [OF ok i(1)] by (cases "used S i") (auto simp: empty_slot_def)
    then show ?thesis using i by (simp add: used_def)
  qed
  then show "INVALID_ID \<notin> fst ` set (entries S)" by (auto simp: entries_set)
  show d: "distinct (map fst (entries S))"
  proof (rule entries_distinct)
    fix i j
    assume "i < length S" "j < length S" "sl_obj (S ! i) \<noteq> None" "sl_obj (S ! j) \<noteq> None"
      "sl_id (S ! i) = sl_id (S ! j)"
    with inv show "i = j" using slots_okD(2) [OF ok, of i j] by (simp add: used_def)
  qed
  show "map_of (entries S) = lookup S"
  proof
    fix x
    show "map_of (entries S) x = lookup S x"
    proof (cases "\<exists>i. used S i \<and> sl_id (S ! i) = x")
      case True
      then obtain i where i: "used S i" "sl_id (S ! i) = x" by blast
      have "map_of (entries S) x = Some obj \<longleftrightarrow> sl_obj (S ! i) = Some obj" for obj
      proof -
        have "(x, obj) \<in> set (entries S) \<longleftrightarrow> (\<exists>j < length S. sl_id (S ! j) = x \<and> sl_obj (S ! j) = Some obj)"
          unfolding entries_set by (simp add: all_set_conv_all_nth [symmetric]) (metis in_set_conv_nth)
        also have "\<dots> \<longleftrightarrow> sl_obj (S ! i) = Some obj"
          using i slots_okD(2) [OF ok _ i(1)] by (auto simp: used_def)
        finally show ?thesis using d by (simp add: map_of_eq_Some_iff)
      qed
      then have "map_of (entries S) x = sl_obj (S ! i)" by (metis option.exhaust)
      then show ?thesis using lookup_used [OF ok i(1)] i(2) by simp
    next
      case False
      have "x \<notin> fst ` set (entries S)"
      proof
        assume "x \<in> fst ` set (entries S)"
        then obtain e where "e \<in> set (entries S)" "fst e = x" by auto
        then obtain s where s: "s \<in> set S" "sl_id s = x" "sl_obj s \<noteq> None" by (auto simp: entries_set)
        then show False using inv [OF s(1,3)] False by (auto simp: in_set_conv_nth used_def)
      qed
      moreover have "lookup S x = None" using False by (intro lookup_None) blast
      ultimately show ?thesis by (simp add: map_of_eq_None_iff)
    qed
  qed
qed

text \<open>
  An insertion always succeeds within the depth bound. It doubles the table when no slot is
  free, and then the allocator is asked for the new slots before the old ones are given back.
\<close>

definition grown :: "alloc_cookie \<times> amap \<Rightarrow> alloc_cookie \<times> amap \<Rightarrow> bool" where
  "grown cm cm' \<longleftrightarrow> load (mp_slot (snd cm')) \<le> Suc (load (mp_slot (snd cm))) \<and>
    (length (mp_slot (snd cm')) = length (mp_slot (snd cm)) \<and> fst cm' = fst cm \<or>
     length (mp_slot (snd cm')) = 2 * length (mp_slot (snd cm)) \<and>
     load (mp_slot (snd cm)) = length (mp_slot (snd cm)) \<and>
     fst cm' = my_free (int (length (mp_slot (snd cm))) * sizeof_map_slot)
       (my_alloc (int (2 * length (mp_slot (snd cm))) * sizeof_map_slot) (fst cm)))"

lemma full_load: "\<not> room S \<Longrightarrow> load S = length S"
  using room_load [of S] load_le [of S] by (metis le_neq_implies_less)

lemma insert_full_chain:
  assumes ok: "map_ok m" and fr: "fresh (mp_slot m) oid" and full: "\<not> room (mp_slot m)"
    and s: "mainposition (mp_slot m) oid \<in> members (mp_slot m) (mainposition (mp_slot m) oid)"
    and len: "length (mp_slot m) \<le> 2 ^ 30"
  shows "\<exists>c' m'. map_insert (Suc (Suc (Suc n))) oid obj (c, m) = Inr (c', m') \<and> map_ok m' \<and>
    lookup (mp_slot m') = (lookup (mp_slot m))(oid \<mapsto> obj) \<and> grown (c, m) (c', m')"
proof -
  let ?S = "mp_slot m" and ?s = "mainposition (mp_slot m) oid"
  let ?size = "2 * length ?S"
  let ?c1 = "my_alloc (int ?size * sizeof_map_slot) c"
  let ?m1 = "\<lparr>mp_lastfree = int ?size - 1, mp_slot = replicate ?size empty_slot\<rparr>"
  have sok: "slots_ok ?S" using ok by (simp add: map_ok_def)
  obtain k where k: "length ?S = 2 ^ k" "4 \<le> k" using sok by (auto simp: slots_ok_def)
  then have k30: "k \<le> 30" using len power_le_imp_le_exp [of "2::nat" k 30] by simp
  have size: "?size = 2 ^ Suc k" using k by simp
  have em: "map_ok ?m1" "\<And>i. \<not> used (mp_slot ?m1) i" "lookup (mp_slot ?m1) = Map.empty"
    using map_ok_empty [of "Suc k"] slots_ok_empty [of "Suc k"] k(2) k30 unfolding size by auto
  have ld0: "load (mp_slot ?m1) = 0" using em(2) by (simp add: load_def)
  have frall: "fresh (mp_slot ?m1) x" if "x \<noteq> INVALID_ID" for x using em(2) that by (simp add: fresh_def)
  have ent: "distinct (map fst (entries ?S))" "\<forall>e \<in> set (entries ?S). fresh (mp_slot ?m1) (fst e)"
    "length (entries ?S) \<le> length ?S"
  proof -
    show "\<forall>e \<in> set (entries ?S). fresh (mp_slot ?m1) (fst e)"
      using entries_lookup(3) [OF sok] frall by (metis image_eqI)
  qed (rule entries_lookup(1) [OF sok], rule length_entries)
  obtain m2 where m2: "rehash_loop (Suc (Suc n)) ?S (?c1, ?m1) = Inr (?c1, m2)" "map_ok m2"
    "lookup (mp_slot m2) = lookup (mp_slot ?m1) ++ map_of (entries ?S)"
    "length (mp_slot m2) = length (mp_slot ?m1)" "load (mp_slot m2) \<le> load (mp_slot ?m1) + length (entries ?S)"
    "\<forall>x. x \<notin> fst ` set (entries ?S) \<longrightarrow> fresh (mp_slot ?m1) x \<longrightarrow> fresh (mp_slot m2) x"
    using rehash_loop_ok [OF em(1) ent(1,2), of n ?c1] ent(3) ld0 by auto
  have lk2: "lookup (mp_slot m2) = lookup ?S" using m2(3) em(3) entries_lookup(2) [OF sok] by simp
  have "oid \<notin> fst ` set (entries ?S)"
  proof
    assume "oid \<in> fst ` set (entries ?S)"
    then have "lookup ?S oid \<noteq> None" using entries_lookup(2) [OF sok] by (metis map_of_eq_None_iff)
    then show False using lookup_Some_used fr by (auto simp: fresh_def)
  qed
  then have fr2: "fresh (mp_slot m2) oid" using m2(6) frall fr by (simp add: fresh_def)
  have "0 < length ?S" using k(1) by simp
  then have "load (mp_slot m2) < length (mp_slot m2)" using m2(4,5) ld0 ent(3) by (cases "mp_slot m") simp_all
  then obtain m' where m': "map_insert (Suc (Suc n)) oid obj (my_free (int (length ?S) * sizeof_map_slot) ?c1, m2) =
      Inr (my_free (int (length ?S) * sizeof_map_slot) ?c1, m')" "inserted oid obj m2 m'"
    using insert_room [OF m2(2) fr2 room_load] by blast
  have main: "sl_id (?S ! ?s) \<noteq> INVALID_ID" "mainposition ?S (sl_id (?S ! ?s)) = ?s"
    using s by (auto simp: members_def used_def)
  obtain lf where ff: "find_free ?S (mp_lastfree m) = (None, lf)"
  proof -
    have lf: "mp_lastfree m < int (length ?S)" "-1 \<le> mp_lastfree m" using ok by (auto simp: map_ok_def)
    show ?thesis
      using that find_free_ok [OF lf] full by (cases "find_free ?S (mp_lastfree m)"; cases "fst (find_free ?S (mp_lastfree m))")
        (auto simp: room_def)
  qed
  have "map_insert (Suc (Suc (Suc n))) oid obj (c, m) =
      Inr (my_free (int (length ?S) * sizeof_map_slot) ?c1, m')"
    using main ff m2(1) m'(1) by (subst map_insert.simps) (simp add: Let_def)
  moreover have "grown (c, m) (my_free (int (length ?S) * sizeof_map_slot) ?c1, m')"
    using m'(2) m2(4,5) ld0 ent(3) full_load [OF full] by (simp add: grown_def inserted_def)
  ultimately show ?thesis using m'(2) lk2 by (auto simp: inserted_def)
qed

lemma map_insert_ok:
  assumes ok: "map_ok m" and fr: "fresh (mp_slot m) oid" and len: "length (mp_slot m) \<le> 2 ^ 30"
  shows "\<exists>c' m'. map_insert INSERT_DEPTH oid obj (c, m) = Inr (c', m') \<and> map_ok m' \<and>
    lookup (mp_slot m') = (lookup (mp_slot m))(oid \<mapsto> obj) \<and> grown (c, m) (c', m')"
proof -
  let ?S = "mp_slot m" and ?s = "mainposition (mp_slot m) oid"
  have depth: "INSERT_DEPTH = Suc (Suc (Suc (Suc 0)))" by (simp add: INSERT_DEPTH_def)
  have sok: "slots_ok ?S" using ok by (simp add: map_ok_def)
  have sl: "?s < length ?S" by (rule mainposition_less [OF sok])
  consider "room ?S" | "\<not> room ?S" "?s \<in> members ?S ?s" | "\<not> room ?S" "used ?S ?s" "mainposition ?S (sl_id (?S ! ?s)) \<noteq> ?s"
    using sl by (auto simp: members_def room_def)
  then show ?thesis
  proof cases
    case 1
    then show ?thesis
      using insert_room [OF ok fr, of "Suc (Suc 0)" obj c] by (auto simp: inserted_def grown_def depth)
  next
    case 2
    then show ?thesis using insert_full_chain [OF ok fr 2 len] unfolding depth by blast
  next
    case 3
    let ?h = "mainposition ?S (sl_id (?S ! ?s))"
    obtain l where l: "find_last ?S ?s (length ?S) ?h = Inr l" "l \<noteq> ?s" "l < length ?S"
      "let S' = ?S[l := (?S ! l)\<lparr>sl_next := sl_next (?S ! ?s)\<rparr>, ?s := \<lparr>sl_id = oid, sl_obj = Some obj, sl_next = -1\<rparr>]
         in slots_ok S' \<and> lookup S' = (lookup ?S)(sl_id (?S ! ?s) := None, oid \<mapsto> obj) \<and>
            (\<forall>i. used S' i \<longleftrightarrow> used ?S i) \<and> ?h \<in> members S' ?h \<and> fresh S' (sl_id (?S ! ?s))"
      using insert_displace [OF sok fr refl 3(2) refl 3(3), of obj] by blast
    define S' where "S' = ?S[l := (?S ! l)\<lparr>sl_next := sl_next (?S ! ?s)\<rparr>, ?s := \<lparr>sl_id = oid, sl_obj = Some obj, sl_next = -1\<rparr>]"
    have ins: "slots_ok S'" "lookup S' = (lookup ?S)(sl_id (?S ! ?s) := None, oid \<mapsto> obj)"
      "\<And>i. used S' i \<longleftrightarrow> used ?S i" "?h \<in> members S' ?h" "fresh S' (sl_id (?S ! ?s))"
      using l(4) by (simp_all add: Let_def S'_def)
    have sl': "length S' = length ?S" by (simp add: S'_def)
    let ?m = "m\<lparr>mp_slot := S'\<rparr>"
    have mok: "map_ok ?m" using ok ins by (auto simp: map_ok_def sl')
    have ld: "load S' = load ?S" using ins(3) by (simp add: load_def)
    have step: "map_insert INSERT_DEPTH oid obj (c, m) = (case sl_obj (?S ! ?s) of
        Some temp \<Rightarrow> map_insert (Suc (Suc (Suc 0))) (sl_id (?S ! ?s)) temp (c, ?m) | None \<Rightarrow> Inr (c, ?m))"
      unfolding depth using 3 l(1)
      by (cases "sl_obj (?S ! ?s)") (simp_all add: map_insert.simps(2) Let_def S'_def used_def)
    have old: "lookup ?S (sl_id (?S ! ?s)) = sl_obj (?S ! ?s)" by (rule lookup_used [OF sok 3(2)])
    have ne: "sl_id (?S ! ?s) \<noteq> oid" using fr 3(2) by (auto simp: fresh_def)
    show ?thesis
    proof (cases "sl_obj (?S ! ?s)")
      case None
      then have "lookup S' = (lookup ?S)(oid \<mapsto> obj)" using ins(2) old by (auto simp: fun_eq_iff)
      then show ?thesis using step None mok sl' ld by (simp add: grown_def)
    next
      case (Some temp)
      have mp: "mainposition S' (sl_id (?S ! ?s)) = ?h" by (simp add: mainposition_cong [OF sl'])
      have "\<not> room (mp_slot ?m)" using 3(1) ins(3) sl' by (simp add: room_def)
      then obtain c' m' where m': "map_insert (Suc (Suc (Suc 0))) (sl_id (?S ! ?s)) temp (c, ?m) = Inr (c', m')"
        "map_ok m'" "lookup (mp_slot m') = (lookup S')(sl_id (?S ! ?s) \<mapsto> temp)" "grown (c, ?m) (c', m')"
        using insert_full_chain [OF mok, of "sl_id (?S ! ?s)" 0 temp c] ins(4,5) mp len sl' by auto
      have "lookup (mp_slot m') = (lookup ?S)(oid \<mapsto> obj)"
        using m'(3) ins(2) old Some ne by (auto simp: fun_eq_iff)
      then show ?thesis using step Some m' sl' ld by (simp add: grown_def)
    qed
  qed
qed

text \<open>Writing the object of a used slot: reviving an id, or dropping it.\<close>

lemma set_obj_ok:
  fixes r :: "objref option"
  assumes ok: "map_ok m" and i: "used (mp_slot m) i"
  defines "m' \<equiv> m\<lparr>mp_slot := (mp_slot m)[i := (mp_slot m ! i)\<lparr>sl_obj := r\<rparr>]\<rparr>"
  shows "map_ok m'" "lookup (mp_slot m') = (lookup (mp_slot m))(sl_id (mp_slot m ! i) := r)"
    "load (mp_slot m') = load (mp_slot m)"
proof -
  let ?S = "mp_slot m" and ?S' = "mp_slot m'"
  have sok: "slots_ok ?S" using ok by (simp add: map_ok_def)
  have len: "length ?S' = length ?S" by (simp add: m'_def)
  have nth: "?S' ! j = (if j = i then (?S ! i)\<lparr>sl_obj := r\<rparr> else ?S ! j)" for j
    using used_length [OF i] by (simp add: m'_def nth_list_update)
  have us: "used ?S' j \<longleftrightarrow> used ?S j" for j by (simp add: used_def len nth)
  show "load ?S' = load ?S" by (simp add: load_def us)
  have mem: "members ?S' h = members ?S h" for h
    by (auto simp: members_def us nth mainposition_cong [OF len])
  have sok': "slots_ok ?S'"
  proof (rule slots_okI [OF sok len])
    show "\<exists>xs. chain ?S' h xs" if "h < length ?S" for h
      using slots_okD(3) [OF sok that] chain_cong [of ?S h _ ?S'] mem nth by fastforce
  qed (use us nth i slots_okD(1,2) [OF sok] in \<open>auto split: if_splits\<close>)
  then show "map_ok m'" using ok us len by (auto simp: map_ok_def m'_def)
  show "lookup ?S' = (lookup ?S)(sl_id (?S ! i) := r)"
  proof (rule lookup_eqI [OF sok'])
    fix x assume "((lookup ?S)(sl_id (?S ! i) := r)) x \<noteq> None"
    then consider "x = sl_id (?S ! i)" | j where "used ?S j" "sl_id (?S ! j) = x"
      using lookup_Some_used [of ?S x] by (auto split: if_splits)
    then show "\<exists>j. used ?S' j \<and> sl_id (?S' ! j) = x"
      using us nth i by cases (auto, metis+)
  qed (use us nth i lookup_used [OF sok] slots_okD(2) [OF sok] in \<open>auto split: if_splits\<close>)
qed

text \<open>The outcome of a walk, as the clients use it.\<close>

lemma walk_cases:
  assumes "map_ok m" "oid \<noteq> INVALID_ID"
  obtains (Found) i where "query_walk (mp_slot m) oid (length (mp_slot m)) (mainposition (mp_slot m) oid) = Inr (Some i)"
      "used (mp_slot m) i" "sl_id (mp_slot m ! i) = oid" "lookup (mp_slot m) oid = sl_obj (mp_slot m ! i)"
  | (Missing) "query_walk (mp_slot m) oid (length (mp_slot m)) (mainposition (mp_slot m) oid) = Inr None"
      "fresh (mp_slot m) oid" "lookup (mp_slot m) oid = None"
proof (cases "\<exists>i. used (mp_slot m) i \<and> sl_id (mp_slot m ! i) = oid")
  case True
  have sok: "slots_ok (mp_slot m)" using assms(1) by (simp add: map_ok_def)
  define j where "j = (THE i. used (mp_slot m) i \<and> sl_id (mp_slot m ! i) = oid)"
  let ?i = j
  have j: "used (mp_slot m) ?i \<and> sl_id (mp_slot m ! ?i) = oid"
    unfolding j_def by (rule theI') (use True slots_okD(2) [OF sok] in metis)
  moreover have "query_walk (mp_slot m) oid (length (mp_slot m)) (mainposition (mp_slot m) oid) = Inr (Some j)"
    using query_walk_ok [OF sok assms(2)] True unfolding j_def by (simp only: if_True)
  ultimately show ?thesis
    using Found [of j] lookup_used [OF sok, of j] by simp
next
  case False
  have sok: "slots_ok (mp_slot m)" using assms(1) by (simp add: map_ok_def)
  have "lookup (mp_slot m) oid = None" using False by (intro lookup_None) blast
  then show ?thesis
    using Missing query_walk_ok [OF sok assms(2)] False assms(2) by (auto simp: fresh_def)
qed

lemma map_drop_ok:
  assumes "map_ok m" "oid \<noteq> INVALID_ID"
  obtains m' where "map_drop oid m = Inr (lookup (mp_slot m) oid, m')" "map_ok m'"
    "lookup (mp_slot m') = (lookup (mp_slot m))(oid := None)" "length (mp_slot m') = length (mp_slot m)"
    "load (mp_slot m') = load (mp_slot m)"
proof (cases rule: walk_cases [OF assms])
  case (1 i)
  then show ?thesis using that set_obj_ok [OF assms(1) 1(2), of None] by (simp add: map_drop_def)
next
  case 2
  then show ?thesis using that [of m] assms(1) by (auto simp: map_drop_def fun_upd_idem)
qed

end
