(* ===== verification/Float32.thy ===== *)
theory Float32
  imports Prelude
begin

text \<open>
  The C \<^verbatim>\<open>float\<close> arithmetic that \<^verbatim>\<open>service_caoi.c\<close> uses: IEEE binary32 with round to nearest, ties
  to even. A finite value is the integer \<open>n\<close> of the number \<open>n\<close> * 2^-149 (every finite float is a
  multiple of the least subnormal). The sign of a zero is not kept: subtraction,
  multiplication, addition and comparison, the only operations used, give results that compare
  alike for both zeros.
\<close>

datatype f32 = FNaN | FInf bool | FFin int

fun bits :: "nat \<Rightarrow> nat" where
  "bits n = (if n = 0 then 0 else Suc (bits (n div 2)))"

declare bits.simps [simp del]

text \<open>\<open>a\<close> / 2^\<open>d\<close> rounded to an integer, ties to even.\<close>

definition rne :: "nat \<Rightarrow> nat \<Rightarrow> nat" where
  "rne a d =
     (let q = a div 2 ^ d; r = a mod 2 ^ d in
      if 2 * r > 2 ^ d \<or> 2 * r = 2 ^ d \<and> odd q then q + 1 else q)"

text \<open>The float nearest to \<open>x\<close> / 2^\<open>k\<close> units: 24 significant bits, not finer than one unit.\<close>

definition f32_round :: "nat \<Rightarrow> int \<Rightarrow> f32" where
  "f32_round k x =
     (let a = nat \<bar>x\<bar>;
          d = max k (bits a - 24);
          v = int (rne a d * 2 ^ (d - k))
      in if v \<ge> 2 ^ 277 then FInf (x < 0) else FFin (sgn x * v))"

fun fneg :: "f32 \<Rightarrow> f32" where
  "fneg FNaN = FNaN"
| "fneg (FInf s) = FInf (\<not> s)"
| "fneg (FFin n) = FFin (- n)"

fun fadd :: "f32 \<Rightarrow> f32 \<Rightarrow> f32" where
  "fadd (FFin a) (FFin b) = f32_round 0 (a + b)"
| "fadd (FInf s) (FFin b) = FInf s"
| "fadd (FFin a) (FInf s) = FInf s"
| "fadd (FInf s) (FInf t) = (if s = t then FInf s else FNaN)"
| "fadd _ _ = FNaN"

definition fsub :: "f32 \<Rightarrow> f32 \<Rightarrow> f32" where
  "fsub a b = fadd a (fneg b)"

fun fmul :: "f32 \<Rightarrow> f32 \<Rightarrow> f32" where
  "fmul (FFin a) (FFin b) = f32_round 149 (a * b)"
| "fmul (FInf s) (FFin b) = (if b = 0 then FNaN else FInf (s \<noteq> (b < 0)))"
| "fmul (FFin a) (FInf s) = (if a = 0 then FNaN else FInf (s \<noteq> (a < 0)))"
| "fmul (FInf s) (FInf t) = FInf (s \<noteq> t)"
| "fmul _ _ = FNaN"

fun flt :: "f32 \<Rightarrow> f32 \<Rightarrow> bool" where
  "flt (FFin a) (FFin b) \<longleftrightarrow> a < b"
| "flt (FInf s) (FFin b) \<longleftrightarrow> s"
| "flt (FFin a) (FInf s) \<longleftrightarrow> \<not> s"
| "flt (FInf s) (FInf t) \<longleftrightarrow> s \<and> \<not> t"
| "flt _ _ \<longleftrightarrow> False"

definition f32_of_int :: "int \<Rightarrow> f32" where
  "f32_of_int n = FFin (n * 2 ^ 149)"

section \<open>Exactness\<close>

lemma bits_0 [simp]: "bits 0 = 0"
  by (subst bits.simps) simp

lemma bits_le: "a < 2 ^ n \<Longrightarrow> bits a \<le> n"
proof (induction n arbitrary: a)
  case (Suc n)
  then show ?case
    by (cases "a = 0") (auto simp: bits.simps [of a] intro!: Suc.IH)
qed simp

lemma rne_exact: "2 ^ d dvd a \<Longrightarrow> rne a d = a div 2 ^ d"
  by (simp add: rne_def)

text \<open>An integer of less than 24 bits is rounded to itself, at any scale.\<close>

lemma f32_round_exact:
  assumes "\<bar>n\<bar> < 2 ^ 24" "k \<le> j" "j \<le> k + 149"
  shows "f32_round k (n * 2 ^ j) = FFin (n * 2 ^ (j - k))"
proof -
  let ?m = "nat \<bar>n\<bar>"
  let ?a = "nat \<bar>n * 2 ^ j\<bar>"
  define d where "d = max k (bits ?a - 24)"
  let ?d = d
  have m: "?m < 2 ^ 24" using assms(1) by simp
  have a: "?a = ?m * 2 ^ j" by (simp add: abs_mult nat_mult_distrib nat_power_eq)
  have "?a < 2 ^ (24 + j)"
    unfolding a power_add using m by (intro mult_strict_right_mono) simp_all
  then have d: "?d \<le> j" "k \<le> ?d" using bits_le [of ?a "24 + j"] assms(2) by (simp_all add: d_def)
  then have dvd: "2 ^ ?d dvd ?a" unfolding a by (simp add: le_imp_power_dvd dvd_mult)
  have "rne ?a ?d * 2 ^ (?d - k) = ?m * 2 ^ (j - k)"
  proof -
    have "2 ^ j = 2 ^ (j - ?d) * (2 ^ ?d :: nat)" using d by (simp flip: power_add)
    then have "?a = ?m * 2 ^ (j - ?d) * 2 ^ ?d" unfolding a by simp
    then have "?a div 2 ^ ?d = ?m * 2 ^ (j - ?d)" by (metis div_mult_self_is_m zero_less_numeral zero_less_power)
    moreover have "2 ^ (j - k) = 2 ^ (j - ?d) * (2 ^ (?d - k) :: nat)" using d by (simp flip: power_add)
    ultimately show ?thesis using rne_exact [OF dvd] by simp
  qed
  moreover have "int (?m * 2 ^ (j - k)) < 2 ^ 277"
  proof -
    have "?m * 2 ^ (j - k) < 2 ^ 24 * 2 ^ 149"
      using m assms(3) by (intro mult_less_le_imp_less power_increasing) simp_all
    also have "\<dots> \<le> 2 ^ 277" by (simp flip: power_add)
    finally show ?thesis by (metis of_nat_less_iff of_nat_numeral of_nat_power)
  qed
  moreover have "sgn (n * 2 ^ j) * int (?m * 2 ^ (j - k)) = n * 2 ^ (j - k)"
    by (simp add: sgn_mult mult.assoc [symmetric] sgn_mult_abs)
  ultimately show ?thesis
    unfolding f32_round_def Let_def d_def [symmetric] by simp
qed

lemma fsub_of_int: "\<bar>a - b\<bar> < 2 ^ 24 \<Longrightarrow> fsub (f32_of_int a) (f32_of_int b) = f32_of_int (a - b)"
  using f32_round_exact [of "a - b" 0 149]
  by (simp add: fsub_def f32_of_int_def left_diff_distrib del: power_Suc power_numeral)

lemma fadd_of_int: "\<bar>a + b\<bar> < 2 ^ 24 \<Longrightarrow> fadd (f32_of_int a) (f32_of_int b) = f32_of_int (a + b)"
  using f32_round_exact [of "a + b" 0 149]
  by (simp add: f32_of_int_def distrib_right del: power_Suc power_numeral)

lemma fmul_of_int:
  assumes "\<bar>a * b\<bar> < 2 ^ 24"
  shows "fmul (f32_of_int a) (f32_of_int b) = f32_of_int (a * b)"
proof -
  have "a * 2 ^ 149 * (b * 2 ^ 149) = a * b * 2 ^ (149 + 149)"
    unfolding power_add by (simp only: ac_simps)
  then show ?thesis
    using f32_round_exact [OF assms, of 149 "149 + 149"] by (simp only: f32_of_int_def fmul.simps) simp
qed

lemma flt_of_int [simp]: "flt (f32_of_int a) (f32_of_int b) \<longleftrightarrow> a < b"
  by (simp add: f32_of_int_def)

lemma f32_of_int_inject [simp]: "f32_of_int a = f32_of_int b \<longleftrightarrow> a = b"
  by (simp add: f32_of_int_def)

end
