(* ===== verification/Aoi.thy ===== *)
theory Aoi
  imports AoiMap Float32
begin

text \<open>
  The area-of-interest space of \<^verbatim>\<open>service-src/service_caoi.c\<close>: objects that watch, mark or do
  both, the update of an object and the message round that reports every marker that came
  into the range of a watcher. Objects live in an explicit store (\<open>sp_heap\<close>), so that the
  reference counting can be judged: reading or freeing what was freed is a fault.
  \<open>sp_cookie\<close> is the accounting of \<^verbatim>\<open>my_alloc\<close>, the allocator the service passes.
\<close>

section \<open>Data\<close>

type_synonym vec3 = "f32 \<times> f32 \<times> f32"

definition AOI_RADIS :: f32 where "AOI_RADIS = f32_of_int 40"
definition AOI_RADIS2 :: f32 where "AOI_RADIS2 = fmul AOI_RADIS AOI_RADIS"
definition LEAVE_AOI_RADIS :: f32 where "LEAVE_AOI_RADIS = AOI_RADIS2"
definition MODE_WATCHER :: u32 where "MODE_WATCHER = 1"
definition MODE_MARKER :: u32 where "MODE_MARKER = 2"
definition MODE_MOVE :: u32 where "MODE_MOVE = 4"
definition MODE_DROP :: u32 where "MODE_DROP = 8"

text \<open>\<^verbatim>\<open>0.25f\<close>\<close>

definition quarter :: f32 where "quarter = FFin (2 ^ 147)"

text \<open>The vectors of a new object are not initialised (\<open>None\<close>).\<close>

record object =
  ob_ref :: int
  ob_id :: u32
  ob_version :: int
  ob_mode :: u32
  ob_last :: "vec3 option"
  ob_position :: "vec3 option"

text \<open>\<open>os_slot\<close> are the first \<^verbatim>\<open>number\<close> entries of \<^verbatim>\<open>slot\<close>; no other entry is ever read.\<close>

record object_set =
  os_cap :: nat
  os_slot :: "objref list"

record pair_list =
  pr_watcher :: objref
  pr_marker :: objref
  pr_watcher_version :: int
  pr_marker_version :: int

record aoi_space =
  sp_cookie :: alloc_cookie
  sp_heap :: "objref \<rightharpoonup> object"
  sp_fresh :: objref
  sp_object :: amap
  sp_watcher_static :: object_set
  sp_marker_static :: object_set
  sp_watcher_move :: object_set
  sp_marker_move :: object_set
  sp_hot :: "pair_list list"

definition sizeof_object :: int where "sizeof_object = 40"
definition sizeof_object_set :: int where "sizeof_object_set = 16"
definition sizeof_pair_list :: int where "sizeof_pair_list = 32"
definition sizeof_aoi_space :: int where "sizeof_aoi_space = 64"
definition sizeof_pointer :: int where "sizeof_pointer = 8"

text \<open>The bits that are set in a mode.\<close>

definition has :: "u32 \<Rightarrow> u32 \<Rightarrow> bool" where
  "has mode b \<longleftrightarrow> mode AND b \<noteq> 0"

section \<open>Objects\<close>

definition get_object :: "objref \<Rightarrow> aoi_space \<Rightarrow> object result" where
  "get_object obj sp = (case sp_heap sp obj of Some ob \<Rightarrow> Inr ob | None \<Rightarrow> Inl UseAfterFree)"

definition put_object :: "objref \<Rightarrow> object \<Rightarrow> aoi_space \<Rightarrow> aoi_space" where
  "put_object obj ob sp = sp\<lparr>sp_heap := (sp_heap sp)(obj \<mapsto> ob)\<rparr>"

definition new_object :: "u32 \<Rightarrow> aoi_space \<Rightarrow> objref \<times> aoi_space" where
  "new_object oid sp =
     (let obj = sp_fresh sp;
          ob = \<lparr>ob_ref = 1, ob_id = oid, ob_version = 0, ob_mode = 0, ob_last = None, ob_position = None\<rparr>
      in (obj, put_object obj ob (sp\<lparr>sp_fresh := obj + 1, sp_cookie := my_alloc sizeof_object (sp_cookie sp)\<rparr>)))"

definition map_query :: "u32 \<Rightarrow> aoi_space \<Rightarrow> (objref \<times> aoi_space) result" where
  "map_query oid sp =
     (let m = sp_object sp; slot = mp_slot m in
      rbind (query_walk slot oid (length slot) (mainposition slot oid)) (\<lambda>r.
      case r of
        Some s \<Rightarrow>
          (case sl_obj (slot ! s) of
             Some obj \<Rightarrow> Inr (obj, sp)
           | None \<Rightarrow>
               (let (obj, sp1) = new_object oid sp in
                Inr (obj, sp1\<lparr>sp_object := m\<lparr>mp_slot := slot[s := (slot ! s)\<lparr>sl_obj := Some obj\<rparr>]\<rparr>\<rparr>)))
      | None \<Rightarrow>
          (let (obj, sp1) = new_object oid sp in
           rbind (map_insert INSERT_DEPTH oid obj (sp_cookie sp1, sp_object sp1)) (\<lambda>(c, m').
           Inr (obj, sp1\<lparr>sp_cookie := c, sp_object := m'\<rparr>)))))"

definition grab_object :: "objref \<Rightarrow> aoi_space \<Rightarrow> aoi_space result" where
  "grab_object obj sp =
     rbind (get_object obj sp) (\<lambda>ob. Inr (put_object obj (ob\<lparr>ob_ref := ob_ref ob + 1\<rparr>) sp))"

definition delete_object :: "objref \<Rightarrow> aoi_space \<Rightarrow> aoi_space result" where
  "delete_object obj sp =
     rbind (get_object obj sp) (\<lambda>_.
     Inr (sp\<lparr>sp_heap := (sp_heap sp)(obj := None), sp_cookie := my_free sizeof_object (sp_cookie sp)\<rparr>))"

definition drop_object :: "objref \<Rightarrow> aoi_space \<Rightarrow> aoi_space result" where
  "drop_object obj sp =
     rbind (get_object obj sp) (\<lambda>ob.
     let ob' = ob\<lparr>ob_ref := ob_ref ob - 1\<rparr>; sp1 = put_object obj ob' sp in
     if ob_ref ob' \<le> 0 then
       rbind (map_drop (ob_id ob') (sp_object sp1)) (\<lambda>(_, m).
       delete_object obj (sp1\<lparr>sp_object := m\<rparr>))
     else Inr sp1)"

definition set_new :: "alloc_cookie \<Rightarrow> alloc_cookie \<times> object_set" where
  "set_new c =
     (my_alloc (int PRE_ALLOC * sizeof_pointer) (my_alloc sizeof_object_set c),
      \<lparr>os_cap = PRE_ALLOC, os_slot = []\<rparr>)"

definition aoi_create :: "alloc_cookie \<Rightarrow> aoi_space" where
  "aoi_create c0 =
     (let c = my_alloc sizeof_aoi_space c0;
          (c, m) = map_new c;
          (c, ws) = set_new c;
          (c, ms) = set_new c;
          (c, wm) = set_new c;
          (c, mm) = set_new c
      in \<lparr>sp_cookie = c, sp_heap = Map.empty, sp_fresh = 0, sp_object = m,
          sp_watcher_static = ws, sp_marker_static = ms, sp_watcher_move = wm, sp_marker_move = mm,
          sp_hot = []\<rparr>)"

definition delete_pair_list :: "aoi_space \<Rightarrow> aoi_space" where
  "delete_pair_list sp =
     sp\<lparr>sp_cookie := fold (\<lambda>_. my_free sizeof_pair_list) (sp_hot sp) (sp_cookie sp)\<rparr>"

definition delete_set :: "object_set \<Rightarrow> alloc_cookie \<Rightarrow> alloc_cookie" where
  "delete_set os c = my_free sizeof_object_set (my_free (sizeof_pointer * int (os_cap os)) c)"

text \<open>What is left of a released space is the accounting of its allocator and the heap.\<close>

definition aoi_release :: "aoi_space \<Rightarrow> (alloc_cookie \<times> (objref \<rightharpoonup> object)) result" where
  "aoi_release sp =
     rbind (map_foreach (sp_object sp) delete_object sp) (\<lambda>sp.
     let sp = sp\<lparr>sp_cookie := map_delete (sp_object sp) (sp_cookie sp)\<rparr>;
         sp = delete_pair_list sp;
         c = delete_set (sp_watcher_static sp) (sp_cookie sp);
         c = delete_set (sp_marker_static sp) c;
         c = delete_set (sp_watcher_move sp) c;
         c = delete_set (sp_marker_move sp) c
     in Inr (my_free sizeof_aoi_space c, sp_heap sp))"

section \<open>Updates\<close>

definition change_mode :: "bool \<Rightarrow> bool \<Rightarrow> u32 \<Rightarrow> bool \<times> u32" where
  "change_mode set_watcher set_marker mode =
     (if mode = 0 then
        (let mode = (if set_watcher then MODE_WATCHER else mode);
             mode = (if set_marker then mode OR MODE_MARKER else mode)
         in (True, mode))
      else
        (let (change, mode) =
               (if set_watcher then
                  if \<not> has mode MODE_WATCHER then (True, mode OR MODE_WATCHER) else (False, mode)
                else
                  if has mode MODE_WATCHER then (True, mode AND NOT MODE_WATCHER) else (False, mode))
         in if set_marker then
              if \<not> has mode MODE_MARKER then (True, mode OR MODE_MARKER) else (change, mode)
            else
              if has mode MODE_MARKER then (True, mode AND NOT MODE_MARKER) else (change, mode)))"

definition DIST2 :: "vec3 \<Rightarrow> vec3 \<Rightarrow> f32" where
  "DIST2 p1 p2 =
     (case (p1, p2) of ((x1, y1, z1), (x2, y2, z2)) \<Rightarrow>
        fadd (fadd (fmul (fsub x1 x2) (fsub x1 x2)) (fmul (fsub y1 y2) (fsub y1 y2)))
          (fmul (fsub z1 z2) (fsub z1 z2)))"

definition is_near :: "vec3 \<Rightarrow> vec3 \<Rightarrow> bool" where
  "is_near p1 p2 \<longleftrightarrow> flt (DIST2 p1 p2) (fmul AOI_RADIS2 quarter)"

definition dist2 :: "object \<Rightarrow> object \<Rightarrow> f32 result" where
  "dist2 p1 p2 =
     (case (ob_position p1, ob_position p2) of
        (Some a, Some b) \<Rightarrow> Inr (DIST2 a b)
      | _ \<Rightarrow> Inl Uninitialised)"

text \<open>
  The loop over the mode string: the two flags it ends with, or \<open>None\<close> when it returns at a
  \<^verbatim>\<open>d\<close>. Other characters are ignored.
\<close>

fun mode_loop :: "cstr \<Rightarrow> bool \<Rightarrow> bool \<Rightarrow> (bool \<times> bool) option" where
  "mode_loop [] set_watcher set_marker = Some (set_watcher, set_marker)"
| "mode_loop (m # ms) set_watcher set_marker =
     (if m = CHR ''w'' then mode_loop ms True set_marker
      else if m = CHR ''m'' then mode_loop ms set_watcher True
      else if m = CHR ''d'' then None
      else mode_loop ms set_watcher set_marker)"

text \<open>What \<^verbatim>\<open>aoi_update\<close> does to the object once the mode string is read (to the end).\<close>

definition move_object :: "bool \<Rightarrow> bool \<Rightarrow> vec3 \<Rightarrow> object \<Rightarrow> object result" where
  "move_object set_watcher set_marker pos ob =
     (let ob = (if has (ob_mode ob) MODE_DROP
                then ob\<lparr>ob_mode := ob_mode ob AND NOT MODE_DROP, ob_ref := ob_ref ob + 1\<rparr> else ob);
          (changed, mode) = change_mode set_watcher set_marker (ob_mode ob);
          ob = ob\<lparr>ob_mode := mode, ob_position := Some pos\<rparr>
      in rbind (if changed then Inr True
                else (case ob_last ob of Some l \<Rightarrow> Inr (\<not> is_near pos l) | None \<Rightarrow> Inl Uninitialised))
           (\<lambda>moved. Inr
              (if moved then ob\<lparr>ob_last := Some pos, ob_mode := ob_mode ob OR MODE_MOVE,
                                ob_version := ob_version ob + 1\<rparr>
               else ob)))"

definition aoi_update :: "u32 \<Rightarrow> cstr \<Rightarrow> vec3 \<Rightarrow> aoi_space \<Rightarrow> aoi_space result" where
  "aoi_update oid modestring pos sp =
     rbind (map_query oid sp) (\<lambda>(obj, sp).
     rbind (get_object obj sp) (\<lambda>ob.
     case mode_loop modestring False False of
       None \<Rightarrow>
         if \<not> has (ob_mode ob) MODE_DROP then
           drop_object obj (put_object obj (ob\<lparr>ob_mode := MODE_DROP\<rparr>) sp)
         else Inr sp
     | Some (set_watcher, set_marker) \<Rightarrow>
         rbind (move_object set_watcher set_marker pos ob) (\<lambda>ob'. Inr (put_object obj ob' sp))))"

section \<open>The message round\<close>

text \<open>A callback is the pair of ids it is called with, watcher first.\<close>

type_synonym callback = "u32 \<times> u32"

definition drop_pair :: "pair_list \<Rightarrow> aoi_space \<Rightarrow> aoi_space result" where
  "drop_pair p sp =
     rbind (drop_object (pr_watcher p) sp) (\<lambda>sp.
     rbind (drop_object (pr_marker p) sp) (\<lambda>sp.
     Inr (sp\<lparr>sp_cookie := my_free sizeof_pair_list (sp_cookie sp)\<rparr>)))"

text \<open>The loop of \<^verbatim>\<open>flush_pair\<close>: the callbacks made and the pairs that stay in the list.\<close>

fun flush_loop :: "pair_list list \<Rightarrow> aoi_space \<Rightarrow> (callback list \<times> pair_list list \<times> aoi_space) result" where
  "flush_loop [] sp = Inr ([], [], sp)"
| "flush_loop (p # ps) sp =
     rbind (get_object (pr_watcher p) sp) (\<lambda>w.
     rbind (get_object (pr_marker p) sp) (\<lambda>m.
     if ob_version w \<noteq> pr_watcher_version p \<or> ob_version m \<noteq> pr_marker_version p \<or>
        has (ob_mode w) MODE_DROP \<or> has (ob_mode m) MODE_DROP
     then rbind (drop_pair p sp) (flush_loop ps)
     else
       rbind (dist2 w m) (\<lambda>distance2.
       if flt LEAVE_AOI_RADIS distance2 then rbind (drop_pair p sp) (flush_loop ps)
       else if flt distance2 AOI_RADIS2 then
         rbind (drop_pair p sp) (\<lambda>sp.
         rbind (flush_loop ps sp) (\<lambda>(cbs, keep, sp). Inr ((ob_id w, ob_id m) # cbs, keep, sp)))
       else
         rbind (flush_loop ps sp) (\<lambda>(cbs, keep, sp). Inr (cbs, p # keep, sp)))))"

definition flush_pair :: "aoi_space \<Rightarrow> (callback list \<times> aoi_space) result" where
  "flush_pair sp =
     rbind (flush_loop (sp_hot sp) sp) (\<lambda>(cbs, keep, sp). Inr (cbs, sp\<lparr>sp_hot := keep\<rparr>))"

definition set_push_back :: "objref \<Rightarrow> object_set \<times> alloc_cookie \<Rightarrow> object_set \<times> alloc_cookie" where
  "set_push_back obj sc =
     (let (os, c) = sc;
          (cap, c) = (if length (os_slot os) \<ge> os_cap os
             then (os_cap os * 2,
                   my_free (int (os_cap os) * sizeof_pointer) (my_alloc (int (os_cap os * 2) * sizeof_pointer) c))
             else (os_cap os, c))
      in (\<lparr>os_cap = cap, os_slot = os_slot os @ [obj]\<rparr>, c))"

definition push_watcher_move :: "objref \<Rightarrow> aoi_space \<Rightarrow> aoi_space" where
  "push_watcher_move obj sp =
     (let (s, c) = set_push_back obj (sp_watcher_move sp, sp_cookie sp) in sp\<lparr>sp_watcher_move := s, sp_cookie := c\<rparr>)"

definition push_watcher_static :: "objref \<Rightarrow> aoi_space \<Rightarrow> aoi_space" where
  "push_watcher_static obj sp =
     (let (s, c) = set_push_back obj (sp_watcher_static sp, sp_cookie sp) in sp\<lparr>sp_watcher_static := s, sp_cookie := c\<rparr>)"

definition push_marker_move :: "objref \<Rightarrow> aoi_space \<Rightarrow> aoi_space" where
  "push_marker_move obj sp =
     (let (s, c) = set_push_back obj (sp_marker_move sp, sp_cookie sp) in sp\<lparr>sp_marker_move := s, sp_cookie := c\<rparr>)"

definition push_marker_static :: "objref \<Rightarrow> aoi_space \<Rightarrow> aoi_space" where
  "push_marker_static obj sp =
     (let (s, c) = set_push_back obj (sp_marker_static sp, sp_cookie sp) in sp\<lparr>sp_marker_static := s, sp_cookie := c\<rparr>)"

definition set_push :: "objref \<Rightarrow> aoi_space \<Rightarrow> aoi_space result" where
  "set_push obj sp =
     rbind (get_object obj sp) (\<lambda>ob.
     let mode = ob_mode ob;
         still = ob\<lparr>ob_mode := mode AND NOT MODE_MOVE\<rparr>;
         sp = (if has mode MODE_WATCHER then
                 if has mode MODE_MOVE then put_object obj still (push_watcher_move obj sp)
                 else push_watcher_static obj sp
               else sp);
         sp = (if has mode MODE_MARKER then
                 if has mode MODE_MOVE then put_object obj still (push_marker_move obj sp)
                 else push_marker_static obj sp
               else sp)
     in Inr sp)"

definition gen_pair :: "objref \<Rightarrow> objref \<Rightarrow> aoi_space \<Rightarrow> (callback list \<times> aoi_space) result" where
  "gen_pair watcher marker sp =
     (if watcher = marker then Inr ([], sp)
      else
        rbind (get_object watcher sp) (\<lambda>w.
        rbind (get_object marker sp) (\<lambda>m.
        rbind (dist2 w m) (\<lambda>distance2.
        if flt distance2 AOI_RADIS2 then Inr ([(ob_id w, ob_id m)], sp)
        else if flt LEAVE_AOI_RADIS distance2 then Inr ([], sp)
        else
          rbind (grab_object watcher sp) (\<lambda>sp.
          rbind (grab_object marker sp) (\<lambda>sp.
          let p = \<lparr>pr_watcher = watcher, pr_marker = marker,
                   pr_watcher_version = ob_version w, pr_marker_version = ob_version m\<rparr>
          in Inr ([], sp\<lparr>sp_hot := p # sp_hot sp, sp_cookie := my_alloc sizeof_pair_list (sp_cookie sp)\<rparr>)))))))"

text \<open>The inner and the outer loop of \<^verbatim>\<open>gen_pair_list\<close>.\<close>

fun gen_inner :: "objref \<Rightarrow> objref list \<Rightarrow> aoi_space \<Rightarrow> (callback list \<times> aoi_space) result" where
  "gen_inner w [] sp = Inr ([], sp)"
| "gen_inner w (m # ms) sp =
     rbind (gen_pair w m sp) (\<lambda>(cbs, sp).
     rbind (gen_inner w ms sp) (\<lambda>(cbs', sp). Inr (cbs @ cbs', sp)))"

fun gen_pair_list :: "objref list \<Rightarrow> objref list \<Rightarrow> aoi_space \<Rightarrow> (callback list \<times> aoi_space) result" where
  "gen_pair_list [] ms sp = Inr ([], sp)"
| "gen_pair_list (w # ws) ms sp =
     rbind (gen_inner w ms sp) (\<lambda>(cbs, sp).
     rbind (gen_pair_list ws ms sp) (\<lambda>(cbs', sp). Inr (cbs @ cbs', sp)))"

definition clear_sets :: "aoi_space \<Rightarrow> aoi_space" where
  "clear_sets sp =
     sp\<lparr>sp_watcher_static := (sp_watcher_static sp)\<lparr>os_slot := []\<rparr>,
        sp_watcher_move := (sp_watcher_move sp)\<lparr>os_slot := []\<rparr>,
        sp_marker_static := (sp_marker_static sp)\<lparr>os_slot := []\<rparr>,
        sp_marker_move := (sp_marker_move sp)\<lparr>os_slot := []\<rparr>\<rparr>"

definition aoi_message :: "aoi_space \<Rightarrow> (callback list \<times> aoi_space) result" where
  "aoi_message sp =
     rbind (flush_pair sp) (\<lambda>(cbs0, sp).
     rbind (map_foreach (sp_object sp) set_push (clear_sets sp)) (\<lambda>sp.
     rbind (gen_pair_list (os_slot (sp_watcher_static sp)) (os_slot (sp_marker_move sp)) sp) (\<lambda>(cbs1, sp).
     rbind (gen_pair_list (os_slot (sp_watcher_move sp)) (os_slot (sp_marker_static sp)) sp) (\<lambda>(cbs2, sp).
     rbind (gen_pair_list (os_slot (sp_watcher_move sp)) (os_slot (sp_marker_move sp)) sp) (\<lambda>(cbs3, sp).
     Inr (cbs0 @ cbs1 @ cbs2 @ cbs3, sp))))))"

section \<open>The invariant\<close>

lemma has_bit:
  "has m MODE_WATCHER \<longleftrightarrow> bit m 0" "has m MODE_MARKER \<longleftrightarrow> bit m 1"
  "has m MODE_MOVE \<longleftrightarrow> bit m 2" "has m MODE_DROP \<longleftrightarrow> bit m 3"
proof -
  have h: "has m (2 ^ n) \<longleftrightarrow> bit m n" for n
    by (simp add: has_def and_exp_eq_0_iff_not_bit)
  show "has m MODE_WATCHER \<longleftrightarrow> bit m 0" "has m MODE_MARKER \<longleftrightarrow> bit m 1"
    "has m MODE_MOVE \<longleftrightarrow> bit m 2" "has m MODE_DROP \<longleftrightarrow> bit m 3"
    using h [of 0] h [of 1] h [of 2] h [of 3]
    by (simp_all add: MODE_WATCHER_def MODE_MARKER_def MODE_MOVE_def MODE_DROP_def)
qed

lemma mode_bits:
  "bit MODE_WATCHER n \<longleftrightarrow> n = 0" "bit MODE_MARKER n \<longleftrightarrow> n = 1" "bit MODE_MOVE n \<longleftrightarrow> n = 2"
  "bit MODE_DROP n \<longleftrightarrow> n = 3"
proof -
  have h: "bit (push_bit k 1 :: u32) n \<longleftrightarrow> n = k" if "k < 32" for k
    using that by (auto simp: bit_simps)
  show "bit MODE_WATCHER n \<longleftrightarrow> n = 0" "bit MODE_MARKER n \<longleftrightarrow> n = 1" "bit MODE_MOVE n \<longleftrightarrow> n = 2"
    "bit MODE_DROP n \<longleftrightarrow> n = 3"
    using h [of 0] h [of 1] h [of 2] h [of 3]
    by (simp_all add: MODE_WATCHER_def MODE_MARKER_def MODE_MOVE_def MODE_DROP_def)
qed

lemmas mode_simps = has_bit mode_bits bit_and_iff bit_or_iff bit_not_iff

text \<open>The references that a list of hot pairs holds on an object.\<close>

definition refs :: "pair_list list \<Rightarrow> objref \<Rightarrow> nat" where
  "refs H obj = length (filter (\<lambda>p. pr_watcher p = obj) H) + length (filter (\<lambda>p. pr_marker p = obj) H)"

text \<open>
  \<open>cnt\<close> counts the references besides the one an object that is not dropped has of its own;
  \<open>np\<close> is the number of pairs allocated. The blocks the allocator has handed out are the
  space, the map with its slots, four sets with their slots, the objects and the pairs.
\<close>

definition caps :: "aoi_space \<Rightarrow> nat" where
  "caps sp = os_cap (sp_watcher_static sp) + os_cap (sp_marker_static sp) +
     os_cap (sp_watcher_move sp) + os_cap (sp_marker_move sp)"

definition accounted :: "aoi_space \<Rightarrow> nat \<Rightarrow> bool" where
  "accounted sp np \<longleftrightarrow> finite (dom (sp_heap sp)) \<and>
     ck_count (sp_cookie sp) = 11 + int (card (dom (sp_heap sp))) + int np \<and>
     ck_current (sp_cookie sp) = sizeof_aoi_space + sizeof_map +
       int (length (mp_slot (sp_object sp))) * sizeof_map_slot +
       4 * sizeof_object_set + int (caps sp) * sizeof_pointer +
       int (card (dom (sp_heap sp))) * sizeof_object + int np * sizeof_pair_list"

definition object_ok :: "nat \<Rightarrow> object \<Rightarrow> bool" where
  "object_ok cnt ob \<longleftrightarrow> ob_ref ob = int cnt + (if has (ob_mode ob) MODE_DROP then 0 else 1) \<and>
     0 < ob_ref ob \<and> (has (ob_mode ob) MODE_DROP \<longrightarrow> ob_mode ob = MODE_DROP) \<and>
     ob_last ob \<noteq> None \<and> ob_position ob \<noteq> None"

definition linked_up :: "aoi_space \<Rightarrow> bool" where
  "linked_up sp \<longleftrightarrow> map_ok (sp_object sp) \<and>
     (\<forall>oid obj. lookup (mp_slot (sp_object sp)) oid = Some obj \<longleftrightarrow> (\<exists>ob. sp_heap sp obj = Some ob \<and> ob_id ob = oid)) \<and>
     (\<forall>obj ob. sp_heap sp obj = Some ob \<longrightarrow> ob_id ob \<noteq> INVALID_ID) \<and>
     (\<forall>obj \<ge> sp_fresh sp. sp_heap sp obj = None)"

definition inv :: "aoi_space \<Rightarrow> (objref \<Rightarrow> nat) \<Rightarrow> nat \<Rightarrow> bool" where
  "inv sp cnt np \<longleftrightarrow> linked_up sp \<and> accounted sp np \<and>
     (\<forall>obj ob. sp_heap sp obj = Some ob \<longrightarrow> object_ok (cnt obj) ob) \<and>
     (\<forall>obj. 0 < cnt obj \<longrightarrow> sp_heap sp obj \<noteq> None)"

definition space_ok :: "aoi_space \<Rightarrow> bool" where
  "space_ok sp \<longleftrightarrow> inv sp (refs (sp_hot sp)) (length (sp_hot sp)) \<and>
     (\<forall>p \<in> set (sp_hot sp). pr_watcher p \<noteq> pr_marker p)"

lemma refs_simps [simp]:
  "refs [] = (\<lambda>_. 0)"
  "refs (p # H) obj = (if pr_watcher p = obj then 1 else 0) + (if pr_marker p = obj then 1 else 0) + refs H obj"
  "refs (H @ K) obj = refs H obj + refs K obj"
  by (auto simp: refs_def)

lemma linked_upD:
  assumes "linked_up sp"
  shows "map_ok (sp_object sp)"
    "lookup (mp_slot (sp_object sp)) oid = Some obj \<longleftrightarrow> (\<exists>ob. sp_heap sp obj = Some ob \<and> ob_id ob = oid)"
    "sp_heap sp obj = Some ob \<Longrightarrow> ob_id ob \<noteq> INVALID_ID"
    "sp_fresh sp \<le> obj \<Longrightarrow> sp_heap sp obj = None"
  using assms unfolding linked_up_def by blast+

lemma invD:
  assumes "inv sp cnt np"
  shows "linked_up sp" "accounted sp np" "sp_heap sp obj = Some ob \<Longrightarrow> object_ok (cnt obj) ob"
    "0 < cnt obj \<Longrightarrow> sp_heap sp obj \<noteq> None"
  using assms unfolding inv_def by blast+

lemma invI:
  assumes "linked_up sp" "accounted sp np" "\<And>obj ob. sp_heap sp obj = Some ob \<Longrightarrow> object_ok (cnt obj) ob"
    "\<And>obj. 0 < cnt obj \<Longrightarrow> sp_heap sp obj \<noteq> None"
  shows "inv sp cnt np"
  using assms unfolding inv_def by blast

text \<open>Overwriting an object under its own id.\<close>

lemma put_object_simps [simp]:
  "sp_cookie (put_object obj ob sp) = sp_cookie sp" "sp_object (put_object obj ob sp) = sp_object sp"
  "sp_fresh (put_object obj ob sp) = sp_fresh sp" "sp_hot (put_object obj ob sp) = sp_hot sp"
  "caps (put_object obj ob sp) = caps sp" "sp_heap (put_object obj ob sp) = (sp_heap sp)(obj \<mapsto> ob)"
  by (simp_all add: put_object_def caps_def)

lemma linked_up_put:
  assumes "linked_up sp" "sp_heap sp obj = Some ob" "ob_id ob' = ob_id ob"
  shows "linked_up (put_object obj ob' sp)"
  using assms unfolding linked_up_def by (auto split: if_splits)

lemma accounted_put:
  assumes "accounted sp np" "sp_heap sp obj = Some ob"
  shows "accounted (put_object obj ob' sp) np"
  using assms by (simp add: accounted_def insert_absorb domI)

lemma accounted_change:
  assumes "accounted sp np" "finite (dom (sp_heap sp'))"
    "int (card (dom (sp_heap sp'))) = int (card (dom (sp_heap sp))) + dk" "int np' = int np + dn"
    "caps sp' = caps sp" "length (mp_slot (sp_object sp')) = length (mp_slot (sp_object sp))"
    "ck_count (sp_cookie sp') = ck_count (sp_cookie sp) + dk + dn"
    "ck_current (sp_cookie sp') = ck_current (sp_cookie sp) + dk * sizeof_object + dn * sizeof_pair_list"
  shows "accounted sp' np'"
  using assms unfolding accounted_def by (simp add: distrib_right)

lemma inv_put:
  assumes "inv sp cnt np" "sp_heap sp obj = Some ob" "ob_id ob' = ob_id ob" "object_ok (cnt' obj) ob'"
    "\<And>o'. o' \<noteq> obj \<Longrightarrow> cnt' o' = cnt o'"
  shows "inv (put_object obj ob' sp) cnt' np"
proof (rule invI)
  show "linked_up (put_object obj ob' sp)" by (rule linked_up_put [OF invD(1) [OF assms(1)] assms(2,3)])
  show "accounted (put_object obj ob' sp) np" by (rule accounted_put [OF invD(2) [OF assms(1)] assms(2)])
qed (use assms(4,5) invD(3,4) [OF assms(1)] in \<open>auto split: if_splits\<close>)

section \<open>Reference counting\<close>

text \<open>
  What dropping references may do to the store: counters change, dropped objects may go.
  Nothing else of the space changes.
\<close>

definition body :: "object \<Rightarrow> u32 \<times> int \<times> u32 \<times> vec3 option \<times> vec3 option" where
  "body ob = (ob_id ob, ob_version ob, ob_mode ob, ob_last ob, ob_position ob)"

definition fades :: "aoi_space \<Rightarrow> aoi_space \<Rightarrow> bool" where
  "fades sp sp' \<longleftrightarrow>
     (\<forall>obj ob'. sp_heap sp' obj = Some ob' \<longrightarrow> (\<exists>ob. sp_heap sp obj = Some ob \<and> body ob' = body ob)) \<and>
     (\<forall>obj ob. sp_heap sp obj = Some ob \<longrightarrow> \<not> has (ob_mode ob) MODE_DROP \<longrightarrow> sp_heap sp' obj \<noteq> None) \<and>
     sp_hot sp' = sp_hot sp \<and> sp_watcher_static sp' = sp_watcher_static sp \<and>
     sp_marker_static sp' = sp_marker_static sp \<and> sp_watcher_move sp' = sp_watcher_move sp \<and>
     sp_marker_move sp' = sp_marker_move sp \<and> length (mp_slot (sp_object sp')) = length (mp_slot (sp_object sp)) \<and>
     load (mp_slot (sp_object sp')) = load (mp_slot (sp_object sp))"

lemma fades_refl: "fades sp sp"
  by (simp add: fades_def)

lemma fadesD:
  assumes "fades sp sp'"
  shows "sp_heap sp' obj = Some ob' \<Longrightarrow> \<exists>ob. sp_heap sp obj = Some ob \<and> body ob' = body ob"
    "sp_heap sp obj = Some ob \<Longrightarrow> \<not> has (ob_mode ob) MODE_DROP \<Longrightarrow> \<exists>ob'. sp_heap sp' obj = Some ob' \<and> body ob' = body ob"
  using assms unfolding fades_def by (blast, metis option.exhaust option.inject)

lemma fades_trans:
  assumes "fades sp sp'" "fades sp' sp''"
  shows "fades sp sp''"
  unfolding fades_def
proof (intro conjI allI impI)
  show "\<exists>ob. sp_heap sp obj = Some ob \<and> body ob' = body ob" if "sp_heap sp'' obj = Some ob'" for obj ob'
    using fadesD(1) [OF assms(2) that] fadesD(1) [OF assms(1)] by metis
  show "sp_heap sp'' obj \<noteq> None" if ob: "sp_heap sp obj = Some ob" "\<not> has (ob_mode ob) MODE_DROP" for obj ob
  proof -
    obtain ob' where "sp_heap sp' obj = Some ob'" "body ob' = body ob" using fadesD(2) [OF assms(1) ob] by blast
    then show ?thesis using fadesD(2) [OF assms(2), of obj ob'] ob(2) by (auto simp: body_def)
  qed
qed (use assms in \<open>simp_all add: fades_def\<close>)

text \<open>The invariant while one object is being worked on.\<close>

definition inv_except :: "aoi_space \<Rightarrow> objref \<Rightarrow> (objref \<Rightarrow> nat) \<Rightarrow> nat \<Rightarrow> bool" where
  "inv_except sp obj cnt np \<longleftrightarrow> linked_up sp \<and> accounted sp np \<and> sp_heap sp obj \<noteq> None \<and>
     (\<forall>o' ob. o' \<noteq> obj \<longrightarrow> sp_heap sp o' = Some ob \<longrightarrow> object_ok (cnt o') ob) \<and>
     (\<forall>o'. 0 < cnt o' \<longrightarrow> sp_heap sp o' \<noteq> None)"

lemma inv_exceptD:
  assumes "inv_except sp obj cnt np"
  shows "linked_up sp" "accounted sp np" "sp_heap sp obj \<noteq> None"
    "o' \<noteq> obj \<Longrightarrow> sp_heap sp o' = Some ob \<Longrightarrow> object_ok (cnt o') ob"
    "0 < cnt o' \<Longrightarrow> sp_heap sp o' \<noteq> None"
  using assms unfolding inv_except_def by blast+

lemma inv_exceptI: "inv sp cnt np \<Longrightarrow> sp_heap sp obj = Some ob \<Longrightarrow> inv_except sp obj cnt np"
  by (auto simp: inv_def inv_except_def)

lemma inv_except_put:
  assumes "inv_except sp obj cnt np" "sp_heap sp obj = Some ob" "ob_id ob' = ob_id ob"
  shows "(\<And>o'. o' \<noteq> obj \<Longrightarrow> cnt' o' = cnt o') \<Longrightarrow> inv_except (put_object obj ob' sp) obj cnt' np"
    and "object_ok (cnt obj) ob' \<Longrightarrow> inv (put_object obj ob' sp) cnt np"
proof -
  note d = inv_exceptD [OF assms(1)]
  have lu: "linked_up (put_object obj ob' sp)" by (rule linked_up_put [OF d(1) assms(2,3)])
  have ac: "accounted (put_object obj ob' sp) np" by (rule accounted_put [OF d(2) assms(2)])
  show "inv_except (put_object obj ob' sp) obj cnt' np" if "\<And>o'. o' \<noteq> obj \<Longrightarrow> cnt' o' = cnt o'"
    using lu ac d(4,5) that unfolding inv_except_def by (auto split: if_splits)
  show "inv (put_object obj ob' sp) cnt np" if "object_ok (cnt obj) ob'"
    by (rule invI [OF lu ac]) (use d(4,5) that in \<open>auto split: if_splits\<close>)
qed

text \<open>Dropping the last reference of a dropped object frees it and its place in the map.\<close>

lemma drop_last_ok:
  assumes inv: "inv_except sp obj cnt np" and h: "sp_heap sp obj = Some ob" and r: "ob_ref ob = 1"
    and drop: "has (ob_mode ob) MODE_DROP"
  obtains sp' where "drop_object obj sp = Inr sp'" "inv sp' (cnt(obj := 0)) np" "fades sp sp'" "sp_heap sp' obj = None"
proof -
  let ?ob = "ob\<lparr>ob_ref := ob_ref ob - 1\<rparr>"
  let ?sp1 = "put_object obj ?ob sp"
  have lu: "linked_up sp" using inv_exceptD(1) [OF inv] .
  have id: "ob_id ob \<noteq> INVALID_ID" using linked_upD(3) [OF lu h] .
  have mok: "map_ok (sp_object sp)" using linked_upD(1) [OF lu] .
  have lk: "lookup (mp_slot (sp_object sp)) (ob_id ob) = Some obj" using h linked_upD(2) [OF lu] by blast
  obtain m where m: "map_drop (ob_id ob) (sp_object sp) = Inr (lookup (mp_slot (sp_object sp)) (ob_id ob), m)"
    "map_ok m" "lookup (mp_slot m) = (lookup (mp_slot (sp_object sp)))(ob_id ob := None)"
    "length (mp_slot m) = length (mp_slot (sp_object sp))" "load (mp_slot m) = load (mp_slot (sp_object sp))"
    by (rule map_drop_ok [OF mok id])
  define sp' where "sp' = ?sp1\<lparr>sp_object := m, sp_heap := (sp_heap sp)(obj := None),
    sp_cookie := my_free sizeof_object (sp_cookie sp)\<rparr>"
  have "drop_object obj sp = Inr sp'"
    using r h m(1) by (simp add: drop_object_def get_object_def delete_object_def sp'_def put_object_def)
  moreover have "inv sp' (cnt(obj := 0)) np"
  proof (rule invI)
    have uniq: "o' = obj" if "sp_heap sp o' = Some ob'" "ob_id ob' = ob_id ob" for o' ob'
      using lk linked_upD(2) [OF lu, of "ob_id ob" o'] that by auto
    show "linked_up sp'"
      unfolding linked_up_def
    proof (intro conjI allI impI)
      fix oid o'
      show "lookup (mp_slot (sp_object sp')) oid = Some o' \<longleftrightarrow> (\<exists>ob. sp_heap sp' o' = Some ob \<and> ob_id ob = oid)"
      proof (cases "oid = ob_id ob")
        case True
        then show ?thesis using m(3) uniq by (auto simp: sp'_def)
      next
        case False
        then have "sp_heap sp' o' = Some ob' \<and> ob_id ob' = oid \<longleftrightarrow> sp_heap sp o' = Some ob' \<and> ob_id ob' = oid" for ob'
          using h by (auto simp: sp'_def)
        then show ?thesis using m(3) linked_upD(2) [OF lu, of oid o'] False by (simp add: sp'_def)
      qed
    qed (use m(2) linked_upD(3,4) [OF lu] in \<open>auto simp: sp'_def split: if_splits\<close>)
    have fin: "finite (dom (sp_heap sp))" "obj \<in> dom (sp_heap sp)"
      using inv_exceptD(2) [OF inv] h by (auto simp: accounted_def)
    have dom: "dom (sp_heap sp') = dom (sp_heap sp) - {obj}" by (auto simp: sp'_def split: if_splits)
    have "int (card (dom (sp_heap sp'))) = int (card (dom (sp_heap sp))) + (- 1)"
      unfolding dom using card_Suc_Diff1 [OF fin] by simp
    then show "accounted sp' np"
      by (rule accounted_change [OF inv_exceptD(2) [OF inv], where dn = 0, rotated])
        (use dom fin m(4) in \<open>simp_all add: sp'_def my_free_def caps_def put_object_def\<close>)
  qed (use inv_exceptD(4,5) [OF inv] in \<open>auto simp: sp'_def split: if_splits\<close>)
  moreover have "fades sp sp'"
    using h drop m(4,5) by (auto simp: fades_def sp'_def put_object_def split: if_splits)
  moreover have "sp_heap sp' obj = None" by (simp add: sp'_def)
  ultimately show ?thesis by (rule that)
qed

lemma drop_object_ok:
  assumes inv: "inv sp cnt np" and c: "0 < cnt obj"
  obtains sp' where "drop_object obj sp = Inr sp'" "inv sp' (cnt(obj := cnt obj - 1)) np" "fades sp sp'"
proof -
  obtain ob where h: "sp_heap sp obj = Some ob" using invD(4) [OF inv c] by auto
  note ok = invD(3) [OF inv h]
  let ?ob = "ob\<lparr>ob_ref := ob_ref ob - 1\<rparr>"
  let ?sp1 = "put_object obj ?ob sp"
  show ?thesis
  proof (cases "ob_ref ob - 1 \<le> 0")
    case False
    have "drop_object obj sp = Inr ?sp1" using False h by (simp add: drop_object_def get_object_def)
    moreover have "object_ok (cnt obj - 1) ?ob" using ok c False by (auto simp: object_ok_def)
    then have "inv ?sp1 (cnt(obj := cnt obj - 1)) np" by (intro inv_put [OF inv h]) simp_all
    moreover have "fades sp ?sp1" using h by (auto simp: fades_def put_object_def body_def split: if_splits)
    ultimately show ?thesis by (rule that)
  next
    case True
    then have drop: "has (ob_mode ob) MODE_DROP" "cnt obj = 1" "ob_ref ob = 1"
      using ok c by (auto simp: object_ok_def split: if_splits)
    show ?thesis
      by (rule drop_last_ok [OF inv_exceptI [OF inv h] h drop(3,1)]) (use that drop(2) in simp)
  qed
qed

lemma drop_pair_ok:
  assumes inv: "inv sp (refs (p # H)) (Suc np)"
  obtains sp' where "drop_pair p sp = Inr sp'" "inv sp' (refs H) np" "fades sp sp'"
proof -
  let ?c = "refs (p # H)"
  let ?c1 = "?c(pr_watcher p := ?c (pr_watcher p) - 1)"
  have w: "0 < ?c (pr_watcher p)" by simp
  obtain sp1 where 1: "drop_object (pr_watcher p) sp = Inr sp1" "inv sp1 ?c1 (Suc np)" "fades sp sp1"
    by (rule drop_object_ok [OF inv w])
  have m: "0 < ?c1 (pr_marker p)" by simp
  let ?c2 = "?c1(pr_marker p := ?c1 (pr_marker p) - 1)"
  obtain sp2 where 2: "drop_object (pr_marker p) sp1 = Inr sp2" "inv sp2 ?c2 (Suc np)" "fades sp1 sp2"
    by (rule drop_object_ok [OF 1(2) m])
  have c2: "?c2 = refs H" by (auto simp: fun_eq_iff)
  let ?sp = "sp2\<lparr>sp_cookie := my_free sizeof_pair_list (sp_cookie sp2)\<rparr>"
  have "inv ?sp (refs H) np"
    using 2(2) unfolding c2 inv_def linked_up_def
    by (simp add: accounted_def my_free_def caps_def algebra_simps)
  moreover have "fades sp ?sp"
    using fades_trans [OF 1(3) 2(3)] by (simp add: fades_def)
  ultimately show ?thesis using that 1(1) 2(1) by (simp add: drop_pair_def)
qed

lemma grab_object_ok:
  assumes inv: "inv sp cnt np" and h: "sp_heap sp obj = Some ob"
  shows "grab_object obj sp = Inr (put_object obj (ob\<lparr>ob_ref := ob_ref ob + 1\<rparr>) sp)"
    "inv (put_object obj (ob\<lparr>ob_ref := ob_ref ob + 1\<rparr>) sp) (cnt(obj := cnt obj + 1)) np"
proof -
  show "grab_object obj sp = Inr (put_object obj (ob\<lparr>ob_ref := ob_ref ob + 1\<rparr>) sp)"
    using h by (simp add: grab_object_def get_object_def)
  show "inv (put_object obj (ob\<lparr>ob_ref := ob_ref ob + 1\<rparr>) sp) (cnt(obj := cnt obj + 1)) np"
    using invD(3) [OF inv h] by (intro inv_put [OF inv h]) (auto simp: object_ok_def)
qed

section \<open>Updating an object\<close>

text \<open>The object of an id, as the map finds it.\<close>

definition look :: "aoi_space \<Rightarrow> u32 \<Rightarrow> object option" where
  "look sp oid = (case lookup (mp_slot (sp_object sp)) oid of Some obj \<Rightarrow> sp_heap sp obj | None \<Rightarrow> None)"

lemma look_Some:
  assumes "linked_up sp"
  shows "look sp oid = Some ob \<longleftrightarrow> (\<exists>obj. lookup (mp_slot (sp_object sp)) oid = Some obj \<and> sp_heap sp obj = Some ob \<and> ob_id ob = oid)"
proof (cases "lookup (mp_slot (sp_object sp)) oid")
  case (Some obj)
  then obtain ob' where "sp_heap sp obj = Some ob'" "ob_id ob' = oid" using linked_upD(2) [OF assms] by blast
  with Some show ?thesis by (auto simp: look_def)
qed (simp add: look_def)

lemma look_heap: "linked_up sp \<Longrightarrow> sp_heap sp obj = Some ob \<Longrightarrow> look sp (ob_id ob) = Some ob"
  using look_Some linked_upD(2) by blast

lemma lookup_inj:
  assumes "linked_up sp" "sp_heap sp obj = Some ob" "sp_heap sp obj' = Some ob'" "ob_id ob = ob_id ob'"
  shows "obj = obj'"
  using linked_upD(2) [OF assms(1), of "ob_id ob" obj] linked_upD(2) [OF assms(1), of "ob_id ob" obj'] assms by auto

lemma new_object_ok:
  assumes lu: "linked_up sp" and ac: "accounted sp np"
    and m: "map_ok m'" "lookup (mp_slot m') = (lookup (mp_slot (sp_object sp)))(oid \<mapsto> sp_fresh sp)"
      "lookup (mp_slot (sp_object sp)) oid = None" "oid \<noteq> INVALID_ID"
    and new: "new_object oid sp = (obj, sp1)" and g: "grown (sp_cookie sp1, sp_object sp) (c', m')"
  defines "sp' \<equiv> sp1\<lparr>sp_cookie := c', sp_object := m'\<rparr>"
  shows "linked_up sp'" "accounted sp' np" "obj = sp_fresh sp" "sp_hot sp' = sp_hot sp"
    "sp_heap sp' = (sp_heap sp)(obj \<mapsto> \<lparr>ob_ref = 1, ob_id = oid, ob_version = 0, ob_mode = 0, ob_last = None, ob_position = None\<rparr>)"
proof -
  let ?ob = "\<lparr>ob_ref = 1, ob_id = oid, ob_version = 0, ob_mode = 0, ob_last = None, ob_position = None\<rparr>"
  show obj: "obj = sp_fresh sp" and heap: "sp_heap sp' = (sp_heap sp)(obj \<mapsto> ?ob)" and "sp_hot sp' = sp_hot sp"
    using new by (auto simp: new_object_def Let_def sp'_def)
  have free: "sp_heap sp obj = None" using linked_upD(4) [OF lu, of obj] obj by simp
  have none: "\<not> (\<exists>ob. sp_heap sp o' = Some ob \<and> ob_id ob = oid)" for o' using linked_upD(2) [OF lu, of oid o'] m(3) by simp
  have fresh: "sp_fresh sp' = Suc obj" using new obj by (auto simp: new_object_def Let_def sp'_def)
  show "linked_up sp'"
    unfolding linked_up_def
  proof (intro conjI allI impI)
    fix x o'
    show "lookup (mp_slot (sp_object sp')) x = Some o' \<longleftrightarrow> (\<exists>ob. sp_heap sp' o' = Some ob \<and> ob_id ob = x)"
    proof (cases "o' = obj")
      case True
      have "lookup (mp_slot (sp_object sp)) x \<noteq> Some obj" using linked_upD(2) [OF lu, of x obj] free by simp
      then show ?thesis using True obj m(2) heap by (auto simp: sp'_def)
    next
      case False
      then show ?thesis
        using linked_upD(2) [OF lu, of x o'] none [of o'] obj m(2,3) heap by (auto simp: sp'_def)
    qed
  qed (use m(1,4) linked_upD(3,4) [OF lu] fresh heap obj in \<open>auto simp: sp'_def split: if_splits\<close>)
  have c: "sp_cookie sp1 = my_alloc sizeof_object (sp_cookie sp)" and caps: "caps sp' = caps sp"
    using new by (auto simp: new_object_def Let_def sp'_def caps_def put_object_def)
  have card: "card (dom (sp_heap sp')) = Suc (card (dom (sp_heap sp)))"
    using ac free heap by (simp add: accounted_def card_insert_if domIff)
  have "ck_count c' = ck_count (sp_cookie sp) + 1 \<and> ck_current c' = ck_current (sp_cookie sp) + sizeof_object +
      (int (length (mp_slot m')) - int (length (mp_slot (sp_object sp)))) * sizeof_map_slot"
    using g unfolding grown_def c by (auto simp: my_alloc_def my_free_def Let_def left_diff_distrib)
  then show "accounted sp' np"
    using ac card caps heap by (simp add: accounted_def sp'_def left_diff_distrib distrib_right)
qed

definition blank :: "u32 \<Rightarrow> object" where
  "blank oid = \<lparr>ob_ref = 1, ob_id = oid, ob_version = 0, ob_mode = 0, ob_last = None, ob_position = None\<rparr>"

text \<open>One update puts at most one new id into the map, which doubles only when it is full.\<close>

definition grew :: "aoi_space \<Rightarrow> aoi_space \<Rightarrow> bool" where
  "grew sp sp' \<longleftrightarrow> (let S = mp_slot (sp_object sp); S' = mp_slot (sp_object sp') in
     load S' \<le> Suc (load S) \<and> (length S' = length S \<or> length S' = 2 * length S \<and> load S = length S))"

lemma map_query_ok:
  assumes inv: "inv sp cnt np" and oid: "oid \<noteq> INVALID_ID" and len: "length (mp_slot (sp_object sp)) \<le> 2 ^ 30"
  obtains (Old) obj ob where "map_query oid sp = Inr (obj, sp)" "sp_heap sp obj = Some ob" "ob_id ob = oid"
      "look sp oid = Some ob"
  | (New) obj sp1 where "map_query oid sp = Inr (obj, sp1)" "inv_except sp1 obj cnt np"
      "sp_heap sp1 obj = Some (blank oid)" "cnt obj = 0" "look sp oid = None" "sp_hot sp1 = sp_hot sp"
      "\<And>x. x \<noteq> oid \<Longrightarrow> look sp1 x = look sp x" "grew sp sp1"
proof -
  have lu: "linked_up sp" using invD(1) [OF inv] .
  note mok = linked_upD(1) [OF lu]
  obtain obj sp1 where n: "new_object oid sp = (obj, sp1)" by fastforce
  have n': "obj = sp_fresh sp" "sp_object sp1 = sp_object sp" using n by (auto simp: new_object_def Let_def)
  have fin: thesis
    if none: "lookup (mp_slot (sp_object sp)) oid = None" and m: "map_ok m'"
      "lookup (mp_slot m') = (lookup (mp_slot (sp_object sp)))(oid \<mapsto> obj)"
      "grown (sp_cookie sp1, sp_object sp) (c', m')"
      and q: "map_query oid sp = Inr (obj, sp1\<lparr>sp_cookie := c', sp_object := m'\<rparr>)" for c' m'
  proof -
    define sp' where "sp' = sp1\<lparr>sp_cookie := c', sp_object := m'\<rparr>"
    note new = new_object_ok [OF lu invD(2) [OF inv] m(1) m(2) [unfolded n'(1)] none oid n m(3), folded sp'_def blank_def]
    have free: "sp_heap sp obj = None" using linked_upD(4) [OF lu, of obj] n'(1) by simp
    then have c0: "cnt obj = 0" using invD(4) [OF inv, of obj] by auto
    have "inv_except sp' obj cnt np"
      unfolding inv_except_def using new invD(3,4) [OF inv] by auto
    moreover have "look sp' x = look sp x" if "x \<noteq> oid" for x
    proof -
      have "lookup (mp_slot (sp_object sp)) x \<noteq> Some obj" using linked_upD(2) [OF lu, of x obj] free by simp
      then show ?thesis using that m(2) new(5) by (auto simp: look_def sp'_def split: option.splits)
    qed
    moreover have "look sp oid = None" using none by (simp add: look_def)
    moreover have "grew sp sp'" using m(3) by (auto simp: grew_def grown_def sp'_def Let_def)
    ultimately show thesis using New [of obj sp'] q c0 new(4,5) by (simp add: sp'_def)
  qed
  show thesis
  proof (cases rule: walk_cases [OF mok oid])
    case (1 i)
    show thesis
    proof (cases "sl_obj (mp_slot (sp_object sp) ! i)")
      case (Some o')
      then have lk: "lookup (mp_slot (sp_object sp)) oid = Some o'" using 1(4) by simp
      then obtain ob where "sp_heap sp o' = Some ob" "ob_id ob = oid" using linked_upD(2) [OF lu] by blast
      with lk show thesis using Old [of o' ob] 1(1) Some by (simp add: map_query_def Let_def look_def)
    next
      case None
      let ?m = "(sp_object sp)\<lparr>mp_slot := (mp_slot (sp_object sp))[i := (mp_slot (sp_object sp) ! i)\<lparr>sl_obj := Some obj\<rparr>]\<rparr>"
      have "map_query oid sp = Inr (obj, sp1\<lparr>sp_cookie := sp_cookie sp1, sp_object := ?m\<rparr>)"
        using 1(1) None n by (simp add: map_query_def Let_def)
      then show thesis
        using fin [of ?m "sp_cookie sp1"] set_obj_ok [OF mok 1(2), of "Some obj"] 1(3,4) None
        by (simp add: grown_def)
    qed
  next
    case 2
    obtain c' m' where i: "map_insert INSERT_DEPTH oid obj (sp_cookie sp1, sp_object sp) = Inr (c', m')" "map_ok m'"
      "lookup (mp_slot m') = (lookup (mp_slot (sp_object sp)))(oid \<mapsto> obj)" "grown (sp_cookie sp1, sp_object sp) (c', m')"
      using map_insert_ok [OF mok 2(2) len] by blast
    have "map_query oid sp = Inr (obj, sp1\<lparr>sp_cookie := c', sp_object := m'\<rparr>)"
      using 2(1) n n'(2) i(1) by (simp add: map_query_def Let_def)
    then show thesis by (rule fin [OF 2(3) i(2-4)])
  qed
qed

lemma change_mode_bits:
  assumes "change_mode w m mode = (ch, mode')"
  shows "bit mode' 0 \<longleftrightarrow> w" "bit mode' 1 \<longleftrightarrow> m" "2 \<le> n \<Longrightarrow> n < 32 \<Longrightarrow> bit mode' n \<longleftrightarrow> bit mode n" "mode = 0 \<Longrightarrow> ch"
  using assms
  by (auto simp: change_mode_def mode_simps Let_def split: if_splits prod.splits)

lemma look_put_other:
  assumes "linked_up sp" "sp_heap sp obj = Some ob" "x \<noteq> ob_id ob"
  shows "look (put_object obj ob' sp) x = look sp x"
proof -
  have "lookup (mp_slot (sp_object sp)) x \<noteq> Some obj" using linked_upD(2) [OF assms(1), of x obj] assms(2,3) by auto
  then show ?thesis by (auto simp: look_def split: option.splits)
qed

type_synonym obj_body = "u32 \<times> int \<times> u32 \<times> vec3 option \<times> vec3 option"

text \<open>
  The move of an object, on the fields that matter: id, version, mode, the position where it
  last counted as moved, and its position.
\<close>

definition step_body :: "bool \<Rightarrow> bool \<Rightarrow> vec3 \<Rightarrow> obj_body \<Rightarrow> obj_body" where
  "step_body w m pos b =
     (case b of (i, v, mode, l, p) \<Rightarrow>
        (let (ch, mode') = change_mode w m mode in
         if ch \<or> (case l of Some l \<Rightarrow> \<not> is_near pos l | None \<Rightarrow> True)
         then (i, v + 1, mode' OR MODE_MOVE, Some pos, Some pos)
         else (i, v, mode', l, Some pos)))"

definition undropped :: "object \<Rightarrow> object" where
  "undropped ob = (if has (ob_mode ob) MODE_DROP then ob\<lparr>ob_mode := 0\<rparr> else ob)"

lemma move_object_ok:
  assumes ok: "object_ok c ob \<or> ob_mode ob = 0 \<and> ob_ref ob = 1 \<and> c = 0"
  obtains ob' where "move_object w m pos ob = Inr ob'"
    "object_ok c ob'" "ob_id ob' = ob_id ob" "ob_position ob' = Some pos"
    "has (ob_mode ob') MODE_WATCHER \<longleftrightarrow> w" "has (ob_mode ob') MODE_MARKER \<longleftrightarrow> m" "\<not> has (ob_mode ob') MODE_DROP"
    "body ob' = step_body w m pos (body (undropped ob))"
proof -
  define ob1 where "ob1 = (if has (ob_mode ob) MODE_DROP
        then ob\<lparr>ob_mode := ob_mode ob AND NOT MODE_DROP, ob_ref := ob_ref ob + 1\<rparr> else ob)"
  obtain changed mode where ch: "change_mode w m (ob_mode ob1) = (changed, mode)" by fastforce
  define ob2 where "ob2 = ob1\<lparr>ob_mode := mode, ob_position := Some pos\<rparr>"
  have z: "\<not> bit (ob_mode ob1) 3" "has (ob_mode ob) MODE_DROP \<Longrightarrow> ob_mode ob1 = 0"
  proof -
    have "MODE_DROP AND NOT MODE_DROP = 0" "\<not> has 0 MODE_DROP" by (simp_all add: MODE_DROP_def has_def)
    then show "\<not> bit (ob_mode ob1) 3" "has (ob_mode ob) MODE_DROP \<Longrightarrow> ob_mode ob1 = 0"
      using ok by (auto simp: ob1_def object_ok_def has_bit)
  qed
  have bu: "body (undropped ob) = (ob_id ob1, ob_version ob1, ob_mode ob1, ob_last ob1, ob_position ob1)"
    using z(2) by (auto simp: undropped_def body_def ob1_def)
  have r: "ob_ref ob1 = int c + 1" "ob_id ob1 = ob_id ob"
    using ok by (auto simp: ob1_def object_ok_def has_def split: if_splits)
  note bits = change_mode_bits [OF ch]
  have b3: "\<not> bit mode 3" using bits(3) [of 3] z(1) by simp
  have l: "ob_last ob1 \<noteq> None" if "\<not> changed"
    using that ok bits(4) z by (cases "has (ob_mode ob) MODE_DROP") (auto simp: ob1_def object_ok_def)
  have unf: "move_object w m pos ob = rbind (if changed then Inr True
        else (case ob_last ob2 of Some l \<Rightarrow> Inr (\<not> is_near pos l) | None \<Rightarrow> Inl Uninitialised))
      (\<lambda>moved. Inr (if moved then ob2\<lparr>ob_last := Some pos, ob_mode := ob_mode ob2 OR MODE_MOVE,
                         ob_version := ob_version ob2 + 1\<rparr> else ob2))"
    unfolding move_object_def Let_def ob1_def [symmetric] ch prod.case ob2_def [symmetric] ..
  have sb: "step_body w m pos (body (undropped ob)) =
      (if changed \<or> (case ob_last ob2 of Some l \<Rightarrow> \<not> is_near pos l | None \<Rightarrow> True)
       then (ob_id ob2, ob_version ob2 + 1, ob_mode ob2 OR MODE_MOVE, Some pos, Some pos)
       else (ob_id ob2, ob_version ob2, ob_mode ob2, ob_last ob2, Some pos))"
    unfolding bu by (simp add: step_body_def ch ob2_def)
  show ?thesis
  proof (cases "changed \<or> (\<exists>l. ob_last ob2 = Some l \<and> \<not> is_near pos l)")
    case True
    then have "move_object w m pos ob = Inr (ob2\<lparr>ob_last := Some pos, ob_mode := ob_mode ob2 OR MODE_MOVE,
        ob_version := ob_version ob2 + 1\<rparr>)"
      unfolding unf by auto
    moreover have "body (ob2\<lparr>ob_last := Some pos, ob_mode := ob_mode ob2 OR MODE_MOVE, ob_version := ob_version ob2 + 1\<rparr>) =
        step_body w m pos (body (undropped ob))"
      unfolding sb using True by (auto simp: body_def ob2_def)
    ultimately show ?thesis
      by (intro that) (use r bits b3 in \<open>auto simp: object_ok_def mode_simps ob2_def\<close>)
  next
    case False
    then have "move_object w m pos ob = Inr ob2"
      unfolding unf using l by (auto simp: ob2_def)
    moreover have "body ob2 = step_body w m pos (body (undropped ob))"
      unfolding sb using False l by (auto simp: body_def ob2_def)
    ultimately show ?thesis
      by (intro that) (use r bits b3 l False in \<open>auto simp: object_ok_def mode_simps ob2_def\<close>)
  qed
qed

text \<open>What a space stands for: the objects that are not dropped, by id.\<close>

definition live :: "aoi_space \<Rightarrow> u32 \<rightharpoonup> u32 \<times> int \<times> u32 \<times> vec3 option \<times> vec3 option" where
  "live sp oid = (case look sp oid of
     Some ob \<Rightarrow> if has (ob_mode ob) MODE_DROP then None else Some (body ob)
   | None \<Rightarrow> None)"

lemma live_Some: "live sp x = Some b \<longleftrightarrow> (\<exists>ob. look sp x = Some ob \<and> \<not> has (ob_mode ob) MODE_DROP \<and> body ob = b)"
  by (auto simp: live_def split: option.splits if_splits)

lemma live_eqI:
  assumes "sp_heap sp' = sp_heap sp" "sp_object sp' = sp_object sp"
  shows "live sp' = live sp"
  unfolding live_def look_def assms ..

lemma fades_live:
  assumes "linked_up sp" "linked_up sp'" "fades sp sp'"
  shows "live sp' = live sp"
proof
  fix x
  have "live sp' x = Some b \<longleftrightarrow> live sp x = Some b" for b
  proof
    assume "live sp x = Some b"
    then obtain ob obj where ob: "sp_heap sp obj = Some ob" "ob_id ob = x" "\<not> has (ob_mode ob) MODE_DROP" "body ob = b"
      by (auto simp: live_Some look_Some [OF assms(1)])
    then obtain ob' where ob': "sp_heap sp' obj = Some ob'" "body ob' = body ob" using fadesD(2) [OF assms(3)] by blast
    moreover from ob'(2) ob(2,3) have "ob_id ob' = x" "\<not> has (ob_mode ob') MODE_DROP" by (auto simp: body_def)
    ultimately show "live sp' x = Some b" using look_heap [OF assms(2) ob'(1)] ob(4) by (auto simp: live_Some)
  next
    assume "live sp' x = Some b"
    then obtain ob' obj where ob': "sp_heap sp' obj = Some ob'" "ob_id ob' = x" "\<not> has (ob_mode ob') MODE_DROP" "body ob' = b"
      by (auto simp: live_Some look_Some [OF assms(2)])
    then obtain ob where ob: "sp_heap sp obj = Some ob" "body ob' = body ob" using fadesD(1) [OF assms(3)] by blast
    moreover from ob(2) ob'(2,3) have "ob_id ob = x" "\<not> has (ob_mode ob) MODE_DROP" by (auto simp: body_def)
    ultimately show "live sp x = Some b" using look_heap [OF assms(1) ob(1)] ob'(4) by (auto simp: live_Some)
  qed
  then show "live sp' x = live sp x" by (metis option.exhaust)
qed

lemma live_put:
  assumes "linked_up sp" "sp_heap sp obj = Some ob" "ob_id ob' = ob_id ob"
  shows "live (put_object obj ob' sp) = (live sp)(ob_id ob := if has (ob_mode ob') MODE_DROP then None else Some (body ob'))"
proof
  fix x
  have "look (put_object obj ob' sp) (ob_id ob) = Some ob'"
    using look_heap [OF linked_up_put [OF assms], of obj ob'] assms(3) by simp
  then show "live (put_object obj ob' sp) x = ((live sp)(ob_id ob := if has (ob_mode ob') MODE_DROP then None else Some (body ob'))) x"
    using look_put_other [OF assms(1,2), of x ob'] by (cases "x = ob_id ob") (simp_all add: live_def)
qed

text \<open>The object an update works on: found or made, and the rest of the space as it was.\<close>

lemma update_start:
  assumes ok: "space_ok sp" and oid: "oid \<noteq> INVALID_ID" and len: "length (mp_slot (sp_object sp)) \<le> 2 ^ 30"
  defines "H \<equiv> sp_hot sp"
  obtains obj sp1 ob where "map_query oid sp = Inr (obj, sp1)" "inv_except sp1 obj (refs H) (length H)"
    "sp_heap sp1 obj = Some ob" "ob_id ob = oid" "sp_hot sp1 = H"
    "object_ok (refs H obj) ob \<or> ob_mode ob = 0 \<and> ob_ref ob = 1 \<and> refs H obj = 0"
    "\<forall>x. x \<noteq> oid \<longrightarrow> live sp1 x = live sp x"
    "\<not> has (ob_mode ob) MODE_DROP \<longrightarrow> ob_ref ob = int (refs H obj) + 1"
    "live sp oid = Some (body (undropped ob)) \<or> live sp oid = None \<and> (\<exists>v l p. body (undropped ob) = (oid, v, 0, l, p))"
    "grew sp sp1"
proof -
  have inv: "inv sp (refs H) (length H)" using ok by (simp add: space_ok_def H_def)
  show thesis
  proof (cases rule: map_query_ok [OF inv oid len])
    case (1 obj ob)
    note ob = invD(3) [OF inv 1(2)]
    show thesis
      by (rule that [OF 1(1) inv_exceptI [OF inv 1(2)] 1(2,3)])
        (use ob 1(3,4) in \<open>simp_all add: H_def object_ok_def grew_def live_def undropped_def body_def\<close>)
  next
    case (2 obj sp1)
    then show thesis
      using that [of obj sp1 "blank oid"] by (simp add: blank_def H_def live_def undropped_def has_def body_def)
  qed
qed

text \<open>Dropping the reference of the map: the object is freed at once, or with its last pair.\<close>

lemma drop_mapped_ok:
  assumes ie: "inv_except sp obj cnt np" and ob: "sp_heap sp obj = Some ob" and r: "ob_ref ob = int (cnt obj) + 1"
    and o: "object_ok (cnt obj) ob \<or> cnt obj = 0"
  obtains sp' where "drop_object obj (put_object obj (ob\<lparr>ob_mode := MODE_DROP\<rparr>) sp) = Inr sp'" "inv sp' cnt np"
    "fades (put_object obj (ob\<lparr>ob_mode := MODE_DROP\<rparr>) sp) sp'"
proof (cases "cnt obj = 0")
  case True
  let ?ob = "ob\<lparr>ob_mode := MODE_DROP\<rparr>"
  have "inv_except (put_object obj ?ob sp) obj cnt np" by (rule inv_except_put(1) [OF ie ob]) simp_all
  then obtain sp' where "drop_object obj (put_object obj ?ob sp) = Inr sp'" "inv sp' (cnt(obj := 0)) np" "fades (put_object obj ?ob sp) sp'"
    by (rule drop_last_ok [of _ _ _ _ ?ob]) (use r True in \<open>simp_all add: has_def MODE_DROP_def\<close>)
  moreover have "cnt(obj := 0) = cnt" using True by auto
  ultimately show ?thesis using that by auto
next
  case False
  let ?ob = "ob\<lparr>ob_mode := MODE_DROP\<rparr>" and ?cnt = "cnt(obj := cnt obj + 1)"
  have "object_ok (?cnt obj) ?ob" using o r False by (auto simp: object_ok_def has_def MODE_DROP_def)
  moreover have "inv_except sp obj ?cnt np" using ie ob unfolding inv_except_def by auto
  ultimately have inv: "inv (put_object obj ?ob sp) ?cnt np" by (intro inv_except_put(2) [OF _ ob]) simp_all
  obtain sp' where "drop_object obj (put_object obj ?ob sp) = Inr sp'" "inv sp' (?cnt(obj := ?cnt obj - 1)) np" "fades (put_object obj ?ob sp) sp'"
    by (rule drop_object_ok [OF inv, of obj]) simp_all
  moreover have "?cnt(obj := ?cnt obj - 1) = cnt" by (auto simp: fun_eq_iff)
  ultimately show ?thesis using that by metis
qed

lemma update_ok:
  assumes ok: "space_ok sp" and oid: "oid \<noteq> INVALID_ID" and len: "length (mp_slot (sp_object sp)) \<le> 2 ^ 30"
  obtains sp' where "aoi_update oid ms pos sp = Inr sp'" "space_ok sp'" "\<forall>x. x \<noteq> oid \<longrightarrow> live sp' x = live sp x"
    "case mode_loop ms False False of
       None \<Rightarrow> live sp' oid = None
     | Some (w, m) \<Rightarrow> \<exists>b. (live sp oid = Some b \<or> live sp oid = None \<and> (\<exists>v l p. b = (oid, v, 0, l, p))) \<and>
         live sp' oid = Some (step_body w m pos b)"
    "sp_hot sp' = sp_hot sp" "grew sp sp'"
proof -
  let ?H = "sp_hot sp"
  have pairs: "\<forall>p \<in> set ?H. pr_watcher p \<noteq> pr_marker p" using ok by (simp add: space_ok_def)
  obtain obj sp1 ob where q: "map_query oid sp = Inr (obj, sp1)" "inv_except sp1 obj (refs ?H) (length ?H)"
    "sp_heap sp1 obj = Some ob" "ob_id ob = oid" "sp_hot sp1 = ?H"
    "object_ok (refs ?H obj) ob \<or> ob_mode ob = 0 \<and> ob_ref ob = 1 \<and> refs ?H obj = 0"
    "\<forall>x. x \<noteq> oid \<longrightarrow> live sp1 x = live sp x"
    "\<not> has (ob_mode ob) MODE_DROP \<longrightarrow> ob_ref ob = int (refs ?H obj) + 1"
    "live sp oid = Some (body (undropped ob)) \<or> live sp oid = None \<and> (\<exists>v l p. body (undropped ob) = (oid, v, 0, l, p))"
    "grew sp sp1"
    by (rule update_start [OF ok oid len])
  have lu: "linked_up sp1" using inv_exceptD(1) [OF q(2)] .
  have get: "get_object obj sp1 = Inr ob" using q(3) by (simp add: get_object_def)
  consider "mode_loop ms False False = None" "has (ob_mode ob) MODE_DROP" | "mode_loop ms False False = None" "\<not> has (ob_mode ob) MODE_DROP"
    | w m where "mode_loop ms False False = Some (w, m)" by (cases "mode_loop ms False False") auto
  then show thesis
  proof cases
    case 1
    moreover have "\<not> has 0 MODE_DROP" by (simp add: has_def)
    ultimately have "object_ok (refs ?H obj) ob" using q(6) by auto
    then have "inv sp1 (refs ?H) (length ?H)" using q(2,3) unfolding inv_except_def inv_def by (metis option.inject)
    then show thesis
      using that [of sp1] 1 q get pairs look_heap [OF lu q(3)] by (simp add: aoi_update_def space_ok_def live_def)
  next
    case 2
    let ?ob = "ob\<lparr>ob_mode := MODE_DROP\<rparr>"
    let ?sp2 = "put_object obj ?ob sp1"
    have lu2: "linked_up ?sp2" by (rule linked_up_put [OF lu q(3)]) simp
    obtain sp' where sp': "drop_object obj ?sp2 = Inr sp'" "inv sp' (refs ?H) (length ?H)" "fades ?sp2 sp'"
      by (rule drop_mapped_ok [OF q(2,3)]) (use q(6,8) 2(2) in auto)
    have "live ?sp2 = (live sp1)(oid := None)"
      using live_put [OF lu q(3), of ?ob] q(4) by (simp add: has_def MODE_DROP_def)
    then have "live sp' = (live sp1)(oid := None)" using fades_live [OF lu2 invD(1) [OF sp'(2)] sp'(3)] by simp
    moreover have "sp_hot sp' = ?H" using sp'(3) q(5) by (simp add: fades_def)
    moreover have "grew sp sp'" using sp'(3) q(10) by (simp add: fades_def grew_def Let_def)
    ultimately show thesis
      using that [of sp'] sp'(1,2) 2 q(1,7) get pairs by (simp add: space_ok_def aoi_update_def)
  next
    case 3
    obtain ob' where w: "move_object w m pos ob = Inr ob'"
      "object_ok (refs ?H obj) ob'" "ob_id ob' = ob_id ob" "ob_position ob' = Some pos"
      "has (ob_mode ob') MODE_WATCHER \<longleftrightarrow> w" "has (ob_mode ob') MODE_MARKER \<longleftrightarrow> m" "\<not> has (ob_mode ob') MODE_DROP"
      "body ob' = step_body w m pos (body (undropped ob))"
      by (rule move_object_ok [OF q(6)])
    have "aoi_update oid ms pos sp = Inr (put_object obj ob' sp1)"
      using 3 q(1) get w(1) by (simp add: aoi_update_def)
    moreover have "inv (put_object obj ob' sp1) (refs ?H) (length ?H)"
      by (rule inv_except_put(2) [OF q(2,3) w(3,2)])
    moreover have "live (put_object obj ob' sp1) = (live sp1)(oid \<mapsto> body ob')"
      using live_put [OF lu q(3) w(3)] w(7) q(4) by simp
    moreover have "\<exists>b. (live sp oid = Some b \<or> live sp oid = None \<and> (\<exists>v l p. b = (oid, v, 0, l, p))) \<and>
        body ob' = step_body w m pos b"
      using q(9) w(8) by blast
    moreover have "grew sp (put_object obj ob' sp1)" using q(10) by (simp add: grew_def)
    ultimately show thesis
      using that [of "put_object obj ob' sp1"] 3 q(5,7) pairs by (simp add: space_ok_def)
  qed
qed

section \<open>Flushing the hot pairs\<close>

text \<open>The distance of two objects of the store, when both are there and have a position.\<close>

definition distance :: "aoi_space \<Rightarrow> objref \<Rightarrow> objref \<Rightarrow> f32 option" where
  "distance sp a b = (case (sp_heap sp a, sp_heap sp b) of
     (Some x, Some y) \<Rightarrow> (case dist2 x y of Inr d \<Rightarrow> Some d | Inl _ \<Rightarrow> None) | _ \<Rightarrow> None)"

definition id_of :: "aoi_space \<Rightarrow> objref \<Rightarrow> u32" where
  "id_of sp obj = (case sp_heap sp obj of Some ob \<Rightarrow> ob_id ob | None \<Rightarrow> 0)"

text \<open>A hot pair still counts if neither side changed or was dropped since it was made.\<close>

definition valid_pair :: "aoi_space \<Rightarrow> pair_list \<Rightarrow> bool" where
  "valid_pair sp p \<longleftrightarrow> (case (sp_heap sp (pr_watcher p), sp_heap sp (pr_marker p)) of
     (Some w, Some m) \<Rightarrow> ob_version w = pr_watcher_version p \<and> ob_version m = pr_marker_version p \<and>
       \<not> has (ob_mode w) MODE_DROP \<and> \<not> has (ob_mode m) MODE_DROP
   | _ \<Rightarrow> False)"

definition in_range :: "f32 option \<Rightarrow> bool" where
  "in_range d \<longleftrightarrow> (case d of Some d \<Rightarrow> flt d AOI_RADIS2 | None \<Rightarrow> False)"

definition beyond :: "f32 option \<Rightarrow> bool" where
  "beyond d \<longleftrightarrow> (case d of Some d \<Rightarrow> flt LEAVE_AOI_RADIS d | None \<Rightarrow> False)"

definition hot_distance :: "aoi_space \<Rightarrow> pair_list \<Rightarrow> f32 option" where
  "hot_distance sp p = distance sp (pr_watcher p) (pr_marker p)"

definition reported :: "aoi_space \<Rightarrow> pair_list \<Rightarrow> bool" where
  "reported sp p \<longleftrightarrow> valid_pair sp p \<and> \<not> beyond (hot_distance sp p) \<and> in_range (hot_distance sp p)"

definition stays_hot :: "aoi_space \<Rightarrow> pair_list \<Rightarrow> bool" where
  "stays_hot sp p \<longleftrightarrow> valid_pair sp p \<and> \<not> beyond (hot_distance sp p) \<and> \<not> in_range (hot_distance sp p)"

definition ids :: "aoi_space \<Rightarrow> pair_list \<Rightarrow> callback" where
  "ids sp p = (id_of sp (pr_watcher p), id_of sp (pr_marker p))"

lemma pair_cong:
  assumes "\<And>obj. obj = pr_watcher p \<or> obj = pr_marker p \<Longrightarrow>
    \<exists>ob ob'. sp_heap sp obj = Some ob \<and> sp_heap sp' obj = Some ob' \<and> body ob' = body ob"
  shows "reported sp' p = reported sp p" "stays_hot sp' p = stays_hot sp p" "ids sp' p = ids sp p"
proof -
  obtain w w' m m' where h: "sp_heap sp (pr_watcher p) = Some w" "sp_heap sp' (pr_watcher p) = Some w'" "body w' = body w"
    "sp_heap sp (pr_marker p) = Some m" "sp_heap sp' (pr_marker p) = Some m'" "body m' = body m"
    using assms by metis
  have "valid_pair sp' p = valid_pair sp p" using h by (simp add: valid_pair_def body_def)
  moreover have "hot_distance sp' p = hot_distance sp p"
    using h by (simp add: hot_distance_def distance_def dist2_def body_def)
  ultimately show "reported sp' p = reported sp p" "stays_hot sp' p = stays_hot sp p"
    by (simp_all add: reported_def stays_hot_def)
  show "ids sp' p = ids sp p" using h by (simp add: ids_def id_of_def body_def)
qed

lemma held_pair:
  assumes "inv sp (refs H) np" "p \<in> set H"
  shows "sp_heap sp (pr_watcher p) \<noteq> None" "sp_heap sp (pr_marker p) \<noteq> None"
proof -
  have "0 < refs H (pr_watcher p)" "0 < refs H (pr_marker p)"
    using assms(2) by (auto simp: refs_def filter_empty_conv)
  then show "sp_heap sp (pr_watcher p) \<noteq> None" "sp_heap sp (pr_marker p) \<noteq> None"
    using invD(4) [OF assms(1)] by auto
qed

lemma held_same:
  assumes "fades sp sp'" "inv sp' (refs H) np" "p \<in> set H" "obj = pr_watcher p \<or> obj = pr_marker p"
  shows "\<exists>ob ob'. sp_heap sp obj = Some ob \<and> sp_heap sp' obj = Some ob' \<and> body ob' = body ob"
proof -
  have "sp_heap sp' obj \<noteq> None" using held_pair [OF assms(2,3)] assms(4) by auto
  then show ?thesis using fadesD(1) [OF assms(1)] by blast
qed

lemma flush_loop_ok:
  assumes "inv sp (refs (K @ ps)) (length (K @ ps))"
  shows "\<exists>sp'. flush_loop ps sp = Inr (map (ids sp) (filter (reported sp) ps), filter (stays_hot sp) ps, sp') \<and>
    inv sp' (refs (K @ filter (stays_hot sp) ps)) (length (K @ filter (stays_hot sp) ps)) \<and> fades sp sp'"
  using assms
proof (induction ps arbitrary: K sp)
  case Nil
  then show ?case by (simp add: fades_refl)
next
  case (Cons p ps)
  have inv: "inv sp (refs (K @ p # ps)) (length (K @ p # ps))" by fact
  obtain w m where h: "sp_heap sp (pr_watcher p) = Some w" "sp_heap sp (pr_marker p) = Some m"
    using held_pair [OF inv, of p] by auto
  have ok: "ob_position w \<noteq> None" "ob_position m \<noteq> None"
    using invD(3) [OF inv h(1)] invD(3) [OF inv h(2)] by (auto simp: object_ok_def)
  then obtain d where d: "dist2 w m = Inr d" by (auto simp: dist2_def)
  have hd: "hot_distance sp p = Some d" using h d by (simp add: hot_distance_def distance_def)
  have vp: "valid_pair sp p \<longleftrightarrow> ob_version w = pr_watcher_version p \<and> ob_version m = pr_marker_version p \<and>
      \<not> has (ob_mode w) MODE_DROP \<and> \<not> has (ob_mode m) MODE_DROP"
    using h by (simp add: valid_pair_def)
  have unf: "flush_loop (p # ps) sp = (if \<not> valid_pair sp p \<or> beyond (hot_distance sp p)
      then rbind (drop_pair p sp) (flush_loop ps)
      else if in_range (hot_distance sp p) then
        rbind (drop_pair p sp) (\<lambda>sp.
        rbind (flush_loop ps sp) (\<lambda>(cbs, keep, sp). Inr ((ob_id w, ob_id m) # cbs, keep, sp)))
      else rbind (flush_loop ps sp) (\<lambda>(cbs, keep, sp). Inr (cbs, p # keep, sp)))"
    using h d hd vp by (simp add: get_object_def beyond_def in_range_def)
  have idp: "ids sp p = (ob_id w, ob_id m)" using h by (simp add: ids_def id_of_def)
  show ?case
  proof (cases "stays_hot sp p")
    case True
    have "inv sp (refs ((K @ [p]) @ ps)) (length ((K @ [p]) @ ps))" using inv by simp
    from Cons.IH [OF this] True show ?thesis
      unfolding unf by (auto simp: stays_hot_def [of sp p] reported_def [of sp p])
  next
    case False
    have "refs (K @ p # ps) = refs (p # (K @ ps))" by (simp add: fun_eq_iff)
    then have "inv sp (refs (p # (K @ ps))) (Suc (length (K @ ps)))" using inv by simp
    then obtain sp1 where sp1: "drop_pair p sp = Inr sp1" "inv sp1 (refs (K @ ps)) (length (K @ ps))" "fades sp sp1"
      by (rule drop_pair_ok)
    have same: "reported sp1 q = reported sp q" "stays_hot sp1 q = stays_hot sp q" "ids sp1 q = ids sp q"
      if "q \<in> set ps" for q
      using pair_cong [of q sp sp1] held_same [OF sp1(3,2), of q] that by simp_all
    have fs: "filter (reported sp1) ps = filter (reported sp) ps" "filter (stays_hot sp1) ps = filter (stays_hot sp) ps"
      "map (ids sp1) (filter (reported sp) ps) = map (ids sp) (filter (reported sp) ps)"
      using same by (auto intro: filter_cong map_cong)
    obtain sp' where sp': "flush_loop ps sp1 = Inr (map (ids sp) (filter (reported sp) ps), filter (stays_hot sp) ps, sp')"
      "inv sp' (refs (K @ filter (stays_hot sp) ps)) (length (K @ filter (stays_hot sp) ps))" "fades sp1 sp'"
      using Cons.IH [OF sp1(2)] unfolding fs by blast
    have "fades sp sp'" by (rule fades_trans [OF sp1(3) sp'(3)])
    then show ?thesis
      using False sp1(1) sp'(1,2) idp unfolding unf
      by (auto simp: stays_hot_def [of sp p] reported_def [of sp p] simp del: refs_simps)
  qed
qed

text \<open>The map keeps its size and the slots it uses.\<close>

definition same_size :: "aoi_space \<Rightarrow> aoi_space \<Rightarrow> bool" where
  "same_size sp sp' \<longleftrightarrow> length (mp_slot (sp_object sp')) = length (mp_slot (sp_object sp)) \<and>
     load (mp_slot (sp_object sp')) = load (mp_slot (sp_object sp))"

lemma flush_pair_ok:
  assumes "space_ok sp"
  obtains sp' where "flush_pair sp = Inr (map (ids sp) (filter (reported sp) (sp_hot sp)), sp')"
    "space_ok sp'" "live sp' = live sp" "sp_hot sp' = filter (stays_hot sp) (sp_hot sp)" "same_size sp sp'"
proof -
  have inv: "inv sp (refs (sp_hot sp)) (length (sp_hot sp))" using assms by (simp add: space_ok_def)
  obtain sp1 where 1: "flush_loop (sp_hot sp) sp =
      Inr (map (ids sp) (filter (reported sp) (sp_hot sp)), filter (stays_hot sp) (sp_hot sp), sp1)"
    "inv sp1 (refs (filter (stays_hot sp) (sp_hot sp))) (length (filter (stays_hot sp) (sp_hot sp)))" "fades sp sp1"
    using flush_loop_ok [of sp "[]" "sp_hot sp"] inv by auto
  let ?sp = "sp1\<lparr>sp_hot := filter (stays_hot sp) (sp_hot sp)\<rparr>"
  have "space_ok ?sp"
    using 1(2) assms by (auto simp: space_ok_def inv_def linked_up_def accounted_def caps_def)
  moreover have "live sp1 = live sp"
    by (rule fades_live [OF invD(1) [OF inv] invD(1) [OF 1(2)] 1(3)])
  then have "live ?sp = live sp" using live_eqI [of ?sp sp1] by simp
  moreover have "same_size sp ?sp" using 1(3) by (simp add: same_size_def fades_def)
  ultimately show ?thesis using that [of ?sp] 1(1) by (simp add: flush_pair_def)
qed

section \<open>Collecting the sets\<close>

definition still :: "object \<Rightarrow> object" where
  "still ob = (if (has (ob_mode ob) MODE_WATCHER \<or> has (ob_mode ob) MODE_MARKER) \<and> has (ob_mode ob) MODE_MOVE
     then ob\<lparr>ob_mode := ob_mode ob AND NOT MODE_MOVE\<rparr> else ob)"

text \<open>The four kinds of members, by mode.\<close>

definition w_static :: "u32 \<Rightarrow> bool" where "w_static mode \<longleftrightarrow> has mode MODE_WATCHER \<and> \<not> has mode MODE_MOVE"
definition w_move :: "u32 \<Rightarrow> bool" where "w_move mode \<longleftrightarrow> has mode MODE_WATCHER \<and> has mode MODE_MOVE"
definition m_static :: "u32 \<Rightarrow> bool" where "m_static mode \<longleftrightarrow> has mode MODE_MARKER \<and> \<not> has mode MODE_MOVE"
definition m_move :: "u32 \<Rightarrow> bool" where "m_move mode \<longleftrightarrow> has mode MODE_MARKER \<and> has mode MODE_MOVE"

lemmas kinds = w_static_def w_move_def m_static_def m_move_def

definition kind_of :: "(u32 \<Rightarrow> bool) \<Rightarrow> aoi_space \<Rightarrow> objref \<Rightarrow> bool" where
  "kind_of k sp obj \<longleftrightarrow> (\<exists>ob. sp_heap sp obj = Some ob \<and> k (ob_mode ob))"

text \<open>How a space grows while its sets are collected: only members and capacities.\<close>

definition collected :: "aoi_space \<Rightarrow> objref list \<Rightarrow> aoi_space \<Rightarrow> bool" where
  "collected sp objs sp' \<longleftrightarrow>
     os_slot (sp_watcher_static sp') = os_slot (sp_watcher_static sp) @ filter (kind_of w_static sp) objs \<and>
     os_slot (sp_watcher_move sp') = os_slot (sp_watcher_move sp) @ filter (kind_of w_move sp) objs \<and>
     os_slot (sp_marker_static sp') = os_slot (sp_marker_static sp) @ filter (kind_of m_static sp) objs \<and>
     os_slot (sp_marker_move sp') = os_slot (sp_marker_move sp) @ filter (kind_of m_move sp) objs \<and>
     sp_heap sp' = (\<lambda>obj. if obj \<in> set objs then map_option still (sp_heap sp obj) else sp_heap sp obj) \<and>
     sp_object sp' = sp_object sp \<and> sp_hot sp' = sp_hot sp \<and> sp_fresh sp' = sp_fresh sp"

lemma set_push_back_ok:
  assumes "set_push_back obj (os, c) = (os', c')"
  shows "os_slot os' = os_slot os @ [obj]" "ck_count c' = ck_count c"
    "ck_current c' = ck_current c + (int (os_cap os') - int (os_cap os)) * sizeof_pointer"
  using assms by (auto simp: set_push_back_def my_alloc_def my_free_def Let_def algebra_simps split: if_splits)

text \<open>A push changes one set and the accounting, in step.\<close>

definition pushes :: "aoi_space \<Rightarrow> aoi_space \<Rightarrow> bool" where
  "pushes sp sp' \<longleftrightarrow> sp_heap sp' = sp_heap sp \<and> sp_object sp' = sp_object sp \<and> sp_hot sp' = sp_hot sp \<and>
     sp_fresh sp' = sp_fresh sp \<and> ck_count (sp_cookie sp') = ck_count (sp_cookie sp) \<and>
     ck_current (sp_cookie sp') = ck_current (sp_cookie sp) + (int (caps sp') - int (caps sp)) * sizeof_pointer"

lemma pushes_trans: "pushes sp sp' \<Longrightarrow> pushes sp' sp'' \<Longrightarrow> pushes sp sp''"
  by (simp add: pushes_def left_diff_distrib)

lemma push_ok:
  "pushes sp sp" "pushes sp (push_watcher_move obj sp)" "pushes sp (push_watcher_static obj sp)"
  "pushes sp (push_marker_move obj sp)" "pushes sp (push_marker_static obj sp)"
  by (simp_all add: pushes_def caps_def push_watcher_move_def push_watcher_static_def push_marker_move_def
      push_marker_static_def case_prod_beta set_push_back_ok [OF surjective_pairing] left_diff_distrib)

lemma push_slots:
  "os_slot (sp_watcher_move (push_watcher_move obj sp)) = os_slot (sp_watcher_move sp) @ [obj]"
  "sp_watcher_static (push_watcher_move obj sp) = sp_watcher_static sp"
  "sp_marker_move (push_watcher_move obj sp) = sp_marker_move sp"
  "sp_marker_static (push_watcher_move obj sp) = sp_marker_static sp"
  "os_slot (sp_watcher_static (push_watcher_static obj sp)) = os_slot (sp_watcher_static sp) @ [obj]"
  "sp_watcher_move (push_watcher_static obj sp) = sp_watcher_move sp"
  "sp_marker_move (push_watcher_static obj sp) = sp_marker_move sp"
  "sp_marker_static (push_watcher_static obj sp) = sp_marker_static sp"
  "os_slot (sp_marker_move (push_marker_move obj sp)) = os_slot (sp_marker_move sp) @ [obj]"
  "sp_watcher_static (push_marker_move obj sp) = sp_watcher_static sp"
  "sp_watcher_move (push_marker_move obj sp) = sp_watcher_move sp"
  "sp_marker_static (push_marker_move obj sp) = sp_marker_static sp"
  "os_slot (sp_marker_static (push_marker_static obj sp)) = os_slot (sp_marker_static sp) @ [obj]"
  "sp_watcher_static (push_marker_static obj sp) = sp_watcher_static sp"
  "sp_watcher_move (push_marker_static obj sp) = sp_watcher_move sp"
  "sp_marker_move (push_marker_static obj sp) = sp_marker_move sp"
  by (simp_all add: push_watcher_move_def push_watcher_static_def push_marker_move_def
      push_marker_static_def case_prod_beta set_push_back_ok [OF surjective_pairing])

lemma pushes_inv:
  assumes "inv sp cnt np" "pushes sp sp'"
  shows "inv sp' cnt np"
proof -
  have f: "sp_heap sp' = sp_heap sp" "sp_object sp' = sp_object sp" "sp_fresh sp' = sp_fresh sp"
    using assms(2) by (simp_all add: pushes_def)
  have "accounted sp' np"
    using invD(2) [OF assms(1)] assms(2) unfolding accounted_def pushes_def by (simp add: left_diff_distrib)
  then show ?thesis
    using assms(1) unfolding inv_def linked_up_def f by simp
qed

lemma put_sets [simp]:
  "sp_watcher_static (put_object obj ob sp) = sp_watcher_static sp"
  "sp_watcher_move (put_object obj ob sp) = sp_watcher_move sp"
  "sp_marker_static (put_object obj ob sp) = sp_marker_static sp"
  "sp_marker_move (put_object obj ob sp) = sp_marker_move sp"
  by (simp_all add: put_object_def)

lemma set_push_ok:
  assumes inv: "inv sp cnt np" and h: "sp_heap sp obj = Some ob"
  shows "\<exists>sp'. set_push obj sp = Inr sp' \<and> inv sp' cnt np \<and> collected sp [obj] sp'"
proof -
  have o: "object_ok (cnt obj) (still ob)" "ob_id (still ob) = ob_id ob"
    using invD(3) [OF inv h] by (auto simp: object_ok_def still_def mode_simps)
  define sp1 where "sp1 = (if w_move (ob_mode ob) then push_watcher_move obj sp
    else if w_static (ob_mode ob) then push_watcher_static obj sp else sp)"
  define sp2 where "sp2 = (if m_move (ob_mode ob) then push_marker_move obj sp1
    else if m_static (ob_mode ob) then push_marker_static obj sp1 else sp1)"
  have eq: "set_push obj sp = Inr (put_object obj (still ob) sp2)"
    using h by (auto simp: set_push_def get_object_def Let_def sp1_def sp2_def kinds still_def put_object_def
        push_watcher_move_def push_watcher_static_def push_marker_move_def push_marker_static_def
        case_prod_beta fun_upd_idem)
  have "pushes sp sp1" by (simp add: sp1_def push_ok)
  moreover have "pushes sp1 sp2" by (simp add: sp2_def push_ok)
  ultimately have p: "pushes sp sp2" by (rule pushes_trans)
  have h2: "sp_heap sp2 obj = Some ob" using p h by (simp add: pushes_def)
  have "inv (put_object obj (still ob) sp2) cnt np"
    by (rule inv_put [OF pushes_inv [OF inv p] h2 o(2)]) (simp_all add: o(1))
  moreover have k: "kind_of k sp obj \<longleftrightarrow> k (ob_mode ob)" for k using h by (simp add: kind_of_def)
  have "collected sp [obj] (put_object obj (still ob) sp2)"
    using p h unfolding collected_def pushes_def
    by (auto simp: k sp2_def sp1_def push_slots kinds fun_eq_iff)
  ultimately show ?thesis using eq by blast
qed

lemma collected_kind:
  assumes "collected sp [obj] sp'" "obj' \<noteq> obj"
  shows "kind_of k sp' obj' \<longleftrightarrow> kind_of k sp obj'"
  using assms by (simp add: collected_def kind_of_def)

lemma collected_Cons:
  assumes 1: "collected sp [obj] sp1" and 2: "collected sp1 objs sp2" and n: "obj \<notin> set objs"
  shows "collected sp (obj # objs) sp2"
proof -
  have "filter (kind_of k sp1) objs = filter (kind_of k sp) objs" for k
    using n collected_kind [OF 1] by (intro filter_cong refl) metis
  then show ?thesis
    using 1 2 n unfolding collected_def by (auto simp: fun_eq_iff)
qed

lemma foreach_push:
  assumes "inv sp cnt np" "distinct (map snd (entries ss))" "\<forall>e \<in> set (entries ss). sp_heap sp (snd e) \<noteq> None"
  shows "\<exists>sp'. foreach_loop set_push ss sp = Inr sp' \<and> inv sp' cnt np \<and> collected sp (map snd (entries ss)) sp'"
  using assms
proof (induction ss arbitrary: sp)
  case Nil
  then show ?case by (simp add: collected_def)
next
  case (Cons s ss)
  show ?case
  proof (cases "sl_obj s")
    case None
    then show ?thesis using Cons by simp
  next
    case (Some obj)
    then obtain ob where h: "sp_heap sp obj = Some ob" using Cons.prems(3) by auto
    obtain sp1 where sp1: "set_push obj sp = Inr sp1" "inv sp1 cnt np" "collected sp [obj] sp1"
      using set_push_ok [OF Cons.prems(1) h] by blast
    have n: "obj \<notin> set (map snd (entries ss))" "distinct (map snd (entries ss))" using Cons.prems(2) Some by auto
    have "\<forall>e \<in> set (entries ss). sp_heap sp1 (snd e) \<noteq> None"
      using Cons.prems(3) sp1(3) Some by (auto simp: collected_def)
    then obtain sp' where sp': "foreach_loop set_push ss sp1 = Inr sp'" "inv sp' cnt np"
      "collected sp1 (map snd (entries ss)) sp'"
      using Cons.IH [OF sp1(2) n(2)] by blast
    show ?thesis
      using Some sp1(1) sp'(1,2) collected_Cons [OF sp1(3) sp'(3) n(1)] by simp
  qed
qed

section \<open>Generating the pairs\<close>

text \<open>Only counters of references, the hot list and the accounting change.\<close>

definition steady :: "aoi_space \<Rightarrow> aoi_space \<Rightarrow> bool" where
  "steady sp sp' \<longleftrightarrow> (\<forall>obj. map_option body (sp_heap sp' obj) = map_option body (sp_heap sp obj)) \<and>
     sp_object sp' = sp_object sp \<and> sp_watcher_static sp' = sp_watcher_static sp \<and>
     sp_marker_static sp' = sp_marker_static sp \<and> sp_watcher_move sp' = sp_watcher_move sp \<and>
     sp_marker_move sp' = sp_marker_move sp"

definition close :: "aoi_space \<Rightarrow> objref \<times> objref \<Rightarrow> bool" where
  "close sp wm \<longleftrightarrow> fst wm \<noteq> snd wm \<and> in_range (distance sp (fst wm) (snd wm))"

lemma steady_refl: "steady sp sp"
  by (simp add: steady_def)

lemma steady_trans: "steady sp sp' \<Longrightarrow> steady sp' sp'' \<Longrightarrow> steady sp sp''"
  by (simp add: steady_def)

lemma steady_heap:
  assumes "steady sp sp'"
  obtains "sp_heap sp obj = None" "sp_heap sp' obj = None"
  | ob ob' where "sp_heap sp obj = Some ob" "sp_heap sp' obj = Some ob'" "body ob' = body ob"
proof -
  have "map_option body (sp_heap sp' obj) = map_option body (sp_heap sp obj)" using assms by (simp add: steady_def)
  then show ?thesis using that by (cases "sp_heap sp obj"; cases "sp_heap sp' obj") auto
qed

lemma steady_same:
  assumes "steady sp sp'"
  shows "id_of sp' obj = id_of sp obj" "distance sp' a b = distance sp a b" "close sp' = close sp"
    "sp_heap sp' obj = None \<longleftrightarrow> sp_heap sp obj = None" "live sp' = live sp"
proof -
  show "id_of sp' obj = id_of sp obj"
    by (cases rule: steady_heap [OF assms, of obj]) (auto simp: id_of_def body_def)
  show d: "distance sp' a b = distance sp a b" for a b
    by (cases rule: steady_heap [OF assms, of a]; cases rule: steady_heap [OF assms, of b])
      (auto simp: distance_def dist2_def body_def)
  show "close sp' = close sp" by (simp add: close_def d fun_eq_iff)
  show "sp_heap sp' obj = None \<longleftrightarrow> sp_heap sp obj = None"
    by (cases rule: steady_heap [OF assms, of obj]) auto
  show "live sp' = live sp"
  proof
    fix x
    have m: "sp_object sp' = sp_object sp" using assms by (simp add: steady_def)
    show "live sp' x = live sp x"
    proof (cases "lookup (mp_slot (sp_object sp)) x")
      case (Some obj)
      then show ?thesis
        by (cases rule: steady_heap [OF assms, of obj]) (auto simp: live_def look_def m body_def)
    qed (simp add: live_def look_def m)
  qed
qed

text \<open>An object that is there and not dropped.\<close>

definition present :: "aoi_space \<Rightarrow> objref \<Rightarrow> bool" where
  "present sp obj \<longleftrightarrow> (case sp_heap sp obj of Some ob \<Rightarrow> \<not> has (ob_mode ob) MODE_DROP | None \<Rightarrow> False)"

lemma present_steady: "steady sp sp' \<Longrightarrow> present sp' = present sp"
proof
  fix obj
  assume "steady sp sp'"
  then show "present sp' obj = present sp obj"
    by (cases rule: steady_heap [of sp sp' obj]) (auto simp: present_def body_def)
qed

text \<open>A pair becomes hot when its sides are neither in range nor beyond the range of leaving.\<close>

definition border :: "aoi_space \<Rightarrow> pair_list \<Rightarrow> bool" where
  "border sp p \<longleftrightarrow> present sp (pr_watcher p) \<and> present sp (pr_marker p) \<and>
     \<not> in_range (hot_distance sp p) \<and> \<not> beyond (hot_distance sp p)"

definition warms :: "aoi_space \<Rightarrow> aoi_space \<Rightarrow> bool" where
  "warms sp sp' \<longleftrightarrow> steady sp sp' \<and> (\<forall>p \<in> set (sp_hot sp'). p \<in> set (sp_hot sp) \<or> border sp p)"

lemma border_steady: "steady sp sp' \<Longrightarrow> border sp' = border sp"
  by (simp add: border_def hot_distance_def steady_same(2) present_steady fun_eq_iff)

lemma warms_refl: "warms sp sp"
  by (simp add: warms_def steady_refl)

lemma warms_trans: "warms sp sp' \<Longrightarrow> warms sp' sp'' \<Longrightarrow> warms sp sp''"
  using border_steady [of sp sp'] steady_trans [of sp sp' sp''] unfolding warms_def by metis

lemma warms_steady: "warms sp sp' \<Longrightarrow> steady sp sp'"
  by (simp add: warms_def)

lemma gen_pair_ok:
  assumes ok: "space_ok sp" and h: "present sp w" "present sp m"
  shows "\<exists>sp'. gen_pair w m sp = Inr (if close sp (w, m) then [(id_of sp w, id_of sp m)] else [], sp') \<and>
    space_ok sp' \<and> warms sp sp'"
proof (cases "w = m")
  case True
  then show ?thesis using ok by (simp add: gen_pair_def close_def warms_refl)
next
  case False
  have inv: "inv sp (refs (sp_hot sp)) (length (sp_hot sp))" using ok by (simp add: space_ok_def)
  obtain a b where ab: "sp_heap sp w = Some a" "sp_heap sp m = Some b" using h by (auto simp: present_def split: option.splits)
  have "ob_position a \<noteq> None" "ob_position b \<noteq> None"
    using invD(3) [OF inv ab(1)] invD(3) [OF inv ab(2)] by (auto simp: object_ok_def)
  then obtain d where d: "dist2 a b = Inr d" by (auto simp: dist2_def)
  have dist: "distance sp w m = Some d" using ab d by (simp add: distance_def)
  consider "flt d AOI_RADIS2" | "\<not> flt d AOI_RADIS2" "flt LEAVE_AOI_RADIS d" | "\<not> flt d AOI_RADIS2" "\<not> flt LEAVE_AOI_RADIS d"
    by blast
  then show ?thesis
  proof cases
    case 1
    then show ?thesis using False ab d dist ok
      by (simp add: gen_pair_def close_def get_object_def in_range_def id_of_def warms_refl)
  next
    case 2
    then show ?thesis using False ab d dist ok
      by (simp add: gen_pair_def close_def get_object_def in_range_def id_of_def warms_refl)
  next
    case 3
    let ?sp1 = "put_object w (a\<lparr>ob_ref := ob_ref a + 1\<rparr>) sp"
    let ?c1 = "(refs (sp_hot sp))(w := refs (sp_hot sp) w + 1)"
    note g1 = grab_object_ok [OF inv ab(1)]
    have b1: "sp_heap ?sp1 m = Some b" using ab(2) False by simp
    let ?sp2 = "put_object m (b\<lparr>ob_ref := ob_ref b + 1\<rparr>) ?sp1"
    note g2 = grab_object_ok [OF g1(2) b1]
    let ?p = "\<lparr>pr_watcher = w, pr_marker = m, pr_watcher_version = ob_version a, pr_marker_version = ob_version b\<rparr>"
    let ?sp = "?sp2\<lparr>sp_hot := ?p # sp_hot sp, sp_cookie := my_alloc sizeof_pair_list (sp_cookie sp)\<rparr>"
    have "gen_pair w m sp = Inr ([], ?sp)"
      using 3 False ab d g1(1) g2(1) by (simp add: gen_pair_def get_object_def)
    moreover have "?c1(m := ?c1 m + 1) = refs (?p # sp_hot sp)"
      by (auto simp: fun_eq_iff)
    then have "inv ?sp2 (refs (?p # sp_hot sp)) (length (sp_hot sp))" using g2(2) by simp
    then have "space_ok ?sp"
      using ok False unfolding space_ok_def inv_def linked_up_def accounted_def
      by (simp add: my_alloc_def Let_def caps_def put_object_def distrib_right)
    moreover have "steady sp ?sp"
      using ab False by (auto simp: steady_def body_def)
    then have "warms sp ?sp" using 3 dist h by (simp add: warms_def border_def hot_distance_def in_range_def beyond_def)
    ultimately show ?thesis using 3 dist by (auto simp: close_def in_range_def)
  qed
qed

definition callbacks :: "aoi_space \<Rightarrow> (objref \<times> objref) list \<Rightarrow> callback list" where
  "callbacks sp ps = map (\<lambda>(w, m). (id_of sp w, id_of sp m)) (filter (close sp) ps)"

lemma callbacks_append [simp]: "callbacks sp (ps @ qs) = callbacks sp ps @ callbacks sp qs"
  by (simp add: callbacks_def)

lemma callbacks_steady: "steady sp sp' \<Longrightarrow> callbacks sp' = callbacks sp"
  by (simp add: callbacks_def steady_same fun_eq_iff)

lemma gen_inner_ok:
  assumes "space_ok sp" "present sp w" "\<forall>m \<in> set ms. present sp m"
  shows "\<exists>sp'. gen_inner w ms sp = Inr (callbacks sp (map (Pair w) ms), sp') \<and> space_ok sp' \<and> warms sp sp'"
  using assms
proof (induction ms arbitrary: sp)
  case Nil
  then show ?case by (simp add: callbacks_def warms_refl)
next
  case (Cons m ms)
  obtain sp1 where 1: "gen_pair w m sp = Inr (if close sp (w, m) then [(id_of sp w, id_of sp m)] else [], sp1)"
    "space_ok sp1" "warms sp sp1"
    using gen_pair_ok [OF Cons.prems(1,2), of m] Cons.prems(3) by auto
  obtain sp2 where 2: "gen_inner w ms sp1 = Inr (callbacks sp (map (Pair w) ms), sp2)" "space_ok sp2" "warms sp1 sp2"
    using Cons.IH [OF 1(2)] Cons.prems(2,3) present_steady [OF warms_steady [OF 1(3)]] callbacks_steady [OF warms_steady [OF 1(3)]] by auto
  then show ?case
    using 1(1) warms_trans [OF 1(3) 2(3)] by (auto simp: callbacks_def)
qed

lemma gen_pair_list_ok:
  assumes "space_ok sp" "\<forall>w \<in> set ws. present sp w" "\<forall>m \<in> set ms. present sp m"
  shows "\<exists>sp'. gen_pair_list ws ms sp = Inr (callbacks sp (List.product ws ms), sp') \<and> space_ok sp' \<and> warms sp sp'"
  using assms
proof (induction ws arbitrary: sp)
  case Nil
  then show ?case by (simp add: callbacks_def warms_refl)
next
  case (Cons w ws)
  obtain sp1 where 1: "gen_inner w ms sp = Inr (callbacks sp (map (Pair w) ms), sp1)" "space_ok sp1" "warms sp sp1"
    using gen_inner_ok [OF Cons.prems(1) _ Cons.prems(3), of w] Cons.prems(2) by auto
  obtain sp2 where 2: "gen_pair_list ws ms sp1 = Inr (callbacks sp (List.product ws ms), sp2)" "space_ok sp2" "warms sp1 sp2"
    using Cons.IH [OF 1(2)] Cons.prems(2,3) present_steady [OF warms_steady [OF 1(3)]] callbacks_steady [OF warms_steady [OF 1(3)]] by auto
  then show ?case
    using 1(1) warms_trans [OF 1(3) 2(3)] by simp
qed

section \<open>The message round\<close>

text \<open>
  What a round has to report, besides the hot pairs: every watcher and marker in range of each
  other of which at least one moved.
\<close>

definition notices :: "(u32 \<rightharpoonup> u32 \<times> int \<times> u32 \<times> vec3 option \<times> vec3 option) \<Rightarrow> callback set" where
  "notices L = {(i, j). i \<noteq> j \<and> (\<exists>v mode l p v' mode' l' p'.
     L i = Some (i, v, mode, l, Some p) \<and> L j = Some (j, v', mode', l', Some p') \<and>
     has mode MODE_WATCHER \<and> has mode' MODE_MARKER \<and> (has mode MODE_MOVE \<or> has mode' MODE_MOVE) \<and>
     flt (DIST2 p p') AOI_RADIS2)}"

text \<open>After the round nothing that watches or marks counts as moved.\<close>

definition at_rest :: "u32 \<times> int \<times> u32 \<times> vec3 option \<times> vec3 option \<Rightarrow> u32 \<times> int \<times> u32 \<times> vec3 option \<times> vec3 option" where
  "at_rest b = (case b of (i, v, mode, l, p) \<Rightarrow>
     (i, v, if (has mode MODE_WATCHER \<or> has mode MODE_MARKER) \<and> has mode MODE_MOVE
            then mode AND NOT MODE_MOVE else mode, l, p))"

definition objects :: "aoi_space \<Rightarrow> objref list" where
  "objects sp = map snd (entries (mp_slot (sp_object sp)))"

lemma objects_ok:
  assumes lu: "linked_up sp"
  shows "distinct (objects sp)" "set (objects sp) = dom (sp_heap sp)"
proof -
  let ?E = "entries (mp_slot (sp_object sp))"
  have sok: "slots_ok (mp_slot (sp_object sp))" using linked_upD(1) [OF lu] by (simp add: map_ok_def)
  note e = entries_lookup [OF sok]
  have mem: "e \<in> set ?E \<longleftrightarrow> lookup (mp_slot (sp_object sp)) (fst e) = Some (snd e)" for e
    using e(1,2) by (metis map_of_eq_Some_iff prod.collapse)
  have "inj_on snd (set ?E)"
    using mem linked_upD(2) [OF lu] by (intro inj_onI) (metis option.inject prod_eqI)
  moreover have "distinct ?E" using e(1) by (simp add: distinct_map)
  ultimately show "distinct (objects sp)" by (simp add: objects_def distinct_map)
  show "set (objects sp) = dom (sp_heap sp)"
  proof (intro set_eqI iffI)
    fix obj assume "obj \<in> set (objects sp)"
    then obtain oid where "lookup (mp_slot (sp_object sp)) oid = Some obj" using mem by (auto simp: objects_def)
    then show "obj \<in> dom (sp_heap sp)" using linked_upD(2) [OF lu] by blast
  next
    fix obj assume "obj \<in> dom (sp_heap sp)"
    then obtain ob where "sp_heap sp obj = Some ob" by blast
    then have "(ob_id ob, obj) \<in> set ?E" using mem linked_upD(2) [OF lu] by fastforce
    then show "obj \<in> set (objects sp)" unfolding objects_def by force
  qed
qed

text \<open>The pairs of set members that a round looks at.\<close>

definition candidates :: "aoi_space \<Rightarrow> (objref \<times> objref) list" where
  "candidates sp =
     List.product (filter (kind_of w_static sp) (objects sp)) (filter (kind_of m_move sp) (objects sp)) @
     List.product (filter (kind_of w_move sp) (objects sp)) (filter (kind_of m_static sp) (objects sp)) @
     List.product (filter (kind_of w_move sp) (objects sp)) (filter (kind_of m_move sp) (objects sp))"

lemma candidates_distinct: "linked_up sp \<Longrightarrow> distinct (candidates sp)"
  using objects_ok(1) [of sp]
  by (auto simp: candidates_def distinct_product kind_of_def kinds)

lemma candidates_set:
  assumes "linked_up sp"
  shows "(w, m) \<in> set (candidates sp) \<longleftrightarrow> (\<exists>a b. sp_heap sp w = Some a \<and> sp_heap sp m = Some b \<and>
    has (ob_mode a) MODE_WATCHER \<and> has (ob_mode b) MODE_MARKER \<and> (has (ob_mode a) MODE_MOVE \<or> has (ob_mode b) MODE_MOVE))"
  using objects_ok(2) [OF assms] by (auto simp: candidates_def kind_of_def kinds)

lemma callbacks_notices:
  assumes "space_ok sp"
  shows "distinct (callbacks sp (candidates sp))" "set (callbacks sp (candidates sp)) = notices (live sp)"
proof -
  have inv: "inv sp (refs (sp_hot sp)) (length (sp_hot sp))" using assms by (simp add: space_ok_def)
  note lu = invD(1) [OF inv]
  have drop: "\<not> has (ob_mode a) MODE_DROP" if "sp_heap sp w = Some a" "has (ob_mode a) MODE_WATCHER \<or> has (ob_mode a) MODE_MARKER" for w a
    using invD(3) [OF inv that(1)] that(2) by (auto simp: object_ok_def mode_simps)
  have "inj_on (\<lambda>(w, m). (id_of sp w, id_of sp m)) (set (candidates sp))"
    using candidates_set [OF lu] lookup_inj [OF lu] by (intro inj_onI) (fastforce simp: id_of_def)
  then show "distinct (callbacks sp (candidates sp))"
    using candidates_distinct [OF lu] unfolding callbacks_def
    by (auto simp: distinct_map intro: inj_on_subset)
  show "set (callbacks sp (candidates sp)) = notices (live sp)"
  proof (intro set_eqI iffI)
    fix c assume "c \<in> set (callbacks sp (candidates sp))"
    then obtain w m where wm: "(w, m) \<in> set (candidates sp)" "close sp (w, m)" "c = (id_of sp w, id_of sp m)"
      by (auto simp: callbacks_def)
    obtain a b where ab: "sp_heap sp w = Some a" "sp_heap sp m = Some b" "has (ob_mode a) MODE_WATCHER"
      "has (ob_mode b) MODE_MARKER" "has (ob_mode a) MODE_MOVE \<or> has (ob_mode b) MODE_MOVE"
      using candidates_set [OF lu] wm(1) by blast
    have ne: "ob_id a \<noteq> ob_id b" using lookup_inj [OF lu ab(1,2)] wm(2) by (auto simp: close_def)
    have "live sp (ob_id a) = Some (body a)" "live sp (ob_id b) = Some (body b)"
      using ab look_heap [OF lu ab(1)] look_heap [OF lu ab(2)] drop by (auto simp: live_def)
    moreover have "ob_position a \<noteq> None" "ob_position b \<noteq> None"
      using invD(3) [OF inv ab(1)] invD(3) [OF inv ab(2)] by (auto simp: object_ok_def)
    ultimately show "c \<in> notices (live sp)"
      using wm(2,3) ab ne
      by (auto simp: notices_def body_def id_of_def close_def distance_def dist2_def in_range_def)
  next
    fix c assume "c \<in> notices (live sp)"
    then obtain i j v mode l p v' mode' l' p' where c: "c = (i, j)" "i \<noteq> j"
      "live sp i = Some (i, v, mode, l, Some p)" "live sp j = Some (j, v', mode', l', Some p')"
      "has mode MODE_WATCHER" "has mode' MODE_MARKER" "has mode MODE_MOVE \<or> has mode' MODE_MOVE"
      "flt (DIST2 p p') AOI_RADIS2"
      by (auto simp: notices_def)
    obtain a w where a: "sp_heap sp w = Some a" "body a = (i, v, mode, l, Some p)"
      using c(3) by (auto simp: live_Some look_Some [OF lu])
    obtain b m where b: "sp_heap sp m = Some b" "body b = (j, v', mode', l', Some p')"
      using c(4) by (auto simp: live_Some look_Some [OF lu])
    have "(w, m) \<in> set (candidates sp)"
      using candidates_set [OF lu, of w m] a b c by (auto simp: body_def)
    moreover have "close sp (w, m)"
      using a b c(2,8) by (auto simp: close_def body_def distance_def dist2_def in_range_def)
    moreover have "id_of sp w = i" "id_of sp m = j" using a b by (auto simp: id_of_def body_def)
    ultimately show "c \<in> set (callbacks sp (candidates sp))"
      using c(1) by (force simp: callbacks_def)
  qed
qed

lemma still_same:
  assumes "sp_heap sp' = (\<lambda>obj. if obj \<in> X then map_option still (sp_heap sp obj) else sp_heap sp obj)"
  shows "callbacks sp' = callbacks sp"
proof -
  have s: "ob_id (still ob) = ob_id ob" "ob_position (still ob) = ob_position ob" for ob
    by (auto simp: still_def)
  have i: "id_of sp' obj = id_of sp obj" for obj
    unfolding id_of_def assms by (auto simp: s split: option.splits)
  have d: "distance sp' a b = distance sp a b" for a b
    unfolding distance_def assms by (auto simp: dist2_def s split: option.splits)
  from d have cl: "close sp' = close sp" by (simp add: close_def fun_eq_iff)
  show "callbacks sp' = callbacks sp" by (rule ext) (simp add: callbacks_def i cl)

qed

lemma kind_present:
  assumes "inv sp cnt np" "kind_of k sp x" "k \<in> {w_static, w_move, m_static, m_move}"
  shows "\<exists>ob. sp_heap sp x = Some ob \<and> \<not> has (ob_mode (still ob)) MODE_DROP \<and> \<not> has (ob_mode ob) MODE_DROP"
proof -
  obtain ob where ob: "sp_heap sp x = Some ob" "k (ob_mode ob)" using assms(2) by (auto simp: kind_of_def)
  then have "has (ob_mode ob) MODE_WATCHER \<or> has (ob_mode ob) MODE_MARKER" using assms(3) by (auto simp: kinds)
  moreover have "has (ob_mode ob) MODE_DROP \<longrightarrow> ob_mode ob = MODE_DROP"
    using invD(3) [OF assms(1) ob(1)] by (simp add: object_ok_def)
  moreover have "\<not> has MODE_DROP MODE_WATCHER" "\<not> has MODE_DROP MODE_MARKER"
    by (simp_all add: has_def MODE_DROP_def MODE_WATCHER_def MODE_MARKER_def)
  ultimately have "\<not> has (ob_mode ob) MODE_DROP" by metis
  then show ?thesis using ob(1) by (auto simp: still_def mode_simps)
qed

text \<open>The first half of a round: the four sets are filled, and every object comes to rest.\<close>

lemma collect_ok:
  assumes ok: "space_ok sp"
  obtains sp' where "foreach_loop set_push (mp_slot (sp_object sp)) (clear_sets sp) = Inr sp'" "space_ok sp'"
    "collected (clear_sets sp) (objects sp) sp'"
    "sp_heap sp' = (\<lambda>obj. if obj \<in> set (objects sp) then map_option still (sp_heap sp obj) else sp_heap sp obj)"
proof -
  let ?H = "sp_hot sp" and ?c = "clear_sets sp"
  have inv: "inv sp (refs ?H) (length ?H)" and pairs: "\<forall>p \<in> set ?H. pr_watcher p \<noteq> pr_marker p"
    using ok by (auto simp: space_ok_def)
  note lu = invD(1) [OF inv]
  have invc: "inv ?c (refs ?H) (length ?H)"
    using inv by (simp add: inv_def linked_up_def accounted_def caps_def clear_sets_def)
  have c: "sp_heap ?c = sp_heap sp" by (simp add: clear_sets_def)
  have "\<forall>e \<in> set (entries (mp_slot (sp_object sp))). sp_heap ?c (snd e) \<noteq> None"
  proof
    fix e assume "e \<in> set (entries (mp_slot (sp_object sp)))"
    then have "snd e \<in> set (objects sp)" by (simp add: objects_def)
    then show "sp_heap ?c (snd e) \<noteq> None" using objects_ok(2) [OF lu] by (auto simp: c)
  qed
  then obtain sp' where sp': "foreach_loop set_push (mp_slot (sp_object sp)) ?c = Inr sp'" "inv sp' (refs ?H) (length ?H)"
    "collected ?c (objects sp) sp'"
    using foreach_push [OF invc objects_ok(1) [OF lu, unfolded objects_def]] by (auto simp: objects_def)
  moreover from this have "space_ok sp'" using pairs by (simp add: space_ok_def collected_def clear_sets_def)
  ultimately show ?thesis using that unfolding collected_def c by blast
qed

lemma collected_live:
  assumes ok: "space_ok sp" and col: "collected (clear_sets sp) (objects sp) sp'"
    and heap: "sp_heap sp' = (\<lambda>obj. if obj \<in> set (objects sp) then map_option still (sp_heap sp obj) else sp_heap sp obj)"
  shows "live sp' = map_option at_rest \<circ> live sp"
proof
  fix x
  have lu: "linked_up sp" using ok invD(1) by (auto simp: space_ok_def)
  have m: "sp_object sp' = sp_object sp" using col by (simp add: collected_def clear_sets_def)
  have s: "body (still ob) = at_rest (body ob)" "has (ob_mode (still ob)) MODE_DROP = has (ob_mode ob) MODE_DROP" for ob
    by (auto simp: still_def at_rest_def body_def mode_simps)
  show "live sp' x = (map_option at_rest \<circ> live sp) x"
  proof (cases "lookup (mp_slot (sp_object sp)) x")
    case (Some obj)
    then obtain ob where ob: "sp_heap sp obj = Some ob" using linked_upD(2) [OF lu] by blast
    moreover have "obj \<in> set (objects sp)" using ob objects_ok(2) [OF lu] by auto
    ultimately show ?thesis using Some by (simp add: live_def look_def m heap s)
  qed (simp add: live_def look_def m)
qed

lemma message_ok:
  assumes ok: "space_ok sp"
  shows "\<exists>cbs sp'. aoi_message sp = Inr (map (ids sp) (filter (reported sp) (sp_hot sp)) @ cbs, sp') \<and>
    distinct cbs \<and> set cbs = notices (live sp) \<and> space_ok sp' \<and> live sp' = map_option at_rest \<circ> live sp \<and> same_size sp sp' \<and>
    (\<forall>p \<in> set (sp_hot sp'). p \<in> set (sp_hot sp) \<and> stays_hot sp p \<or> border sp' p)"
proof -
  obtain sp1 where f: "flush_pair sp = Inr (map (ids sp) (filter (reported sp) (sp_hot sp)), sp1)"
    "space_ok sp1" "live sp1 = live sp" "same_size sp sp1" "sp_hot sp1 = filter (stays_hot sp) (sp_hot sp)"
    using flush_pair_ok [OF ok] by metis
  obtain sp2 where p: "foreach_loop set_push (mp_slot (sp_object sp1)) (clear_sets sp1) = Inr sp2" "space_ok sp2"
    "collected (clear_sets sp1) (objects sp1) sp2"
    and heap2: "sp_heap sp2 = (\<lambda>obj. if obj \<in> set (objects sp1) then map_option still (sp_heap sp1 obj) else sp_heap sp1 obj)"
    by (rule collect_ok [OF f(2)])
  let ?ws = "filter (kind_of w_static sp1) (objects sp1)" and ?wm = "filter (kind_of w_move sp1) (objects sp1)"
  let ?ms = "filter (kind_of m_static sp1) (objects sp1)" and ?mm = "filter (kind_of m_move sp1) (objects sp1)"
  have kc: "kind_of k (clear_sets sp1) = kind_of k sp1" for k by (simp add: kind_of_def clear_sets_def fun_eq_iff)
  have sets: "os_slot (sp_watcher_static sp2) = ?ws" "os_slot (sp_watcher_move sp2) = ?wm"
    "os_slot (sp_marker_static sp2) = ?ms" "os_slot (sp_marker_move sp2) = ?mm"
    using p(3) by (simp_all add: collected_def kc) (simp_all add: clear_sets_def)
  have inv1: "inv sp1 (refs (sp_hot sp1)) (length (sp_hot sp1))" using f(2) by (simp add: space_ok_def)
  have pres: "\<forall>x \<in> set (filter (kind_of k sp1) (objects sp1)). present sp2 x" if "k \<in> {w_static, w_move, m_static, m_move}" for k
    using that kind_present [OF inv1] by (fastforce simp: heap2 present_def)
  have al: "\<forall>x \<in> set ?ws. present sp2 x" "\<forall>x \<in> set ?wm. present sp2 x" "\<forall>x \<in> set ?ms. present sp2 x"
    "\<forall>x \<in> set ?mm. present sp2 x"
    by (rule pres, simp)+
  obtain sp3 where 3: "gen_pair_list ?ws ?mm sp2 = Inr (callbacks sp2 (List.product ?ws ?mm), sp3)" "space_ok sp3" "warms sp2 sp3"
    using gen_pair_list_ok [OF p(2) al(1,4)] by blast
  note p3 = present_steady [OF warms_steady [OF 3(3)]]
  obtain sp4 where 4: "gen_pair_list ?wm ?ms sp3 = Inr (callbacks sp3 (List.product ?wm ?ms), sp4)" "space_ok sp4" "warms sp3 sp4"
    using gen_pair_list_ok [OF 3(2), unfolded p3, OF al(2,3)] by blast
  note p4 = present_steady [OF warms_steady [OF 4(3)]]
  obtain sp5 where 5: "gen_pair_list ?wm ?mm sp4 = Inr (callbacks sp4 (List.product ?wm ?mm), sp5)" "space_ok sp5" "warms sp4 sp5"
    using gen_pair_list_ok [OF 4(2), unfolded p4 p3, OF al(2,4)] by blast
  have wa: "warms sp2 sp5" using 3(3) 4(3) 5(3) warms_trans by blast
  note st = warms_steady [OF wa] and st3 = warms_steady [OF 3(3)] and st4 = warms_steady [OF 4(3)]
  have cb: "callbacks sp2 = callbacks sp1" "callbacks sp3 = callbacks sp1" "callbacks sp4 = callbacks sp1"
    using still_same [OF heap2] callbacks_steady st3 st4 by metis+
  have later: "os_slot (sp_watcher_move sp3) = ?wm" "os_slot (sp_marker_static sp3) = ?ms"
    "os_slot (sp_watcher_move sp4) = ?wm" "os_slot (sp_marker_move sp4) = ?mm"
    using st3 st4 sets by (simp_all add: steady_def)
  have "aoi_message sp = Inr (map (ids sp) (filter (reported sp) (sp_hot sp)) @ callbacks sp1 (candidates sp1), sp5)"
    using f(1) p(1) 3(1) 4(1) 5(1) by (simp add: aoi_message_def map_foreach_def sets later cb candidates_def)
  moreover have "live sp5 = map_option at_rest \<circ> live sp"
    using steady_same(5) [OF st] collected_live [OF f(2) p(3) heap2] f(3) by simp
  moreover have "same_size sp sp5"
    using f(4) p(3) st by (simp add: same_size_def collected_def steady_def clear_sets_def)
  moreover have "sp_hot sp2 = sp_hot sp1" using p(3) by (simp add: collected_def clear_sets_def)
  then have "\<forall>p \<in> set (sp_hot sp5). p \<in> set (sp_hot sp) \<and> stays_hot sp p \<or> border sp5 p"
    using wa f(5) border_steady [OF st] by (auto simp: warms_def)
  ultimately show ?thesis
    using callbacks_notices [OF f(2)] f(3) 5(2) by auto
qed

end
