(* ===== verification/AoiRun.thy ===== *)
theory AoiRun
  imports Aoi
begin

text \<open>
  The life of an area-of-interest space, from \<^verbatim>\<open>aoi_create\<close> over any sequence of updates and
  message rounds to \<^verbatim>\<open>aoi_release\<close>: nothing faults, every block is given back, and the
  objects are those of a specification that knows neither the hash map nor the counters.
\<close>

datatype aoi_op = Update u32 cstr vec3 | Round

text \<open>The callbacks of every round, in order, and the space at the end.\<close>

fun aoi_run :: "aoi_op list \<Rightarrow> aoi_space \<Rightarrow> (callback list list \<times> aoi_space) result" where
  "aoi_run [] sp = Inr ([], sp)"
| "aoi_run (Update oid ms pos # ops) sp = rbind (aoi_update oid ms pos sp) (aoi_run ops)"
| "aoi_run (Round # ops) sp =
     rbind (aoi_message sp) (\<lambda>(cbs, sp).
     rbind (aoi_run ops sp) (\<lambda>(rounds, sp). Inr (cbs # rounds, sp)))"

definition valid_op :: "aoi_op \<Rightarrow> bool" where
  "valid_op p \<longleftrightarrow> (case p of Update oid _ _ \<Rightarrow> oid \<noteq> INVALID_ID | Round \<Rightarrow> True)"

section \<open>The specification\<close>

text \<open>An object as its clients see it.\<close>

record actor =
  ac_watcher :: bool
  ac_marker :: bool
  ac_moved :: bool
  ac_last :: vec3
  ac_pos :: vec3

definition spec_update :: "u32 \<Rightarrow> cstr \<Rightarrow> vec3 \<Rightarrow> (u32 \<rightharpoonup> actor) \<Rightarrow> u32 \<rightharpoonup> actor" where
  "spec_update oid ms pos A =
     (case mode_loop ms False False of
        None \<Rightarrow> A(oid := None)
      | Some (w, m) \<Rightarrow>
          (case A oid of
             Some a \<Rightarrow>
               if ac_watcher a = w \<and> ac_marker a = m \<and> is_near pos (ac_last a)
               then A(oid \<mapsto> a\<lparr>ac_pos := pos\<rparr>)
               else A(oid \<mapsto> \<lparr>ac_watcher = w, ac_marker = m, ac_moved = True, ac_last = pos, ac_pos = pos\<rparr>)
           | None \<Rightarrow> A(oid \<mapsto> \<lparr>ac_watcher = w, ac_marker = m, ac_moved = True, ac_last = pos, ac_pos = pos\<rparr>)))"

definition rested :: "actor \<Rightarrow> actor" where
  "rested a = (if ac_watcher a \<or> ac_marker a then a\<lparr>ac_moved := False\<rparr> else a)"

definition spec_notices :: "(u32 \<rightharpoonup> actor) \<Rightarrow> callback set" where
  "spec_notices A = {(i, j). i \<noteq> j \<and> (\<exists>a b. A i = Some a \<and> A j = Some b \<and> ac_watcher a \<and> ac_marker b \<and>
     (ac_moved a \<or> ac_moved b) \<and> flt (DIST2 (ac_pos a) (ac_pos b)) AOI_RADIS2)}"

fun spec_run :: "aoi_op list \<Rightarrow> (u32 \<rightharpoonup> actor) \<Rightarrow> u32 \<rightharpoonup> actor" where
  "spec_run [] A = A"
| "spec_run (Update oid ms pos # ops) A = spec_run ops (spec_update oid ms pos A)"
| "spec_run (Round # ops) A = spec_run ops (map_option rested \<circ> A)"

section \<open>The objects of a space\<close>

definition actor_of :: "obj_body \<Rightarrow> actor" where
  "actor_of b = (case b of (i, v, mode, l, p) \<Rightarrow>
     \<lparr>ac_watcher = has mode MODE_WATCHER, ac_marker = has mode MODE_MARKER, ac_moved = has mode MODE_MOVE,
      ac_last = the l, ac_pos = the p\<rparr>)"

definition actors :: "aoi_space \<Rightarrow> u32 \<rightharpoonup> actor" where
  "actors sp = map_option actor_of \<circ> live sp"

text \<open>What is known of the fields of an object that is not dropped.\<close>

definition moded :: "aoi_space \<Rightarrow> bool" where
  "moded sp \<longleftrightarrow> (\<forall>x i v mode l p. live sp x = Some (i, v, mode, l, p) \<longrightarrow> mode \<noteq> 0)"

lemma live_fields:
  assumes "space_ok sp" "live sp x = Some (i, v, mode, l, p)"
  shows "i = x" "l \<noteq> None" "p \<noteq> None"
proof -
  have inv: "inv sp (refs (sp_hot sp)) (length (sp_hot sp))" using assms(1) by (simp add: space_ok_def)
  obtain ob obj where ob: "sp_heap sp obj = Some ob" "ob_id ob = x" "body ob = (i, v, mode, l, p)"
    using assms(2) by (auto simp: live_Some look_Some [OF invD(1) [OF inv]])
  then show "i = x" "l \<noteq> None" "p \<noteq> None" using invD(3) [OF inv ob(1)] by (auto simp: body_def object_ok_def)
qed

lemma nonzero_bit: "bit (m :: u32) n \<Longrightarrow> m \<noteq> 0"
  by auto

lemma change_mode_flags:
  assumes "mode \<noteq> 0" "change_mode w m mode = (ch, mode')"
  shows "ch \<longleftrightarrow> \<not> (has mode MODE_WATCHER = w \<and> has mode MODE_MARKER = m)" "\<not> ch \<Longrightarrow> mode' = mode"
  using assms by (auto simp: change_mode_def Let_def mode_simps split: if_splits prod.splits)

definition fresh_actor :: "bool \<Rightarrow> bool \<Rightarrow> vec3 \<Rightarrow> actor" where
  "fresh_actor w m pos = \<lparr>ac_watcher = w, ac_marker = m, ac_moved = True, ac_last = pos, ac_pos = pos\<rparr>"

lemma moved_bit: "bit (mode OR MODE_MOVE) 2"
  by (simp add: mode_simps)

lemma step_actor:
  shows "actor_of (step_body w m pos (i, v, 0, l', p)) = fresh_actor w m pos"
    "mode \<noteq> 0 \<Longrightarrow> actor_of (step_body w m pos (i, v, mode, Some l, p)) =
      (let a = actor_of (i, v, mode, Some l, p) in
       if ac_watcher a = w \<and> ac_marker a = m \<and> is_near pos (ac_last a) then a\<lparr>ac_pos := pos\<rparr> else fresh_actor w m pos)"
    "mode = 0 \<or> l' \<noteq> None \<Longrightarrow> fst (snd (snd (step_body w m pos (i, v, mode, l', p)))) \<noteq> 0"
proof -
  obtain ch mode' where c: "change_mode w m mode = (ch, mode')" by fastforce
  obtain ch0 mode0 where c0: "change_mode w m 0 = (ch0, mode0)" by fastforce
  note b = change_mode_bits [OF c] and b0 = change_mode_bits [OF c0]
  show "actor_of (step_body w m pos (i, v, 0, l', p)) = fresh_actor w m pos"
    using b0 by (simp add: step_body_def c0 actor_of_def fresh_actor_def mode_simps)
  show "actor_of (step_body w m pos (i, v, mode, Some l, p)) =
      (let a = actor_of (i, v, mode, Some l, p) in
       if ac_watcher a = w \<and> ac_marker a = m \<and> is_near pos (ac_last a) then a\<lparr>ac_pos := pos\<rparr> else fresh_actor w m pos)"
    if "mode \<noteq> 0"
    using b change_mode_flags [OF that c]
    by (auto simp: step_body_def c actor_of_def fresh_actor_def mode_simps)
  show "fst (snd (snd (step_body w m pos (i, v, mode, l', p)))) \<noteq> 0" if "mode = 0 \<or> l' \<noteq> None"
  proof (cases ch)
    case True
    then show ?thesis using nonzero_bit [OF moved_bit] by (simp add: step_body_def c)
  next
    case False
    then have "mode \<noteq> 0" using b(4) by blast
    then show ?thesis
      using change_mode_flags [OF _ c] nonzero_bit [OF moved_bit] False by (simp add: step_body_def c)
  qed
qed

section \<open>The operations\<close>

lemma actors_update:
  assumes ok: "space_ok sp" "moded sp" and oid: "oid \<noteq> INVALID_ID" and len: "length (mp_slot (sp_object sp)) \<le> 2 ^ 30"
  shows "\<exists>sp'. aoi_update oid ms pos sp = Inr sp' \<and> space_ok sp' \<and> moded sp' \<and> grew sp sp' \<and>
    sp_hot sp' = sp_hot sp \<and> actors sp' = spec_update oid ms pos (actors sp)"
proof -
  obtain sp' where u: "aoi_update oid ms pos sp = Inr sp'" "space_ok sp'" "\<forall>x. x \<noteq> oid \<longrightarrow> live sp' x = live sp x"
    "case mode_loop ms False False of
       None \<Rightarrow> live sp' oid = None
     | Some (w, m) \<Rightarrow> \<exists>b. (live sp oid = Some b \<or> live sp oid = None \<and> (\<exists>v l p. b = (oid, v, 0, l, p))) \<and>
         live sp' oid = Some (step_body w m pos b)"
    "sp_hot sp' = sp_hot sp" "grew sp sp'"
    by (rule update_ok [OF ok(1) oid len, of ms pos])
  have rest: "actors sp' x = actors sp x" if "x \<noteq> oid" for x using u(3) that by (simp add: actors_def)
  show ?thesis
  proof (cases "mode_loop ms False False")
    case None
    then have n: "live sp' oid = None" using u(4) by simp
    then have "moded sp'" using ok(2) u(3) unfolding moded_def by (metis option.distinct(1))
    moreover have "actors sp' = spec_update oid ms pos (actors sp)"
      using n rest None by (auto simp: fun_eq_iff spec_update_def actors_def)
    ultimately show ?thesis using u by blast
  next
    case (Some wm)
    obtain w m where wm: "wm = (w, m)" by (cases wm)
    obtain b where b: "live sp oid = Some b \<or> live sp oid = None \<and> (\<exists>v l p. b = (oid, v, 0, l, p))"
      "live sp' oid = Some (step_body w m pos b)"
      using u(4) Some wm by auto
    obtain i v mode l p where bb: "b = (i, v, mode, l, p)" by (cases b)
    have nz: "mode = 0 \<or> l \<noteq> None" and
      ac: "actor_of (step_body w m pos b) = (case actors sp oid of None \<Rightarrow> fresh_actor w m pos
        | Some a \<Rightarrow> if ac_watcher a = w \<and> ac_marker a = m \<and> is_near pos (ac_last a) then a\<lparr>ac_pos := pos\<rparr> else fresh_actor w m pos)"
    proof -
      consider "live sp oid = Some b" | "live sp oid = None" "mode = 0" using b(1) bb by auto
      then have "(mode = 0 \<or> l \<noteq> None) \<and> actor_of (step_body w m pos b) = (case actors sp oid of None \<Rightarrow> fresh_actor w m pos
        | Some a \<Rightarrow> if ac_watcher a = w \<and> ac_marker a = m \<and> is_near pos (ac_last a) then a\<lparr>ac_pos := pos\<rparr> else fresh_actor w m pos)"
      proof cases
        case 1
        then have l1: "live sp oid = Some (i, v, mode, l, p)" using bb by simp
        have f: "l \<noteq> None" using live_fields(2) [OF ok(1) l1] .
        have nz: "mode \<noteq> 0" using ok(2) [unfolded moded_def, rule_format, OF l1] .
        obtain l0 where "l = Some l0" using f by blast
        then show ?thesis using f 1 step_actor(2) [OF nz] by (simp add: actors_def bb Let_def)
      next
        case 2
        then show ?thesis using step_actor(1) by (simp add: actors_def bb)
      qed
      then show "mode = 0 \<or> l \<noteq> None" "actor_of (step_body w m pos b) = (case actors sp oid of None \<Rightarrow> fresh_actor w m pos
        | Some a \<Rightarrow> if ac_watcher a = w \<and> ac_marker a = m \<and> is_near pos (ac_last a) then a\<lparr>ac_pos := pos\<rparr> else fresh_actor w m pos)"
        by blast+
    qed
    have "fst (snd (snd (step_body w m pos b))) \<noteq> 0" using step_actor(3) [OF nz] by (simp add: bb)
    then have "moded sp'" using b(2) u(3) ok(2) unfolding moded_def by (metis fst_conv option.inject snd_conv)
    moreover have "actors sp' oid = Some (actor_of (step_body w m pos b))" using b(2) by (simp add: actors_def)
    then have "actors sp' = spec_update oid ms pos (actors sp)"
      using rest Some wm ac by (auto simp: fun_eq_iff spec_update_def fresh_actor_def split: option.splits)
    ultimately show ?thesis using u by blast
  qed
qed

lemma rested_actor: "actor_of (at_rest b) = rested (actor_of b)"
  by (cases b) (auto simp: at_rest_def actor_of_def rested_def mode_simps)

lemma notices_actors:
  assumes ok: "space_ok sp"
  shows "notices (live sp) = spec_notices (actors sp)"
proof (intro set_eqI iffI)
  fix c assume "c \<in> notices (live sp)"
  then show "c \<in> spec_notices (actors sp)"
    by (force simp: notices_def spec_notices_def actors_def actor_of_def)
next
  fix c assume "c \<in> spec_notices (actors sp)"
  then obtain i j b b' where c: "c = (i, j)" "i \<noteq> j" "live sp i = Some b" "live sp j = Some b'"
    "ac_watcher (actor_of b)" "ac_marker (actor_of b')" "ac_moved (actor_of b) \<or> ac_moved (actor_of b')"
    "flt (DIST2 (ac_pos (actor_of b)) (ac_pos (actor_of b'))) AOI_RADIS2"
    by (auto simp: spec_notices_def actors_def)
  obtain i1 v mode l p i2 v' mode' l' p' where b: "b = (i1, v, mode, l, p)" "b' = (i2, v', mode', l', p')"
    by (cases b; cases b')
  have "i1 = i" "i2 = j" "p \<noteq> None" "p' \<noteq> None"
    using live_fields [OF ok] c(3,4) unfolding b by blast+
  then show "c \<in> notices (live sp)"
    using c unfolding b by (auto simp: notices_def actor_of_def)
qed

lemma actors_message:
  assumes ok: "space_ok sp" "moded sp"
  shows "\<exists>cbs sp'. aoi_message sp = Inr (map (ids sp) (filter (reported sp) (sp_hot sp)) @ cbs, sp') \<and>
    distinct cbs \<and> set cbs = spec_notices (actors sp) \<and> space_ok sp' \<and> moded sp' \<and>
    actors sp' = map_option rested \<circ> actors sp \<and> same_size sp sp' \<and>
    (\<forall>p \<in> set (sp_hot sp'). p \<in> set (sp_hot sp) \<and> stays_hot sp p \<or> border sp' p)"
proof -
  obtain cbs sp' where m: "aoi_message sp = Inr (map (ids sp) (filter (reported sp) (sp_hot sp)) @ cbs, sp')"
    "distinct cbs" "set cbs = notices (live sp)" "space_ok sp'" "live sp' = map_option at_rest \<circ> live sp" "same_size sp sp'"
    "\<forall>p \<in> set (sp_hot sp'). p \<in> set (sp_hot sp) \<and> stays_hot sp p \<or> border sp' p"
    using message_ok [OF ok(1)] by blast
  have "actors sp' = map_option rested \<circ> actors sp"
    by (simp add: actors_def m(5) fun_eq_iff option.map_comp comp_def rested_actor)
  moreover have "moded sp'"
    unfolding moded_def
  proof (intro allI impI)
    fix x i v mode l p
    assume "live sp' x = Some (i, v, mode, l, p)"
    then obtain mode0 where "live sp x = Some (i, v, mode0, l, p)" and
      e: "mode = (if (has mode0 MODE_WATCHER \<or> has mode0 MODE_MARKER) \<and> has mode0 MODE_MOVE then mode0 AND NOT MODE_MOVE else mode0)"
      by (auto simp: m(5) at_rest_def)
    then have "mode0 \<noteq> 0" using ok(2) unfolding moded_def by blast
    moreover have "bit (mode0 AND NOT MODE_MOVE) 0 \<or> bit (mode0 AND NOT MODE_MOVE) 1"
      if "has mode0 MODE_WATCHER \<or> has mode0 MODE_MARKER"
      using that by (auto simp: mode_simps)
    ultimately show "mode \<noteq> 0" using e nonzero_bit by (metis (full_types))
  qed
  ultimately show ?thesis using m notices_actors [OF ok(1)] by blast
qed

section \<open>Creation and release\<close>

definition cookie0 :: alloc_cookie where
  "cookie0 = \<lparr>ck_count = 0, ck_max = 0, ck_current = 0\<rparr>"

lemma create_ok:
  shows "space_ok (aoi_create cookie0)" "moded (aoi_create cookie0)" "actors (aoi_create cookie0) = Map.empty"
    "length (mp_slot (sp_object (aoi_create cookie0))) = 16" "load (mp_slot (sp_object (aoi_create cookie0))) = 0"
    "sp_hot (aoi_create cookie0) = []"
proof -
  let ?sp = "aoi_create cookie0"
  have s: "sp_object ?sp = \<lparr>mp_lastfree = int (2 ^ 4) - 1, mp_slot = replicate (2 ^ 4) empty_slot\<rparr>"
    "sp_heap ?sp = Map.empty" "sp_hot ?sp = []" "caps ?sp = 64"
    by (simp_all add: aoi_create_def map_new_def set_new_def PRE_ALLOC_def Let_def) (simp add: caps_def)
  have m: "map_ok (sp_object ?sp)" unfolding s(1) by (rule map_ok_empty) simp_all
  note e = slots_ok_empty [of 4]
  have "lookup (mp_slot (sp_object ?sp)) = Map.empty" unfolding s(1) using e(3) by simp
  then have lu: "linked_up ?sp" using m by (simp add: linked_up_def s)
  have "accounted ?sp 0"
    by (simp add: accounted_def caps_def aoi_create_def map_new_def set_new_def PRE_ALLOC_def Let_def my_alloc_def cookie0_def
        sizeof_aoi_space_def sizeof_map_def sizeof_map_slot_def sizeof_object_set_def sizeof_pointer_def)
  then have "inv ?sp (refs (sp_hot ?sp)) (length (sp_hot ?sp))"
    using lu by (intro invI) (simp_all add: s)
  then show "space_ok ?sp" by (simp add: space_ok_def s)
  have "live ?sp = Map.empty" by (auto simp: live_def look_def s fun_eq_iff split: option.splits)
  then show "moded ?sp" "actors ?sp = Map.empty" by (simp_all add: moded_def actors_def fun_eq_iff)
  show "length (mp_slot (sp_object ?sp)) = 16" "load (mp_slot (sp_object ?sp)) = 0" "sp_hot ?sp = []"
    using e(2) by (simp_all add: s load_def)
qed

lemma my_free_pow:
  "ck_count ((my_free sz ^^ n) c) = ck_count c - int n" "ck_current ((my_free sz ^^ n) c) = ck_current c - int n * sz"
  by (induction n) (simp_all add: my_free_def algebra_simps)

lemma fold_const: "fold (\<lambda>_. f) xs = f ^^ length xs"
  by (induction xs) (simp_all add: fun_eq_iff funpow_swap1)

lemma foreach_delete:
  assumes "distinct (map snd (entries ss))" "set (map snd (entries ss)) \<subseteq> dom (sp_heap sp)"
  shows "foreach_loop delete_object ss sp =
    Inr (sp\<lparr>sp_heap := sp_heap sp |` (- set (map snd (entries ss))),
            sp_cookie := (my_free sizeof_object ^^ length (entries ss)) (sp_cookie sp)\<rparr>)"
  using assms
proof (induction ss arbitrary: sp)
  case Nil
  then show ?case by (simp add: restrict_map_def)
next
  case (Cons s ss)
  show ?case
  proof (cases "sl_obj s")
    case None
    then show ?thesis using Cons by simp
  next
    case (Some obj)
    then obtain ob where h: "sp_heap sp obj = Some ob" using Cons.prems(2) by auto
    let ?sp = "sp\<lparr>sp_heap := (sp_heap sp)(obj := None), sp_cookie := my_free sizeof_object (sp_cookie sp)\<rparr>"
    have d: "delete_object obj sp = Inr ?sp" using h by (simp add: delete_object_def get_object_def)
    have "foreach_loop delete_object ss ?sp =
      Inr (?sp\<lparr>sp_heap := sp_heap ?sp |` (- set (map snd (entries ss))),
            sp_cookie := (my_free sizeof_object ^^ length (entries ss)) (sp_cookie ?sp)\<rparr>)"
    proof (rule Cons.IH)
      have "obj \<notin> snd ` set (entries ss)" "snd ` set (entries ss) \<subseteq> dom (sp_heap sp)"
        using Cons.prems Some by auto
      then have "snd ` set (entries ss) \<subseteq> dom (sp_heap sp) - {obj}" by blast
      then show "set (map snd (entries ss)) \<subseteq> dom (sp_heap ?sp)" by simp
    qed (use Cons.prems Some in auto)
    moreover have "(sp_heap sp)(obj := None) |` (- snd ` set (entries ss)) = sp_heap sp |` (- insert obj (snd ` set (entries ss)))"
      by (auto simp: fun_eq_iff restrict_map_def)
    ultimately show ?thesis using Some d by (simp add: funpow_swap1)
  qed
qed

lemma release_ok:
  assumes "space_ok sp"
  shows "\<exists>c. aoi_release sp = Inr (c, Map.empty) \<and> ck_count c = 0 \<and> ck_current c = 0"
proof -
  have inv: "inv sp (refs (sp_hot sp)) (length (sp_hot sp))" using assms by (simp add: space_ok_def)
  note o = objects_ok [OF invD(1) [OF inv]] and a = invD(2) [OF inv]
  let ?n = "length (entries (mp_slot (sp_object sp)))"
  let ?sp = "sp\<lparr>sp_heap := Map.empty, sp_cookie := (my_free sizeof_object ^^ ?n) (sp_cookie sp)\<rparr>"
  have "sp_heap sp |` (- dom (sp_heap sp)) = Map.empty"
    by (auto simp: fun_eq_iff restrict_map_def)
  then have f: "map_foreach (sp_object sp) delete_object sp = Inr ?sp"
    using foreach_delete [of "mp_slot (sp_object sp)" sp] o by (simp add: objects_def map_foreach_def)
  have n: "card (dom (sp_heap sp)) = ?n"
    using distinct_card [OF o(1)] o(2) by (simp add: objects_def)
  show ?thesis
    using a n unfolding aoi_release_def f
    by (simp add: Let_def delete_pair_list_def delete_set_def map_delete_def fold_const my_free_pow accounted_def
        caps_def my_free_def algebra_simps)
qed

section \<open>Runs\<close>

text \<open>The map is at most twice as long as there were updates.\<close>

definition sized :: "nat \<Rightarrow> aoi_space \<Rightarrow> bool" where
  "sized n sp \<longleftrightarrow> load (mp_slot (sp_object sp)) \<le> n \<and> length (mp_slot (sp_object sp)) \<le> max 16 (2 * n)"

lemma sized_grew: "sized n sp \<Longrightarrow> grew sp sp' \<Longrightarrow> sized (Suc n) sp'"
  by (auto simp: sized_def grew_def Let_def)

lemma run_ok:
  assumes "space_ok sp" "moded sp" "sized n sp" "\<forall>p \<in> set ops. valid_op p" "n + length ops \<le> 2 ^ 29"
  shows "\<exists>rounds sp'. aoi_run ops sp = Inr (rounds, sp') \<and> space_ok sp' \<and> moded sp' \<and>
    actors sp' = spec_run ops (actors sp)"
  using assms
proof (induction ops arbitrary: sp n)
  case Nil
  then show ?case by simp
next
  case (Cons p ops)
  show ?case
  proof (cases p)
    case (Update oid ms pos)
    have len: "length (mp_slot (sp_object sp)) \<le> 2 ^ 30" using Cons.prems(3,5) by (simp add: sized_def max_def split: if_splits)
    have oid: "oid \<noteq> INVALID_ID" using Cons.prems(4) Update by (simp add: valid_op_def)
    obtain sp1 where u: "aoi_update oid ms pos sp = Inr sp1" "space_ok sp1" "moded sp1" "grew sp sp1"
      "actors sp1 = spec_update oid ms pos (actors sp)"
      using actors_update [OF Cons.prems(1,2) oid len] by blast
    show ?thesis
      using Cons.IH [OF u(2,3) sized_grew [OF Cons.prems(3) u(4)]] Cons.prems(4,5) u(1,5) Update by simp
  next
    case Round
    obtain cbs sp1 where m: "aoi_message sp = Inr (cbs, sp1)" "space_ok sp1" "moded sp1" "same_size sp sp1"
      "actors sp1 = map_option rested \<circ> actors sp"
      using actors_message [OF Cons.prems(1,2)] by blast
    have "sized n sp1" using Cons.prems(3) m(4) by (simp add: sized_def same_size_def)
    from Cons.IH [OF m(2,3) this] Cons.prems(4,5) obtain rounds sp'
      where "aoi_run ops sp1 = Inr (rounds, sp')" "space_ok sp'" "moded sp'" "actors sp' = spec_run ops (actors sp1)" by auto
    then show ?thesis using m(1,5) Round by simp
  qed
qed

lemma run_from_create:
  assumes "\<forall>p \<in> set ops. valid_op p" "length ops \<le> 2 ^ 29"
  shows "\<exists>rounds sp. aoi_run ops (aoi_create cookie0) = Inr (rounds, sp) \<and> space_ok sp \<and> moded sp \<and>
    actors sp = spec_run ops Map.empty"
  using run_ok [OF create_ok(1,2), of 0 ops] assms create_ok(3-5) by (simp add: sized_def)

section \<open>Properties\<close>


definition sample_ops :: "aoi_op list" where
  "sample_ops = [Update 1 ''w'' (f32_of_int 0, f32_of_int 0, f32_of_int 0), Update 17 ''wm'' (f32_of_int 3, f32_of_int 4, f32_of_int 0),
     Round, Update 1 ''d'' (f32_of_int 0, f32_of_int 0, f32_of_int 0), Round]"

lemma sample_valid: "\<forall>p \<in> set sample_ops. valid_op p"
  by (simp add: sample_ops_def valid_op_def INVALID_ID_def)


text \<open>
  C16: The hash map with its chains and rehashing, the reference counts, the mode bits and the
  lazily freed objects implement a plain map from ids to actors: after any sequence of
  operations the objects of the space that are not dropped are those of \<open>spec_run\<close>, in which
  an update either moves an actor without notice (same flags, near the place it last counted
  as moved at), or (re)starts it as moved, or removes it, and a round puts watchers and markers
  to rest.
\<close>

theorem aoi_objects_refine_actors:
  assumes "\<forall>p \<in> set ops. valid_op p" "length ops \<le> 2 ^ 29"
  shows "\<exists>rounds sp. aoi_run ops (aoi_create cookie0) = Inr (rounds, sp) \<and> actors sp = spec_run ops Map.empty"
  using run_from_create [OF assms] by blast

theorem aoi_objects_refine_actors_witness:
  "\<exists>rounds sp. aoi_run sample_ops (aoi_create cookie0) = Inr (rounds, sp) \<and> actors sp = spec_run sample_ops Map.empty \<and>
    map_option ac_pos (actors sp 17) = Some (f32_of_int 3, f32_of_int 4, f32_of_int 0) \<and> actors sp 1 = None"
proof -
  obtain rounds sp where "aoi_run sample_ops (aoi_create cookie0) = Inr (rounds, sp)" "actors sp = spec_run sample_ops Map.empty"
    using aoi_objects_refine_actors [OF sample_valid] by (auto simp: sample_ops_def)
  then show ?thesis by (simp add: sample_ops_def spec_update_def rested_def)
qed

text \<open>
  C17: What \<^verbatim>\<open>aoi_message\<close> calls back, after any sequence of operations: first the hot pairs that
  are still valid and came into range, then, each exactly once and in no other case, every
  watcher and marker within \<^verbatim>\<open>AOI_RADIS\<close> of each other of which at least one moved since the
  last round.
\<close>

theorem aoi_message_reports:
  assumes "\<forall>p \<in> set ops. valid_op p" "length ops \<le> 2 ^ 29"
  shows "\<exists>rounds sp cbs sp'. aoi_run ops (aoi_create cookie0) = Inr (rounds, sp) \<and>
    aoi_message sp = Inr (map (ids sp) (filter (reported sp) (sp_hot sp)) @ cbs, sp') \<and>
    distinct cbs \<and> set cbs = spec_notices (spec_run ops Map.empty)"
proof -
  obtain rounds sp where r: "aoi_run ops (aoi_create cookie0) = Inr (rounds, sp)" "space_ok sp" "moded sp"
    "actors sp = spec_run ops Map.empty"
    using run_from_create [OF assms] by blast
  then show ?thesis using actors_message [OF r(2,3)] by auto
qed

lemma notice_near: "(1, 17) \<in> spec_notices (spec_run (take 2 sample_ops) Map.empty)"
proof -
  have "DIST2 (f32_of_int 0, f32_of_int 0, f32_of_int 0) (f32_of_int 3, f32_of_int 4, f32_of_int 0) = f32_of_int 25"
    by (simp add: DIST2_def fsub_of_int fmul_of_int fadd_of_int)
  moreover have "flt (f32_of_int 25) AOI_RADIS2"
    by (simp add: AOI_RADIS2_def AOI_RADIS_def fmul_of_int flt_of_int)
  ultimately show ?thesis
    by (simp add: sample_ops_def spec_notices_def spec_update_def)
qed

theorem aoi_message_reports_witness:
  "\<exists>rounds sp cbs sp'. aoi_run (take 2 sample_ops) (aoi_create cookie0) = Inr (rounds, sp) \<and>
    aoi_message sp = Inr (map (ids sp) (filter (reported sp) (sp_hot sp)) @ cbs, sp') \<and> (1, 17) \<in> set cbs"
proof -
  have "\<forall>p \<in> set (take 2 sample_ops). valid_op p" by (simp add: sample_ops_def valid_op_def INVALID_ID_def)
  then obtain rounds sp cbs sp' where "aoi_run (take 2 sample_ops) (aoi_create cookie0) = Inr (rounds, sp)"
    "aoi_message sp = Inr (map (ids sp) (filter (reported sp) (sp_hot sp)) @ cbs, sp')"
    "set cbs = spec_notices (spec_run (take 2 sample_ops) Map.empty)"
    using aoi_message_reports [of "take 2 sample_ops"] by (auto simp: min_le_iff_disj)
  then show ?thesis using notice_near by metis
qed


text \<open>A pair on the border is a pair of actors that are neither in range nor beyond it.\<close>

lemma border_actors:
  assumes ok: "space_ok sp" and b: "border sp p" and p: "p \<in> set (sp_hot sp)"
  shows "\<exists>i j a b. i \<noteq> j \<and> actors sp i = Some a \<and> actors sp j = Some b \<and>
    \<not> flt (DIST2 (ac_pos a) (ac_pos b)) AOI_RADIS2 \<and> \<not> flt LEAVE_AOI_RADIS (DIST2 (ac_pos a) (ac_pos b))"
proof -
  have inv: "inv sp (refs (sp_hot sp)) (length (sp_hot sp))" using ok by (simp add: space_ok_def)
  have ne: "pr_watcher p \<noteq> pr_marker p" using ok p by (simp add: space_ok_def)
  obtain w m where h: "sp_heap sp (pr_watcher p) = Some w" "sp_heap sp (pr_marker p) = Some m"
    "\<not> has (ob_mode w) MODE_DROP" "\<not> has (ob_mode m) MODE_DROP"
    using b by (auto simp: border_def present_def split: option.splits)
  note lu = invD(1) [OF inv]
  have ids: "ob_id w \<noteq> ob_id m"
    using linked_upD(2) [OF lu] h(1,2) ne by (metis option.inject)
  obtain x y where xy: "ob_position w = Some x" "ob_position m = Some y"
    using invD(3) [OF inv h(1)] invD(3) [OF inv h(2)] by (auto simp: object_ok_def)
  have "actors sp (ob_id w) = Some (actor_of (body w))" "actors sp (ob_id m) = Some (actor_of (body m))"
    using look_heap [OF lu h(1)] look_heap [OF lu h(2)] h(3,4) by (simp_all add: actors_def live_def)
  moreover have "ac_pos (actor_of (body w)) = x" "ac_pos (actor_of (body m)) = y"
    using xy by (simp_all add: actor_of_def body_def)
  moreover have "\<not> flt (DIST2 x y) AOI_RADIS2" "\<not> flt LEAVE_AOI_RADIS (DIST2 x y)"
    using b h(1,2) xy by (simp_all add: border_def hot_distance_def distance_def dist2_def in_range_def beyond_def)
  ultimately show ?thesis using ids by blast
qed

text \<open>
  The radius of leaving is the radius of the area, so that no pair in between becomes hot and
  the short moves of a marker towards a watcher are lost. An update that keeps the flags and
  stays near the place where the object last counted as moved leaves nothing to report.
\<close>

lemma slow_update_silent:
  assumes ok: "space_ok sp" "moded sp" and len: "length (mp_slot (sp_object sp)) \<le> 2 ^ 30" and hot: "sp_hot sp = []"
    and still: "\<forall>i a. actors sp i = Some a \<longrightarrow> \<not> ac_moved a"
    and j: "j \<noteq> INVALID_ID" "actors sp j = Some b" "mode_loop ms False False = Some (ac_watcher b, ac_marker b)"
      "is_near pos (ac_last b)"
  shows "\<exists>sp1 sp2. aoi_update j ms pos sp = Inr sp1 \<and> aoi_message sp1 = Inr ([], sp2) \<and>
    actors sp1 = (actors sp)(j \<mapsto> b\<lparr>ac_pos := pos\<rparr>)"
proof -
  obtain sp1 where u: "aoi_update j ms pos sp = Inr sp1" "space_ok sp1" "moded sp1" "sp_hot sp1 = sp_hot sp"
    "actors sp1 = spec_update j ms pos (actors sp)"
    using actors_update [OF ok j(1) len] by blast
  have a: "actors sp1 = (actors sp)(j \<mapsto> b\<lparr>ac_pos := pos\<rparr>)" using u(5) j(2-4) by (simp add: spec_update_def)
  then have "\<forall>i a. actors sp1 i = Some a \<longrightarrow> \<not> ac_moved a" using still j(2) by auto
  then have "spec_notices (actors sp1) = {}" by (auto simp: spec_notices_def)
  then show ?thesis using actors_message [OF u(2,3)] u(1,4) hot a by auto
qed

definition at :: "int \<Rightarrow> vec3" where
  "at x = (f32_of_int x, f32_of_int 0, f32_of_int 0)"

definition approach :: "aoi_op list" where
  "approach = [Update 1 ''w'' (at 0), Update 2 ''m'' (at 50), Round]"

definition rest_at :: "bool \<Rightarrow> int \<Rightarrow> actor" where
  "rest_at w x = \<lparr>ac_watcher = w, ac_marker = \<not> w, ac_moved = False, ac_last = at x, ac_pos = at x\<rparr>"

lemma at_dist: "\<bar>x - y\<bar> < 2 ^ 12 \<Longrightarrow> DIST2 (at x) (at y) = f32_of_int ((x - y) * (x - y))"
proof -
  assume a: "\<bar>x - y\<bar> < 2 ^ 12"
  then have "\<bar>(x - y) * (x - y)\<bar> < 2 ^ 12 * 2 ^ 12" unfolding abs_mult by (intro mult_strict_mono) simp_all
  then show ?thesis using a by (simp add: at_def DIST2_def fsub_of_int fmul_of_int fadd_of_int)
qed

lemma radii: "AOI_RADIS2 = f32_of_int 1600" "LEAVE_AOI_RADIS = f32_of_int 1600" "fmul AOI_RADIS2 quarter = f32_of_int 400"
proof -
  show r: "AOI_RADIS2 = f32_of_int 1600" by (simp add: AOI_RADIS2_def AOI_RADIS_def fmul_of_int)
  then show "LEAVE_AOI_RADIS = f32_of_int 1600" by (simp add: LEAVE_AOI_RADIS_def)
  have "(1600 :: int) * 2 ^ 149 * 2 ^ 147 = 400 * 2 ^ 298" by simp
  then have "f32_round 149 (1600 * 2 ^ 149 * 2 ^ 147) = FFin (400 * 2 ^ 149)"
    using f32_round_exact [of 400 149 298] by simp
  then show "fmul AOI_RADIS2 quarter = f32_of_int 400"
    unfolding r quarter_def f32_of_int_def fmul.simps .
qed

lemma approach_state:
  "\<exists>sp. aoi_run approach (aoi_create cookie0) = Inr ([[]], sp) \<and> space_ok sp \<and> moded sp \<and> sized 2 sp \<and> sp_hot sp = [] \<and>
    actors sp = [1 \<mapsto> rest_at True 0, 2 \<mapsto> rest_at False 50]"
proof -
  let ?sp = "aoi_create cookie0"
  have ids: "(1 :: u32) \<noteq> INVALID_ID" "(2 :: u32) \<noteq> INVALID_ID" by (simp_all add: INVALID_ID_def)
  have z: "sized 0 ?sp" by (simp add: sized_def create_ok)
  obtain sp1 where 1: "aoi_update 1 ''w'' (at 0) ?sp = Inr sp1" "space_ok sp1" "moded sp1" "grew ?sp sp1" "sp_hot sp1 = []"
    "actors sp1 = spec_update 1 ''w'' (at 0) Map.empty"
    using actors_update [OF create_ok(1,2) ids(1), of "''w''" "at 0"] create_ok(3,4,6) by auto
  note s1 = sized_grew [OF z 1(4)]
  then have "length (mp_slot (sp_object sp1)) \<le> 2 ^ 30" by (simp add: sized_def)
  then obtain sp2 where 2: "aoi_update 2 ''m'' (at 50) sp1 = Inr sp2" "space_ok sp2" "moded sp2" "grew sp1 sp2" "sp_hot sp2 = []"
    "actors sp2 = spec_update 2 ''m'' (at 50) (actors sp1)"
    using actors_update [OF 1(2,3) ids(2), of "''m''" "at 50"] 1(5) by auto
  have "spec_notices (actors sp2) = {}"
    by (auto simp: 1(6) 2(6) spec_update_def spec_notices_def radii at_dist split: if_splits)
  then obtain sp3 where 3: "aoi_message sp2 = Inr ([], sp3)" "space_ok sp3" "moded sp3" "same_size sp2 sp3"
    "actors sp3 = map_option rested \<circ> actors sp2" "\<forall>p \<in> set (sp_hot sp3). border sp3 p"
    using actors_message [OF 2(2,3)] 2(5) by auto
  have a: "actors sp3 = [1 \<mapsto> rest_at True 0, 2 \<mapsto> rest_at False 50]"
    using 1(6) 2(6) 3(5) by (auto simp: spec_update_def rested_def rest_at_def fun_eq_iff)
  have "sp_hot sp3 = []"
  proof (rule ccontr)
    assume "sp_hot sp3 \<noteq> []"
    then obtain p where p: "p \<in> set (sp_hot sp3)" by (cases "sp_hot sp3") auto
    then obtain i j b c where "i \<noteq> j" "actors sp3 i = Some b" "actors sp3 j = Some c"
      "\<not> flt LEAVE_AOI_RADIS (DIST2 (ac_pos b) (ac_pos c))"
      using border_actors [OF 3(2)] 3(6) by blast
    then show False
      by (auto simp: a rest_at_def radii at_dist split: if_splits)
  qed
  moreover have "sized 2 sp3" using sized_grew [OF s1 2(4)] 3(4) by (simp add: sized_def same_size_def)
  moreover have "aoi_run approach ?sp = Inr ([[]], sp3)" using 1(1) 2(1) 3(1) by (simp add: approach_def)
  ultimately show ?thesis using 3(2,3) a by blast
qed

lemma run_append:
  "aoi_run (xs @ ys) sp = rbind (aoi_run xs sp) (\<lambda>(r, sp). rbind (aoi_run ys sp) (\<lambda>(r', sp). Inr (r @ r', sp)))"
proof (induction xs arbitrary: sp)
  case Nil
  show ?case by (cases "aoi_run ys sp") auto
next
  case (Cons x xs)
  show ?case
  proof (cases x)
    case (Update oid ms pos)
    then show ?thesis using Cons.IH by (cases "aoi_update oid ms pos sp") simp_all
  next
    case Round
    show ?thesis
    proof (cases "aoi_message sp")
      case (Inr r)
      obtain cbs sp1 where "r = (cbs, sp1)" by (cases r)
      then show ?thesis using Round Inr Cons.IH [of sp1]
        by (cases "aoi_run xs sp1"; cases "aoi_run ys (snd (projr (aoi_run xs sp1)))") auto
    qed (simp add: Round)
  qed
qed

text \<open>
  C35: A marker that comes closer by a short move is not reported: the watcher 1 at the origin
  is not told of the marker 2, which was 50 away at the last round and is now 35 away, well
  within the radius of 40. (\<^verbatim>\<open>LEAVE_AOI_RADIS\<close> is the square of that same radius, so the list of
  hot pairs that is there to catch this case has nothing in it.)
\<close>

theorem aoi_misses_slow_approach:
  "\<exists>sp. aoi_run (approach @ [Update 2 ''m'' (at 35), Round]) (aoi_create cookie0) = Inr ([[], []], sp) \<and>
    flt (DIST2 (at 0) (at 35)) AOI_RADIS2"
proof -
  obtain sp where a: "aoi_run approach (aoi_create cookie0) = Inr ([[]], sp)" "space_ok sp" "moded sp" "sized 2 sp" "sp_hot sp = []"
    "actors sp = [1 \<mapsto> rest_at True 0, 2 \<mapsto> rest_at False 50]"
    using approach_state by blast
  have b: "actors sp 2 = Some (rest_at False 50)" using a(6) by simp
  have n: "is_near (at 35) (ac_last (rest_at False 50))"
    by (simp add: is_near_def radii(3) at_dist rest_at_def)
  have "length (mp_slot (sp_object sp)) \<le> 2 ^ 30" using a(4) by (simp add: sized_def)
  moreover have "\<forall>i x. actors sp i = Some x \<longrightarrow> \<not> ac_moved x" using a(6) by (auto simp: rest_at_def split: if_splits)
  ultimately obtain sp1 sp2 where "aoi_update 2 ''m'' (at 35) sp = Inr sp1" "aoi_message sp1 = Inr ([], sp2)"
    using slow_update_silent [OF a(2,3) _ a(5) _ _ b _ n, of "''m''"] by (auto simp: INVALID_ID_def rest_at_def)
  then have "aoi_run (approach @ [Update 2 ''m'' (at 35), Round]) (aoi_create cookie0) = Inr ([[], []], sp2)"
    unfolding run_append a(1) by simp
  then show ?thesis by (simp add: radii at_dist)
qed

end
