(* ===== verification/CString.thy ===== *)
theory CString
  imports Prelude
begin

text \<open>
  What the services use of the C library on strings: \<^verbatim>\<open>strtol\<close> and \<^verbatim>\<open>strtoul\<close>, \<^verbatim>\<open>strsep\<close>, the
  comparison of a buffer with a literal by \<^verbatim>\<open>memcmp\<close>, and the conversions \<^verbatim>\<open>%d\<close>, \<^verbatim>\<open>%u\<close> and \<^verbatim>\<open>%x\<close>
  of \<^verbatim>\<open>sprintf\<close>.
\<close>

section \<open>Strings in buffers\<close>

text \<open>The C string that starts at the head of a buffer.\<close>

definition c_string :: "cstr \<Rightarrow> cstr" where
  "c_string bs = takeWhile (\<lambda>c. c \<noteq> CHR 0x00) bs"

text \<open>
  \<^verbatim>\<open>memcmp(buf, "lit", n) == 0\<close>: the bytes are compared up to the first that differs. A literal
  ends with a NUL; going on behind it, or behind the end of the buffer, is out of bounds.
\<close>

fun memcmp_eq :: "cstr \<Rightarrow> cstr \<Rightarrow> nat \<Rightarrow> bool result" where
  "memcmp_eq xs ys 0 = Inr True"
| "memcmp_eq (x # xs) (y # ys) (Suc n) = (if x = y then memcmp_eq xs ys n else Inr False)"
| "memcmp_eq _ _ (Suc n) = Inl OutOfBounds"

definition literal :: "cstr \<Rightarrow> cstr" where
  "literal s = s @ [CHR 0x00]"

definition memcmp_lit :: "cstr \<Rightarrow> cstr \<Rightarrow> nat \<Rightarrow> bool result" where
  "memcmp_lit buf lit n = memcmp_eq buf (literal lit) n"

text \<open>\<^verbatim>\<open>strsep\<close>: the token before the first delimiter, and what follows it if there was one.\<close>

definition strsep :: "cstr \<Rightarrow> cstr \<Rightarrow> cstr \<times> cstr option" where
  "strsep delim s =
     (let tok = takeWhile (\<lambda>c. c \<notin> set delim) s; rest = dropWhile (\<lambda>c. c \<notin> set delim) s
      in (tok, case rest of [] \<Rightarrow> None | _ # r \<Rightarrow> Some r))"

section \<open>Numbers\<close>

definition isspace :: "char \<Rightarrow> bool" where
  "isspace c \<longleftrightarrow> c \<in> set [CHR '' '', CHR 0x09, CHR 0x0A, CHR 0x0B, CHR 0x0C, CHR 0x0D]"

definition code_of :: "char \<Rightarrow> nat" where
  "code_of c = of_char c"

definition digit_val :: "char \<Rightarrow> nat option" where
  "digit_val c =
     (let n = code_of c in
      if 48 \<le> n \<and> n \<le> 57 then Some (n - 48)
      else if 97 \<le> n \<and> n \<le> 122 then Some (n - 87)
      else if 65 \<le> n \<and> n \<le> 90 then Some (n - 55)
      else None)"

definition is_digit :: "nat \<Rightarrow> char \<Rightarrow> bool" where
  "is_digit b c \<longleftrightarrow> (case digit_val c of Some d \<Rightarrow> d < b | None \<Rightarrow> False)"

definition digits_value :: "nat \<Rightarrow> cstr \<Rightarrow> nat" where
  "digits_value b ds = foldl (\<lambda>n c. b * n + the (digit_val c)) 0 ds"

text \<open>A sign, if there is one: whether it is a minus, and the rest.\<close>

fun read_sign :: "cstr \<Rightarrow> bool \<times> cstr" where
  "read_sign (c # s) = (if c = CHR ''-'' then (True, s) else if c = CHR ''+'' then (False, s) else (False, c # s))"
| "read_sign [] = (False, [])"

text \<open>The prefix \<^verbatim>\<open>0x\<close> counts only when a hexadecimal digit follows.\<close>

fun read_prefix :: "nat \<Rightarrow> cstr \<Rightarrow> nat \<times> cstr" where
  "read_prefix base (z # x # d # s) =
     (if z = CHR ''0'' \<and> x \<in> {CHR ''x'', CHR ''X''} \<and> is_digit 16 d \<and> base \<in> {0, 16} then (16, d # s)
      else (if base = 0 then if z = CHR ''0'' then 8 else 10 else base, z # x # d # s))"
| "read_prefix base (z # s) = (if base = 0 then if z = CHR ''0'' then 8 else 10 else base, z # s)"
| "read_prefix base [] = (if base = 0 then 10 else base, [])"

definition read_number :: "nat \<Rightarrow> cstr \<Rightarrow> bool \<times> nat" where
  "read_number base s =
     (let (neg, s) = read_sign (dropWhile isspace s);
          (base, s) = read_prefix base s
      in (neg, digits_value base (takeWhile (is_digit base) s)))"

text \<open>On a 64-bit target; out of range, \<^verbatim>\<open>strtol\<close> and \<^verbatim>\<open>strtoul\<close> saturate.\<close>

definition strtol :: "nat \<Rightarrow> cstr \<Rightarrow> int" where
  "strtol base s =
     (let (neg, n) = read_number base s
      in if neg then max (- (2 ^ 63)) (- int n) else min (2 ^ 63 - 1) (int n))"

definition strtoul :: "nat \<Rightarrow> cstr \<Rightarrow> u64" where
  "strtoul base s =
     (let (neg, n) = read_number base s
      in if n \<ge> 2 ^ 64 then - 1 else if neg then - of_nat n else of_nat n)"

definition digit_char :: "nat \<Rightarrow> char" where
  "digit_char d = char_of (if d < 10 then 48 + d else 87 + d)"

fun show_base :: "nat \<Rightarrow> nat \<Rightarrow> cstr" where
  "show_base b n = (if n < b \<or> b < 2 then [digit_char n] else show_base b (n div b) @ [digit_char (n mod b)])"

declare show_base.simps [simp del]

definition show_int :: "int \<Rightarrow> cstr" where
  "show_int i = (if i < 0 then CHR ''-'' # show_base 10 (nat (- i)) else show_base 10 (nat i))"

text \<open>\<^verbatim>\<open>%d\<close>, \<^verbatim>\<open>%u\<close> and \<^verbatim>\<open>%x\<close> of a 32-bit value.\<close>

definition fmt_d :: "u32 \<Rightarrow> cstr" where "fmt_d w = show_int (sint w)"
definition fmt_u :: "u32 \<Rightarrow> cstr" where "fmt_u w = show_base 10 (unat w)"
definition fmt_x :: "u32 \<Rightarrow> cstr" where "fmt_x w = show_base 16 (unat w)"

text \<open>\<^verbatim>\<open>sprintf\<close> into a buffer of \<open>n\<close> bytes: the text and a NUL have to fit.\<close>

definition sprintf :: "nat \<Rightarrow> cstr \<Rightarrow> cstr result" where
  "sprintf n s = (if length s < n then Inr (s @ [CHR 0x00] @ replicate (n - length s - 1) (CHR 0x00)) else Inl OutOfBounds)"

section \<open>Reading what was printed\<close>

lemma digit_char_val:
  assumes "d < 16"
  shows "digit_val (digit_char d) = Some d" "isspace (digit_char d) \<longleftrightarrow> False"
    "digit_char d \<noteq> CHR ''-''" "digit_char d \<noteq> CHR ''+''" "digit_char d \<noteq> CHR ''x''" "digit_char d \<noteq> CHR ''X''"
proof -
  have n: "code_of (digit_char d) = (if d < 10 then 48 + d else 87 + d)"
    using assms by (simp add: code_of_def digit_char_def)
  show "digit_val (digit_char d) = Some d" using assms by (simp add: digit_val_def n)
  have no: "digit_char d \<noteq> c" if "code_of c < 48 \<or> 103 \<le> code_of c \<or> code_of c = 88" for c
    using that n assms by (auto split: if_splits)
  show "isspace (digit_char d) \<longleftrightarrow> False" "digit_char d \<noteq> CHR ''-''" "digit_char d \<noteq> CHR ''+''"
    "digit_char d \<noteq> CHR ''x''" "digit_char d \<noteq> CHR ''X''"
    unfolding isspace_def list.set insert_iff empty_iff using no by (simp_all add: code_of_def)
qed

lemma show_base_step: "2 \<le> b \<Longrightarrow> b \<le> n \<Longrightarrow> show_base b n = show_base b (n div b) @ [digit_char (n mod b)]"
  by (subst show_base.simps) simp

lemma show_base_small: "n < b \<Longrightarrow> show_base b n = [digit_char n]"
  by (subst show_base.simps) simp

lemma show_base_ok:
  assumes "2 \<le> b" "b \<le> 16"
  shows "digits_value b (show_base b n) = n" "\<forall>c \<in> set (show_base b n). \<exists>d < b. c = digit_char d" "show_base b n \<noteq> []"
proof (induction n rule: less_induct)
  case (less n)
  {
    case 1
    show ?case
    proof (cases "n < b")
      case True
      then show ?thesis using assms by (simp add: show_base_small digits_value_def digit_char_val)
    next
      case False
      then have "n div b < n" using assms by (simp add: div_less_dividend)
      moreover have "n mod b < 16" using assms mod_less_divisor [of b n] by linarith
      ultimately show ?thesis
        using less(1) [of "n div b"] False assms by (simp add: show_base_step digits_value_def digit_char_val)
    qed
  next
    case 2
    show ?case
    proof (cases "n < b")
      case False
      then have "n div b < n" using assms by (simp add: div_less_dividend)
      then show ?thesis
        using less(2) [of "n div b"] False assms mod_less_divisor [of b n]
        by (auto simp: show_base_step intro!: exI [of _ "n mod b"])
    qed (auto simp: show_base_small)
  next
    case 3
    show ?case using assms by (cases "n < b") (simp_all add: show_base_small show_base_step)
  }
qed

text \<open>What \<^verbatim>\<open>%d\<close>, \<^verbatim>\<open>%u\<close> or \<^verbatim>\<open>%x\<close> printed is read back, whatever follows the number.\<close>

lemma read_show_base:
  assumes b: "b \<in> {10, 16}" and r: "rest = [] \<or> \<not> is_digit b (hd rest) \<and> hd rest \<notin> {CHR ''x'', CHR ''X''}"
  shows "read_number b (show_base b n @ rest) = (False, n)"
proof -
  have b': "2 \<le> b" "b \<le> 16" "b \<noteq> 0" using b by auto
  note s = show_base_ok [OF b'(1,2), of n]
  obtain d ds where e: "show_base b n = d # ds" using s(3) by (cases "show_base b n") auto
  have dig: "is_digit b c" "c \<noteq> CHR ''x''" "c \<noteq> CHR ''X''" "c \<noteq> CHR ''-''" "c \<noteq> CHR ''+''" "\<not> isspace c" if "c \<in> set (show_base b n)" for c
  proof -
    from bspec [OF s(2) that] obtain k where k: "k < b" "c = digit_char k" by (elim exE conjE)
    then have "k < 16" using b'(2) by simp
    note v = digit_char_val [OF this]
    show "is_digit b c" using v(1) k by (simp add: is_digit_def)
    show "c \<noteq> CHR ''x''" "c \<noteq> CHR ''X''" "c \<noteq> CHR ''-''" "c \<noteq> CHR ''+''" "\<not> isspace c"
      using v(2-6) unfolding k(2) by simp_all
  qed
  have d: "d \<noteq> CHR ''-''" "d \<noteq> CHR ''+''" "\<not> isspace d" using dig [of d] e by auto
  have x: "x \<noteq> CHR ''x'' \<and> x \<noteq> CHR ''X''" if "ds @ rest = x # xs" for x xs
    using that dig [of x] r e by (cases ds) auto
  have "read_prefix b (d # ds @ rest) = (b, d # ds @ rest)"
  proof (cases "ds @ rest")
    case Nil
    then show ?thesis using b' by simp
  next
    case (Cons y ys)
    then show ?thesis using x [of y ys] b' by (cases ys) simp_all
  qed
  moreover have "takeWhile (is_digit b) (show_base b n @ rest) = show_base b n"
    using dig(1) r by (subst takeWhile_append2) (auto simp: takeWhile_eq_Nil_iff)
  ultimately show ?thesis
    using d e s(1) by (simp add: read_number_def)
qed

end
