(* ===== verification/Message.thy ===== *)
theory Message
  imports Prelude
begin

text \<open>
  The message that every component of the node passes around (\<^verbatim>\<open>skynet-src/skynet_mq.h\<close>) and
  the packing of its type into the top byte of its size. The type of the data pointer is a
  parameter: no core component looks behind it.
\<close>

record 'd skynet_message =
  msg_source :: u32
  msg_session :: int
  msg_data :: "'d option"
  msg_sz :: u64

text \<open>\<^verbatim>\<open>#define MESSAGE_TYPE_SHIFT ((sizeof(size_t)-1) * 8)\<close> on a 64-bit target\<close>

definition MESSAGE_TYPE_SHIFT :: nat where "MESSAGE_TYPE_SHIFT = (8 - 1) * 8"

text \<open>\<^verbatim>\<open>#define MESSAGE_TYPE_MASK (SIZE_MAX >> 8)\<close>\<close>

definition MESSAGE_TYPE_MASK :: u64 where "MESSAGE_TYPE_MASK = drop_bit 8 (- 1)"

definition PTYPE_TEXT :: nat where "PTYPE_TEXT = 0"
definition PTYPE_RESPONSE :: nat where "PTYPE_RESPONSE = 1"
definition PTYPE_MULTICAST :: nat where "PTYPE_MULTICAST = 2"
definition PTYPE_CLIENT :: nat where "PTYPE_CLIENT = 3"
definition PTYPE_SYSTEM :: nat where "PTYPE_SYSTEM = 4"
definition PTYPE_HARBOR :: nat where "PTYPE_HARBOR = 5"
definition PTYPE_SOCKET :: nat where "PTYPE_SOCKET = 6"
definition PTYPE_ERROR :: nat where "PTYPE_ERROR = 7"
definition PTYPE_TAG_DONTCOPY :: nat where "PTYPE_TAG_DONTCOPY = 0x10000"
definition PTYPE_TAG_ALLOCSESSION :: nat where "PTYPE_TAG_ALLOCSESSION = 0x20000"

lemma message_type_mask: "MESSAGE_TYPE_MASK = mask 56"
  by (simp add: MESSAGE_TYPE_MASK_def mask_eq_exp_minus_1)

text \<open>Size and type travel in one word and come out again.\<close>

lemma msg_sz_pack:
  assumes "sz AND MESSAGE_TYPE_MASK = sz" "t < 256"
  shows "(sz OR push_bit MESSAGE_TYPE_SHIFT (of_nat t)) AND MESSAGE_TYPE_MASK = sz"
    "unat (drop_bit MESSAGE_TYPE_SHIFT (sz OR push_bit MESSAGE_TYPE_SHIFT (of_nat t) :: u64)) = t"
proof -
  have hi: "\<not> bit sz i" if "56 \<le> i" for i
  proof -
    have "bit (sz AND MESSAGE_TYPE_MASK) i = bit sz i" using assms(1) by simp
    then show ?thesis using that by (auto simp: message_type_mask bit_simps)
  qed
  show "(sz OR push_bit MESSAGE_TYPE_SHIFT (of_nat t)) AND MESSAGE_TYPE_MASK = sz"
    using hi by (auto simp: bit_eq_iff bit_simps message_type_mask MESSAGE_TYPE_SHIFT_def) (meson not_less)
  have t8: "\<not> bit t i" if "8 \<le> i" for i
  proof -
    have "t < 2 ^ i" using assms(2) power_increasing [OF that, of "2::nat"] by simp
    then show ?thesis by (simp add: bit_iff_odd)
  qed
  have "drop_bit MESSAGE_TYPE_SHIFT (sz OR push_bit MESSAGE_TYPE_SHIFT (of_nat t) :: u64) = of_nat t"
    using hi t8 by (auto simp: bit_eq_iff bit_simps MESSAGE_TYPE_SHIFT_def) (meson not_less)
  then show "unat (drop_bit MESSAGE_TYPE_SHIFT (sz OR push_bit MESSAGE_TYPE_SHIFT (of_nat t) :: u64)) = t"
    using assms(2) by (simp add: unsigned_of_nat take_bit_nat_eq_self)
qed

end
