(* ===== verification/AoiService.thy ===== *)
theory AoiService
  imports AoiRun CString Message
begin

text \<open>
  The service around the space: the text protocol of \<^verbatim>\<open>caoi\<close> (\<^verbatim>\<open>_ctrl\<close>), the message it sends
  for every callback of a round, creation and release.
\<close>

section \<open>\<^verbatim>\<open>strtof\<close>\<close>

definition lower :: "char \<Rightarrow> char" where
  "lower c = (if 65 \<le> code_of c \<and> code_of c \<le> 90 then char_of (code_of c + 32) else c)"

definition has_word :: "cstr \<Rightarrow> cstr \<Rightarrow> bool" where
  "has_word w s \<longleftrightarrow> map lower (take (length w) s) = w"

text \<open>The digits before and after the point, and the rest.\<close>

definition read_mantissa :: "nat \<Rightarrow> cstr \<Rightarrow> cstr \<times> cstr \<times> cstr" where
  "read_mantissa b s =
     (let d1 = takeWhile (is_digit b) s; r1 = dropWhile (is_digit b) s
      in case r1 of
           c # r \<Rightarrow> if c = CHR ''.'' then (d1, takeWhile (is_digit b) r, dropWhile (is_digit b) r) else (d1, [], r1)
         | [] \<Rightarrow> (d1, [], []))"

definition read_exponent :: "char \<Rightarrow> cstr \<Rightarrow> int" where
  "read_exponent e s =
     (case s of
        c # r \<Rightarrow>
          if lower c = e then
            (let (neg, r) = read_sign r; n = int (digits_value 10 (takeWhile (is_digit 10) r)) in if neg then - n else n)
          else 0
      | [] \<Rightarrow> 0)"

text \<open>The float nearest to \<open>p / q\<close>, ties to even: two more bits than units and a sticky bit.\<close>

definition f32_ratio :: "bool \<Rightarrow> nat \<Rightarrow> nat \<Rightarrow> f32" where
  "f32_ratio neg p q =
     (let x = 2 * (p * 2 ^ 150 div q) + (if p * 2 ^ 150 mod q = 0 then 0 else 1)
      in f32_round 2 (if neg then - int x else int x))"

definition strtof :: "cstr \<Rightarrow> f32" where
  "strtof s =
     (let (neg, s) = read_sign (dropWhile isspace s);
          (h1, h2, hr) = read_mantissa 16 (drop 2 s);
          (d1, d2, dr) = read_mantissa 10 s
      in if has_word ''inf'' s then FInf neg
         else if has_word ''nan'' s then FNaN
         else if has_word ''0x'' s \<and> h1 @ h2 \<noteq> [] then
           (let ex = read_exponent (CHR ''p'') hr
            in f32_ratio neg (digits_value 16 (h1 @ h2) * 2 ^ nat ex) (16 ^ length h2 * 2 ^ nat (- ex)))
         else if d1 @ d2 \<noteq> [] then
           (let ex = read_exponent (CHR ''e'') dr
            in f32_ratio neg (digits_value 10 (d1 @ d2) * 10 ^ nat ex) (10 ^ length d2 * 10 ^ nat (- ex)))
         else FFin 0)"

section \<open>The callback\<close>

function getnumbercount :: "u32 \<Rightarrow> nat" where
  "getnumbercount n = (if n \<noteq> 0 then Suc (getnumbercount (n div 10)) else 0)"
  by auto
termination
proof (relation "measure unat")
  fix n :: u32
  assume "n \<noteq> 0"
  then have "0 < unat n" by (simp add: unat_gt_0)
  then show "(n div 10, n) \<in> measure unat" by (simp add: unat_div)
qed simp

declare getnumbercount.simps [simp del]

text \<open>
  What the service does to the rest of the system. A \<^verbatim>\<open>skynet_send\<close> has the destination, the
  type with its tags and the bytes.
\<close>

datatype aoi_event = Send u32 nat cstr | Error cstr

definition callbackmessage :: "u32 \<Rightarrow> u32 \<Rightarrow> u32 \<Rightarrow> aoi_event result" where
  "callbackmessage current watcher marker =
     (let sz = getnumbercount watcher + getnumbercount marker + length ''aoicallback'' + 2
      in rbind (sprintf sz (''aoicallback '' @ fmt_d watcher @ '' '' @ fmt_d marker)) (\<lambda>msg.
         Inr (Send (current - 1) (PTYPE_TEXT + PTYPE_TAG_DONTCOPY) msg)))"

fun callback_all :: "u32 \<Rightarrow> callback list \<Rightarrow> aoi_event list result" where
  "callback_all current [] = Inr []"
| "callback_all current ((w, m) # cbs) =
     rbind (callbackmessage current w m) (\<lambda>e. rbind (callback_all current cbs) (\<lambda>es. Inr (e # es)))"

section \<open>Commands\<close>

text \<open>\<^verbatim>\<open>_parm\<close>: the string behind the command and the blanks that follow it.\<close>

definition parm :: "cstr \<Rightarrow> nat \<Rightarrow> cstr" where
  "parm msg command_sz = dropWhile (\<lambda>c. c = CHR '' '') (drop command_sz msg)"

text \<open>The arguments of \<^verbatim>\<open>update\<close>, or \<open>None\<close> where the code returns without an effect.\<close>

definition update_args :: "cstr \<Rightarrow> (u32 \<times> cstr \<times> vec3) option" where
  "update_args text =
     (case strsep '' '' text of (idstr, Some text) \<Rightarrow>
       (case strsep '' '' text of (mode, Some text) \<Rightarrow>
         (case strsep '' '' text of (px, Some text) \<Rightarrow>
           (case strsep '' '' text of (py, Some text) \<Rightarrow>
             Some (word_of_int (strtol 10 idstr), mode, (strtof px, strtof py, strtof (fst (strsep '' '' text))))
           | (_, None) \<Rightarrow> None)
         | (_, None) \<Rightarrow> None)
       | (_, None) \<Rightarrow> None)
     | (_, None) \<Rightarrow> None)"

definition ctrl :: "u32 \<Rightarrow> cstr \<Rightarrow> aoi_space \<Rightarrow> (aoi_event list \<times> aoi_space) result" where
  "ctrl current msg sp =
     (if msg = [] then Inr ([], sp)
      else
        (let i = length (takeWhile (\<lambda>c. c \<noteq> CHR '' '') msg); tmp = literal msg in
         rbind (memcmp_lit tmp ''update'' i) (\<lambda>is_update.
         if is_update then
           (case update_args (c_string (parm msg i)) of
              Some (oid, mode, pos) \<Rightarrow> rbind (aoi_update oid mode pos sp) (\<lambda>sp. Inr ([], sp))
            | None \<Rightarrow> Inr ([], sp))
         else
           rbind (memcmp_lit tmp ''message'' i) (\<lambda>is_message.
           if is_message then
             rbind (aoi_message sp) (\<lambda>(cbs, sp).
             rbind (callback_all current cbs) (\<lambda>es. Inr (es, sp)))
           else Inr ([Error (''[aoi] Unkown command : '' @ c_string msg)], sp)))))"

text \<open>The space and the accounting of its allocator are one record here (\<open>sp_cookie\<close>).\<close>

definition caoi_create :: aoi_space where
  "caoi_create = aoi_create \<lparr>ck_count = 0, ck_max = 0, ck_current = 0\<rparr>"

definition caoi_release :: "aoi_space \<Rightarrow> (alloc_cookie \<times> (objref \<rightharpoonup> object)) result" where
  "caoi_release sp = aoi_release sp"

definition caoi_cb :: "u32 \<Rightarrow> nat \<Rightarrow> cstr \<Rightarrow> aoi_space \<Rightarrow> (aoi_event list \<times> aoi_space) result" where
  "caoi_cb current type msg sp = (if type = PTYPE_TEXT then ctrl current msg sp else Inr ([], sp))"

section \<open>Properties\<close>

lemma getnumbercount_length: "getnumbercount n \<le> length (show_base 10 (unat n))"
proof (induction n rule: getnumbercount.induct)
  case (1 n)
  show ?case
  proof (cases "n = 0")
    case True
    then show ?thesis by (simp add: getnumbercount.simps)
  next
    case False
    have u: "unat (n div 10) = unat n div 10" by (simp add: unat_div)
    show ?thesis
    proof (cases "unat n < 10")
      case True
      then have "n div 10 = 0" using u by (simp add: unat_eq_zero [symmetric] del: unat_eq_zero)
      then show ?thesis using False True by (simp add: getnumbercount.simps show_base_small)
    next
      case False': False
      then show ?thesis
        using 1 [OF False] False u by (simp add: show_base_step getnumbercount.simps [of n])
    qed
  qed
qed

lemma fmt_d_nonneg: "n < 2 ^ 31 \<Longrightarrow> fmt_d n = show_base 10 (unat n)"
proof -
  assume "n < 2 ^ 31"
  then have "uint n < 2 ^ 31" by (simp add: word_less_def)
  then have "signed_take_bit 31 (uint n) = uint n" by (intro signed_take_bit_int_eq_self) (simp_all add: order_trans [of _ 0])
  then have "sint n = uint n" by (simp add: sint_uint)
  then show ?thesis by (simp add: fmt_d_def show_int_def)
qed



lemma fmt_u_chars:
  assumes "c \<in> set (fmt_u n)"
  shows "is_digit 10 c" "lower c = c" "c \<noteq> CHR ''i''" "c \<noteq> CHR ''n''" "c \<noteq> CHR ''x''" "c \<noteq> CHR '' ''" "c \<noteq> CHR 0x00"
    "\<not> isspace c" "c \<noteq> CHR ''-''" "c \<noteq> CHR ''+''"
proof -
  have "\<exists>d < 10. c = digit_char d"
    by (rule bspec [OF show_base_ok(2) assms [unfolded fmt_u_def]]) simp_all
  then obtain d where d: "d < 10" "c = digit_char d" by (elim exE conjE)
  then have n: "code_of c = 48 + d" by (simp add: code_of_def digit_char_def)
  have no: "c \<noteq> c'" if "code_of c' < 48 \<or> 58 \<le> code_of c'" for c'
    using that n d(1) by auto
  show "is_digit 10 c" using d digit_char_val(1) [of d] by (simp add: is_digit_def)
  show "lower c = c" using n d(1) by (simp add: lower_def)
  show "c \<noteq> CHR ''i''" "c \<noteq> CHR ''n''" "c \<noteq> CHR ''x''" "c \<noteq> CHR '' ''" "c \<noteq> CHR 0x00" "c \<noteq> CHR ''-''" "c \<noteq> CHR ''+''"
    by (rule no, simp add: code_of_def)+
  show "\<not> isspace c" using digit_char_val(2) [of d] d by simp
qed

lemma fmt_u_Cons: obtains d ds where "fmt_u n = d # ds"
  using show_base_ok(3) [of 10 "unat n"] by (cases "fmt_u n") (simp_all add: fmt_u_def)

lemma strtol_fmt_u: "strtol 10 (fmt_u n) = int (unat n)"
proof -
  have "uint n < 2 ^ 32" using unsigned_less [of n] by simp
  then show ?thesis
    using read_show_base [of 10 "[]" "unat n"] by (simp add: strtol_def fmt_u_def)
qed

lemma strtof_fmt_u: "strtof (fmt_u n) = f32_ratio False (unat n) 1"
proof -
  obtain d ds where e: "fmt_u n = d # ds" by (rule fmt_u_Cons)
  note c = fmt_u_chars [of d n]
  have d: "d \<in> set (fmt_u n)" using e by simp
  have sp: "dropWhile isspace (fmt_u n) = fmt_u n" "read_sign (fmt_u n) = (False, fmt_u n)"
    using c(8-10) [OF d] by (simp_all add: e)
  have t: "takeWhile (is_digit 10) (fmt_u n) = fmt_u n" "dropWhile (is_digit 10) (fmt_u n) = []"
    using fmt_u_chars(1) [of _ n] by (simp_all add: takeWhile_eq_all_conv dropWhile_eq_Nil_conv)
  have "\<not> has_word ''inf'' (fmt_u n)" "\<not> has_word ''nan'' (fmt_u n)"
    using c(2-4) [OF d] by (simp_all add: has_word_def e)
  moreover have "\<not> has_word ''0x'' (fmt_u n)"
  proof
    assume h: "has_word ''0x'' (fmt_u n)"
    then obtain x xs where x: "ds = x # xs" by (cases ds) (simp_all add: has_word_def e)
    then have "x \<in> set (fmt_u n)" using e by simp
    then show False using h x fmt_u_chars(2,5) [of x n] by (simp add: has_word_def e)
  qed
  moreover have "digits_value 10 (fmt_u n) = unat n" using show_base_ok(1) [of 10 "unat n"] by (simp add: fmt_u_def)
  moreover have "read_mantissa 10 (fmt_u n) = (fmt_u n, [], [])" by (simp add: read_mantissa_def t)
  moreover have "fmt_u n \<noteq> []" using e by simp
  moreover obtain h1 h2 hr where "read_mantissa 16 (drop 2 (fmt_u n)) = (h1, h2, hr)" by (cases "read_mantissa 16 (drop 2 (fmt_u n))")
  ultimately show ?thesis
    unfolding strtof_def sp(1) sp(2) by (simp add: read_exponent_def Let_def)
qed

lemma strsep_blank: "CHR '' '' \<notin> set tok \<Longrightarrow> strsep '' '' (tok @ CHR '' '' # rest) = (tok, Some rest)"
  by (simp add: strsep_def takeWhile_append dropWhile_append)

lemma strsep_end: "CHR '' '' \<notin> set tok \<Longrightarrow> strsep '' '' tok = (tok, None)"
  by (induction tok) (simp_all add: strsep_def split: list.splits)

text \<open>
  C18: The text protocol drives the space: a message \<^verbatim>\<open>update <id> <mode> <x> <y> <z>\<close> (numbers
  printed in decimal, mode without blanks) does exactly the \<^verbatim>\<open>aoi_update\<close> of that id, mode and
  position, and sends nothing.
\<close>

theorem ctrl_update:
  assumes "CHR '' '' \<notin> set mode" "CHR 0x00 \<notin> set mode"
  shows "ctrl current (''update '' @ fmt_u oid @ '' '' @ mode @ '' '' @ fmt_u x @ '' '' @ fmt_u y @ '' '' @ fmt_u z) sp =
    rbind (aoi_update oid mode (f32_ratio False (unat x) 1, f32_ratio False (unat y) 1, f32_ratio False (unat z) 1) sp)
      (\<lambda>sp. Inr ([], sp))"
proof -
  have nb: "CHR '' '' \<notin> set (fmt_u n)" "CHR 0x00 \<notin> set (fmt_u n)" for n using fmt_u_chars(6,7) [of _ n] by blast+
  let ?args = "fmt_u oid @ '' '' @ mode @ '' '' @ fmt_u x @ '' '' @ fmt_u y @ '' '' @ fmt_u z"
  have i: "length (takeWhile (\<lambda>c. c \<noteq> CHR '' '') (''update '' @ ?args)) = 6" by simp
  obtain d ds where e: "fmt_u oid = d # ds" by (rule fmt_u_Cons)
  have "d \<noteq> CHR '' ''" using nb(1) [of oid] e by auto
  then have p: "parm (''update '' @ ?args) 6 = ?args" by (simp add: parm_def e)
  have "CHR 0x00 \<notin> set ?args" using nb assms(2) by simp
  then have c: "c_string ?args = ?args" unfolding c_string_def by (subst takeWhile_eq_all_conv) metis
  have a: "update_args ?args =
      Some (oid, mode, (f32_ratio False (unat x) 1, f32_ratio False (unat y) 1, f32_ratio False (unat z) 1))"
    using nb assms(1) by (simp add: update_args_def strsep_blank strsep_end strtol_fmt_u strtof_fmt_u)
  have m: "memcmp_lit (literal (''update '' @ ?args)) ''update'' 6 = Inr True"
    by (simp add: memcmp_lit_def literal_def numeral_eq_Suc)
  show ?thesis unfolding ctrl_def Let_def i p c a using m by simp
qed

theorem ctrl_update_witness:
  "ctrl 7 (''update '' @ fmt_u 1 @ '' '' @ ''wm'' @ '' '' @ fmt_u 3 @ '' '' @ fmt_u 4 @ '' '' @ fmt_u 0) caoi_create =
    rbind (aoi_update 1 ''wm'' (f32_ratio False 3 1, f32_ratio False 4 1, f32_ratio False 0 1) caoi_create) (\<lambda>sp. Inr ([], sp))"
  using ctrl_update [of "''wm''" 7 1 3 4 0 caoi_create] by simp

text \<open>The blocks that are left when a space is released after some operations.\<close>

definition blocks_left :: "aoi_op list \<Rightarrow> int option" where
  "blocks_left ops =
     (case aoi_run ops caoi_create of
        Inr (_, sp) \<Rightarrow> (case caoi_release sp of Inr (c, _) \<Rightarrow> Some (ck_count c) | Inl _ \<Rightarrow> None)
      | Inl _ \<Rightarrow> None)"

lemma update_minus_one: "map_option fst (update_args ''-1 m 0 0 0'') = Some INVALID_ID"
  by (simp add: update_args_def strsep_def strtol_def read_number_def isspace_def is_digit_def digit_val_def code_of_def
      digits_value_def INVALID_ID_def)

lemma query_walk_found: "sl_id (slot ! s) = oid \<Longrightarrow> query_walk slot oid (numeral k) s = Inr (Some s)"
  by (simp add: numeral_eq_Suc)

lemma query_walk_none: "sl_id (slot ! s) \<noteq> oid \<Longrightarrow> sl_next (slot ! s) < 0 \<Longrightarrow> query_walk slot oid (numeral k) s = Inr None"
  by (simp add: numeral_eq_Suc)

lemma map_insert_free:
  "sl_id (mp_slot m ! mainposition (mp_slot m) oid) = INVALID_ID \<Longrightarrow>
   map_insert INSERT_DEPTH oid obj (c, m) = (let slot = mp_slot m; s = mainposition slot oid in
     Inr (c, m\<lparr>mp_slot := slot[s := (slot ! s)\<lparr>sl_id := oid, sl_obj := Some obj\<rparr>]\<rparr>))"
  by (simp add: INSERT_DEPTH_def numeral_eq_Suc map_insert.simps Let_def)

lemmas space_eval = aoi_update_def get_object_def put_object_def move_object_def change_mode_def
  has_def MODE_DROP_def MODE_WATCHER_def MODE_MARKER_def MODE_MOVE_def new_object_def

text \<open>Only the last slot of the sixteen has an object.\<close>

lemma foreach_last:
  assumes "sl_obj e = None" "sl_obj e' = Some obj"
  shows "foreach_loop f ((replicate 16 e)[15 := e']) ud = f obj ud"
  using assms by (simp add: numeral_eq_Suc) (cases "f obj ud"; simp)

lemma release_last:
  assumes "mp_slot (sp_object sp) = (replicate 16 empty_slot)[15 := e']" "sl_obj e' = Some obj" "sp_heap sp obj = Some ob" "sp_hot sp = []"
  shows "\<exists>c h. caoi_release sp = Inr (c, h) \<and> ck_count c = ck_count (sp_cookie sp) - 12"
proof -
  have "sl_obj empty_slot = None" by (simp add: empty_slot_def)
  then have "map_foreach (sp_object sp) delete_object sp = delete_object obj sp"
    using foreach_last [OF _ assms(2)] by (simp add: map_foreach_def assms(1))
  then show ?thesis
    using assms(3,4) by (simp add: caoi_release_def aoi_release_def delete_object_def get_object_def Let_def delete_pair_list_def
        delete_set_def map_delete_def my_free_def)
qed

lemma leak_first:
  "\<exists>sp. aoi_update INVALID_ID ''m'' (at 0) caoi_create = Inr sp \<and>
     mp_slot (sp_object sp) = (replicate 16 empty_slot)[15 := empty_slot\<lparr>sl_obj := Some 0\<rparr>] \<and>
     sp_fresh sp = 1 \<and> sp_hot sp = [] \<and> ck_count (sp_cookie sp) = 12"
proof -
  let ?sp = caoi_create
  have c: "mp_slot (sp_object ?sp) = replicate 16 empty_slot" "sp_fresh ?sp = 0" "sp_hot ?sp = []" "ck_count (sp_cookie ?sp) = 11"
    by (simp_all add: caoi_create_def aoi_create_def map_new_def set_new_def PRE_ALLOC_def my_alloc_def Let_def)
  have m: "mainposition (mp_slot (sp_object ?sp)) INVALID_ID = 15" by (simp add: mainposition_def c(1) INVALID_ID_def)
  have i: "sl_id (mp_slot (sp_object ?sp) ! 15) = INVALID_ID" "sl_obj (mp_slot (sp_object ?sp) ! 15) = None" "length (mp_slot (sp_object ?sp)) = 16"
    by (simp_all add: c(1) empty_slot_def)
  have w: "query_walk (mp_slot (sp_object ?sp)) INVALID_ID 16 15 = Inr (Some 15)"
    by (rule query_walk_found) (rule i(1))
  show ?thesis
    unfolding aoi_update_def map_query_def Let_def m i(3) w
    using i(2) c by (simp add: space_eval Let_def my_alloc_def)
qed

lemma leak_second:
  assumes "mp_slot (sp_object sp) = (replicate 16 empty_slot)[15 := empty_slot\<lparr>sl_obj := Some 0\<rparr>]" "sp_fresh sp = 1"
    "sp_hot sp = []" "ck_count (sp_cookie sp) = 12"
  shows "\<exists>sp'. aoi_update 15 ''m'' (at 0) sp = Inr sp' \<and>
     mp_slot (sp_object sp') = (replicate 16 empty_slot)[15 := empty_slot\<lparr>sl_id := 15, sl_obj := Some 1\<rparr>] \<and>
     sp_heap sp' 1 \<noteq> None \<and> sp_hot sp' = [] \<and> ck_count (sp_cookie sp') = 13"
proof -
  have m: "mainposition (mp_slot (sp_object sp)) 15 = 15" by (simp add: mainposition_def assms(1))
  have i: "sl_id (mp_slot (sp_object sp) ! 15) = INVALID_ID" "sl_next (mp_slot (sp_object sp) ! 15) < 0" "length (mp_slot (sp_object sp)) = 16"
    by (simp_all add: assms(1) empty_slot_def)
  have w: "query_walk (mp_slot (sp_object sp)) 15 16 15 = Inr None"
    by (rule query_walk_none) (use i in \<open>simp_all add: INVALID_ID_def\<close>)
  show ?thesis
    unfolding aoi_update_def map_query_def Let_def m i(3) w
    using map_insert_free [of "sp_object sp" 15] m i(1) assms
    by (simp add: space_eval Let_def my_alloc_def)
qed

text \<open>
  C37: The id \<open>0xffffffff\<close>, which a client gets with \<^verbatim>\<open>update -1 ...\<close>, is the mark of an empty slot
  of the map: the object is stored in a slot that still counts as empty, the next insertion
  there overwrites it, and \<^verbatim>\<open>aoi_release\<close> leaves a block behind.
\<close>

theorem invalid_id_leaks:
  "map_option fst (update_args ''-1 m 0 0 0'') = Some INVALID_ID \<and>
   blocks_left [Update INVALID_ID ''m'' (at 0), Update 15 ''m'' (at 0)] = Some 1"
proof -
  obtain sp where 1: "aoi_update INVALID_ID ''m'' (at 0) caoi_create = Inr sp"
    "mp_slot (sp_object sp) = (replicate 16 empty_slot)[15 := empty_slot\<lparr>sl_obj := Some 0\<rparr>]"
    "sp_fresh sp = 1" "sp_hot sp = []" "ck_count (sp_cookie sp) = 12"
    using leak_first by blast
  obtain sp' ob where 2: "aoi_update 15 ''m'' (at 0) sp = Inr sp'"
    "mp_slot (sp_object sp') = (replicate 16 empty_slot)[15 := empty_slot\<lparr>sl_id := 15, sl_obj := Some 1\<rparr>]"
    "sp_heap sp' 1 = Some ob" "sp_hot sp' = []" "ck_count (sp_cookie sp') = 13"
    using leak_second [OF 1(2-5)] by blast
  obtain c h where "caoi_release sp' = Inr (c, h)" "ck_count c = 1"
    using release_last [OF 2(2) _ 2(3,4)] 2(5) by auto
  then show ?thesis using update_minus_one 1(1) 2(1) by (simp add: blocks_left_def)
qed

end
