(* ===== verification/Bytes.thy ===== *)
theory Bytes
  imports Prelude
begin

text \<open>
  Buffers of bytes and the numbers stored in them. \<open>le_bytes k x\<close> are the \<open>k\<close> bytes of \<open>x\<close> in the
  order of a little-endian target (what \<^verbatim>\<open>memcpy\<close> of an integer stores), \<open>be_bytes\<close> in network
  order; both take \<open>x\<close> modulo \<open>256 ^ k\<close>, as the conversion to an unsigned type does.
\<close>

type_synonym bytes = "u8 list"

fun le_bytes :: "nat \<Rightarrow> int \<Rightarrow> bytes" where
  "le_bytes 0 x = []"
| "le_bytes (Suc k) x = word_of_int x # le_bytes k (x div 256)"

fun le_val :: "bytes \<Rightarrow> int" where
  "le_val [] = 0"
| "le_val (b # bs) = uint b + 256 * le_val bs"

definition be_bytes :: "nat \<Rightarrow> int \<Rightarrow> bytes" where
  "be_bytes k x = rev (le_bytes k x)"

definition be_val :: "bytes \<Rightarrow> int" where
  "be_val bs = le_val (rev bs)"

text \<open>The value of the bytes of a signed integer type.\<close>

definition le_signed :: "bytes \<Rightarrow> int" where
  "le_signed bs = signed_take_bit (8 * length bs - 1) (le_val bs)"

lemma length_le_bytes [simp]: "length (le_bytes k x) = k"
  by (induction k arbitrary: x) simp_all

lemma length_be_bytes [simp]: "length (be_bytes k x) = k"
  by (simp add: be_bytes_def)

lemma le_val_bounds: "0 \<le> le_val bs" "le_val bs < 256 ^ length bs"
proof (induction bs)
  case (Cons b bs)
  have "uint b < 256" "0 \<le> uint b" using uint_lt2p [of b] by simp_all
  then show "0 \<le> le_val (b # bs)" "le_val (b # bs) < 256 ^ length (b # bs)" using Cons by simp_all
qed simp_all

lemma le_val_bytes: "le_val (le_bytes k x) = x mod 256 ^ k"
proof (induction k arbitrary: x)
  case (Suc k)
  have "uint (word_of_int x :: u8) = x mod 256" by (simp add: uint_word_of_int)
  then show ?case
    using Suc zmod_zmult2_eq [of "256 ^ k" x 256] by simp
qed simp

lemma le_bytes_val: "length bs = k \<Longrightarrow> le_bytes k (le_val bs) = bs"
proof (induction bs arbitrary: k)
  case (Cons b bs)
  have "uint b < 256" using uint_lt2p [of b] by simp
  moreover have "word_of_int (uint b + 256 * le_val bs) = b"
  proof -
    have "word_of_int (uint b + 256 * le_val bs) = b + 256 * word_of_int (le_val bs)" by simp
    moreover have "(256 :: u8) = 0" by (simp add: word_uint_eq_iff)
    ultimately show ?thesis by (simp only: mult_zero_left add_0_right)
  qed
  ultimately show ?case using Cons by (cases k) (simp_all add: div_add1_eq)
qed simp

lemma le_val_append: "le_val (xs @ ys) = le_val xs + 256 ^ length xs * le_val ys"
  by (induction xs) (simp_all add: algebra_simps)

lemma le_signed_bytes:
  assumes "0 < k"
  shows "le_signed (le_bytes k x) = signed_take_bit (8 * k - 1) x"
proof -
  have "(256 :: int) ^ k = 2 ^ (8 * k)" by (simp add: power_mult)
  then have "le_val (le_bytes k x) = take_bit (8 * k) x" by (simp add: le_val_bytes take_bit_eq_mod)
  then show ?thesis using assms by (auto simp: le_signed_def signed_take_bit_take_bit)
qed

lemma be_val_bytes: "be_val (be_bytes k x) = x mod 256 ^ k"
  by (simp add: be_val_def be_bytes_def le_val_bytes)

lemma be_val_bounds: "0 \<le> be_val bs" "be_val bs < 256 ^ length bs"
  using le_val_bounds [of "rev bs"] by (simp_all add: be_val_def)

lemma be_bytes_val: "length bs = k \<Longrightarrow> be_bytes k (be_val bs) = bs"
  using le_bytes_val [of "rev bs" k] by (simp add: be_val_def be_bytes_def)

end
