(* ===== verification/Seri.thy ===== *)
theory Seri
  imports Bytes
begin

text \<open>
  The serialisation of Lua values (\<^verbatim>\<open>lualib-src/lua-seri.c\<close>): the chained blocks that
  \<^verbatim>\<open>wb_push\<close> writes into, the encoding of every type, the decoder, and the round trip.
\<close>

section \<open>Values\<close>

text \<open>
  Lua values as the C code sees them through the Lua interface. A table is given by the values
  at 1 to \<^verbatim>\<open>lua_rawlen\<close> and the other pairs in the order of \<^verbatim>\<open>lua_next\<close>; as a result it is the
  table built by those assignments in that order. \<open>LMeta\<close> is a table with a \<^verbatim>\<open>__pairs\<close>
  metamethod, given by the pairs its iterator yields before a nil key. A real is the bit
  pattern of the double. \<open>LOther\<close> stands for functions, full userdata and threads.
\<close>

datatype lua =
    LNil
  | LBool bool
  | LInt u64
  | LReal u64
  | LStr bytes
  | LPtr u64
  | LTable "lua list" "(lua \<times> lua) list"
  | LMeta "(lua \<times> lua) list"
  | LOther nat

text \<open>
  Errors raised to Lua (a table too deep, a type that cannot be packed, a broken stream, a
  NaN as key of a table) and reading outside the buffer.
\<close>

datatype seri_error = TooDeep | Unsupported | InvalidStream | BadKey | OverRead | NoFuel

definition sbind :: "seri_error + 'a \<Rightarrow> ('a \<Rightarrow> seri_error + 'b) \<Rightarrow> seri_error + 'b" where
  "sbind r f = (case r of Inl e \<Rightarrow> Inl e | Inr x \<Rightarrow> f x)"

lemma sbind_simps [simp]: "sbind (Inl e) f = Inl e" "sbind (Inr x) f = f x"
  by (simp_all add: sbind_def)

lemma sbind_Inr: "sbind r f = Inr y \<longleftrightarrow> (\<exists>x. r = Inr x \<and> f x = Inr y)"
  by (cases r) auto

lemma sbind_cong [fundef_cong]:
  "r = r' \<Longrightarrow> (\<And>x. r' = Inr x \<Longrightarrow> f x = f' x) \<Longrightarrow> sbind r f = sbind r' f'"
  by (cases r') auto

definition TYPE_NIL :: nat where "TYPE_NIL = 0"
definition TYPE_BOOLEAN :: nat where "TYPE_BOOLEAN = 1"
definition TYPE_NUMBER :: nat where "TYPE_NUMBER = 2"
definition TYPE_NUMBER_ZERO :: nat where "TYPE_NUMBER_ZERO = 0"
definition TYPE_NUMBER_BYTE :: nat where "TYPE_NUMBER_BYTE = 1"
definition TYPE_NUMBER_WORD :: nat where "TYPE_NUMBER_WORD = 2"
definition TYPE_NUMBER_DWORD :: nat where "TYPE_NUMBER_DWORD = 4"
definition TYPE_NUMBER_QWORD :: nat where "TYPE_NUMBER_QWORD = 6"
definition TYPE_NUMBER_REAL :: nat where "TYPE_NUMBER_REAL = 8"
definition TYPE_USERDATA :: nat where "TYPE_USERDATA = 3"
definition TYPE_SHORT_STRING :: nat where "TYPE_SHORT_STRING = 4"
definition TYPE_LONG_STRING :: nat where "TYPE_LONG_STRING = 5"
definition TYPE_TABLE :: nat where "TYPE_TABLE = 6"
definition MAX_COOKIE :: nat where "MAX_COOKIE = 32"
definition BLOCK_SIZE :: nat where "BLOCK_SIZE = 128"
definition MAX_DEPTH :: nat where "MAX_DEPTH = 32"

lemmas type_defs = TYPE_NIL_def TYPE_BOOLEAN_def TYPE_NUMBER_def TYPE_NUMBER_ZERO_def TYPE_NUMBER_BYTE_def
  TYPE_NUMBER_WORD_def TYPE_NUMBER_DWORD_def TYPE_NUMBER_QWORD_def TYPE_NUMBER_REAL_def TYPE_USERDATA_def
  TYPE_SHORT_STRING_def TYPE_LONG_STRING_def TYPE_TABLE_def

text \<open>\<^verbatim>\<open>COMBINE_TYPE\<close>, stored into a \<^verbatim>\<open>uint8_t\<close>; \<open>v\<close> may be negative.\<close>

definition COMBINE_TYPE :: "nat \<Rightarrow> int \<Rightarrow> u8" where
  "COMBINE_TYPE t v = word_of_int (int t OR (v * 8))"

text \<open>The conversion of a size to \<^verbatim>\<open>int\<close>.\<close>

definition to_int32 :: "int \<Rightarrow> int" where
  "to_int32 x = signed_take_bit 31 x"

section \<open>The write block\<close>

text \<open>\<open>wb_full\<close> are the buffers before the current one, \<open>wb_cur\<close> the first \<^verbatim>\<open>ptr\<close> bytes of the current buffer.\<close>

record write_block =
  wb_full :: "bytes list"
  wb_cur :: bytes
  wb_len :: int

definition wb_init :: write_block where
  "wb_init = \<lparr>wb_full = [], wb_cur = [], wb_len = 0\<rparr>"

definition new_block :: "write_block \<Rightarrow> write_block" where
  "new_block b = b\<lparr>wb_full := wb_full b @ [wb_cur b], wb_cur := []\<rparr>"

text \<open>\<open>wb_fill\<close> is \<^verbatim>\<open>wb_push\<close> from the point where the current block has room; every block is used from its start.\<close>

function wb_fill :: "write_block \<Rightarrow> bytes \<Rightarrow> write_block" where
  "wb_fill b buf =
     (let ptr = length (wb_cur b) in
      if ptr + length buf \<le> BLOCK_SIZE \<or> ptr \<ge> BLOCK_SIZE then
        b\<lparr>wb_cur := wb_cur b @ buf, wb_len := wb_len b + int (length buf)\<rparr>
      else
        (let copy = BLOCK_SIZE - ptr
         in wb_fill (new_block (b\<lparr>wb_cur := wb_cur b @ take copy buf, wb_len := wb_len b + int copy\<rparr>)) (drop copy buf)))"
  by auto
termination by (relation "measure (\<lambda>(b, buf). length buf)") (auto simp: BLOCK_SIZE_def)

declare wb_fill.simps [simp del]

definition wb_push :: "write_block \<Rightarrow> bytes \<Rightarrow> write_block" where
  "wb_push b buf = wb_fill (if length (wb_cur b) = BLOCK_SIZE then new_block b else b) buf"

definition wb_nil :: "write_block \<Rightarrow> write_block" where
  "wb_nil wb = wb_push wb [of_nat TYPE_NIL]"

definition wb_boolean :: "write_block \<Rightarrow> bool \<Rightarrow> write_block" where
  "wb_boolean wb b = wb_push wb [COMBINE_TYPE TYPE_BOOLEAN (if b then 1 else 0)]"

definition wb_integer :: "write_block \<Rightarrow> int \<Rightarrow> write_block" where
  "wb_integer wb v =
     (let tag = (\<lambda>c. [COMBINE_TYPE TYPE_NUMBER (int c)]) in
      if v = 0 then wb_push wb (tag TYPE_NUMBER_ZERO)
      else if v \<noteq> to_int32 v then wb_push (wb_push wb (tag TYPE_NUMBER_QWORD)) (le_bytes 8 v)
      else if v < 0 then wb_push (wb_push wb (tag TYPE_NUMBER_DWORD)) (le_bytes 4 v)
      else if v < 0x100 then wb_push (wb_push wb (tag TYPE_NUMBER_BYTE)) (le_bytes 1 v)
      else if v < 0x10000 then wb_push (wb_push wb (tag TYPE_NUMBER_WORD)) (le_bytes 2 v)
      else wb_push (wb_push wb (tag TYPE_NUMBER_DWORD)) (le_bytes 4 v))"

definition wb_real :: "write_block \<Rightarrow> u64 \<Rightarrow> write_block" where
  "wb_real wb v = wb_push (wb_push wb [COMBINE_TYPE TYPE_NUMBER (int TYPE_NUMBER_REAL)]) (le_bytes 8 (uint v))"

definition wb_pointer :: "write_block \<Rightarrow> u64 \<Rightarrow> write_block" where
  "wb_pointer wb v = wb_push (wb_push wb [of_nat TYPE_USERDATA]) (le_bytes 8 (uint v))"

text \<open>
  The length is converted to \<^verbatim>\<open>int\<close> by the caller. (A length of 2 ^ 31 and more becomes negative,
  and then only the tag byte is written.)
\<close>

definition wb_string :: "write_block \<Rightarrow> bytes \<Rightarrow> write_block" where
  "wb_string wb str =
     (let len = to_int32 (int (length str)) in
      if len < int MAX_COOKIE then
        (let wb = wb_push wb [COMBINE_TYPE TYPE_SHORT_STRING len]
         in if len > 0 then wb_push wb (take (nat len) str) else wb)
      else
        (let wb = (if len < 0x10000
                   then wb_push (wb_push wb [COMBINE_TYPE TYPE_LONG_STRING 2]) (le_bytes 2 len)
                   else wb_push (wb_push wb [COMBINE_TYPE TYPE_LONG_STRING 4]) (le_bytes 4 len))
         in wb_push wb (take (nat len) str)))"

text \<open>The head of \<^verbatim>\<open>wb_table_array\<close>.\<close>

definition wb_table_head :: "write_block \<Rightarrow> int \<Rightarrow> write_block" where
  "wb_table_head wb array_size =
     (if array_size \<ge> int MAX_COOKIE - 1
      then wb_integer (wb_push wb [COMBINE_TYPE TYPE_TABLE (int MAX_COOKIE - 1)]) array_size
      else wb_push wb [COMBINE_TYPE TYPE_TABLE array_size])"

text \<open>
  \<^verbatim>\<open>pack_one\<close>: the check of the depth, the \<^verbatim>\<open>switch\<close> over the type (\<open>pack_value\<close>), and the loops
  over the array part (\<^verbatim>\<open>wb_table_array\<close>) and over the pairs (\<^verbatim>\<open>wb_table_hash\<close>,
  \<^verbatim>\<open>wb_table_metapairs\<close>). An error frees the blocks and leaves the function.
\<close>

function (sequential) pack_value :: "lua \<Rightarrow> nat \<Rightarrow> write_block \<Rightarrow> seri_error + write_block"
  and wb_table_array :: "lua list \<Rightarrow> nat \<Rightarrow> nat \<Rightarrow> write_block \<Rightarrow> seri_error + write_block"
  and wb_table_hash :: "(lua \<times> lua) list \<Rightarrow> nat \<Rightarrow> write_block \<Rightarrow> seri_error + write_block" where
  "pack_value LNil depth b = Inr (wb_nil b)"
| "pack_value (LInt x) depth b = Inr (wb_integer b (sint x))"
| "pack_value (LReal n) depth b = Inr (wb_real b n)"
| "pack_value (LBool x) depth b = Inr (wb_boolean b x)"
| "pack_value (LStr s) depth b = Inr (wb_string b s)"
| "pack_value (LPtr p) depth b = Inr (wb_pointer b p)"
| "pack_value (LTable arr hash) depth b =
     (let array_size = to_int32 (int (length arr)) in
      sbind (wb_table_array arr (nat array_size) (depth + 1) (wb_table_head b array_size)) (wb_table_hash hash (depth + 1)))"
| "pack_value (LMeta pairs) depth b = wb_table_hash pairs (depth + 1) (wb_push b [COMBINE_TYPE TYPE_TABLE 0])"
| "pack_value (LOther t) depth b = Inl Unsupported"
| "wb_table_array (v # vs) (Suc n) depth wb =
     sbind (if depth > MAX_DEPTH then Inl TooDeep else pack_value v depth wb) (wb_table_array vs n depth)"
| "wb_table_array _ _ depth wb = Inr wb"
| "wb_table_hash [] depth wb = Inr (wb_nil wb)"
| "wb_table_hash ((k, v) # ps) depth wb =
     sbind (if depth > MAX_DEPTH then Inl TooDeep else pack_value k depth wb) (\<lambda>wb.
     sbind (if depth > MAX_DEPTH then Inl TooDeep else pack_value v depth wb) (wb_table_hash ps depth))"
  by pat_completeness auto
termination
  by (relation "measure (\<lambda>x. case x of Inl (v, _) \<Rightarrow> size v
      | Inr (Inl (vs, _)) \<Rightarrow> size_list size vs
      | Inr (Inr (ps, _)) \<Rightarrow> size_list (size_prod size size) ps)") auto

definition pack_one :: "lua \<Rightarrow> nat \<Rightarrow> write_block \<Rightarrow> seri_error + write_block" where
  "pack_one v depth b = (if depth > MAX_DEPTH then Inl TooDeep else pack_value v depth b)"

fun pack_from :: "lua list \<Rightarrow> write_block \<Rightarrow> seri_error + write_block" where
  "pack_from [] b = Inr b"
| "pack_from (v # vs) b = sbind (pack_one v 0 b) (pack_from vs)"

text \<open>\<^verbatim>\<open>seri\<close>: the blocks are copied one after the other until \<open>len\<close> bytes are there.\<close>

fun seri :: "bytes list \<Rightarrow> nat \<Rightarrow> bytes" where
  "seri (b # bs) len =
     (if len \<ge> BLOCK_SIZE then take BLOCK_SIZE b @ seri bs (len - BLOCK_SIZE) else take len b)"
| "seri [] len = []"

definition luaseri_pack :: "lua list \<Rightarrow> seri_error + bytes" where
  "luaseri_pack vs = sbind (pack_from vs wb_init) (\<lambda>wb. Inr (seri (wb_full wb @ [wb_cur wb]) (nat (wb_len wb))))"

section \<open>Reading\<close>

text \<open>
  A read block is what is left of the buffer. A negative size passes the check of \<^verbatim>\<open>rb_read\<close> and
  is then used as a length.
\<close>

definition rb_read :: "bytes \<Rightarrow> int \<Rightarrow> seri_error + bytes \<times> bytes" where
  "rb_read rb sz =
     (if int (length rb) < sz then Inl InvalidStream
      else if sz < 0 then Inl OverRead
      else Inr (take (nat sz) rb, drop (nat sz) rb))"

definition get_integer :: "bytes \<Rightarrow> nat \<Rightarrow> seri_error + int \<times> bytes" where
  "get_integer rb cookie =
     (if cookie = TYPE_NUMBER_ZERO then Inr (0, rb)
      else if cookie = TYPE_NUMBER_BYTE then sbind (rb_read rb 1) (\<lambda>(p, rb). Inr (le_val p, rb))
      else if cookie = TYPE_NUMBER_WORD then sbind (rb_read rb 2) (\<lambda>(p, rb). Inr (le_val p, rb))
      else if cookie = TYPE_NUMBER_DWORD then sbind (rb_read rb 4) (\<lambda>(p, rb). Inr (le_signed p, rb))
      else if cookie = TYPE_NUMBER_QWORD then sbind (rb_read rb 8) (\<lambda>(p, rb). Inr (le_signed p, rb))
      else Inl InvalidStream)"

definition get_word64 :: "bytes \<Rightarrow> seri_error + u64 \<times> bytes" where
  "get_word64 rb = sbind (rb_read rb 8) (\<lambda>(p, rb). Inr (word_of_int (le_val p), rb))"

definition get_buffer :: "bytes \<Rightarrow> int \<Rightarrow> seri_error + lua \<times> bytes" where
  "get_buffer rb len = sbind (rb_read rb (to_int32 len)) (\<lambda>(p, rb). Inr (LStr p, rb))"

text \<open>The number of array elements of a table, and the rest.\<close>

definition table_size :: "bytes \<Rightarrow> nat \<Rightarrow> seri_error + int \<times> bytes" where
  "table_size rb array_size =
     (if array_size = MAX_COOKIE - 1 then
        sbind (rb_read rb 1) (\<lambda>(t, rb).
        let type = unat (hd t); cookie = type div 8 in
        if type mod 8 \<noteq> TYPE_NUMBER \<or> cookie = TYPE_NUMBER_REAL then Inl InvalidStream
        else sbind (get_integer rb cookie) (\<lambda>(n, rb). Inr (to_int32 n, rb)))
      else Inr (int array_size, rb))"

text \<open>The bits of a double that is not a number; Lua refuses it as a key.\<close>

definition is_nan :: "u64 \<Rightarrow> bool" where
  "is_nan w \<longleftrightarrow> drop_bit 52 w AND 0x7ff = 0x7ff \<and> take_bit 52 w \<noteq> 0"

definition bad_key :: "lua \<Rightarrow> bool" where
  "bad_key k \<longleftrightarrow> (case k of LReal w \<Rightarrow> is_nan w | _ \<Rightarrow> False)"

text \<open>Values without a table.\<close>

definition push_plain :: "nat \<Rightarrow> nat \<Rightarrow> bytes \<Rightarrow> seri_error + lua \<times> bytes" where
  "push_plain type cookie rb =
     (if type = TYPE_NIL then Inr (LNil, rb)
      else if type = TYPE_BOOLEAN then Inr (LBool (cookie \<noteq> 0), rb)
      else if type = TYPE_NUMBER then
        if cookie = TYPE_NUMBER_REAL then sbind (get_word64 rb) (\<lambda>(w, rb). Inr (LReal w, rb))
        else sbind (get_integer rb cookie) (\<lambda>(n, rb). Inr (LInt (word_of_int n), rb))
      else if type = TYPE_USERDATA then sbind (get_word64 rb) (\<lambda>(w, rb). Inr (LPtr w, rb))
      else if type = TYPE_SHORT_STRING then get_buffer rb (int cookie)
      else if type = TYPE_LONG_STRING then
        if cookie = 2 then sbind (rb_read rb 2) (\<lambda>(p, rb). get_buffer rb (le_val p))
        else if cookie \<noteq> 4 then Inl InvalidStream
        else sbind (rb_read rb 4) (\<lambda>(p, rb). get_buffer rb (le_val p))
      else Inl InvalidStream)"

text \<open>
  \<^verbatim>\<open>unpack_one\<close> with \<^verbatim>\<open>push_value\<close>, and the two loops of \<^verbatim>\<open>unpack_table\<close>; the first argument bounds the
  depth of the calls and iterations.
\<close>

fun unpack_one :: "nat \<Rightarrow> bytes \<Rightarrow> seri_error + lua \<times> bytes"
  and push_value :: "nat \<Rightarrow> nat \<Rightarrow> nat \<Rightarrow> bytes \<Rightarrow> seri_error + lua \<times> bytes"
  and unpack_array :: "nat \<Rightarrow> int \<Rightarrow> bytes \<Rightarrow> seri_error + lua list \<times> bytes"
  and unpack_pairs :: "nat \<Rightarrow> bytes \<Rightarrow> seri_error + (lua \<times> lua) list \<times> bytes" where
  "unpack_one 0 rb = Inl NoFuel"
| "unpack_one (Suc n) rb =
     sbind (rb_read rb 1) (\<lambda>(t, rb). push_value n (unat (hd t) mod 8) (unat (hd t) div 8) rb)"
| "push_value 0 type cookie rb = Inl NoFuel"
| "push_value (Suc n) type cookie rb =
     (if type = TYPE_TABLE then
        sbind (table_size rb cookie) (\<lambda>(array_size, rb).
        sbind (unpack_array n array_size rb) (\<lambda>(arr, rb).
        sbind (unpack_pairs n rb) (\<lambda>(hash, rb). Inr (LTable arr hash, rb))))
      else push_plain type cookie rb)"
| "unpack_array 0 k rb = Inl NoFuel"
| "unpack_array (Suc n) k rb =
     (if k \<le> 0 then Inr ([], rb)
      else sbind (unpack_one n rb) (\<lambda>(v, rb). sbind (unpack_array n (k - 1) rb) (\<lambda>(vs, rb). Inr (v # vs, rb))))"
| "unpack_pairs 0 rb = Inl NoFuel"
| "unpack_pairs (Suc n) rb =
     sbind (unpack_one n rb) (\<lambda>(k, rb).
     if k = LNil then Inr ([], rb)
     else sbind (unpack_one n rb) (\<lambda>(v, rb).
       if bad_key k then Inl BadKey
       else sbind (unpack_pairs n rb) (\<lambda>(ps, rb). Inr ((k, v) # ps, rb))))"

text \<open>Fuel that is enough for a buffer (shown below).\<close>

definition unpack_fuel :: "bytes \<Rightarrow> nat" where
  "unpack_fuel rb = 3 * length rb + 3"

fun unpack_all :: "nat \<Rightarrow> bytes \<Rightarrow> seri_error + lua list" where
  "unpack_all 0 rb = Inl NoFuel"
| "unpack_all (Suc n) rb =
     (if rb = [] then Inr []
      else sbind (unpack_one (unpack_fuel rb) rb) (\<lambda>(v, rb). sbind (unpack_all n rb) (\<lambda>vs. Inr (v # vs))))"

definition luaseri_unpack :: "bytes \<Rightarrow> seri_error + lua list" where
  "luaseri_unpack rb = unpack_all (Suc (length rb)) rb"

section \<open>Blocks\<close>

definition wb_bytes :: "write_block \<Rightarrow> bytes" where
  "wb_bytes b = concat (wb_full b) @ wb_cur b"

definition wb_ok :: "write_block \<Rightarrow> bool" where
  "wb_ok b \<longleftrightarrow> (\<forall>x \<in> set (wb_full b). length x = BLOCK_SIZE) \<and> length (wb_cur b) \<le> BLOCK_SIZE \<and>
     wb_len b = int (length (wb_bytes b))"

text \<open>\<open>b'\<close> is \<open>b\<close> with \<open>bs\<close> appended.\<close>

definition appends :: "write_block \<Rightarrow> bytes \<Rightarrow> write_block \<Rightarrow> bool" where
  "appends b bs b' \<longleftrightarrow> (wb_ok b \<longrightarrow> wb_ok b' \<and> wb_bytes b' = wb_bytes b @ bs)"

lemma appends_trans: "appends b xs b' \<Longrightarrow> appends b' ys b'' \<Longrightarrow> appends b (xs @ ys) b''"
  by (auto simp: appends_def)

lemma wb_fill_ok:
  assumes "\<forall>x \<in> set (wb_full b). length x = BLOCK_SIZE" "length (wb_cur b) < BLOCK_SIZE" "wb_len b = int (length (wb_bytes b))"
  shows "wb_ok (wb_fill b buf) \<and> wb_bytes (wb_fill b buf) = wb_bytes b @ buf"
  using assms
proof (induction b buf rule: wb_fill.induct)
  case (1 b buf)
  let ?copy = "BLOCK_SIZE - length (wb_cur b)"
  let ?b = "new_block (b\<lparr>wb_cur := wb_cur b @ take ?copy buf, wb_len := wb_len b + int ?copy\<rparr>)"
  show ?case
  proof (cases "length (wb_cur b) + length buf \<le> BLOCK_SIZE")
    case True
    then show ?thesis using "1.prems" by (simp add: wb_fill.simps wb_ok_def wb_bytes_def)
  next
    case False
    have bytes: "wb_bytes ?b = wb_bytes b @ take ?copy buf" by (simp add: new_block_def wb_bytes_def)
    have "wb_ok (wb_fill ?b (drop ?copy buf)) \<and> wb_bytes (wb_fill ?b (drop ?copy buf)) = wb_bytes ?b @ drop ?copy buf"
    proof (rule "1.IH" [OF refl _ refl])
      show "\<not> (length (wb_cur b) + length buf \<le> BLOCK_SIZE \<or> length (wb_cur b) \<ge> BLOCK_SIZE)"
        using False "1.prems"(2) by simp
      show "\<forall>x \<in> set (wb_full ?b). length x = BLOCK_SIZE" using "1.prems" False by (auto simp: new_block_def)
      show "length (wb_cur ?b) < BLOCK_SIZE" by (simp add: new_block_def BLOCK_SIZE_def)
      show "wb_len ?b = int (length (wb_bytes ?b))"
        unfolding bytes using "1.prems"(2,3) False by (simp add: new_block_def)
    qed
    moreover have "wb_fill b buf = wb_fill ?b (drop ?copy buf)"
      using False "1.prems"(2) by (subst wb_fill.simps) (simp add: Let_def)
    ultimately show ?thesis by (simp add: bytes)
  qed
qed

lemma wb_push_appends: "appends b buf (wb_push b buf)"
  unfolding appends_def
proof
  assume ok: "wb_ok b"
  let ?b = "if length (wb_cur b) = BLOCK_SIZE then new_block b else b"
  have "wb_bytes ?b = wb_bytes b" by (simp add: wb_bytes_def new_block_def)
  moreover have "wb_ok (wb_fill ?b buf) \<and> wb_bytes (wb_fill ?b buf) = wb_bytes ?b @ buf"
  proof (rule wb_fill_ok)
    show "\<forall>x \<in> set (wb_full ?b). length x = BLOCK_SIZE" using ok by (auto simp: wb_ok_def new_block_def)
    show "length (wb_cur ?b) < BLOCK_SIZE" using ok by (auto simp: wb_ok_def new_block_def BLOCK_SIZE_def)
    show "wb_len ?b = int (length (wb_bytes ?b))" using ok by (auto simp: wb_ok_def wb_bytes_def new_block_def)
  qed
  ultimately show "wb_ok (wb_push b buf) \<and> wb_bytes (wb_push b buf) = wb_bytes b @ buf" by (simp add: wb_push_def)
qed

lemma push2: "appends b (xs @ ys) (wb_push (wb_push b xs) ys)"
  by (rule appends_trans [OF wb_push_appends wb_push_appends])

lemma seri_blocks:
  assumes "\<forall>x \<in> set full. length x = BLOCK_SIZE" "length cur \<le> BLOCK_SIZE"
  shows "seri (full @ [cur]) (length (concat full @ cur)) = concat full @ cur"
  using assms(1)
proof (induction full)
  case Nil
  then show ?case using assms(2) by simp
next
  case (Cons b full)
  then show ?case by simp
qed

section \<open>The format\<close>

text \<open>The encoding as a function of the value alone.\<close>

definition enc_tag :: "nat \<Rightarrow> nat \<Rightarrow> bytes" where
  "enc_tag t c = [of_nat (t + 8 * c)]"

definition enc_int :: "int \<Rightarrow> bytes" where
  "enc_int v =
     (if v = 0 then enc_tag TYPE_NUMBER TYPE_NUMBER_ZERO
      else if v \<noteq> to_int32 v then enc_tag TYPE_NUMBER TYPE_NUMBER_QWORD @ le_bytes 8 v
      else if v < 0 then enc_tag TYPE_NUMBER TYPE_NUMBER_DWORD @ le_bytes 4 v
      else if v < 0x100 then enc_tag TYPE_NUMBER TYPE_NUMBER_BYTE @ le_bytes 1 v
      else if v < 0x10000 then enc_tag TYPE_NUMBER TYPE_NUMBER_WORD @ le_bytes 2 v
      else enc_tag TYPE_NUMBER TYPE_NUMBER_DWORD @ le_bytes 4 v)"

definition enc_str :: "bytes \<Rightarrow> bytes" where
  "enc_str s =
     (if length s < 32 then enc_tag TYPE_SHORT_STRING (length s) @ s
      else if length s < 0x10000 then enc_tag TYPE_LONG_STRING 2 @ le_bytes 2 (int (length s)) @ s
      else enc_tag TYPE_LONG_STRING 4 @ le_bytes 4 (int (length s)) @ s)"

definition enc_head :: "nat \<Rightarrow> bytes" where
  "enc_head n = (if n \<ge> 31 then enc_tag TYPE_TABLE 31 @ enc_int (int n) else enc_tag TYPE_TABLE n)"

fun enc :: "lua \<Rightarrow> bytes" where
  "enc LNil = enc_tag TYPE_NIL 0"
| "enc (LBool b) = enc_tag TYPE_BOOLEAN (if b then 1 else 0)"
| "enc (LInt x) = enc_int (sint x)"
| "enc (LReal w) = enc_tag TYPE_NUMBER TYPE_NUMBER_REAL @ le_bytes 8 (uint w)"
| "enc (LStr s) = enc_str s"
| "enc (LPtr w) = enc_tag TYPE_USERDATA 0 @ le_bytes 8 (uint w)"
| "enc (LTable arr hash) = enc_head (length arr) @ concat (map enc arr) @ concat (map (\<lambda>(k, v). enc k @ enc v) hash) @ enc LNil"
| "enc (LMeta ps) = enc_tag TYPE_TABLE 0 @ concat (map (\<lambda>(k, v). enc k @ enc v) ps) @ enc LNil"
| "enc (LOther t) = []"

text \<open>
  Values that can be packed at a depth: not nested too deep, of packable types, strings and
  arrays shorter than \<open>2 ^ 31\<close>.
\<close>

fun fits :: "nat \<Rightarrow> lua \<Rightarrow> bool" where
  "fits d (LStr s) = (d \<le> MAX_DEPTH \<and> length s < 2 ^ 31)"
| "fits d (LTable arr hash) = (d \<le> MAX_DEPTH \<and> length arr < 2 ^ 31 \<and> (\<forall>v \<in> set arr. fits (Suc d) v) \<and>
     (\<forall>(k, v) \<in> set hash. fits (Suc d) k \<and> fits (Suc d) v))"
| "fits d (LMeta ps) = (d \<le> MAX_DEPTH \<and> (\<forall>(k, v) \<in> set ps. fits (Suc d) k \<and> fits (Suc d) v))"
| "fits d (LOther t) = False"
| "fits d v = (d \<le> MAX_DEPTH)"

lemma fits_depth: "fits d v \<Longrightarrow> d \<le> MAX_DEPTH"
  by (cases v) auto

lemma combine: "t < 8 \<Longrightarrow> c < 32 \<Longrightarrow> [COMBINE_TYPE t (int c)] = enc_tag t c"
proof -
  assume "t < 8" "c < 32"
  have t: "take_bit 3 (int t) = int t" using \<open>t < 8\<close> by (simp add: take_bit_int_eq_self)
  have "\<not> bit (take_bit 3 (int t)) n \<or> \<not> bit (push_bit 3 (int c)) n" for n by (auto simp: bit_simps)
  then have "int t + push_bit 3 (int c) = int t OR push_bit 3 (int c)" unfolding t by (rule disjunctive_add)
  then have "int t OR (int c * 8) = int t + 8 * int c" by (simp add: push_bit_eq_mult mult.commute)
  then show ?thesis by (simp add: COMBINE_TYPE_def enc_tag_def)
qed

lemma to_int32_small [simp]: "- (2 ^ 31) \<le> x \<Longrightarrow> x < 2 ^ 31 \<Longrightarrow> to_int32 x = x"
  by (simp add: to_int32_def signed_take_bit_int_eq_self)

lemma wb_integer_appends: "appends b (enc_int v) (wb_integer b v)"
proof -
  have c: "[COMBINE_TYPE TYPE_NUMBER (int c)] = enc_tag TYPE_NUMBER c" if "c < 32" for c
    using combine [of TYPE_NUMBER c] that by (simp add: TYPE_NUMBER_def)
  have cs: "TYPE_NUMBER_ZERO < 32" "TYPE_NUMBER_BYTE < 32" "TYPE_NUMBER_WORD < 32" "TYPE_NUMBER_DWORD < 32" "TYPE_NUMBER_QWORD < 32"
    by (simp_all add: type_defs)
  show ?thesis
    unfolding wb_integer_def enc_int_def Let_def cs [THEN c] using push2 wb_push_appends by presburger
qed

lemma wb_string_appends:
  assumes "length s < 2 ^ 31"
  shows "appends b (enc_str s) (wb_string b s)"
proof -
  have l: "to_int32 (int (length s)) = int (length s)" using assms by simp
  have c: "[COMBINE_TYPE TYPE_SHORT_STRING (int (length s))] = enc_tag TYPE_SHORT_STRING (length s)" if "length s < 32"
    using combine [of TYPE_SHORT_STRING "length s"] that by (simp add: TYPE_SHORT_STRING_def)
  have c2: "[COMBINE_TYPE TYPE_LONG_STRING 2] = enc_tag TYPE_LONG_STRING 2" "[COMBINE_TYPE TYPE_LONG_STRING 4] = enc_tag TYPE_LONG_STRING 4"
    using combine [of TYPE_LONG_STRING 2] combine [of TYPE_LONG_STRING 4] by (simp_all add: TYPE_LONG_STRING_def)
  have p3: "appends b (xs @ ys @ zs) (wb_push (wb_push (wb_push b xs) ys) zs)" for xs ys zs
    using appends_trans [OF push2 [of b xs ys] wb_push_appends [of _ zs]] by simp
  show ?thesis
  proof (cases "length s < 32")
    case True
    then show ?thesis using l c push2 wb_push_appends
      by (cases "s = []") (simp_all add: wb_string_def enc_str_def MAX_COOKIE_def)
  next
    case False
    then show ?thesis using l c2 p3 by (simp add: wb_string_def enc_str_def MAX_COOKIE_def Let_def)
  qed
qed

lemma wb_head_appends: "n < 2 ^ 31 \<Longrightarrow> appends b (enc_head n) (wb_table_head b (int n))"
proof (cases "n \<ge> 31")
  case True
  have "[COMBINE_TYPE TYPE_TABLE 31] = enc_tag TYPE_TABLE 31" using combine [of TYPE_TABLE 31] by (simp add: TYPE_TABLE_def)
  then have "appends b (enc_tag TYPE_TABLE 31) (wb_push b [COMBINE_TYPE TYPE_TABLE 31])" using wb_push_appends by metis
  then show ?thesis
    using True appends_trans [OF _ wb_integer_appends] by (simp add: wb_table_head_def enc_head_def MAX_COOKIE_def)
next
  case False
  then have "[COMBINE_TYPE TYPE_TABLE (int n)] = enc_tag TYPE_TABLE n" using combine [of TYPE_TABLE n] by (simp add: TYPE_TABLE_def)
  then have "appends b (enc_tag TYPE_TABLE n) (wb_push b [COMBINE_TYPE TYPE_TABLE (int n)])" using wb_push_appends by metis
  then show ?thesis using False by (simp add: wb_table_head_def enc_head_def MAX_COOKIE_def)
qed

lemma appends_refl: "appends b [] b"
  by (simp add: appends_def)

lemma scalar_appends:
  "appends b (enc_tag TYPE_NIL 0) (wb_nil b)"
  "appends b (enc_tag TYPE_BOOLEAN (Suc 0)) (wb_boolean b True)" "appends b (enc_tag TYPE_BOOLEAN 0) (wb_boolean b False)"
  "appends b (enc_tag TYPE_NUMBER TYPE_NUMBER_REAL @ le_bytes 8 (uint w)) (wb_real b w)"
  "appends b (enc_tag TYPE_USERDATA 0 @ le_bytes 8 (uint w)) (wb_pointer b w)"
proof -
  have t: "[of_nat TYPE_NIL] = enc_tag TYPE_NIL 0" "[of_nat TYPE_USERDATA] = enc_tag TYPE_USERDATA 0" by (simp_all add: enc_tag_def)
  have c: "[COMBINE_TYPE TYPE_NUMBER (int TYPE_NUMBER_REAL)] = enc_tag TYPE_NUMBER TYPE_NUMBER_REAL"
    "[COMBINE_TYPE TYPE_BOOLEAN 1] = enc_tag TYPE_BOOLEAN (Suc 0)" "[COMBINE_TYPE TYPE_BOOLEAN 0] = enc_tag TYPE_BOOLEAN 0"
    using combine [of TYPE_NUMBER TYPE_NUMBER_REAL] combine [of TYPE_BOOLEAN 1] combine [of TYPE_BOOLEAN 0] by (simp_all add: type_defs)
  show "appends b (enc_tag TYPE_NIL 0) (wb_nil b)" unfolding wb_nil_def t by (rule wb_push_appends)
  show "appends b (enc_tag TYPE_BOOLEAN (Suc 0)) (wb_boolean b True)" "appends b (enc_tag TYPE_BOOLEAN 0) (wb_boolean b False)"
    unfolding wb_boolean_def if_True if_False c by (rule wb_push_appends)+
  show "appends b (enc_tag TYPE_NUMBER TYPE_NUMBER_REAL @ le_bytes 8 (uint w)) (wb_real b w)"
    unfolding wb_real_def c by (rule push2)
  show "appends b (enc_tag TYPE_USERDATA 0 @ le_bytes 8 (uint w)) (wb_pointer b w)"
    unfolding wb_pointer_def t by (rule push2)
qed

text \<open>Packing a value that fits appends its encoding.\<close>

lemma pack_appends:
  "fits d v \<Longrightarrow> \<exists>b'. pack_value v d b = Inr b' \<and> appends b (enc v) b'"
  "length vs \<le> n \<Longrightarrow> \<forall>v \<in> set vs. fits d v \<Longrightarrow> \<exists>b'. wb_table_array vs n d b = Inr b' \<and> appends b (concat (map enc vs)) b'"
  "\<forall>(k, v) \<in> set ps. fits d k \<and> fits d v \<Longrightarrow>
    \<exists>b'. wb_table_hash ps d b = Inr b' \<and> appends b (concat (map (\<lambda>(k, v). enc k @ enc v) ps) @ enc LNil) b'"
proof (induction v d b and vs n d b and ps d b rule: pack_value_wb_table_array_wb_table_hash.induct)
  case (7 arr hash depth b)
  let ?n = "length arr"
  have n: "to_int32 (int ?n) = int ?n" "?n < 2 ^ 31" using "7.prems" by simp_all
  obtain b1 where 1: "wb_table_array arr ?n (depth + 1) (wb_table_head b (int ?n)) = Inr b1"
    "appends (wb_table_head b (int ?n)) (concat (map enc arr)) b1"
    using "7.IH"(1) [OF refl] "7.prems" n by auto
  obtain b2 where 2: "wb_table_hash hash (depth + 1) b1 = Inr b2"
    "appends b1 (concat (map (\<lambda>(k, v). enc k @ enc v) hash) @ enc LNil) b2"
    using "7.IH"(2) [OF refl, of b1] 1(1) "7.prems" n by auto
  show ?case
    using 1(1) 2(1) n(1) appends_trans [OF wb_head_appends [OF n(2)] appends_trans [OF 1(2) 2(2)]] by simp
next
  case (8 pairs depth b)
  have "[COMBINE_TYPE TYPE_TABLE 0] = enc_tag TYPE_TABLE 0" using combine [of TYPE_TABLE 0] by (simp add: TYPE_TABLE_def)
  then have h: "appends b (enc_tag TYPE_TABLE 0) (wb_push b [COMBINE_TYPE TYPE_TABLE 0])" using wb_push_appends by metis
  obtain b2 where 2: "wb_table_hash pairs (depth + 1) (wb_push b [COMBINE_TYPE TYPE_TABLE 0]) = Inr b2"
    "appends (wb_push b [COMBINE_TYPE TYPE_TABLE 0]) (concat (map (\<lambda>(k, v). enc k @ enc v) pairs) @ enc LNil) b2"
    using 8 by auto
  then show ?case using appends_trans [OF h 2(2)] by simp
next
  case (10 v vs n depth wb)
  then have d: "\<not> depth > MAX_DEPTH" using fits_depth [of depth v] by simp
  obtain b1 where 1: "pack_value v depth wb = Inr b1" "appends wb (enc v) b1"
    using "10.IH"(1) [OF d] "10.prems" by auto
  obtain b2 where 2: "wb_table_array vs n depth b1 = Inr b2" "appends b1 (concat (map enc vs)) b2"
    using "10.IH"(2) [of b1] 1(1) d "10.prems" by auto
  show ?case using 1(1) 2(1) d appends_trans [OF 1(2) 2(2)] by simp
next
  case (13 k v ps depth wb)
  then have d: "\<not> depth > MAX_DEPTH" using fits_depth [of depth v] by simp
  obtain b1 where 1: "pack_value k depth wb = Inr b1" "appends wb (enc k) b1"
    using "13.IH"(1) [OF d] "13.prems" by auto
  obtain b2 where 2: "pack_value v depth b1 = Inr b2" "appends b1 (enc v) b2"
    using "13.IH"(2) [of b1] 1(1) d "13.prems" by auto
  obtain b3 where 3: "wb_table_hash ps depth b2 = Inr b3" "appends b2 (concat (map (\<lambda>(k, v). enc k @ enc v) ps) @ enc LNil) b3"
    using "13.IH"(3) [of b1 b2] 1(1) 2(1) d "13.prems" by auto
  show ?case using 1(1) 2(1) 3(1) d appends_trans [OF 1(2) appends_trans [OF 2(2) 3(2)]] by simp
qed (simp_all add: scalar_appends appends_refl wb_integer_appends wb_string_appends)

lemma pack_from_appends:
  assumes "\<forall>v \<in> set vs. fits 0 v"
  shows "\<exists>b'. pack_from vs b = Inr b' \<and> appends b (concat (map enc vs)) b'"
  using assms
proof (induction vs arbitrary: b)
  case Nil
  then show ?case by (simp add: appends_refl)
next
  case (Cons v vs)
  obtain b1 where 1: "pack_one v 0 b = Inr b1" "appends b (enc v) b1"
    using pack_appends(1) [of 0 v b] Cons.prems by (auto simp: pack_one_def)
  obtain b2 where "pack_from vs b1 = Inr b2" "appends b1 (concat (map enc vs)) b2"
    using Cons by force
  then show ?case using 1 appends_trans [OF 1(2)] by simp
qed

lemma luaseri_pack_enc:
  assumes "\<forall>v \<in> set vs. fits 0 v"
  shows "luaseri_pack vs = Inr (concat (map enc vs))"
proof -
  obtain b where b: "pack_from vs wb_init = Inr b" "appends wb_init (concat (map enc vs)) b"
    using pack_from_appends [OF assms] by blast
  have "wb_ok wb_init" "wb_bytes wb_init = []" by (simp_all add: wb_ok_def wb_init_def wb_bytes_def)
  then have ok: "wb_ok b" "wb_bytes b = concat (map enc vs)" using b(2) by (simp_all add: appends_def)
  have "nat (wb_len b) = length (concat (wb_full b) @ wb_cur b)" using ok(1) by (simp add: wb_ok_def wb_bytes_def)
  then have "seri (wb_full b @ [wb_cur b]) (nat (wb_len b)) = wb_bytes b"
    using seri_blocks [of "wb_full b" "wb_cur b"] ok(1) unfolding wb_ok_def wb_bytes_def by metis
  then show ?thesis using b(1) ok(2) by (simp add: luaseri_pack_def)
qed

section \<open>Reading what was written\<close>

lemma rb_read_append: "length xs = n \<Longrightarrow> rb_read (xs @ rest) (int n) = Inr (xs, rest)"
  by (simp add: rb_read_def)

lemma tag_bits: "t < 8 \<Longrightarrow> c < 32 \<Longrightarrow> unat (of_nat (t + 8 * c) :: u8) = t + 8 * c"
  by (simp only: unsigned_of_nat) (simp add: take_bit_nat_eq_self)

lemma unpack_tag:
  assumes "t < 8" "c < 32"
  shows "unpack_one (Suc n) (enc_tag t c @ rest) = push_value n t c rest"
  using assms tag_bits [OF assms] rb_read_append [of "enc_tag t c" 1 rest] by (simp add: enc_tag_def)

declare unpack_one.simps(2) [simp del]

lemma get_integer_enc:
  assumes "- (2 ^ 63) \<le> v" "v < 2 ^ 63"
  shows "\<exists>c bs. enc_int v = enc_tag TYPE_NUMBER c @ bs \<and> c < 32 \<and> c \<noteq> TYPE_NUMBER_REAL \<and>
    (\<forall>rest. get_integer (bs @ rest) c = Inr (v, rest))"
proof -
  note e = type_defs enc_int_def get_integer_def
  have r: "rb_read (le_bytes k v @ rest) (int k) = Inr (le_bytes k v, rest)" for k rest
    by (rule rb_read_append) simp
  consider "v = 0" | "v \<noteq> to_int32 v" "v \<noteq> 0" | "v = to_int32 v" "v < 0" | "v = to_int32 v" "0 < v" "v < 0x100"
    | "v = to_int32 v" "0x100 \<le> v" "v < 0x10000" | "v = to_int32 v" "0x10000 \<le> v" by linarith
  then show ?thesis
  proof cases
    case 1
    then show ?thesis by (intro exI [of _ TYPE_NUMBER_ZERO] exI [of _ "[]"]) (simp add: e)
  next
    case 2
    have "le_signed (le_bytes 8 v) = v" using assms by (simp add: le_signed_bytes signed_take_bit_int_eq_self)
    then show ?thesis using 2 r [of 8]
      by (intro exI [of _ TYPE_NUMBER_QWORD] exI [of _ "le_bytes 8 v"]) (simp add: e)
  next
    case 3
    have "le_signed (le_bytes 4 v) = v" using 3(1) by (simp add: le_signed_bytes to_int32_def)
    then show ?thesis using 3 r [of 4]
      by (intro exI [of _ TYPE_NUMBER_DWORD] exI [of _ "le_bytes 4 v"]) (simp add: e)
  next
    case 4
    have "le_val (le_bytes 1 v) = v" unfolding le_val_bytes using 4 by simp
    then show ?thesis using 4 r [of 1]
      by (intro exI [of _ TYPE_NUMBER_BYTE] exI [of _ "le_bytes 1 v"]) (simp add: e)
  next
    case 5
    have "le_val (le_bytes 2 v) = v" unfolding le_val_bytes using 5 by simp
    then show ?thesis using 5 r [of 2]
      by (intro exI [of _ TYPE_NUMBER_WORD] exI [of _ "le_bytes 2 v"]) (simp add: e)
  next
    case 6
    have "le_signed (le_bytes 4 v) = v" using 6(1) by (simp add: le_signed_bytes to_int32_def)
    then show ?thesis using 6 r [of 4]
      by (intro exI [of _ TYPE_NUMBER_DWORD] exI [of _ "le_bytes 4 v"]) (simp add: e)
  qed
qed

text \<open>What comes back: a table with a metamethod comes back as a plain table.\<close>

fun strip :: "lua \<Rightarrow> lua" where
  "strip (LTable arr hash) = LTable (map strip arr) (map (\<lambda>(k, v). (strip k, strip v)) hash)"
| "strip (LMeta ps) = LTable [] (map (\<lambda>(k, v). (strip k, strip v)) ps)"
| "strip v = v"

text \<open>The keys of a table are neither nil nor NaN, as in every Lua table.\<close>

fun keyed :: "lua \<Rightarrow> bool" where
  "keyed (LTable arr hash) = ((\<forall>v \<in> set arr. keyed v) \<and>
     (\<forall>(k, v) \<in> set hash. k \<noteq> LNil \<and> \<not> bad_key k \<and> keyed k \<and> keyed v))"
| "keyed (LMeta ps) = (\<forall>(k, v) \<in> set ps. k \<noteq> LNil \<and> \<not> bad_key k \<and> keyed k \<and> keyed v)"
| "keyed v = True"

lemma strip_key: "strip k = LNil \<longleftrightarrow> k = LNil" "bad_key (strip k) = bad_key k"
  by (cases k; simp add: bad_key_def)+

lemma get_buffer_append:
  assumes "length s < 2 ^ 31"
  shows "get_buffer (s @ rest) (int (length s)) = Inr (LStr s, rest)"
  using assms rb_read_append [of s "length s" rest] by (simp add: get_buffer_def)

lemma unpack_str:
  assumes "length s < 2 ^ 31" "2 \<le> n"
  shows "unpack_one n (enc_str s @ rest) = Inr (LStr s, rest)"
proof -
  obtain m where n: "n = Suc (Suc m)" using le_Suc_ex [OF assms(2)] by auto
  have t: "TYPE_SHORT_STRING < 8" "TYPE_LONG_STRING < 8" "TYPE_SHORT_STRING \<noteq> TYPE_TABLE" "TYPE_LONG_STRING \<noteq> TYPE_TABLE"
    by (simp_all add: type_defs)
  have l: "le_val (le_bytes 2 (int (length s))) = int (length s)" if "length s < 0x10000"
    using that by (simp add: le_val_bytes)
  have l4: "le_val (le_bytes 4 (int (length s))) = int (length s)"
    using assms(1) by (simp add: le_val_bytes)
  have rd: "rb_read (le_bytes k x @ r) (int k) = Inr (le_bytes k x, r)" for k x r
    by (rule rb_read_append) simp
  have "push_plain TYPE_SHORT_STRING (length s) (s @ rest) = Inr (LStr s, rest)"
    using get_buffer_append [OF assms(1)] by (simp add: push_plain_def type_defs)
  moreover have "push_plain TYPE_LONG_STRING 2 (le_bytes 2 (int (length s)) @ s @ rest) = Inr (LStr s, rest)" if "length s < 0x10000"
    using get_buffer_append [OF assms(1)] rd [of 2] l [OF that] by (simp add: push_plain_def type_defs)
  moreover have "push_plain TYPE_LONG_STRING 4 (le_bytes 4 (int (length s)) @ s @ rest) = Inr (LStr s, rest)"
    using get_buffer_append [OF assms(1)] rd [of 4] l4 by (simp add: push_plain_def type_defs)
  ultimately show ?thesis
    using t n by (simp add: enc_str_def unpack_tag append_assoc)
qed

lemma fuel2: "2 \<le> n \<Longrightarrow> \<exists>m. n = Suc (Suc m)"
  using le_Suc_ex [of 2 n] by auto

lemma unpack_int:
  assumes "2 \<le> n"
  shows "unpack_one n (enc_int (sint (x :: u64)) @ rest) = Inr (LInt x, rest)"
proof -
  obtain m where n: "n = Suc (Suc m)" using fuel2 assms by blast
  have "- (2 ^ 63) \<le> sint x" "sint x < 2 ^ 63" using sint_lt [of x] sint_ge [of x] by simp_all
  then obtain c bs where c: "enc_int (sint x) = enc_tag TYPE_NUMBER c @ bs" "c < 32" "c \<noteq> TYPE_NUMBER_REAL"
    "\<forall>rest. get_integer (bs @ rest) c = Inr (sint x, rest)"
    using get_integer_enc by blast
  have "push_plain TYPE_NUMBER c (bs @ rest) = Inr (LInt x, rest)"
    using c(3,4) by (simp add: push_plain_def TYPE_NUMBER_def TYPE_NIL_def TYPE_BOOLEAN_def)
  then show ?thesis using n c(1,2) by (simp add: unpack_tag TYPE_NUMBER_def TYPE_TABLE_def)
qed

lemma unpack_word:
  assumes "2 \<le> n"
  shows "unpack_one n (enc_tag TYPE_NUMBER TYPE_NUMBER_REAL @ le_bytes 8 (uint w) @ rest) = Inr (LReal w, rest)"
    "unpack_one n (enc_tag TYPE_USERDATA 0 @ le_bytes 8 (uint (w :: u64)) @ rest) = Inr (LPtr w, rest)"
proof -
  obtain m where n: "n = Suc (Suc m)" using fuel2 assms by blast
  have "uint w < 256 ^ 8" "0 \<le> uint w" using uint_lt2p [of w] by simp_all
  then have "le_val (le_bytes 8 (uint w)) = uint w" unfolding le_val_bytes by (rule mod_pos_pos_trivial [rotated])
  then have g: "get_word64 (le_bytes 8 (uint w) @ rest) = Inr (w, rest)"
    using rb_read_append [of "le_bytes 8 (uint w)" 8 rest] by (simp add: get_word64_def)
  have t: "TYPE_NUMBER < 8" "TYPE_NUMBER_REAL < 32" "TYPE_USERDATA < 8" "TYPE_NUMBER \<noteq> TYPE_TABLE" "TYPE_USERDATA \<noteq> TYPE_TABLE"
    by (simp_all add: type_defs)
  have p: "push_plain TYPE_NUMBER TYPE_NUMBER_REAL (le_bytes 8 (uint w) @ rest) = Inr (LReal w, rest)"
    "push_plain TYPE_USERDATA 0 (le_bytes 8 (uint w) @ rest) = Inr (LPtr w, rest)"
    using g by (simp_all add: push_plain_def type_defs)
  show "unpack_one n (enc_tag TYPE_NUMBER TYPE_NUMBER_REAL @ le_bytes 8 (uint w) @ rest) = Inr (LReal w, rest)"
    using n t p(1) by (simp add: unpack_tag)
  show "unpack_one n (enc_tag TYPE_USERDATA 0 @ le_bytes 8 (uint w) @ rest) = Inr (LPtr w, rest)"
    using n t p(2) by (simp add: unpack_tag)
qed

lemma unpack_flags:
  assumes "2 \<le> n"
  shows "unpack_one n (enc_tag TYPE_NIL 0 @ rest) = Inr (LNil, rest)"
    "unpack_one n (enc_tag TYPE_BOOLEAN (if b then 1 else 0) @ rest) = Inr (LBool b, rest)"
proof -
  obtain m where n: "n = Suc (Suc m)" using fuel2 assms by blast
  show "unpack_one n (enc_tag TYPE_NIL 0 @ rest) = Inr (LNil, rest)"
    using n unpack_tag [of TYPE_NIL 0] by (simp add: type_defs push_plain_def)
  show "unpack_one n (enc_tag TYPE_BOOLEAN (if b then 1 else 0) @ rest) = Inr (LBool b, rest)"
    using n unpack_tag [of TYPE_BOOLEAN "if b then 1 else 0"] by (simp add: type_defs push_plain_def)
qed

text \<open>The header of a table gives its number of elements.\<close>

lemma unpack_head:
  assumes "k < 2 ^ 31"
  shows "unpack_one (Suc (Suc n)) (enc_head k @ rest) =
    sbind (unpack_array n (int k) rest) (\<lambda>(arr, rb). sbind (unpack_pairs n rb) (\<lambda>(hash, rb). Inr (LTable arr hash, rb)))"
proof (cases "k \<ge> 31")
  case True
  obtain c bs where c: "enc_int (int k) = enc_tag TYPE_NUMBER c @ bs" "c < 32" "c \<noteq> TYPE_NUMBER_REAL"
    "\<forall>rest. get_integer (bs @ rest) c = Inr (int k, rest)"
    using get_integer_enc [of "int k"] assms by auto
  have u: "unat (of_nat (TYPE_NUMBER + 8 * c) :: u8) = TYPE_NUMBER + 8 * c"
    using tag_bits [of TYPE_NUMBER c] c(2) by (simp add: TYPE_NUMBER_def)
  have dm: "(TYPE_NUMBER + 8 * c) mod 8 = TYPE_NUMBER" "(TYPE_NUMBER + 8 * c) div 8 = c" unfolding TYPE_NUMBER_def by presburger+
  have "table_size (enc_tag TYPE_NUMBER c @ bs @ rest) 31 = Inr (int k, rest)"
    using rb_read_append [of "enc_tag TYPE_NUMBER c" 1 "bs @ rest"] u dm c(3,4) assms
    by (simp add: table_size_def MAX_COOKIE_def enc_tag_def Let_def del: of_nat_add)
  then show ?thesis
    using True c(1) unpack_tag [of TYPE_TABLE 31 "Suc n"] by (simp add: enc_head_def TYPE_TABLE_def)
next
  case False
  then show ?thesis
    using unpack_tag [of TYPE_TABLE k "Suc n"] by (simp add: enc_head_def TYPE_TABLE_def table_size_def MAX_COOKIE_def)
qed

lemma enc_nonempty: "fits d v \<Longrightarrow> 1 \<le> length (enc v)"
  by (cases v) (auto simp: enc_tag_def enc_int_def enc_str_def enc_head_def)

lemma enc_fuel: "fits d v \<Longrightarrow> 3 * length (enc v) \<le> n \<Longrightarrow> 2 \<le> n"
  using enc_nonempty [of d v] by simp

text \<open>The fuel a sequence of bytes needs is three times its length, and one more for a loop.\<close>

lemma unpack_array_enc:
  assumes "\<forall>v \<in> set vs. \<forall>n rest. 3 * length (enc v) \<le> n \<longrightarrow> unpack_one n (enc v @ rest) = Inr (strip v, rest)"
    "\<forall>v \<in> set vs. 1 \<le> length (enc v)" "3 * length (concat (map enc vs)) < n"
  shows "unpack_array n (int (length vs)) (concat (map enc vs) @ rest) = Inr (map strip vs, rest)"
  using assms
proof (induction vs arbitrary: n)
  case Nil
  then show ?case by (cases n) simp_all
next
  case (Cons v vs)
  obtain m where m: "n = Suc m" using Cons.prems(3) by (cases n) simp_all
  have "unpack_one m (enc v @ concat (map enc vs) @ rest) = Inr (strip v, concat (map enc vs) @ rest)"
    using Cons.prems(1,3) m by simp
  moreover have "unpack_array m (int (length vs)) (concat (map enc vs) @ rest) = Inr (map strip vs, rest)"
    using Cons.prems m by (intro Cons.IH) simp_all
  ultimately show ?case using m by simp
qed

lemma unpack_pairs_enc:
  assumes "\<forall>(k, v) \<in> set ps. (\<forall>n rest. 3 * length (enc k) \<le> n \<longrightarrow> unpack_one n (enc k @ rest) = Inr (strip k, rest)) \<and>
      (\<forall>n rest. 3 * length (enc v) \<le> n \<longrightarrow> unpack_one n (enc v @ rest) = Inr (strip v, rest))"
    "\<forall>(k, v) \<in> set ps. 1 \<le> length (enc k) \<and> k \<noteq> LNil \<and> \<not> bad_key k"
    "3 * length (concat (map (\<lambda>(k, v). enc k @ enc v) ps) @ enc LNil) < n"
  shows "unpack_pairs n (concat (map (\<lambda>(k, v). enc k @ enc v) ps) @ enc LNil @ rest) =
    Inr (map (\<lambda>(k, v). (strip k, strip v)) ps, rest)"
  using assms
proof (induction ps arbitrary: n)
  case Nil
  obtain m where m: "n = Suc m" using Nil.prems(3) by (cases n) simp_all
  have "unpack_one m (enc LNil @ rest) = Inr (LNil, rest)"
    using unpack_flags(1) [of m rest] Nil.prems(3) m by (simp add: enc_tag_def)
  then show ?case using m by simp
next
  case (Cons p ps)
  obtain k v where p: "p = (k, v)" by (cases p)
  obtain m where m: "n = Suc m" using Cons.prems(3) by (cases n) simp_all
  let ?r = "concat (map (\<lambda>(k, v). enc k @ enc v) ps) @ enc LNil @ rest"
  have "unpack_one m (enc k @ enc v @ ?r) = Inr (strip k, enc v @ ?r)" "unpack_one m (enc v @ ?r) = Inr (strip v, ?r)"
    using Cons.prems(1,3) m p by simp_all
  moreover have "unpack_pairs m ?r = Inr (map (\<lambda>(k, v). (strip k, strip v)) ps, rest)"
    using Cons.prems m p by (intro Cons.IH) simp_all
  moreover have "strip k \<noteq> LNil" "\<not> bad_key (strip k)" using Cons.prems(2) p by (simp_all add: strip_key)
  ultimately show ?case using m p by simp
qed

lemma unpack_enc:
  "fits d v \<Longrightarrow> keyed v \<Longrightarrow> 3 * length (enc v) \<le> n \<Longrightarrow> unpack_one n (enc v @ rest) = Inr (strip v, rest)"
proof (induction v arbitrary: d n rest rule: lua.induct)
  case (LTable arr hash)
  let ?a = "concat (map enc arr)" and ?h = "concat (map (\<lambda>(k, v). enc k @ enc v) hash)"
  have f: "\<forall>v \<in> set arr. fits (Suc d) v \<and> keyed v" "length arr < 2 ^ 31"
    "\<forall>(k, v) \<in> set hash. fits (Suc d) k \<and> fits (Suc d) v \<and> keyed k \<and> keyed v \<and> k \<noteq> LNil \<and> \<not> bad_key k"
    using LTable.prems(1,2) by auto
  have h: "1 \<le> length (enc_head (length arr))" by (simp add: enc_head_def enc_tag_def)
  obtain m where m: "n = Suc (Suc m)" using fuel2 [of n] LTable.prems(3) h by auto
  have "3 * length ?a < m" "3 * length (?h @ enc LNil) < m"
    using LTable.prems(3) h m by (simp_all add: enc_tag_def)
  note fuel = this
  have a: "unpack_array m (int (length arr)) (?a @ ?h @ enc LNil @ rest) = Inr (map strip arr, ?h @ enc LNil @ rest)"
    using LTable.IH(1) f(1) enc_nonempty fuel(1) by (intro unpack_array_enc) blast+
  have p: "unpack_pairs m (?h @ enc LNil @ rest) = Inr (map (\<lambda>(k, v). (strip k, strip v)) hash, rest)"
  proof (rule unpack_pairs_enc [OF _ _ fuel(2)])
    show "\<forall>(k, v) \<in> set hash. 1 \<le> length (enc k) \<and> k \<noteq> LNil \<and> \<not> bad_key k" using f(3) enc_nonempty by blast
    show "\<forall>(k, v) \<in> set hash. (\<forall>n rest. 3 * length (enc k) \<le> n \<longrightarrow> unpack_one n (enc k @ rest) = Inr (strip k, rest)) \<and>
      (\<forall>n rest. 3 * length (enc v) \<le> n \<longrightarrow> unpack_one n (enc v @ rest) = Inr (strip v, rest))"
      using LTable.IH(2,3) f(3) by fastforce
  qed
  show ?case using unpack_head [OF f(2), of m "?a @ ?h @ enc LNil @ rest"] a p m by simp
next
  case (LMeta ps)
  let ?h = "concat (map (\<lambda>(k, v). enc k @ enc v) ps)"
  have f: "\<forall>(k, v) \<in> set ps. fits (Suc d) k \<and> fits (Suc d) v \<and> keyed k \<and> keyed v \<and> k \<noteq> LNil \<and> \<not> bad_key k"
    using LMeta.prems(1,2) by auto
  obtain m where m: "n = Suc (Suc m)" using fuel2 [of n] LMeta.prems(3) by (auto simp: enc_tag_def)
  have fuel: "3 * length (?h @ enc LNil) < m" using LMeta.prems(3) m by (simp add: enc_tag_def)
  have p: "unpack_pairs m (?h @ enc LNil @ rest) = Inr (map (\<lambda>(k, v). (strip k, strip v)) ps, rest)"
  proof (rule unpack_pairs_enc [OF _ _ fuel])
    show "\<forall>(k, v) \<in> set ps. 1 \<le> length (enc k) \<and> k \<noteq> LNil \<and> \<not> bad_key k" using f enc_nonempty by blast
    show "\<forall>(k, v) \<in> set ps. (\<forall>n rest. 3 * length (enc k) \<le> n \<longrightarrow> unpack_one n (enc k @ rest) = Inr (strip k, rest)) \<and>
      (\<forall>n rest. 3 * length (enc v) \<le> n \<longrightarrow> unpack_one n (enc v @ rest) = Inr (strip v, rest))"
      using LMeta.IH f by fastforce
  qed
  obtain j where j: "m = Suc j" using fuel by (cases m) simp_all
  then have "unpack_array m 0 (?h @ enc LNil @ rest) = Inr ([], ?h @ enc LNil @ rest)" by simp
  then show ?case using unpack_head [of 0 m "?h @ enc LNil @ rest"] p m by (simp add: enc_head_def)
next
  case LNil
  then show ?case using enc_fuel unpack_flags(1) [of n rest] by fastforce
next
  case (LBool b)
  then show ?case using enc_fuel [OF LBool.prems(1,3)] unpack_flags(2) [of n b rest] by simp
next
  case (LInt x)
  then show ?case using enc_fuel [OF LInt.prems(1,3)] unpack_int by simp
next
  case (LReal w)
  then show ?case using enc_fuel [OF LReal.prems(1,3)] unpack_word(1) by simp
next
  case (LStr s)
  then show ?case using enc_fuel [OF LStr.prems(1,3)] unpack_str by simp
next
  case (LPtr w)
  then show ?case using enc_fuel [OF LPtr.prems(1,3)] unpack_word(2) by simp
qed simp

lemma unpack_all_enc:
  assumes "\<forall>v \<in> set vs. fits 0 v \<and> keyed v" "length (concat (map enc vs)) < n"
  shows "unpack_all n (concat (map enc vs)) = Inr (map strip vs)"
  using assms
proof (induction vs arbitrary: n)
  case Nil
  then show ?case by (cases n) simp_all
next
  case (Cons v vs)
  obtain m where m: "n = Suc m" using Cons.prems(2) by (cases n) simp_all
  have ne: "1 \<le> length (enc v)" using enc_nonempty Cons.prems(1) by auto
  let ?r = "concat (map enc vs)"
  have "unpack_one (unpack_fuel (enc v @ ?r)) (enc v @ ?r) = Inr (strip v, ?r)"
    using Cons.prems(1) by (intro unpack_enc [of 0]) (simp_all add: unpack_fuel_def)
  moreover have "unpack_all m ?r = Inr (map strip vs)" using Cons.prems m ne by (intro Cons.IH) simp_all
  moreover have "enc v @ ?r \<noteq> []" using ne by auto
  ultimately show ?case using m by simp
qed

section \<open>Any stream\<close>

text \<open>Reading consumes the stream, whatever its bytes are.\<close>

lemma rb_read_shorter: "rb_read rb k = Inr (p, rb') \<Longrightarrow> length rb' = length rb - nat k \<and> 0 \<le> k \<and> k \<le> int (length rb)"
  by (auto simp: rb_read_def split: if_splits)

lemma get_integer_shorter: "get_integer rb c = Inr (x, rb') \<Longrightarrow> length rb' \<le> length rb"
  by (auto simp: get_integer_def sbind_Inr dest!: rb_read_shorter split: if_splits)

lemma table_size_shorter: "table_size rb c = Inr (x, rb') \<Longrightarrow> length rb' \<le> length rb"
  by (fastforce simp: table_size_def sbind_Inr Let_def dest!: rb_read_shorter get_integer_shorter split: if_splits)

lemma push_plain_shorter: "push_plain t c rb = Inr (x, rb') \<Longrightarrow> length rb' \<le> length rb"
  by (fastforce simp: push_plain_def get_word64_def get_buffer_def sbind_Inr dest!: rb_read_shorter get_integer_shorter split: if_splits)

lemma plain_fuel: "rb_read rb k \<noteq> Inl NoFuel" "get_integer rb c \<noteq> Inl NoFuel" "table_size rb c \<noteq> Inl NoFuel" "push_plain t c rb \<noteq> Inl NoFuel"
proof -
  have s: "sbind r f = Inl NoFuel \<longleftrightarrow> r = Inl NoFuel \<or> (\<exists>x. r = Inr x \<and> f x = Inl NoFuel)" for r :: "seri_error + 'x" and f :: "'x \<Rightarrow> seri_error + 'y"
    by (cases r) auto
  show r: "rb_read rb k \<noteq> Inl NoFuel" for rb k by (simp add: rb_read_def)
  show g: "get_integer rb c \<noteq> Inl NoFuel" for rb c by (auto simp: get_integer_def s r)
  show "table_size rb c \<noteq> Inl NoFuel" by (auto simp: table_size_def s r g Let_def)
  show "push_plain t c rb \<noteq> Inl NoFuel" by (auto simp: push_plain_def get_word64_def get_buffer_def s r g)
qed

lemma unpack_shorter:
  "unpack_one n rb = Inr (v, rb') \<Longrightarrow> length rb' < length rb"
  "push_value n t c rb = Inr (v, rb') \<Longrightarrow> length rb' \<le> length rb"
  "unpack_array n k rb = Inr (vs, rb') \<Longrightarrow> length rb' \<le> length rb"
  "unpack_pairs n rb = Inr (ps, rb') \<Longrightarrow> length rb' < length rb"
proof (induction n arbitrary: rb rb' v t c k vs ps)
  case (Suc n)
  {
    case 1
    then obtain p r1 t c where "rb_read rb 1 = Inr (p, r1)" "push_value n t c r1 = Inr (v, rb')"
      by (auto simp: unpack_one.simps(2) sbind_Inr)
    then show ?case using rb_read_shorter [of rb 1 p r1] Suc.IH(2) [of t c r1 v rb'] by auto
  next
    case 2
    then consider "push_plain t c rb = Inr (v, rb')" | a r1 arr r2 hash where "table_size rb c = Inr (a, r1)"
      "unpack_array n a r1 = Inr (arr, r2)" "unpack_pairs n r2 = Inr (hash, rb')"
      by (auto simp: sbind_Inr split: if_splits)
    then show ?case
    proof cases
      case 2
      then show ?thesis
        using table_size_shorter [OF 2(1)] Suc.IH(3) [OF 2(2)] Suc.IH(4) [OF 2(3)] by linarith
    qed (rule push_plain_shorter)
  next
    case 3
    then consider "rb' = rb" | v r1 vs' where "unpack_one n rb = Inr (v, r1)" "unpack_array n (k - 1) r1 = Inr (vs', rb')"
      by (auto simp: sbind_Inr split: if_splits)
    then show ?case
    proof cases
      case 2
      then show ?thesis using Suc.IH(1) [OF 2(1)] Suc.IH(3) [OF 2(2)] by linarith
    qed simp
  next
    case 4
    then obtain k r1 where k: "unpack_one n rb = Inr (k, r1)" "rb' = r1 \<or> (\<exists>v r2 ps'. unpack_one n r1 = Inr (v, r2) \<and> unpack_pairs n r2 = Inr (ps', rb'))"
      by (auto simp: sbind_Inr split: if_splits)
    then show ?case using Suc.IH(1) [OF k(1)] Suc.IH(1) [of r1] Suc.IH(4) by fastforce
  }
qed simp_all

lemma sbind_NoFuel:
  "sbind r f = Inl NoFuel \<longleftrightarrow> r = Inl NoFuel \<or> (\<exists>x. r = Inr x \<and> f x = Inl NoFuel)"
  by (cases r) auto

lemma unpack_fuel_enough:
  "3 * length rb < n \<Longrightarrow> unpack_one n rb \<noteq> Inl NoFuel"
  "3 * length rb + 2 < n \<Longrightarrow> push_value n t c rb \<noteq> Inl NoFuel"
  "3 * length rb + 1 < n \<Longrightarrow> unpack_array n k rb \<noteq> Inl NoFuel"
  "3 * length rb + 1 < n \<Longrightarrow> unpack_pairs n rb \<noteq> Inl NoFuel"
proof (induction n arbitrary: rb t c k)
  case (Suc n)
  {
    case 1
    have "push_value n t c rb' \<noteq> Inl NoFuel" if "rb_read rb 1 = Inr (p, rb')" for p rb' t c
      using 1 rb_read_shorter [OF that] by (intro Suc.IH(2)) (simp, arith)
    then show ?case by (auto simp: unpack_one.simps(2) sbind_NoFuel plain_fuel)
  next
    case 2
    have "unpack_array n a r1 \<noteq> Inl NoFuel" if "table_size rb c = Inr (a, r1)" for a r1
      using 2 table_size_shorter [OF that] by (intro Suc.IH(3)) simp
    moreover have "unpack_pairs n r2 \<noteq> Inl NoFuel" if "table_size rb c = Inr (a, r1)" "unpack_array n a r1 = Inr (arr, r2)" for a r1 arr r2
      using 2 table_size_shorter [OF that(1)] unpack_shorter(3) [OF that(2)] by (intro Suc.IH(4)) simp
    ultimately show ?case by (auto simp: sbind_NoFuel plain_fuel)
  next
    case 3
    have "unpack_one n rb \<noteq> Inl NoFuel" using 3 by (intro Suc.IH(1)) simp
    moreover have "unpack_array n (k - 1) r1 \<noteq> Inl NoFuel" if "unpack_one n rb = Inr (v, r1)" for v r1
      using 3 unpack_shorter(1) [OF that] by (intro Suc.IH(3)) simp
    ultimately show ?case by (auto simp: sbind_NoFuel)
  next
    case 4
    have "unpack_one n rb \<noteq> Inl NoFuel" using 4 by (intro Suc.IH(1)) simp
    moreover have "unpack_one n r1 \<noteq> Inl NoFuel" if "unpack_one n rb = Inr (k, r1)" for k r1
      using 4 unpack_shorter(1) [OF that] by (intro Suc.IH(1)) simp
    moreover have "unpack_pairs n r2 \<noteq> Inl NoFuel" if "unpack_one n rb = Inr (k, r1)" "unpack_one n r1 = Inr (v, r2)" for k r1 v r2
      using 4 unpack_shorter(1) [OF that(1)] unpack_shorter(1) [OF that(2)] by (intro Suc.IH(4)) simp
    ultimately show ?case by (auto simp: sbind_NoFuel)
  }
qed simp_all

lemma unpack_all_fuel: "length rb < n \<Longrightarrow> unpack_all n rb \<noteq> Inl NoFuel"
proof (induction n arbitrary: rb)
  case (Suc n)
  have "unpack_one (unpack_fuel rb) rb \<noteq> Inl NoFuel" by (rule unpack_fuel_enough) (simp add: unpack_fuel_def)
  moreover have "unpack_all n r \<noteq> Inl NoFuel" if "unpack_one (unpack_fuel rb) rb = Inr (v, r)" for v r
    using Suc.prems unpack_shorter(1) [OF that] by (intro Suc.IH) simp
  ultimately show ?case by (auto simp: sbind_NoFuel)
qed simp

section \<open>Properties\<close>

text \<open>
  C19: Serialisation round trip: for all values that \<^verbatim>\<open>pack_one\<close> can take (nested at most 32
  deep, no functions, userdata or threads, strings and arrays shorter than \<open>2 ^ 31\<close>, no NaN
  as key), \<^verbatim>\<open>luaseri_pack\<close> succeeds, through blocks of 128 bytes, and \<^verbatim>\<open>luaseri_unpack\<close> reads from its
  bytes the same values; a table with a \<^verbatim>\<open>__pairs\<close> metamethod comes back as a plain table.
\<close>

theorem luaseri_round_trip:
  assumes "\<forall>v \<in> set vs. fits 0 v \<and> keyed v"
  shows "sbind (luaseri_pack vs) luaseri_unpack = Inr (map strip vs)"
  using luaseri_pack_enc [of vs] unpack_all_enc [of vs] assms by (simp add: luaseri_unpack_def del: unpack_all.simps)

definition sample_values :: "lua list" where
  "sample_values = [LInt (- 300), LStr [104, 105], LTable [LBool True, LReal 0x3ff0000000000000] [(LStr [107], LTable [] [])], LNil]"

theorem luaseri_round_trip_witness:
  "sbind (luaseri_pack sample_values) luaseri_unpack = Inr sample_values"
  using luaseri_round_trip [of sample_values] by (simp add: sample_values_def bad_key_def MAX_DEPTH_def)

text \<open>
  C25: The bytes do not depend on how the writes fall into blocks: packing is the concatenation
  of the encodings of the values, one function of each value alone.
\<close>

theorem luaseri_pack_format:
  assumes "\<forall>v \<in> set vs. fits 0 v"
  shows "luaseri_pack vs = Inr (concat (map enc vs))"
  by (rule luaseri_pack_enc [OF assms])

theorem luaseri_pack_format_witness:
  "luaseri_pack [LStr (replicate 200 65), LInt 7] = Inr (enc (LStr (replicate 200 65)) @ enc (LInt 7))"
  using luaseri_pack_format [of "[LStr (replicate 200 65), LInt 7]"] by (simp add: MAX_DEPTH_def)

text \<open>
  C26: Unpacking ends on every sequence of bytes, also on one no packer wrote: the recursion and
  the loops over array elements and pairs all consume the stream, so that the answer is a list
  of values or an error, after at most three calls a byte.
\<close>

theorem luaseri_unpack_terminates: "luaseri_unpack bs \<noteq> Inl NoFuel"
  unfolding luaseri_unpack_def by (rule unpack_all_fuel) simp



end
