(* ===== verification/Netpack.thy ===== *)
theory Netpack
  imports Bytes
begin

text \<open>
  The packet filter of the gate services (\<^verbatim>\<open>lualib-src/lua-netpack.c\<close>): a stream of bytes per
  connection is cut into packets of a two-byte big-endian length and that many bytes.
  Packets that are not complete wait in a hash table, complete ones in a ring.
\<close>

section \<open>Data\<close>

definition QUEUESIZE :: nat where "QUEUESIZE = 1024"
definition HASHSIZE :: nat where "HASHSIZE = 4096"

text \<open>The size of a packet is the length of its buffer.\<close>

record netpack =
  np_id :: int
  np_buffer :: bytes

text \<open>\<open>uc_buffer\<close> are the bytes of the packet that are there; \<open>uc_read = -1\<close> when only the first byte of the length is.\<close>

record uncomplete =
  uc_id :: int
  uc_size :: nat
  uc_buffer :: bytes
  uc_read :: int
  uc_header :: nat

record queue =
  q_cap :: nat
  q_head :: nat
  q_tail :: nat
  q_hash :: "nat \<Rightarrow> uncomplete list"
  q_queue :: "netpack option list"

section \<open>Operations\<close>

text \<open>The buffers that are freed, and the emptied queue.\<close>

definition lclear :: "queue \<Rightarrow> bytes list \<times> queue" where
  "lclear q =
     (let tail = (if q_head q > q_tail q then q_tail q + q_cap q else q_tail q)
      in (concat (map (\<lambda>i. map uc_buffer (q_hash q i)) [0..<HASHSIZE]) @
          map (\<lambda>i. np_buffer (the (q_queue q ! (i mod q_cap q)))) [q_head q..<tail],
          q\<lparr>q_hash := (\<lambda>i. if i < HASHSIZE then [] else q_hash q i), q_head := 0, q_tail := 0\<rparr>))"

definition hash_fd :: "int \<Rightarrow> nat" where
  "hash_fd fd = nat ((fd div 2 ^ 24 + fd div 2 ^ 12 + fd) mod 2 ^ 32 mod int HASHSIZE)"

text \<open>Finding takes the entry out of its list.\<close>

fun take_fd :: "int \<Rightarrow> uncomplete list \<Rightarrow> uncomplete option \<times> uncomplete list" where
  "take_fd fd [] = (None, [])"
| "take_fd fd (uc # ucs) =
     (if uc_id uc = fd then (Some uc, ucs) else (let (r, ucs) = take_fd fd ucs in (r, uc # ucs)))"

definition find_uncomplete :: "queue option \<Rightarrow> int \<Rightarrow> uncomplete option \<times> queue option" where
  "find_uncomplete q fd =
     (case q of
        None \<Rightarrow> (None, None)
      | Some q \<Rightarrow>
          (let h = hash_fd fd; (uc, ucs) = take_fd fd (q_hash q h)
           in (uc, Some (q\<lparr>q_hash := (q_hash q)(h := ucs)\<rparr>))))"

definition get_queue :: "queue option \<Rightarrow> queue" where
  "get_queue q =
     (case q of
        Some q \<Rightarrow> q
      | None \<Rightarrow> \<lparr>q_cap = QUEUESIZE, q_head = 0, q_tail = 0, q_hash = (\<lambda>_. []), q_queue = replicate QUEUESIZE None\<rparr>)"

definition expand_queue :: "queue \<Rightarrow> queue" where
  "expand_queue q =
     q\<lparr>q_cap := q_cap q + QUEUESIZE, q_head := 0, q_tail := q_cap q,
       q_queue := map (\<lambda>i. q_queue q ! ((q_head q + i) mod q_cap q)) [0..<q_cap q] @ replicate QUEUESIZE None\<rparr>"

definition enqueue :: "queue \<Rightarrow> netpack \<Rightarrow> queue" where
  "enqueue q np =
     (let t = q_tail q + 1;
          q' = q\<lparr>q_tail := (if t \<ge> q_cap q then t - q_cap q else t), q_queue := (q_queue q)[q_tail q := Some np]\<rparr>
      in if q_head q' = q_tail q' then expand_queue q' else q')"

definition push_data :: "int \<Rightarrow> bytes \<Rightarrow> queue option \<Rightarrow> queue" where
  "push_data fd buffer q = enqueue (get_queue q) \<lparr>np_id = fd, np_buffer = buffer\<rparr>"

definition save_uncomplete :: "uncomplete \<Rightarrow> queue option \<Rightarrow> queue" where
  "save_uncomplete uc q =
     (let q = get_queue q; h = hash_fd (uc_id uc) in q\<lparr>q_hash := (q_hash q)(h := uc # q_hash q h)\<rparr>)"

fun read_size :: "bytes \<Rightarrow> nat result" where
  "read_size (a # b # _) = Inr (256 * unat a + unat b)"
| "read_size _ = Inl OutOfBounds"

definition half_header :: "int \<Rightarrow> u8 \<Rightarrow> uncomplete" where
  "half_header fd b = \<lparr>uc_id = fd, uc_size = 0, uc_buffer = [], uc_read = - 1, uc_header = unat b\<rparr>"

definition partial_pack :: "int \<Rightarrow> nat \<Rightarrow> bytes \<Rightarrow> uncomplete" where
  "partial_pack fd pack_size buffer =
     \<lparr>uc_id = fd, uc_size = pack_size, uc_buffer = buffer, uc_read = int (length buffer), uc_header = 0\<rparr>"

function push_more :: "int \<Rightarrow> bytes \<Rightarrow> queue option \<Rightarrow> queue result" where
  "push_more fd buffer q =
     (if length buffer = 1 then Inr (save_uncomplete (half_header fd (hd buffer)) q)
      else
        rbind (read_size buffer) (\<lambda>pack_size.
        let buffer' = drop 2 buffer in
        if length buffer' < pack_size then Inr (save_uncomplete (partial_pack fd pack_size buffer') q)
        else
          (let q = push_data fd (take pack_size buffer') q; rest = drop pack_size buffer'
           in if rest \<noteq> [] then push_more fd rest (Some q) else Inr q)))"
  by auto
termination
proof (relation "measure (\<lambda>(fd, buffer, q). length buffer)")
  fix fd :: int and buffer :: bytes and q :: "queue option" and x buffer' q' rest
  assume "read_size buffer = Inr x" "buffer' = drop 2 buffer" "rest = drop x buffer'"
  then show "((fd, rest, Some q'), fd, buffer, q) \<in> measure (\<lambda>(fd, buffer, q). length buffer)"
    by (cases buffer rule: read_size.cases) auto
qed simp

declare push_more.simps [simp del]

definition close_uncomplete :: "int \<Rightarrow> queue option \<Rightarrow> queue option" where
  "close_uncomplete fd q = snd (find_uncomplete q fd)"

datatype netevent =
    Nothing
  | Data int bytes
  | More
  | Close int
  | Open int bytes
  | Error int bytes
  | Warning int int

text \<open>The start of \<^verbatim>\<open>filter_data_\<close> when there is an entry whose length is half read.\<close>

fun fill_header :: "uncomplete \<Rightarrow> bytes \<Rightarrow> (uncomplete \<times> bytes) result" where
  "fill_header uc buffer =
     (if uc_read uc < 0 then
        rbind (cassert (uc_read uc = - 1)) (\<lambda>_.
        case buffer of
          [] \<Rightarrow> Inl OutOfBounds
        | b # buffer \<Rightarrow> Inr (uc\<lparr>uc_size := unat b + 256 * uc_header uc, uc_buffer := [], uc_read := 0\<rparr>, buffer))
      else Inr (uc, buffer))"

definition filter_data :: "int \<Rightarrow> bytes \<Rightarrow> queue option \<Rightarrow> (netevent \<times> queue option) result" where
  "filter_data fd buffer q =
     (case find_uncomplete q fd of
        (Some uc, q) \<Rightarrow>
          rbind (fill_header uc buffer) (\<lambda>(uc, buffer).
          let need = int (uc_size uc) - uc_read uc in
          if int (length buffer) < need then
            Inr (Nothing, Some (save_uncomplete (uc\<lparr>uc_buffer := uc_buffer uc @ buffer, uc_read := uc_read uc + int (length buffer)\<rparr>) q))
          else
            (let pack = uc_buffer uc @ take (nat need) buffer; rest = drop (nat need) buffer in
             if rest = [] then Inr (Data fd pack, q)
             else rbind (push_more fd rest (Some (push_data fd pack q))) (\<lambda>q. Inr (More, Some q))))
      | (None, q) \<Rightarrow>
          if length buffer = 1 then Inr (Nothing, Some (save_uncomplete (half_header fd (hd buffer)) q))
          else
            rbind (read_size buffer) (\<lambda>pack_size.
            let buffer' = drop 2 buffer in
            if length buffer' < pack_size then Inr (Nothing, Some (save_uncomplete (partial_pack fd pack_size buffer') q))
            else if length buffer' = pack_size then Inr (Data fd buffer', q)
            else
              rbind (push_more fd (drop pack_size buffer') (Some (push_data fd (take pack_size buffer') q))) (\<lambda>q.
              Inr (More, Some q))))"

definition SKYNET_SOCKET_TYPE_DATA :: nat where "SKYNET_SOCKET_TYPE_DATA = 1"
definition SKYNET_SOCKET_TYPE_CONNECT :: nat where "SKYNET_SOCKET_TYPE_CONNECT = 2"
definition SKYNET_SOCKET_TYPE_CLOSE :: nat where "SKYNET_SOCKET_TYPE_CLOSE = 3"
definition SKYNET_SOCKET_TYPE_ACCEPT :: nat where "SKYNET_SOCKET_TYPE_ACCEPT = 4"
definition SKYNET_SOCKET_TYPE_ERROR :: nat where "SKYNET_SOCKET_TYPE_ERROR = 5"
definition SKYNET_SOCKET_TYPE_UDP :: nat where "SKYNET_SOCKET_TYPE_UDP = 6"
definition SKYNET_SOCKET_TYPE_WARNING :: nat where "SKYNET_SOCKET_TYPE_WARNING = 7"

text \<open>
  A socket message has its data in a buffer of its own (\<open>sm_padding = False\<close>), of \<^verbatim>\<open>ud\<close> bytes for
  data, or a string behind the struct.
\<close>

record socket_message =
  sm_type :: nat
  sm_id :: int
  sm_ud :: int
  sm_padding :: bool
  sm_data :: bytes

text \<open>A string that is not behind the struct would be pushed with size -1.\<close>

definition pushstring :: "socket_message \<Rightarrow> bytes result" where
  "pushstring m = (if sm_padding m then Inr (sm_data m) else Inl OutOfBounds)"

definition lfilter :: "socket_message \<Rightarrow> queue option \<Rightarrow> (netevent \<times> queue option) result" where
  "lfilter m q =
     (if sm_type m = SKYNET_SOCKET_TYPE_DATA then
        rbind (cassert (\<not> sm_padding m)) (\<lambda>_. filter_data (sm_id m) (sm_data m) q)
      else if sm_type m = SKYNET_SOCKET_TYPE_CONNECT then Inr (Nothing, q)
      else if sm_type m = SKYNET_SOCKET_TYPE_CLOSE then Inr (Close (sm_id m), close_uncomplete (sm_id m) q)
      else if sm_type m = SKYNET_SOCKET_TYPE_ACCEPT then rbind (pushstring m) (\<lambda>s. Inr (Open (sm_ud m) s, q))
      else if sm_type m = SKYNET_SOCKET_TYPE_ERROR then
        rbind (pushstring m) (\<lambda>s. Inr (Error (sm_id m) s, close_uncomplete (sm_id m) q))
      else if sm_type m = SKYNET_SOCKET_TYPE_WARNING then Inr (Warning (sm_id m) (sm_ud m), q)
      else Inr (Nothing, q))"

definition lpop :: "queue \<Rightarrow> netpack option \<times> queue" where
  "lpop q =
     (if q_head q = q_tail q then (None, q)
      else (q_queue q ! q_head q, q\<lparr>q_head := (if q_head q + 1 \<ge> q_cap q then 0 else q_head q + 1)\<rparr>))"

definition write_size :: "nat \<Rightarrow> bytes" where
  "write_size len = [of_nat (len div 256), of_nat len]"

text \<open>\<open>None\<close> is the error raised for a packet that is too long.\<close>

definition lpack :: "bytes \<Rightarrow> bytes option" where
  "lpack data = (if length data \<ge> 0x10000 then None else Some (write_size (length data) @ data))"

section \<open>The ring\<close>

definition contents :: "queue \<Rightarrow> netpack list" where
  "contents q = ring_list (q_cap q) (q_head q) (q_tail q) (q_queue q)"

definition ring_wf :: "queue \<Rightarrow> bool" where
  "ring_wf q \<longleftrightarrow> ring_ok (q_cap q) (q_head q) (q_tail q) (q_queue q)"

lemma enqueue_ring:
  assumes "ring_wf q"
  shows "ring_wf (enqueue q np) \<and> contents (enqueue q np) = contents q @ [np] \<and> q_hash (enqueue q np) = q_hash q"
proof -
  let ?t = "ring_next (q_cap q) (q_tail q)" and ?a = "(q_queue q)[q_tail q := Some np]"
  have ok: "ring_ok (q_cap q) (q_head q) (q_tail q) (q_queue q)" "q_tail q < q_cap q"
    using assms by (simp_all add: ring_wf_def ring_ok_def)
  then have e: "enqueue q np = (let q' = q\<lparr>q_tail := ?t, q_queue := ?a\<rparr> in if q_head q = ?t then expand_queue q' else q')"
    by (simp add: enqueue_def ring_next_def Let_def)
  show ?thesis
  proof (cases "?t = q_head q")
    case True
    have "q_cap q < q_cap q + QUEUESIZE" by (simp add: QUEUESIZE_def)
    note u = ring_unroll [OF ok(1) True this, of np]
    show ?thesis unfolding e using u True by (simp add: Let_def expand_queue_def ring_wf_def contents_def)
  next
    case False
    show ?thesis unfolding e using ring_push [OF ok(1) False, of np] False by (simp add: Let_def ring_wf_def contents_def)
  qed
qed

lemma lpop_ring:
  assumes "ring_wf q" "q_head q \<noteq> q_tail q"
  shows "ring_wf (snd (lpop q)) \<and> contents q = the (fst (lpop q)) # contents (snd (lpop q)) \<and> fst (lpop q) \<noteq> None"
proof -
  have "ring_ok (q_cap q) (q_head q) (q_tail q) (q_queue q)" using assms(1) by (simp add: ring_wf_def)
  note r = ring_pop [OF this assms(2)]
  then show ?thesis using assms(2) by (simp add: lpop_def ring_wf_def contents_def ring_next_def)
qed

lemma contents_Nil: "ring_wf q \<Longrightarrow> contents q = [] \<longleftrightarrow> q_head q = q_tail q"
  by (simp add: contents_def ring_wf_def ring_list_Nil)

interpretation netpack: fifo enqueue lpop contents ring_wf
proof unfold_locales
  fix q :: queue and m x :: netpack and xs
  assume wf: "ring_wf q"
  show "ring_wf (enqueue q m)" "contents (enqueue q m) = contents q @ [m]" using enqueue_ring [OF wf] by auto
  show "ring_wf (snd (lpop q))" using lpop_ring [OF wf] wf by (cases "q_head q = q_tail q") (auto simp: lpop_def)
  show "fst (lpop q) = None \<and> contents (snd (lpop q)) = []" if "contents q = []"
    using that contents_Nil [OF wf] by (simp add: lpop_def)
  show "fst (lpop q) = Some x \<and> contents (snd (lpop q)) = xs" if "contents q = x # xs"
    using that lpop_ring [OF wf] contents_Nil [OF wf] by auto
qed

section \<open>Packets of a stream\<close>

text \<open>The specification: the complete packets of a stream, and what is left.\<close>

function frames :: "bytes \<Rightarrow> bytes list \<times> bytes" where
  "frames bs =
     (case bs of
        a # b # r \<Rightarrow>
          (let n = 256 * unat a + unat b in
           if length r < n then ([], bs)
           else (let (fs, rest) = frames (drop n r) in (take n r # fs, rest)))
      | _ \<Rightarrow> ([], bs))"
  by auto
termination by (relation "measure length") auto

declare frames.simps [simp del]

lemma frames_short: "length bs < 2 \<Longrightarrow> frames bs = ([], bs)"
  by (subst frames.simps) (auto split: list.splits)

lemma frames_partial: "read_size bs = Inr n \<Longrightarrow> length (drop 2 bs) < n \<Longrightarrow> frames bs = ([], bs)"
  by (subst frames.simps) (auto split: list.splits)

lemma frames_step:
  "read_size bs = Inr n \<Longrightarrow> n \<le> length (drop 2 bs) \<Longrightarrow>
    frames bs = (take n (drop 2 bs) # fst (frames (drop n (drop 2 bs))), snd (frames (drop n (drop 2 bs))))"
  by (subst frames.simps) (auto split: list.splits prod.splits)

lemma frames_append:
  "frames (xs @ ys) = (fst (frames xs) @ fst (frames (snd (frames xs) @ ys)), snd (frames (snd (frames xs) @ ys)))"
proof (induction xs rule: frames.induct)
  case (1 xs)
  show ?case
  proof (cases "length xs < 2")
    case True
    then show ?thesis by (simp add: frames_short)
  next
    case False
    then obtain a b r where xs: "xs = a # b # r" by (metis One_nat_def Suc_1 length_Cons lessI list.exhaust list.size(3) zero_less_Suc)
    let ?n = "256 * unat a + unat b"
    show ?thesis
    proof (cases "length r < ?n")
      case True
      then have "frames xs = ([], xs)" using frames_partial [of xs ?n] xs by simp
      then show ?thesis by simp
    next
      case False
      have e: "frames xs = (take ?n r # fst (frames (drop ?n r)), snd (frames (drop ?n r)))"
        using frames_step [of xs ?n] False xs by simp
      have "frames (xs @ ys) = (take ?n r # fst (frames (drop ?n r @ ys)), snd (frames (drop ?n r @ ys)))"
        using frames_step [of "xs @ ys" ?n] False xs by simp
      then show ?thesis using 1 [OF xs refl refl False] e by simp
    qed
  qed
qed

text \<open>The bytes an entry stands for.\<close>

definition pend :: "uncomplete \<Rightarrow> bytes" where
  "pend uc = (if uc_read uc < 0 then [of_nat (uc_header uc)] else write_size (uc_size uc) @ uc_buffer uc)"

definition uc_ok :: "uncomplete \<Rightarrow> bool" where
  "uc_ok uc \<longleftrightarrow> (uc_read uc = - 1 \<and> uc_header uc < 256) \<or>
     (uc_read uc = int (length (uc_buffer uc)) \<and> length (uc_buffer uc) < uc_size uc \<and> uc_size uc < 65536)"

definition pending_in :: "uncomplete list \<Rightarrow> int \<Rightarrow> bytes" where
  "pending_in ucs fd = (case find (\<lambda>u. uc_id u = fd) ucs of Some u \<Rightarrow> pend u | None \<Rightarrow> [])"

definition pending :: "queue option \<Rightarrow> int \<Rightarrow> bytes" where
  "pending q fd = (case q of Some q \<Rightarrow> pending_in (q_hash q (hash_fd fd)) fd | None \<Rightarrow> [])"

definition queue_ok :: "queue option \<Rightarrow> bool" where
  "queue_ok q \<longleftrightarrow> (case q of None \<Rightarrow> True
     | Some q \<Rightarrow> ring_wf q \<and> (\<forall>h. distinct (map uc_id (q_hash q h)) \<and> (\<forall>u \<in> set (q_hash q h). uc_ok u)))"

definition queued :: "queue option \<Rightarrow> netpack list" where
  "queued q = (case q of None \<Rightarrow> [] | Some q \<Rightarrow> contents q)"

lemma get_queue_ok:
  assumes "queue_ok q"
  shows "queue_ok (Some (get_queue q))" "contents (get_queue q) = queued q" "pending (Some (get_queue q)) fd = pending q fd"
  using assms
  by (cases q; simp add: queue_ok_def get_queue_def queued_def pending_def pending_in_def ring_wf_def contents_def
      ring_ok_def ring_len_def ring_list_def QUEUESIZE_def)+

lemma read_size_bounds: "read_size bs = Inr n \<Longrightarrow> n < 65536 \<and> bs = write_size n @ drop 2 bs"
proof (cases bs rule: read_size.cases)
  case (1 a b r)
  assume "read_size bs = Inr n"
  then have n: "n = 256 * unat a + unat b" using 1 by simp
  have "unat a < 256" "unat b < 256" using unsigned_less [of a] unsigned_less [of b] by simp_all
  then have "n < 65536" "n div 256 = unat a" "n mod 256 = unat b" using n by simp_all
  moreover have "(of_nat n :: u8) = b"
  proof -
    have "(of_nat n :: u8) = 256 * of_nat (unat a) + of_nat (unat b)" unfolding n by simp
    moreover have "(256 :: u8) = 0" by (simp add: word_uint_eq_iff)
    ultimately show ?thesis by (simp only: mult_zero_left add_0_left) simp
  qed
  ultimately show ?thesis using 1 by (simp add: write_size_def)
qed simp_all

lemma take_fd_ok:
  assumes "distinct (map uc_id ucs)" "take_fd fd ucs = (r, ucs')"
  shows "r = find (\<lambda>u. uc_id u = fd) ucs" "ucs' = filter (\<lambda>u. uc_id u \<noteq> fd) ucs"
  using assms
proof (induction ucs arbitrary: ucs')
  case (Cons u us)
  {
    case 1
    then show ?case using Cons by (auto split: if_splits prod.splits)
  next
    case 2
    have "filter (\<lambda>u. uc_id u \<noteq> fd) us = us" if "uc_id u = fd" using 2 that by (auto simp: filter_id_conv image_iff)
    then show ?case using Cons 2 by (auto split: if_splits prod.splits)
  }
qed simp_all

lemma pending_other:
  assumes "\<And>u. u \<in> set xs \<Longrightarrow> uc_id u = fd" "fd' \<noteq> fd"
  shows "pending_in (xs @ filter (\<lambda>u. uc_id u \<noteq> fd) ucs) fd' = pending_in ucs fd'"
proof -
  have "find (\<lambda>u. uc_id u = fd') (filter (\<lambda>u. uc_id u \<noteq> fd) ucs) = find (\<lambda>u. uc_id u = fd') ucs"
    using assms(2) by (induction ucs) auto
  moreover have "find (\<lambda>u. uc_id u = fd') (xs @ ys) = find (\<lambda>u. uc_id u = fd') ys" for ys
    using assms by (induction xs) auto
  ultimately show ?thesis by (simp add: pending_in_def)
qed

text \<open>A queue without an entry for \<open>fd\<close>, and with nothing else changed.\<close>

definition without :: "int \<Rightarrow> queue option \<Rightarrow> queue option \<Rightarrow> bool" where
  "without fd q q' \<longleftrightarrow> queue_ok q' \<and> queued q' = queued q \<and> pending q' fd = [] \<and>
     (\<forall>q1. q' = Some q1 \<longrightarrow> (\<forall>u \<in> set (q_hash q1 (hash_fd fd)). uc_id u \<noteq> fd)) \<and> (\<forall>fd'. fd' \<noteq> fd \<longrightarrow> pending q' fd' = pending q fd')"

lemma find_uncomplete_ok:
  assumes "queue_ok q" "find_uncomplete q fd = (r, q')"
  shows "without fd q q'" "case r of Some uc \<Rightarrow> pending q fd = pend uc \<and> uc_ok uc \<and> uc_id uc = fd | None \<Rightarrow> pending q fd = []"
proof (atomize (full), cases q)
  case None
  then show "without fd q q' \<and> (case r of Some uc \<Rightarrow> pending q fd = pend uc \<and> uc_ok uc \<and> uc_id uc = fd | None \<Rightarrow> pending q fd = [])"
    using assms by (simp add: find_uncomplete_def without_def queue_ok_def pending_def)
next
  case (Some q0)
  let ?h = "hash_fd fd"
  let ?us = "q_hash q0 ?h"
  obtain us where t: "take_fd fd ?us = (r, us)" using assms(2) Some by (auto simp: find_uncomplete_def Let_def split: prod.splits)
  then have q': "q' = Some (q0\<lparr>q_hash := (q_hash q0)(?h := us)\<rparr>)" using assms(2) Some by (simp add: find_uncomplete_def)
  have ok: "ring_wf q0" "\<And>h. distinct (map uc_id (q_hash q0 h))" "\<And>h u. u \<in> set (q_hash q0 h) \<Longrightarrow> uc_ok u"
    using assms(1) Some by (auto simp: queue_ok_def)
  note tk = take_fd_ok [OF ok(2) t]
  have "distinct (map uc_id us)" unfolding tk(2) using ok(2) by (simp add: distinct_map_filter)
  then have "queue_ok q'" using ok q' tk(2) by (auto simp: queue_ok_def ring_wf_def)
  moreover have n: "find (\<lambda>u. uc_id u = fd) us = None" unfolding tk(2) by (auto simp: find_None_iff)
  moreover have "pending q' fd' = pending q fd'" if "fd' \<noteq> fd" for fd'
    using pending_other [of "[]" fd fd' ?us] that tk(2) by (simp add: pending_def q' Some)
  moreover have "\<forall>u \<in> set us. uc_id u \<noteq> fd" unfolding tk(2) by auto
  ultimately have "without fd q q'"
    by (simp add: without_def q' Some queued_def contents_def pending_def pending_in_def)
  moreover have "case r of Some uc \<Rightarrow> pending q fd = pend uc \<and> uc_ok uc \<and> uc_id uc = fd | None \<Rightarrow> pending q fd = []"
  proof (cases r)
    case (Some uc)
    then have f: "find (\<lambda>u. uc_id u = fd) ?us = Some uc" using tk(1) by simp
    then have "uc \<in> set ?us" "uc_id uc = fd" by (auto simp: find_Some_iff)
    then show ?thesis using ok(3) Some f \<open>q = Some q0\<close> by (simp add: pending_def pending_in_def)
  next
    case None
    then show ?thesis using tk(1) \<open>q = Some q0\<close> by (simp add: pending_def pending_in_def)
  qed
  ultimately show "without fd q q' \<and> (case r of Some uc \<Rightarrow> pending q fd = pend uc \<and> uc_ok uc \<and> uc_id uc = fd | None \<Rightarrow> pending q fd = [])"
    by blast
qed

text \<open>What a step may do: deliver packets of one connection to the ring and keep a rest.\<close>

definition yields :: "int \<Rightarrow> queue option \<Rightarrow> bytes list \<Rightarrow> bytes \<Rightarrow> queue option \<Rightarrow> bool" where
  "yields fd q fs rest q' \<longleftrightarrow> queue_ok q' \<and> queued q' = queued q @ map (\<lambda>f. \<lparr>np_id = fd, np_buffer = f\<rparr>) fs \<and>
     pending q' fd = rest \<and> (\<forall>fd'. fd' \<noteq> fd \<longrightarrow> pending q' fd' = pending q fd')"

lemma save_ok:
  assumes w: "without fd q0 q" and uc: "uc_ok uc" "uc_id uc = fd"
  shows "yields fd q0 [] (pend uc) (Some (save_uncomplete uc q))"
proof -
  have ok: "queue_ok q" using w by (simp add: without_def)
  note g = get_queue_ok [OF ok]
  let ?q = "get_queue q" and ?h = "hash_fd fd"
  have ne: "\<forall>u \<in> set (q_hash ?q ?h). uc_id u \<noteq> fd"
    using w by (cases q) (simp_all add: without_def get_queue_def)
  have "queue_ok (Some (save_uncomplete uc q))"
    using g(1) uc ne by (auto simp: queue_ok_def save_uncomplete_def Let_def ring_wf_def)
  moreover have "pending (Some (save_uncomplete uc q)) fd' = pending q0 fd'" if "fd' \<noteq> fd" for fd'
  proof -
    have f: "filter (\<lambda>u. uc_id u \<noteq> fd) (q_hash ?q ?h) = q_hash ?q ?h" using ne by (simp add: filter_id_conv)
    have "pending (Some (save_uncomplete uc q)) fd' = pending (Some ?q) fd'"
      using pending_other [of "[uc]" fd fd' "q_hash ?q ?h"] uc that by (simp add: pending_def save_uncomplete_def Let_def f)
    then show ?thesis using g(3) w that by (simp add: without_def)
  qed
  moreover have "queued (Some (save_uncomplete uc q)) = queued q0"
    using g(2) w by (simp add: queued_def save_uncomplete_def Let_def contents_def without_def)
  moreover have "pending (Some (save_uncomplete uc q)) fd = pend uc"
    using uc by (simp add: pending_def save_uncomplete_def Let_def pending_in_def)
  ultimately show ?thesis by (simp add: yields_def)
qed

lemma push_data_ok:
  assumes w: "without fd q0 q"
  shows "yields fd q0 [f] [] (Some (push_data fd f q))" "without fd (Some (push_data fd f q)) (Some (push_data fd f q))"
proof -
  have ok: "queue_ok q" using w by (simp add: without_def)
  note g = get_queue_ok [OF ok]
  let ?q = "get_queue q" and ?np = "\<lparr>np_id = fd, np_buffer = f\<rparr>"
  have "ring_wf ?q" using g(1) by (simp add: queue_ok_def)
  note e = enqueue_ring [OF this, of ?np]
  have ne: "\<forall>u \<in> set (q_hash ?q (hash_fd fd)). uc_id u \<noteq> fd"
    using w by (cases q) (simp_all add: without_def get_queue_def)
  have ok': "queue_ok (Some (enqueue ?q ?np))" using g(1) e by (simp add: queue_ok_def)
  have p: "pending (Some (enqueue ?q ?np)) fd' = pending q fd'" for fd' using e g(3) by (simp add: pending_def)
  show "yields fd q0 [f] [] (Some (push_data fd f q))"
    using ok' p e g(2) w by (simp add: yields_def push_data_def queued_def without_def)
  show "without fd (Some (push_data fd f q)) (Some (push_data fd f q))"
    using ok' p e ne w by (simp add: without_def push_data_def)
qed

lemma yields_trans:
  assumes "yields fd q0 fs r0 q1" "yields fd q1 gs rest q2"
  shows "yields fd q0 (fs @ gs) rest q2"
  using assms by (simp add: yields_def)

lemma pend_half: "pend (half_header fd b) = [b]" "uc_ok (half_header fd b)" "uc_id (half_header fd b) = fd"
  using unsigned_less [of b] by (simp_all add: pend_def half_header_def uc_ok_def)

lemma pend_partial:
  assumes "read_size bs = Inr n" "length (drop 2 bs) < n"
  shows "pend (partial_pack fd n (drop 2 bs)) = bs" "uc_ok (partial_pack fd n (drop 2 bs))" "uc_id (partial_pack fd n (drop 2 bs)) = fd"
  using read_size_bounds [OF assms(1)] assms(2) by (simp_all add: pend_def partial_pack_def uc_ok_def)

lemma read_size_ok: "2 \<le> length bs \<Longrightarrow> \<exists>n. read_size bs = Inr n"
  by (cases bs rule: read_size.cases) auto

lemma push_more_ok:
  assumes "without fd q0 q" "buffer \<noteq> []"
  shows "\<exists>q'. push_more fd buffer q = Inr q' \<and> yields fd q0 (fst (frames buffer)) (snd (frames buffer)) (Some q')"
  using assms
proof (induction fd buffer q arbitrary: q0 rule: push_more.induct)
  case (1 fd buffer q)
  show ?case
  proof (cases "length buffer = 1")
    case True
    then obtain b where b: "buffer = [b]" by (cases buffer) auto
    then show ?thesis using save_ok [OF "1.prems"(1) pend_half(2,3) [of fd b]] pend_half(1) [of fd b]
      by (simp add: push_more.simps frames_short)
  next
    case False
    then have "2 \<le> length buffer" using "1.prems"(2) by (cases buffer) (auto simp: Suc_le_eq)
    then obtain n where n: "read_size buffer = Inr n" using read_size_ok by blast
    show ?thesis
    proof (cases "length (drop 2 buffer) < n")
      case True
      then show ?thesis
        using False n save_ok [OF "1.prems"(1) pend_partial(2,3) [OF n True, of fd]] pend_partial(1) [OF n True, of fd] frames_partial [OF n True]
        by (subst push_more.simps) (simp add: Let_def)
    next
      case F2: False
      let ?rest = "drop n (drop 2 buffer)" and ?q = "push_data fd (take n (drop 2 buffer)) q"
      note fr = frames_step [OF n, OF F2 [unfolded not_less]]
      have unf: "push_more fd buffer q = (if ?rest \<noteq> [] then push_more fd ?rest (Some ?q) else Inr ?q)"
        using False n F2 by (subst push_more.simps) (simp add: Let_def)
      note pd = push_data_ok [OF "1.prems"(1), of "take n (drop 2 buffer)"]
      show ?thesis
      proof (cases "?rest = []")
        case True
        then show ?thesis using unf pd(1) fr by (simp add: frames_short)
      next
        case F3: False
        obtain q' where "push_more fd ?rest (Some ?q) = Inr q'" "yields fd (Some ?q) (fst (frames ?rest)) (snd (frames ?rest)) (Some q')"
          using "1.IH" [OF False n refl F2 refl refl F3 pd(2) F3] by blast
        then show ?thesis using unf F3 yields_trans [OF pd(1)] fr by simp
      qed
    qed
  qed
qed

lemma read_write_size: "n < 65536 \<Longrightarrow> read_size (write_size n @ d) = Inr n"
proof -
  assume n: "n < 65536"
  have "unat (of_nat (n div 256) :: u8) = n div 256" using n by (simp add: unsigned_of_nat take_bit_nat_eq_self)
  moreover have "unat (of_nat n :: u8) = n mod 256" by (simp add: unsigned_of_nat take_bit_eq_mod)
  ultimately show ?thesis by (simp add: write_size_def)
qed

lemma frames_whole:
  assumes "n < 65536"
  shows "frames (write_size n @ d) =
    (if length d < n then ([], write_size n @ d) else (take n d # fst (frames (drop n d)), snd (frames (drop n d))))"
  using frames_partial [OF read_write_size [OF assms], of d] frames_step [OF read_write_size [OF assms], of d]
  by (simp add: write_size_def)

text \<open>The entry and the bytes behind it once the length is known.\<close>

lemma fill_header_ok:
  assumes "uc_ok uc" "buffer \<noteq> []"
  obtains uc' buffer' where "fill_header uc buffer = Inr (uc', buffer')" "uc_id uc' = uc_id uc" "uc_size uc' < 65536"
    "uc_read uc' = int (length (uc_buffer uc'))" "length (uc_buffer uc') \<le> uc_size uc'"
    "pend uc @ buffer = write_size (uc_size uc') @ uc_buffer uc' @ buffer'"
proof (cases "uc_read uc < 0")
  case True
  then have h: "uc_read uc = - 1" "uc_header uc < 256" using assms(1) by (auto simp: uc_ok_def)
  obtain b bs where b: "buffer = b # bs" using assms(2) by (cases buffer) auto
  have "unat b < 256" using unsigned_less [of b] by simp
  then have "(unat b + 256 * uc_header uc) div 256 = uc_header uc" "unat b + 256 * uc_header uc < 65536" using h(2) by simp_all
  moreover have "(of_nat (unat b + 256 * uc_header uc) :: u8) = b"
  proof -
    have "(of_nat (unat b + 256 * uc_header uc) :: u8) = of_nat (unat b) + 256 * of_nat (uc_header uc)" by simp
    moreover have "(256 :: u8) = 0" by (simp add: word_uint_eq_iff)
    ultimately show ?thesis by (simp only: mult_zero_left add_0_right) simp
  qed
  ultimately show ?thesis
    using that [of "uc\<lparr>uc_size := unat b + 256 * uc_header uc, uc_buffer := [], uc_read := 0\<rparr>" bs] h b
    by (simp add: pend_def write_size_def cassert_def)
next
  case False
  then show ?thesis using that [of uc buffer] assms(1) by (auto simp: uc_ok_def pend_def)
qed

text \<open>
  One chunk: the packets it completes are delivered, a single one directly, several through the
  ring, and the rest waits.
\<close>

declare fill_header.simps [simp del]

lemma without_yields: "without fd q0 q \<Longrightarrow> yields fd q0 [] [] q"
  by (simp add: without_def yields_def)

text \<open>What a chunk of connection \<open>fd\<close> gives when the stream it extends is cut into \<open>F\<close>.\<close>

definition filtered :: "int \<Rightarrow> queue option \<Rightarrow> bytes list \<times> bytes \<Rightarrow> netevent \<times> queue option \<Rightarrow> bool" where
  "filtered fd q F r \<longleftrightarrow>
    (fst r = More \<and> yields fd q (fst F) (snd F) (snd r) \<or>
     fst r = Nothing \<and> fst F = [] \<and> yields fd q [] (snd F) (snd r) \<or>
     (\<exists>f. fst r = Data fd f \<and> F = ([f], []) \<and> yields fd q [] [] (snd r)))"

lemma push_rest:
  assumes "without fd q q1" "rest \<noteq> []"
  obtains q' where "push_more fd rest (Some (push_data fd pack q1)) = Inr q'"
    "filtered fd q (pack # fst (frames rest), snd (frames rest)) (More, Some q')"
proof -
  note pd = push_data_ok [OF assms(1), of pack]
  obtain q' where q': "push_more fd rest (Some (push_data fd pack q1)) = Inr q'"
    "yields fd (Some (push_data fd pack q1)) (fst (frames rest)) (snd (frames rest)) (Some q')"
    using push_more_ok [OF pd(2) assms(2)] by blast
  then show ?thesis using that [OF q'(1)] yields_trans [OF pd(1) q'(2)] by (simp add: filtered_def)
qed

lemma filter_unfinished:
  assumes fu: "find_uncomplete q fd = (Some uc, q1)" "without fd q q1" and uc: "pending q fd = pend uc" "uc_ok uc" "uc_id uc = fd"
    and ne: "buffer \<noteq> []"
  shows "\<exists>r. filter_data fd buffer q = Inr r \<and> filtered fd q (frames (pending q fd @ buffer)) r"
proof -
  obtain uc' buf where h: "fill_header uc buffer = Inr (uc', buf)" "uc_id uc' = uc_id uc" "uc_size uc' < 65536"
    "uc_read uc' = int (length (uc_buffer uc'))" "length (uc_buffer uc') \<le> uc_size uc'"
    "pend uc @ buffer = write_size (uc_size uc') @ uc_buffer uc' @ buf"
    using fill_header_ok [OF uc(2) ne] by blast
  let ?need = "uc_size uc' - length (uc_buffer uc')" and ?F = "frames (pending q fd @ buffer)"
  have F: "?F = frames (write_size (uc_size uc') @ uc_buffer uc' @ buf)" using uc(1) h(6) by simp
  have need: "int (length buf) < int (uc_size uc') - uc_read uc' \<longleftrightarrow> length buf < ?need"
    "nat (int (uc_size uc') - uc_read uc') = ?need" using h(4,5) by auto
  show ?thesis
  proof (cases "length buf < ?need")
    case True
    let ?uc = "uc'\<lparr>uc_buffer := uc_buffer uc' @ buf, uc_read := uc_read uc' + int (length buf)\<rparr>"
    have "uc_ok ?uc" "uc_id ?uc = fd" "pend ?uc = write_size (uc_size uc') @ uc_buffer uc' @ buf"
      using True h(2-5) uc(3) by (auto simp: uc_ok_def pend_def)
    moreover have "?F = ([], write_size (uc_size uc') @ uc_buffer uc' @ buf)"
      unfolding F using True frames_whole [OF h(3), of "uc_buffer uc' @ buf"] by simp
    moreover have "filter_data fd buffer q = Inr (Nothing, Some (save_uncomplete ?uc q1))"
      using True fu(1) h(1) need by (simp add: filter_data_def Let_def)
    ultimately show ?thesis using save_ok [OF fu(2), of ?uc] by (simp add: filtered_def)
  next
    case False
    let ?pack = "uc_buffer uc' @ take ?need buf" and ?rest = "drop ?need buf"
    have FF: "?F = (?pack # fst (frames ?rest), snd (frames ?rest))"
      unfolding F using False frames_whole [OF h(3), of "uc_buffer uc' @ buf"] h(5) by simp
    have unf: "filter_data fd buffer q = (if ?rest = [] then Inr (Data fd ?pack, q1)
        else rbind (push_more fd ?rest (Some (push_data fd ?pack q1))) (\<lambda>q. Inr (More, Some q)))"
      using False fu(1) h(1) need by (simp add: filter_data_def Let_def)
    show ?thesis
    proof (cases "?rest = []")
      case True
      then show ?thesis using unf FF without_yields [OF fu(2)] by (simp add: frames_short filtered_def)
    next
      case rest: False
      then show ?thesis unfolding FF using unf push_rest [OF fu(2) rest, of ?pack] by (metis rbind_simps(2))
    qed
  qed
qed

lemma filter_fresh:
  assumes fu: "find_uncomplete q fd = (None, q1)" "without fd q q1" and ne: "buffer \<noteq> []"
  shows "\<exists>r. filter_data fd buffer q = Inr r \<and> filtered fd q (frames buffer) r"
proof (cases "length buffer = 1")
  case True
  then obtain b where b: "buffer = [b]" by (cases buffer) auto
  then show ?thesis using save_ok [OF fu(2) pend_half(2,3) [of fd b]] pend_half(1) [of fd b] fu(1)
    by (simp add: filter_data_def frames_short filtered_def)
next
  case more: False
  then have "2 \<le> length buffer" using ne by (cases buffer) (auto simp: Suc_le_eq)
  then obtain n where n: "read_size buffer = Inr n" using read_size_ok by blast
  show ?thesis
  proof (cases "length (drop 2 buffer) < n")
    case True
    then show ?thesis
      using more n fu(1) save_ok [OF fu(2) pend_partial(2,3) [OF n True, of fd]] pend_partial(1) [OF n True, of fd] frames_partial [OF n True]
      by (simp add: filter_data_def Let_def filtered_def)
  next
    case False
    let ?pack = "take n (drop 2 buffer)" and ?rest = "drop n (drop 2 buffer)"
    have F: "frames buffer = (?pack # fst (frames ?rest), snd (frames ?rest))"
      by (rule frames_step [OF n False [unfolded not_less]])
    show ?thesis
    proof (cases "?rest = []")
      case True
      then have "length (drop 2 buffer) = n" using False by simp
      then show ?thesis using F True more n fu(1) without_yields [OF fu(2)]
        by (simp add: filter_data_def Let_def frames_short filtered_def)
    next
      case rest: False
      have "filter_data fd buffer q = rbind (push_more fd ?rest (Some (push_data fd ?pack q1))) (\<lambda>q. Inr (More, Some q))"
        using rest False more n fu(1) by (simp add: filter_data_def Let_def) auto
      then show ?thesis unfolding F using push_rest [OF fu(2) rest, of ?pack] by (metis rbind_simps(2))
    qed
  qed
qed

lemma filter_data_ok:
  fixes fd :: int
  assumes ok: "queue_ok q" and ne: "buffer \<noteq> []"
  defines "F \<equiv> frames (pending q fd @ buffer)"
  shows "\<exists>ev q'. filter_data fd buffer q = Inr (ev, q') \<and>
    (ev = More \<and> yields fd q (fst F) (snd F) q' \<or>
     ev = Nothing \<and> fst F = [] \<and> yields fd q [] (snd F) q' \<or>
     (\<exists>f. ev = Data fd f \<and> F = ([f], []) \<and> yields fd q [] [] q'))"
proof (cases "find_uncomplete q fd")
  case (Pair r q1)
  note fu = find_uncomplete_ok [OF ok Pair]
  have "\<exists>r. filter_data fd buffer q = Inr r \<and> filtered fd q F r"
    using filter_unfinished [OF _ fu(1) _ _ _ ne] filter_fresh [OF _ fu(1) ne] fu(2) Pair
    unfolding F_def by (cases r) simp_all
  then show ?thesis unfolding filtered_def by (metis prod.collapse)
qed

section \<open>A client\<close>

text \<open>
  What the Lua side does: a packet returned directly is handled at once, and after a \<open>More\<close> the
  ring is popped until it is empty. The result are the packets in the order they are handled.
\<close>

definition drain :: "queue option \<Rightarrow> netpack list \<times> queue option" where
  "drain q =
     (case q of
        None \<Rightarrow> ([], None)
      | Some q \<Rightarrow> (let (out, q) = fifo_drain lpop (Suc (ring_len (q_cap q) (q_head q) (q_tail q))) q in (out, Some q)))"

fun gate_run :: "(int \<times> bytes) list \<Rightarrow> queue option \<Rightarrow> (netpack list \<times> queue option) result" where
  "gate_run [] q = Inr ([], q)"
| "gate_run ((fd, chunk) # chunks) q =
     rbind (filter_data fd chunk q) (\<lambda>(ev, q).
     let (out, q) = (case ev of Data fd f \<Rightarrow> ([\<lparr>np_id = fd, np_buffer = f\<rparr>], q) | More \<Rightarrow> drain q | _ \<Rightarrow> ([], q))
     in rbind (gate_run chunks q) (\<lambda>(out', q). Inr (out @ out', q)))"

lemma lpop_hash: "q_hash (snd (lpop q)) = q_hash q"
  by (simp add: lpop_def)

lemma drain_hash: "q_hash (snd (fifo_drain lpop n q)) = q_hash q"
proof (induction n arbitrary: q)
  case (Suc n)
  then show ?case using lpop_hash [of q] by (auto split: prod.splits option.splits) (metis snd_conv)+
qed simp

lemma drain_ok:
  assumes "queue_ok q"
  obtains q' where "drain q = (queued q, q')" "queue_ok q'" "queued q' = []" "\<And>fd. pending q' fd = pending q fd"
proof (cases q)
  case None
  then show ?thesis using that [of None] assms by (simp add: drain_def queued_def)
next
  case (Some q0)
  let ?n = "Suc (ring_len (q_cap q0) (q_head q0) (q_tail q0))"
  obtain out q1 where d: "fifo_drain lpop ?n q0 = (out, q1)" by fastforce
  have wf: "ring_wf q0" using assms Some by (simp add: queue_ok_def)
  have "length (contents q0) < ?n" by (simp add: contents_def)
  note a = netpack.drain_all [OF wf this]
  have h: "q_hash q1 = q_hash q0" using drain_hash [of ?n q0] d by simp
  show ?thesis
  proof (rule that [of "Some q1"])
    show "drain q = (queued q, Some q1)" using a d Some by (simp add: drain_def queued_def)
    show "queue_ok (Some q1)" using a d h assms Some by (simp add: queue_ok_def)
    show "queued (Some q1) = []" using a d by (simp add: queued_def)
    show "pending (Some q1) fd = pending q fd" for fd using h Some by (simp add: pending_def)
  qed
qed

definition chunks_of :: "int \<Rightarrow> (int \<times> bytes) list \<Rightarrow> bytes" where
  "chunks_of fd chunks = concat (map snd (filter (\<lambda>c. fst c = fd) chunks))"

definition packets_of :: "int \<Rightarrow> netpack list \<Rightarrow> bytes list" where
  "packets_of fd ps = map np_buffer (filter (\<lambda>p. np_id p = fd) ps)"

lemma packets_of_simps [simp]:
  "packets_of fd [] = []" "packets_of fd (xs @ ys) = packets_of fd xs @ packets_of fd ys"
  "packets_of fd (map (\<lambda>f. \<lparr>np_id = fd', np_buffer = f\<rparr>) fs) = (if fd = fd' then fs else [])"
  "packets_of fd [\<lparr>np_id = fd', np_buffer = f\<rparr>] = (if fd = fd' then [f] else [])"
  by (auto simp: packets_of_def comp_def filter_empty_conv)

lemma chunks_of_Cons: "chunks_of fd ((fd', c) # cs) = (if fd = fd' then c @ chunks_of fd cs else chunks_of fd cs)"
  by (simp add: chunks_of_def)

text \<open>One round of the client.\<close>

lemma gate_step:
  assumes ok: "queue_ok q" "queued q = []" and ne: "chunk \<noteq> []"
  obtains ev q1 out q2 where "filter_data fd chunk q = Inr (ev, q1)"
    "(case ev of Data fd f \<Rightarrow> ([\<lparr>np_id = fd, np_buffer = f\<rparr>], q1) | More \<Rightarrow> drain q1 | _ \<Rightarrow> ([], q1)) = (out, q2)"
    "queue_ok q2" "queued q2 = []" "out = map (\<lambda>f. \<lparr>np_id = fd, np_buffer = f\<rparr>) (fst (frames (pending q fd @ chunk)))"
    "pending q2 fd = snd (frames (pending q fd @ chunk))" "\<And>fd'. fd' \<noteq> fd \<Longrightarrow> pending q2 fd' = pending q fd'"
proof -
  let ?F = "frames (pending q fd @ chunk)"
  obtain ev q1 where f: "filter_data fd chunk q = Inr (ev, q1)" "ev = More \<and> yields fd q (fst ?F) (snd ?F) q1 \<or>
     ev = Nothing \<and> fst ?F = [] \<and> yields fd q [] (snd ?F) q1 \<or> (\<exists>f. ev = Data fd f \<and> ?F = ([f], []) \<and> yields fd q [] [] q1)"
    using filter_data_ok [OF ok(1) ne, of fd] by blast
  from f(2) consider "ev = More" "yields fd q (fst ?F) (snd ?F) q1" | "ev = Nothing" "fst ?F = []" "yields fd q [] (snd ?F) q1"
    | f where "ev = Data fd f" "?F = ([f], [])" "yields fd q [] [] q1" by blast
  then show ?thesis
  proof cases
    case 1
    then have ok1: "queue_ok q1" by (simp add: yields_def)
    obtain q2 where d: "drain q1 = (queued q1, q2)" "queue_ok q2" "queued q2 = []" "\<And>fd. pending q2 fd = pending q1 fd"
      using drain_ok [OF ok1] by blast
    show ?thesis by (rule that [OF f(1), of "queued q1" q2]) (use 1 d ok(2) in \<open>simp_all add: yields_def\<close>)
  next
    case 2
    show ?thesis by (rule that [OF f(1), of "[]" q1]) (use 2 ok(2) in \<open>simp_all add: yields_def\<close>)
  next
    case 3
    show ?thesis by (rule that [OF f(1), of "[\<lparr>np_id = fd, np_buffer = f\<rparr>]" q1]) (use 3 ok(2) in \<open>simp_all add: yields_def\<close>)
  qed
qed

lemma frames_pend: "uc_ok uc \<Longrightarrow> frames (pend uc) = ([], pend uc)"
  by (auto simp: uc_ok_def pend_def frames_short frames_whole)

lemma frames_pending:
  assumes "queue_ok q"
  shows "frames (pending q fd) = ([], pending q fd)"
proof -
  have "pending q fd = [] \<or> (\<exists>uc. uc_ok uc \<and> pending q fd = pend uc)"
  proof (cases q)
    case (Some q0)
    let ?f = "find (\<lambda>u. uc_id u = fd) (q_hash q0 (hash_fd fd))"
    show ?thesis
    proof (cases ?f)
      case (Some u)
      then have "u \<in> set (q_hash q0 (hash_fd fd))" by (auto simp: find_Some_iff)
      then have "uc_ok u" using assms \<open>q = Some q0\<close> by (simp add: queue_ok_def)
      then show ?thesis using Some \<open>q = Some q0\<close> by (auto simp: pending_def pending_in_def)
    qed (simp add: pending_def pending_in_def Some)
  qed (simp add: pending_def)
  then show ?thesis using frames_pend by (auto simp: frames_short)
qed

lemma gate_run_ok:
  assumes "queue_ok q" "queued q = []" "\<forall>c \<in> set chunks. snd c \<noteq> []"
  shows "\<exists>out q'. gate_run chunks q = Inr (out, q') \<and>
    (\<forall>fd. packets_of fd out = fst (frames (pending q fd @ chunks_of fd chunks)) \<and>
          pending q' fd = snd (frames (pending q fd @ chunks_of fd chunks)))"
  using assms
proof (induction chunks arbitrary: q)
  case Nil
  then show ?case using frames_pending by (simp add: chunks_of_def)
next
  case (Cons c chunks)
  obtain fd chunk where c: "c = (fd, chunk)" by (cases c)
  have ne: "chunk \<noteq> []" using Cons.prems(3) c by simp
  obtain ev q1 out q2 where s: "filter_data fd chunk q = Inr (ev, q1)"
    "(case ev of Data fd f \<Rightarrow> ([\<lparr>np_id = fd, np_buffer = f\<rparr>], q1) | More \<Rightarrow> drain q1 | _ \<Rightarrow> ([], q1)) = (out, q2)"
    "queue_ok q2" "queued q2 = []" "out = map (\<lambda>f. \<lparr>np_id = fd, np_buffer = f\<rparr>) (fst (frames (pending q fd @ chunk)))"
    "pending q2 fd = snd (frames (pending q fd @ chunk))" "\<And>fd'. fd' \<noteq> fd \<Longrightarrow> pending q2 fd' = pending q fd'"
    using gate_step [OF Cons.prems(1,2) ne, of fd] by blast
  obtain out' q' where r: "gate_run chunks q2 = Inr (out', q')"
    "\<forall>fd. packets_of fd out' = fst (frames (pending q2 fd @ chunks_of fd chunks)) \<and>
          pending q' fd = snd (frames (pending q2 fd @ chunks_of fd chunks))"
    using Cons.IH [OF s(3,4)] Cons.prems(3) by auto
  have "gate_run (c # chunks) q = Inr (out @ out', q')" using c s(1,2) r(1) by simp
  moreover have "packets_of fd' (out @ out') = fst (frames (pending q fd' @ chunks_of fd' (c # chunks))) \<and>
      pending q' fd' = snd (frames (pending q fd' @ chunks_of fd' (c # chunks)))" for fd'
  proof (cases "fd' = fd")
    case True
    then show ?thesis
      using r(2) s(5,6) frames_append [of "pending q fd @ chunk" "chunks_of fd chunks"] c by (simp add: chunks_of_Cons)
  next
    case False
    then show ?thesis using r(2) s(5) s(7) [OF False] c by (simp add: chunks_of_Cons)
  qed
  ultimately show ?case by blast
qed

lemma gate_run_new:
  assumes "\<forall>c \<in> set chunks. snd c \<noteq> []"
  shows "\<exists>out q. gate_run chunks None = Inr (out, q) \<and>
    (\<forall>fd. packets_of fd out = fst (frames (chunks_of fd chunks)) \<and> pending q fd = snd (frames (chunks_of fd chunks)))"
proof -
  have "queue_ok None" "queued None = []" "pending None fd = []" for fd by (simp_all add: queue_ok_def queued_def pending_def)
  then show ?thesis using gate_run_ok [of None chunks] assms by simp
qed

section \<open>Properties\<close>

text \<open>
  C23: Reassembly: however the bytes of any number of connections are cut into chunks and
  interleaved, a client that handles a packet returned directly at once and empties the ring
  after \<open>More\<close> gets, for each connection, exactly the packets of its byte stream, in order, and
  what waits for it is the incomplete rest. No access is out of bounds and no assertion fails.
\<close>

theorem netpack_reassembles:
  assumes "\<forall>c \<in> set chunks. snd c \<noteq> []"
  shows "\<exists>out q. gate_run chunks None = Inr (out, q) \<and>
    (\<forall>fd. packets_of fd out = fst (frames (chunks_of fd chunks)) \<and> pending q fd = snd (frames (chunks_of fd chunks)))"
  by (rule gate_run_new [OF assms])

theorem netpack_reassembles_witness:
  "\<exists>out q. gate_run [(5, [0]), (6, [0, 1, 9]), (5, [2, 104, 105, 0, 0, 0])] None = Inr (out, q) \<and>
    packets_of 5 out = [[104, 105], []] \<and> packets_of 6 out = [[9]] \<and> pending q 5 = [0]"
proof -
  have f: "frames [0, 2, 104, 105, 0, 0, 0] = ([[104, 105], []], [0])" "frames [0, 1, 9] = ([[9]], [])"
    by (subst frames.simps, simp, subst frames.simps, simp)+
      (simp_all add: frames_short)
  show ?thesis
    using netpack_reassembles [of "[(5, [0]), (6, [0, 1, 9]), (5, [2, 104, 105, 0, 0, 0])]"] f
    by (auto simp: chunks_of_Cons) (auto simp: chunks_of_def)
qed

lemma frames_packed:
  assumes "\<forall>d \<in> set ds. length d < 0x10000"
  shows "frames (concat (map (\<lambda>d. write_size (length d) @ d) ds)) = (ds, [])"
  using assms
proof (induction ds)
  case (Cons d ds)
  then show ?case using frames_whole [of "length d" "d @ concat (map (\<lambda>d. write_size (length d) @ d) ds)"] by simp
qed (simp add: frames_short)

text \<open>
  C24: Packing and filtering are inverse: what \<^verbatim>\<open>lpack\<close> makes of packets shorter than 64 KiB
  (longer ones it refuses), sent over one connection in chunks of any size, comes out as those
  packets.
\<close>

theorem netpack_round_trip:
  assumes "those (map lpack ds) = Some packed" "concat chunks = concat packed" "[] \<notin> set chunks"
  shows "\<exists>out q. gate_run (map (Pair fd) chunks) None = Inr (out, q) \<and> packets_of fd out = ds"
proof -
  have "(\<forall>d \<in> set ds. length d < 0x10000) \<and> packed = map (\<lambda>d. write_size (length d) @ d) ds"
    using assms(1)
  proof (induction ds arbitrary: packed)
    case (Cons d ds)
    then show ?case by (auto simp: lpack_def split: if_splits option.splits)
  qed simp
  then have f: "frames (concat chunks) = (ds, [])" using frames_packed assms(2) by simp
  have "chunks_of fd (map (Pair fd) chunks) = concat chunks" by (simp add: chunks_of_def comp_def)
  moreover have "\<forall>c \<in> set (map (Pair fd) chunks). snd c \<noteq> []" using assms(3) by auto
  ultimately show ?thesis using gate_run_new [of "map (Pair fd) chunks"] f by (metis fst_conv)
qed

theorem netpack_round_trip_witness:
  "\<exists>out q. gate_run (map (Pair 7) [[0], [1, 65, 0], [2, 66, 67]]) None = Inr (out, q) \<and> packets_of 7 out = [[65], [66, 67]]"
  by (rule netpack_round_trip [of "[[65], [66, 67]]" "[[0, 1, 65], [0, 2, 66, 67]]"]) (simp_all add: lpack_def write_size_def)

end
