(* ===== verification/Des.thy ===== *)
theory Des
  imports Bytes
begin

text \<open>
  DES as \<^verbatim>\<open>lua-crypt.c\<close> computes it: tables, key schedule, the block cipher, the two paddings, and
  the encryption and decryption of a text by blocks. Words are 32 bits wide; a key schedule is
  the list of its 32 words. The main facts are that decryption with the reversed schedule
  inverts the block cipher and that decryption of a text gives the text back.
\<close>

text \<open>A call from Lua ends in a Lua error with its message, or runs into a fault of C.\<close>

datatype lua_fail = Raise string | CFault fault

definition lbind :: "lua_fail + 'a \<Rightarrow> ('a \<Rightarrow> lua_fail + 'b) \<Rightarrow> lua_fail + 'b" where
  "lbind r f = (case r of Inl e \<Rightarrow> Inl e | Inr x \<Rightarrow> f x)"

lemma lbind_simps [simp]: "lbind (Inl e) f = Inl e" "lbind (Inr x) f = f x"
  by (simp_all add: lbind_def)

definition PADDING_MODE_ISO7816_4 :: int where "PADDING_MODE_ISO7816_4 = 0"
definition PADDING_MODE_PKCS7 :: int where "PADDING_MODE_PKCS7 = 1"
definition PADDING_MODE_COUNT :: int where "PADDING_MODE_COUNT = 2"

section \<open>Tables\<close>

definition SB1 :: "u32 list" where
  "SB1 = [
     0x01010400, 0x00000000, 0x00010000, 0x01010404, 0x01010004, 0x00010404, 0x00000004, 0x00010000,
     0x00000400, 0x01010400, 0x01010404, 0x00000400, 0x01000404, 0x01010004, 0x01000000, 0x00000004,
     0x00000404, 0x01000400, 0x01000400, 0x00010400, 0x00010400, 0x01010000, 0x01010000, 0x01000404,
     0x00010004, 0x01000004, 0x01000004, 0x00010004, 0x00000000, 0x00000404, 0x00010404, 0x01000000,
     0x00010000, 0x01010404, 0x00000004, 0x01010000, 0x01010400, 0x01000000, 0x01000000, 0x00000400,
     0x01010004, 0x00010000, 0x00010400, 0x01000004, 0x00000400, 0x00000004, 0x01000404, 0x00010404,
     0x01010404, 0x00010004, 0x01010000, 0x01000404, 0x01000004, 0x00000404, 0x00010404, 0x01010400,
     0x00000404, 0x01000400, 0x01000400, 0x00000000, 0x00010004, 0x00010400, 0x00000000, 0x01010004]"

definition SB2 :: "u32 list" where
  "SB2 = [
     0x80108020, 0x80008000, 0x00008000, 0x00108020, 0x00100000, 0x00000020, 0x80100020, 0x80008020,
     0x80000020, 0x80108020, 0x80108000, 0x80000000, 0x80008000, 0x00100000, 0x00000020, 0x80100020,
     0x00108000, 0x00100020, 0x80008020, 0x00000000, 0x80000000, 0x00008000, 0x00108020, 0x80100000,
     0x00100020, 0x80000020, 0x00000000, 0x00108000, 0x00008020, 0x80108000, 0x80100000, 0x00008020,
     0x00000000, 0x00108020, 0x80100020, 0x00100000, 0x80008020, 0x80100000, 0x80108000, 0x00008000,
     0x80100000, 0x80008000, 0x00000020, 0x80108020, 0x00108020, 0x00000020, 0x00008000, 0x80000000,
     0x00008020, 0x80108000, 0x00100000, 0x80000020, 0x00100020, 0x80008020, 0x80000020, 0x00100020,
     0x00108000, 0x00000000, 0x80008000, 0x00008020, 0x80000000, 0x80100020, 0x80108020, 0x00108000]"

definition SB3 :: "u32 list" where
  "SB3 = [
     0x00000208, 0x08020200, 0x00000000, 0x08020008, 0x08000200, 0x00000000, 0x00020208, 0x08000200,
     0x00020008, 0x08000008, 0x08000008, 0x00020000, 0x08020208, 0x00020008, 0x08020000, 0x00000208,
     0x08000000, 0x00000008, 0x08020200, 0x00000200, 0x00020200, 0x08020000, 0x08020008, 0x00020208,
     0x08000208, 0x00020200, 0x00020000, 0x08000208, 0x00000008, 0x08020208, 0x00000200, 0x08000000,
     0x08020200, 0x08000000, 0x00020008, 0x00000208, 0x00020000, 0x08020200, 0x08000200, 0x00000000,
     0x00000200, 0x00020008, 0x08020208, 0x08000200, 0x08000008, 0x00000200, 0x00000000, 0x08020008,
     0x08000208, 0x00020000, 0x08000000, 0x08020208, 0x00000008, 0x00020208, 0x00020200, 0x08000008,
     0x08020000, 0x08000208, 0x00000208, 0x08020000, 0x00020208, 0x00000008, 0x08020008, 0x00020200]"

definition SB4 :: "u32 list" where
  "SB4 = [
     0x00802001, 0x00002081, 0x00002081, 0x00000080, 0x00802080, 0x00800081, 0x00800001, 0x00002001,
     0x00000000, 0x00802000, 0x00802000, 0x00802081, 0x00000081, 0x00000000, 0x00800080, 0x00800001,
     0x00000001, 0x00002000, 0x00800000, 0x00802001, 0x00000080, 0x00800000, 0x00002001, 0x00002080,
     0x00800081, 0x00000001, 0x00002080, 0x00800080, 0x00002000, 0x00802080, 0x00802081, 0x00000081,
     0x00800080, 0x00800001, 0x00802000, 0x00802081, 0x00000081, 0x00000000, 0x00000000, 0x00802000,
     0x00002080, 0x00800080, 0x00800081, 0x00000001, 0x00802001, 0x00002081, 0x00002081, 0x00000080,
     0x00802081, 0x00000081, 0x00000001, 0x00002000, 0x00800001, 0x00002001, 0x00802080, 0x00800081,
     0x00002001, 0x00002080, 0x00800000, 0x00802001, 0x00000080, 0x00800000, 0x00002000, 0x00802080]"

definition SB5 :: "u32 list" where
  "SB5 = [
     0x00000100, 0x02080100, 0x02080000, 0x42000100, 0x00080000, 0x00000100, 0x40000000, 0x02080000,
     0x40080100, 0x00080000, 0x02000100, 0x40080100, 0x42000100, 0x42080000, 0x00080100, 0x40000000,
     0x02000000, 0x40080000, 0x40080000, 0x00000000, 0x40000100, 0x42080100, 0x42080100, 0x02000100,
     0x42080000, 0x40000100, 0x00000000, 0x42000000, 0x02080100, 0x02000000, 0x42000000, 0x00080100,
     0x00080000, 0x42000100, 0x00000100, 0x02000000, 0x40000000, 0x02080000, 0x42000100, 0x40080100,
     0x02000100, 0x40000000, 0x42080000, 0x02080100, 0x40080100, 0x00000100, 0x02000000, 0x42080000,
     0x42080100, 0x00080100, 0x42000000, 0x42080100, 0x02080000, 0x00000000, 0x40080000, 0x42000000,
     0x00080100, 0x02000100, 0x40000100, 0x00080000, 0x00000000, 0x40080000, 0x02080100, 0x40000100]"

definition SB6 :: "u32 list" where
  "SB6 = [
     0x20000010, 0x20400000, 0x00004000, 0x20404010, 0x20400000, 0x00000010, 0x20404010, 0x00400000,
     0x20004000, 0x00404010, 0x00400000, 0x20000010, 0x00400010, 0x20004000, 0x20000000, 0x00004010,
     0x00000000, 0x00400010, 0x20004010, 0x00004000, 0x00404000, 0x20004010, 0x00000010, 0x20400010,
     0x20400010, 0x00000000, 0x00404010, 0x20404000, 0x00004010, 0x00404000, 0x20404000, 0x20000000,
     0x20004000, 0x00000010, 0x20400010, 0x00404000, 0x20404010, 0x00400000, 0x00004010, 0x20000010,
     0x00400000, 0x20004000, 0x20000000, 0x00004010, 0x20000010, 0x20404010, 0x00404000, 0x20400000,
     0x00404010, 0x20404000, 0x00000000, 0x20400010, 0x00000010, 0x00004000, 0x20400000, 0x00404010,
     0x00004000, 0x00400010, 0x20004010, 0x00000000, 0x20404000, 0x20000000, 0x00400010, 0x20004010]"

definition SB7 :: "u32 list" where
  "SB7 = [
     0x00200000, 0x04200002, 0x04000802, 0x00000000, 0x00000800, 0x04000802, 0x00200802, 0x04200800,
     0x04200802, 0x00200000, 0x00000000, 0x04000002, 0x00000002, 0x04000000, 0x04200002, 0x00000802,
     0x04000800, 0x00200802, 0x00200002, 0x04000800, 0x04000002, 0x04200000, 0x04200800, 0x00200002,
     0x04200000, 0x00000800, 0x00000802, 0x04200802, 0x00200800, 0x00000002, 0x04000000, 0x00200800,
     0x04000000, 0x00200800, 0x00200000, 0x04000802, 0x04000802, 0x04200002, 0x04200002, 0x00000002,
     0x00200002, 0x04000000, 0x04000800, 0x00200000, 0x04200800, 0x00000802, 0x00200802, 0x04200800,
     0x00000802, 0x04000002, 0x04200802, 0x04200000, 0x00200800, 0x00000000, 0x00000002, 0x04200802,
     0x00000000, 0x00200802, 0x04200000, 0x00000800, 0x04000002, 0x04000800, 0x00000800, 0x00200002]"

definition SB8 :: "u32 list" where
  "SB8 = [
     0x10001040, 0x00001000, 0x00040000, 0x10041040, 0x10000000, 0x10001040, 0x00000040, 0x10000000,
     0x00040040, 0x10040000, 0x10041040, 0x00041000, 0x10041000, 0x00041040, 0x00001000, 0x00000040,
     0x10040000, 0x10000040, 0x10001000, 0x00001040, 0x00041000, 0x00040040, 0x10040040, 0x10041000,
     0x00001040, 0x00000000, 0x00000000, 0x10040040, 0x10000040, 0x10001000, 0x00041040, 0x00040000,
     0x00041040, 0x00040000, 0x10041000, 0x00001000, 0x00000040, 0x10040040, 0x00001000, 0x00041040,
     0x10001000, 0x00000040, 0x10000040, 0x10040000, 0x10040040, 0x10000000, 0x00040000, 0x10001040,
     0x00000000, 0x10041040, 0x00040040, 0x10000040, 0x10040000, 0x10001000, 0x10001040, 0x00000000,
     0x10041040, 0x00041000, 0x00041000, 0x00001040, 0x00001040, 0x00040040, 0x10000000, 0x10041000]"

definition LHs :: "u32 list" where
  "LHs = [
     0x00000000, 0x00000001, 0x00000100, 0x00000101, 0x00010000, 0x00010001, 0x00010100, 0x00010101,
     0x01000000, 0x01000001, 0x01000100, 0x01000101, 0x01010000, 0x01010001, 0x01010100, 0x01010101]"

definition RHs :: "u32 list" where
  "RHs = [
     0x00000000, 0x01000000, 0x00010000, 0x01010000, 0x00000100, 0x01000100, 0x00010100, 0x01010100,
     0x00000001, 0x01000001, 0x00010001, 0x01010001, 0x00000101, 0x01000101, 0x00010101, 0x01010101]"

section \<open>The block cipher\<close>

text \<open>\<^verbatim>\<open>GET_UINT32\<close> reads four bytes of a buffer at \<open>i\<close>; \<^verbatim>\<open>PUT_UINT32\<close> gives the four bytes it stores.\<close>

definition GET_UINT32 :: "bytes \<Rightarrow> nat \<Rightarrow> u32" where
  "GET_UINT32 b i =
     push_bit 24 (ucast (b ! i)) OR push_bit 16 (ucast (b ! (i + 1))) OR push_bit 8 (ucast (b ! (i + 2))) OR ucast (b ! (i + 3))"

definition PUT_UINT32 :: "u32 \<Rightarrow> bytes" where
  "PUT_UINT32 n = [ucast (drop_bit 24 n), ucast (drop_bit 16 n), ucast (drop_bit 8 n), ucast n]"

text \<open>
  The line \<^verbatim>\<open>T = ((X >> n) ^ Y) & m; Y ^= T; X ^= (T << n)\<close> of the permutation macros, and the two
  rotations by one bit.
\<close>

definition des_swap :: "nat \<Rightarrow> u32 \<Rightarrow> u32 \<times> u32 \<Rightarrow> u32 \<times> u32" where
  "des_swap n m = (\<lambda>(X, Y). let T = (drop_bit n X XOR Y) AND m in (X XOR push_bit n T, Y XOR T))"

definition des_rotl :: "u32 \<Rightarrow> u32" where
  "des_rotl X = push_bit 1 X OR drop_bit 31 X"

definition des_rotr :: "u32 \<Rightarrow> u32" where
  "des_rotr X = push_bit 31 X OR drop_bit 1 X"

definition DES_IP :: "u32 \<times> u32 \<Rightarrow> u32 \<times> u32" where
  "DES_IP = (\<lambda>(X, Y).
     let (X, Y) = des_swap 4 0x0F0F0F0F (X, Y);
         (X, Y) = des_swap 16 0x0000FFFF (X, Y);
         (Y, X) = des_swap 2 0x33333333 (Y, X);
         (Y, X) = des_swap 8 0x00FF00FF (Y, X);
         Y = des_rotl Y;
         (X, Y) = des_swap 0 0xAAAAAAAA (X, Y);
         X = des_rotl X
     in (X, Y))"

definition DES_FP :: "u32 \<times> u32 \<Rightarrow> u32 \<times> u32" where
  "DES_FP = (\<lambda>(X, Y).
     let X = des_rotr X;
         (X, Y) = des_swap 0 0xAAAAAAAA (X, Y);
         Y = des_rotr Y;
         (Y, X) = des_swap 8 0x00FF00FF (Y, X);
         (Y, X) = des_swap 2 0x33333333 (Y, X);
         (X, Y) = des_swap 16 0x0000FFFF (X, Y);
         (X, Y) = des_swap 4 0x0F0F0F0F (X, Y)
     in (X, Y))"

text \<open>The value \<^verbatim>\<open>DES_ROUND(X,Y)\<close> leaves in \<open>Y\<close>, with the two words of the schedule it consumes.\<close>

definition DES_ROUND :: "u32 \<Rightarrow> u32 \<Rightarrow> u32 \<Rightarrow> u32 \<Rightarrow> u32" where
  "DES_ROUND k1 k2 X Y =
     (let T = k1 XOR X;
          Y = Y XOR (SB8 ! unat (T AND 0x3F) XOR SB6 ! unat (drop_bit 8 T AND 0x3F)
                XOR SB4 ! unat (drop_bit 16 T AND 0x3F) XOR SB2 ! unat (drop_bit 24 T AND 0x3F));
          T = k2 XOR (push_bit 28 X OR drop_bit 4 X)
      in Y XOR (SB7 ! unat (T AND 0x3F) XOR SB5 ! unat (drop_bit 8 T AND 0x3F)
                XOR SB3 ! unat (drop_bit 16 T AND 0x3F) XOR SB1 ! unat (drop_bit 24 T AND 0x3F)))"

text \<open>The sixteen rounds: \<^verbatim>\<open>DES_ROUND(Y,X); DES_ROUND(X,Y)\<close> for every four words of the schedule.\<close>

fun des_rounds :: "u32 list \<Rightarrow> u32 \<times> u32 \<Rightarrow> u32 \<times> u32" where
  "des_rounds (k1 # k2 # k3 # k4 # ks) (X, Y) =
     (let X = DES_ROUND k1 k2 Y X; Y = DES_ROUND k3 k4 X Y in des_rounds ks (X, Y))"
| "des_rounds _ XY = XY"

definition des_crypt :: "u32 list \<Rightarrow> bytes \<Rightarrow> bytes" where
  "des_crypt SK input =
     (let (X, Y) = DES_IP (GET_UINT32 input 0, GET_UINT32 input 4);
          (X, Y) = des_rounds SK (X, Y);
          (Y, X) = DES_FP (Y, X)
      in PUT_UINT32 Y @ PUT_UINT32 X)"

section \<open>The key schedule\<close>

text \<open>Permuted choice 1: the tables collect four bits at a time.\<close>

definition pc1_left :: "u32 \<Rightarrow> u32" where
  "pc1_left X =
     push_bit 3 (LHs ! unat (X AND 0xF)) OR push_bit 2 (LHs ! unat (drop_bit 8 X AND 0xF))
     OR push_bit 1 (LHs ! unat (drop_bit 16 X AND 0xF)) OR LHs ! unat (drop_bit 24 X AND 0xF)
     OR push_bit 7 (LHs ! unat (drop_bit 5 X AND 0xF)) OR push_bit 6 (LHs ! unat (drop_bit 13 X AND 0xF))
     OR push_bit 5 (LHs ! unat (drop_bit 21 X AND 0xF)) OR push_bit 4 (LHs ! unat (drop_bit 29 X AND 0xF))"

definition pc1_right :: "u32 \<Rightarrow> u32" where
  "pc1_right Y =
     push_bit 3 (RHs ! unat (drop_bit 1 Y AND 0xF)) OR push_bit 2 (RHs ! unat (drop_bit 9 Y AND 0xF))
     OR push_bit 1 (RHs ! unat (drop_bit 17 Y AND 0xF)) OR RHs ! unat (drop_bit 25 Y AND 0xF)
     OR push_bit 7 (RHs ! unat (drop_bit 4 Y AND 0xF)) OR push_bit 6 (RHs ! unat (drop_bit 12 Y AND 0xF))
     OR push_bit 5 (RHs ! unat (drop_bit 20 Y AND 0xF)) OR push_bit 4 (RHs ! unat (drop_bit 28 Y AND 0xF))"

definition des_pc1 :: "bytes \<Rightarrow> u32 \<times> u32" where
  "des_pc1 key =
     (let (Y, X) = des_swap 4 0x0F0F0F0F (GET_UINT32 key 4, GET_UINT32 key 0);
          (Y, X) = des_swap 0 0x10101010 (Y, X)
      in (pc1_left X AND 0x0FFFFFFF, pc1_right Y AND 0x0FFFFFFF))"

definition ks_rotate :: "nat \<Rightarrow> u32 \<Rightarrow> u32" where
  "ks_rotate i X =
     (if i < 2 \<or> i = 8 \<or> i = 15 then (push_bit 1 X OR drop_bit 27 X) AND 0x0FFFFFFF
      else (push_bit 2 X OR drop_bit 26 X) AND 0x0FFFFFFF)"

text \<open>Permuted choice 2: the two words a round stores.\<close>

definition ks_even :: "u32 \<Rightarrow> u32 \<Rightarrow> u32" where
  "ks_even X Y =
     (push_bit 4 X AND 0x24000000) OR (push_bit 28 X AND 0x10000000)
     OR (push_bit 14 X AND 0x08000000) OR (push_bit 18 X AND 0x02080000)
     OR (push_bit 6 X AND 0x01000000) OR (push_bit 9 X AND 0x00200000)
     OR (drop_bit 1 X AND 0x00100000) OR (push_bit 10 X AND 0x00040000)
     OR (push_bit 2 X AND 0x00020000) OR (drop_bit 10 X AND 0x00010000)
     OR (drop_bit 13 Y AND 0x00002000) OR (drop_bit 4 Y AND 0x00001000)
     OR (push_bit 6 Y AND 0x00000800) OR (drop_bit 1 Y AND 0x00000400)
     OR (drop_bit 14 Y AND 0x00000200) OR (Y AND 0x00000100)
     OR (drop_bit 5 Y AND 0x00000020) OR (drop_bit 10 Y AND 0x00000010)
     OR (drop_bit 3 Y AND 0x00000008) OR (drop_bit 18 Y AND 0x00000004)
     OR (drop_bit 26 Y AND 0x00000002) OR (drop_bit 24 Y AND 0x00000001)"

definition ks_odd :: "u32 \<Rightarrow> u32 \<Rightarrow> u32" where
  "ks_odd X Y =
     (push_bit 15 X AND 0x20000000) OR (push_bit 17 X AND 0x10000000)
     OR (push_bit 10 X AND 0x08000000) OR (push_bit 22 X AND 0x04000000)
     OR (drop_bit 2 X AND 0x02000000) OR (push_bit 1 X AND 0x01000000)
     OR (push_bit 16 X AND 0x00200000) OR (push_bit 11 X AND 0x00100000)
     OR (push_bit 3 X AND 0x00080000) OR (drop_bit 6 X AND 0x00040000)
     OR (push_bit 15 X AND 0x00020000) OR (drop_bit 4 X AND 0x00010000)
     OR (drop_bit 2 Y AND 0x00002000) OR (push_bit 8 Y AND 0x00001000)
     OR (drop_bit 14 Y AND 0x00000808) OR (drop_bit 9 Y AND 0x00000400)
     OR (Y AND 0x00000200) OR (push_bit 7 Y AND 0x00000100)
     OR (drop_bit 7 Y AND 0x00000020) OR (drop_bit 3 Y AND 0x00000011)
     OR (push_bit 2 Y AND 0x00000004) OR (drop_bit 21 Y AND 0x00000002)"

fun ks_loop :: "nat list \<Rightarrow> u32 \<times> u32 \<Rightarrow> u32 list" where
  "ks_loop [] XY = []"
| "ks_loop (i # is) (X, Y) =
     (let X = ks_rotate i X; Y = ks_rotate i Y in ks_even X Y # ks_odd X Y # ks_loop is (X, Y))"

definition des_main_ks :: "bytes \<Rightarrow> u32 list" where
  "des_main_ks key = ks_loop [0..<16] (des_pc1 key)"

section \<open>Padding\<close>

text \<open>The last block: the \<open>offset\<close> bytes that are left of the text and the padding.\<close>

definition padding_add_iso7816_4 :: "bytes \<Rightarrow> bytes" where
  "padding_add_iso7816_4 rst = rst @ 0x80 # replicate (7 - length rst) 0"

definition padding_add_pkcs7 :: "bytes \<Rightarrow> bytes" where
  "padding_add_pkcs7 rst = rst @ replicate (8 - length rst) (of_nat (8 - length rst))"

text \<open>
  Removal walks backwards from the last byte; the argument is the buffer in reverse. A step
  before the start of the buffer is a fault.
\<close>

fun iso_walk :: "nat \<Rightarrow> int \<Rightarrow> bytes \<Rightarrow> int result" where
  "iso_walk 0 padding lst = Inr 0"
| "iso_walk (Suc n) padding [] = Inl OutOfBounds"
| "iso_walk (Suc n) padding (c # lst) =
     (if c = 0 then iso_walk n (padding + 1) lst else if c = 0x80 then Inr padding else Inr 0)"

definition padding_remove_iso7816_4 :: "bytes \<Rightarrow> int result" where
  "padding_remove_iso7816_4 lst = iso_walk 8 1 lst"

fun pkcs_walk :: "nat \<Rightarrow> u8 \<Rightarrow> bytes \<Rightarrow> int result" where
  "pkcs_walk 0 padding lst = Inr (uint padding)"
| "pkcs_walk (Suc n) padding [] = Inl OutOfBounds"
| "pkcs_walk (Suc n) padding (c # lst) = (if c \<noteq> padding then Inr 0 else pkcs_walk n padding lst)"

fun padding_remove_pkcs7 :: "bytes \<Rightarrow> int result" where
  "padding_remove_pkcs7 [] = Inl OutOfBounds"
| "padding_remove_pkcs7 (padding # lst) = pkcs_walk (unat padding - 1) padding lst"

definition check_padding_mode :: "int \<Rightarrow> lua_fail + unit" where
  "check_padding_mode mode =
     (if mode < 0 \<or> mode \<ge> PADDING_MODE_COUNT then Inl (Raise ''Invalid padding mode'') else Inr ())"

definition add_padding :: "bytes \<Rightarrow> int \<Rightarrow> lua_fail + bytes" where
  "add_padding rst mode =
     lbind (check_padding_mode mode) (\<lambda>_.
     if length rst \<ge> 8 then Inl (Raise ''Invalid padding'')
     else Inr (if mode = PADDING_MODE_ISO7816_4 then padding_add_iso7816_4 rst else padding_add_pkcs7 rst))"

definition remove_padding :: "bytes \<Rightarrow> int \<Rightarrow> lua_fail + int" where
  "remove_padding lst mode =
     lbind (check_padding_mode mode) (\<lambda>_.
     case (if mode = PADDING_MODE_ISO7816_4 then padding_remove_iso7816_4 lst else padding_remove_pkcs7 lst) of
       Inl e \<Rightarrow> Inl (CFault e)
     | Inr p \<Rightarrow> Inr p)"

section \<open>Texts\<close>

definition des_key :: "bytes \<Rightarrow> lua_fail + u32 list" where
  "des_key key = (if length key \<noteq> 8 then Inl (Raise ''Invalid key size'') else Inr (des_main_ks key))"

text \<open>The loop over the whole blocks of a text, and what is left behind the last of them.\<close>

function des_blocks :: "u32 list \<Rightarrow> bytes \<Rightarrow> bytes \<times> bytes" where
  "des_blocks SK text =
     (if length text < 8 then ([], text)
      else (let (out, rst) = des_blocks SK (drop 8 text) in (des_crypt SK (take 8 text) @ out, rst)))"
  by auto
termination by (relation "measure (\<lambda>(SK, text). length text)") auto

declare des_blocks.simps [simp del]

text \<open>Texts are shorter than \<open>2 ^ 31\<close> bytes; \<^verbatim>\<open>textsz\<close> is compared as \<^verbatim>\<open>int\<close>.\<close>

definition ldesencode :: "bytes \<Rightarrow> bytes \<Rightarrow> int \<Rightarrow> lua_fail + bytes" where
  "ldesencode key text padding_mode =
     lbind (des_key key) (\<lambda>SK.
     let (buffer, rst) = des_blocks SK text in
     lbind (add_padding rst padding_mode) (\<lambda>tail.
     Inr (buffer @ des_crypt SK tail)))"

text \<open>\<^verbatim>\<open>SK[i] = ESK[30 - i]; SK[i + 1] = ESK[31 - i]\<close>.\<close>

definition reverse_ks :: "u32 list \<Rightarrow> u32 list" where
  "reverse_ks ESK = concat (map (\<lambda>i. [ESK ! (30 - 2 * i), ESK ! (31 - 2 * i)]) [0..<16])"

definition ldesdecode :: "bytes \<Rightarrow> bytes \<Rightarrow> int \<Rightarrow> lua_fail + bytes" where
  "ldesdecode key text padding_mode =
     lbind (des_key key) (\<lambda>ESK.
     let SK = reverse_ks ESK in
     if length text mod 8 \<noteq> 0 \<or> text = [] then Inl (Raise ''Invalid des crypt text length'')
     else
       (let buffer = fst (des_blocks SK text) in
        lbind (remove_padding (rev buffer) padding_mode) (\<lambda>padding.
        if padding \<le> 0 \<or> padding > 8 then Inl (Raise ''Invalid des crypt text'')
        else Inr (take (length text - nat padding) buffer))))"

section \<open>The block cipher is a permutation\<close>

lemma bit_u8 [simp]: "8 \<le> n \<Longrightarrow> \<not> bit (x :: u8) n"
  using bit_imp_le_length [of x n] by auto

lemma bytes_of_word: "PUT_UINT32 (GET_UINT32 [x0, x1, x2, x3] 0) = [x0, x1, x2, x3]"
  by (simp add: PUT_UINT32_def GET_UINT32_def) (auto intro!: bit_word_eqI simp: bit_simps)

lemma PUT_GET:
  assumes "length b = 8"
  shows "PUT_UINT32 (GET_UINT32 b 0) @ PUT_UINT32 (GET_UINT32 b 4) = b"
proof -
  obtain b0 b1 b2 b3 b4 b5 b6 b7 where b: "b = [b0, b1, b2, b3, b4, b5, b6, b7]"
    using assms by (auto simp: length_Suc_conv numeral_eq_Suc)
  have "GET_UINT32 b 0 = GET_UINT32 [b0, b1, b2, b3] 0" "GET_UINT32 b 4 = GET_UINT32 [b4, b5, b6, b7] 0"
    by (simp_all add: b GET_UINT32_def)
  then show ?thesis by (simp add: b bytes_of_word)
qed

lemma word_of_bytes: "GET_UINT32 (PUT_UINT32 x) 0 = x"
proof (rule bit_word_eqI)
  fix n :: nat
  assume "n < LENGTH(32)"
  then consider "n < 8" | "8 \<le> n \<and> n < 16" | "16 \<le> n \<and> n < 24" | "24 \<le> n \<and> n < 32" by fastforce
  then show "bit (GET_UINT32 (PUT_UINT32 x) 0) n = bit x n"
    by cases (auto simp: GET_UINT32_def PUT_UINT32_def bit_simps)
qed

lemma GET_PUT: "GET_UINT32 (PUT_UINT32 x @ PUT_UINT32 y) 0 = x" "GET_UINT32 (PUT_UINT32 x @ PUT_UINT32 y) 4 = y"
proof -
  have "GET_UINT32 (PUT_UINT32 x @ PUT_UINT32 y) 0 = GET_UINT32 (PUT_UINT32 x) 0"
    "GET_UINT32 (PUT_UINT32 x @ PUT_UINT32 y) 4 = GET_UINT32 (PUT_UINT32 y) 0"
    by (simp_all add: GET_UINT32_def PUT_UINT32_def)
  then show "GET_UINT32 (PUT_UINT32 x @ PUT_UINT32 y) 0 = x" "GET_UINT32 (PUT_UINT32 x @ PUT_UINT32 y) 4 = y"
    by (simp_all add: word_of_bytes)
qed

text \<open>A line of a permutation undoes itself if no bit of the mask is shifted out.\<close>

lemma des_swap_swap:
  assumes "drop_bit n (push_bit n m) = m"
  shows "des_swap n m (des_swap n m XY) = XY"
proof -
  obtain X Y where XY: "XY = (X, Y)" by fastforce
  define T where "T = (drop_bit n X XOR Y) AND m"
  have "drop_bit n (push_bit n T) = (drop_bit n X XOR Y) AND drop_bit n (push_bit n m)"
    by (rule bit_word_eqI) (auto simp: T_def bit_simps)
  then have "drop_bit n (push_bit n T) = T" using assms by (simp add: T_def)
  then have "(drop_bit n (X XOR push_bit n T) XOR (Y XOR T)) AND m = T"
    by (simp add: T_def drop_bit_xor xor.left_commute xor.commute)
  then have "des_swap n m (X XOR push_bit n T, Y XOR T) = (X XOR push_bit n T XOR push_bit n T, Y XOR T XOR T)"
    by (simp only: des_swap_def Let_def prod.case xor.assoc)
  moreover have "des_swap n m (X, Y) = (X XOR push_bit n T, Y XOR T)" by (simp add: des_swap_def T_def Let_def)
  ultimately show ?thesis by (simp only: XY) (simp add: xor.assoc)
qed

lemma bit_rot:
  "bit (des_rotl X) n = (n < 32 \<and> bit X (if n = 0 then 31 else n - 1))"
  "bit (des_rotr X) n = (n < 32 \<and> bit X (if n = 31 then 0 else n + 1))"
proof -
  have "\<not> bit X k" if "32 \<le> k" for k using bit_imp_le_length [of X k] that by auto
  then show "bit (des_rotl X) n = (n < 32 \<and> bit X (if n = 0 then 31 else n - 1))"
    "bit (des_rotr X) n = (n < 32 \<and> bit X (if n = 31 then 0 else n + 1))"
    unfolding des_rotl_def des_rotr_def bit_or_iff bit_push_bit_iff bit_drop_bit_eq possible_bit_word
    by (auto simp: not_less dest: bit_imp_le_length)
qed

lemma des_rot: "des_rotl (des_rotr X) = X" "des_rotr (des_rotl X) = X"
  by (auto intro!: bit_word_eqI simp: bit_rot split: if_splits)

lemma IP_FP: "DES_IP (DES_FP XY) = XY" "DES_FP (DES_IP XY) = XY"
proof -
  have swaps: "des_swap 4 0x0F0F0F0F (des_swap 4 0x0F0F0F0F p) = p" "des_swap 16 0x0000FFFF (des_swap 16 0x0000FFFF p) = p"
    "des_swap 2 0x33333333 (des_swap 2 0x33333333 p) = p" "des_swap 8 0x00FF00FF (des_swap 8 0x00FF00FF p) = p"
    "des_swap 0 0xAAAAAAAA (des_swap 0 0xAAAAAAAA p) = p" for p
    by (rule des_swap_swap; simp)+
  show "DES_IP (DES_FP XY) = XY" "DES_FP (DES_IP XY) = XY"
    by (cases XY; simp add: DES_IP_def DES_FP_def Let_def split_beta swaps des_rot)+
qed

lemma DES_ROUND_undo: "DES_ROUND k1 k2 X (DES_ROUND k1 k2 X Y) = Y"
  by (simp add: DES_ROUND_def Let_def xor.assoc xor.left_commute)

text \<open>The schedule read backwards, two words at a time.\<close>

fun rev_pairs :: "u32 list \<Rightarrow> u32 list" where
  "rev_pairs (a # b # ks) = rev_pairs ks @ [a, b]"
| "rev_pairs _ = []"

lemma length_ks_loop [simp]: "length (ks_loop is XY) = 2 * length is"
  by (induction "is" XY rule: ks_loop.induct) (simp_all add: Let_def)

lemma length_des_main_ks [simp]: "length (des_main_ks key) = 32"
  by (simp add: des_main_ks_def)

lemma reverse_ks_pairs:
  assumes "length ks = 32"
  shows "reverse_ks ks = rev_pairs ks"
proof -
  have "ks = map ((!) ks) [0..<32]" using assms map_nth [of ks] by simp
  then obtain f :: "nat \<Rightarrow> u32" where ks: "ks = map f [0..<32]" by blast
  show ?thesis by (simp add: ks reverse_ks_def upt_rec)
qed

lemma dvd4 [simp]: "4 dvd Suc (Suc (Suc (Suc n))) \<longleftrightarrow> 4 dvd n" "\<not> 4 dvd Suc 0" "\<not> 4 dvd Suc (Suc 0)" "\<not> 4 dvd Suc (Suc (Suc 0))"
  by presburger+

text \<open>Rounds of a Feistel network are undone by the same rounds in the other order, with the halves exchanged.\<close>

lemma des_rounds_append:
  "4 dvd length ks \<Longrightarrow> des_rounds (ks @ ks') XY = des_rounds ks' (des_rounds ks XY)"
  by (induction ks XY rule: des_rounds.induct) (auto simp: Let_def)

lemma length_rev_pairs: "even (length ks) \<Longrightarrow> length (rev_pairs ks) = length ks"
  by (induction ks rule: rev_pairs.induct) auto

lemma des_rounds_undo:
  "4 dvd length ks \<Longrightarrow> des_rounds (rev_pairs ks) (prod.swap (des_rounds ks XY)) = prod.swap XY"
proof (induction ks XY rule: des_rounds.induct)
  case (1 k1 k2 k3 k4 ks X Y)
  define X' where "X' = DES_ROUND k1 k2 Y X"
  define Y' where "Y' = DES_ROUND k3 k4 X' Y"
  have ks: "4 dvd length ks" using "1.prems" by simp
  then have "even (length ks)" by presburger
  then have "4 dvd length (rev_pairs ks)" using ks by (simp add: length_rev_pairs)
  moreover have "des_rounds (rev_pairs ks) (prod.swap (des_rounds ks (X', Y'))) = (Y', X')"
    using "1.IH" [OF X'_def Y'_def] ks by simp
  ultimately have "des_rounds (rev_pairs ks @ [k3, k4, k1, k2]) (prod.swap (des_rounds ks (X', Y'))) = (Y, X)"
    by (simp add: des_rounds_append Let_def X'_def Y'_def DES_ROUND_undo)
  then show ?case by (simp add: Let_def flip: X'_def Y'_def)
qed auto

lemma length_des_crypt [simp]: "length (des_crypt SK b) = 8"
  by (simp add: des_crypt_def split_beta Let_def PUT_UINT32_def)

lemma des_crypt_undo:
  assumes "length ks = 32" "length b = 8"
  shows "des_crypt (reverse_ks ks) (des_crypt ks b) = b"
proof -
  obtain X Y where XY: "DES_IP (GET_UINT32 b 0, GET_UINT32 b 4) = (X, Y)" by fastforce
  obtain X' Y' where XY': "des_rounds ks (X, Y) = (X', Y')" by fastforce
  obtain Y'' X'' where FP: "DES_FP (Y', X') = (Y'', X'')" by fastforce
  have "des_crypt ks b = PUT_UINT32 Y'' @ PUT_UINT32 X''" by (simp add: des_crypt_def XY XY' FP)
  moreover have "DES_IP (Y'', X'') = (Y', X')" using IP_FP(1) [of "(Y', X')"] by (simp add: FP)
  moreover have "des_rounds (rev_pairs ks) (Y', X') = (Y, X)" using des_rounds_undo [of ks "(X, Y)"] assms(1) by (simp add: XY')
  moreover have "DES_FP (X, Y) = (GET_UINT32 b 0, GET_UINT32 b 4)" using IP_FP(2) by (simp flip: XY)
  ultimately show ?thesis
    using PUT_GET [OF assms(2)] by (simp add: des_crypt_def GET_PUT reverse_ks_pairs assms(1))
qed

section \<open>Texts\<close>

lemma des_blocks_append:
  "8 dvd length xs \<Longrightarrow>
     des_blocks SK (xs @ ys) = (fst (des_blocks SK xs) @ fst (des_blocks SK ys), snd (des_blocks SK ys))"
proof (induction SK xs rule: des_blocks.induct)
  case (1 SK xs)
  show ?case
  proof (cases "length xs < 8")
    case True
    then have "xs = []" using "1.prems" by (auto dest: dvd_imp_le)
    then show ?thesis by (simp add: des_blocks.simps [of SK "[]"])
  next
    case False
    then have "8 dvd length (drop 8 xs)" using "1.prems" by (simp add: dvd_minus_self)
    then show ?thesis
      using "1.IH" [OF False] False by (simp add: des_blocks.simps [of SK "xs @ ys"] des_blocks.simps [of SK xs] split_beta)
  qed
qed

lemma des_blocks_one: "length b = 8 \<Longrightarrow> des_blocks SK b = (des_crypt SK b, [])"
  by (simp add: des_blocks.simps [of SK b] des_blocks.simps [of SK "[]"])

lemma des_blocks_shape:
  "8 dvd length (fst (des_blocks SK str)) \<and> length (fst (des_blocks SK str)) + length (snd (des_blocks SK str)) = length str
   \<and> length (snd (des_blocks SK str)) < 8"
proof (induction SK str rule: des_blocks.induct)
  case (1 SK str)
  then show ?case by (cases "length str < 8") (auto simp: des_blocks.simps [of SK str] split_beta)
qed

lemma des_blocks_undo:
  "length SK = 32 \<Longrightarrow> fst (des_blocks (reverse_ks SK) (fst (des_blocks SK str))) @ snd (des_blocks SK str) = str"
proof (induction SK str rule: des_blocks.induct)
  case (1 SK str)
  show ?case
  proof (cases "length str < 8")
    case True
    then show ?thesis by (simp add: des_blocks.simps [of SK str] des_blocks.simps [of _ "[]"])
  next
    case False
    then show ?thesis
      using 1 by (simp add: des_blocks.simps [of SK str] split_beta des_blocks_append des_blocks_one des_crypt_undo)
  qed
qed

lemma iso_walk_zeros: "iso_walk (k + Suc n) p (replicate k 0 @ 0x80 # bs) = Inr (p + int k)"
  by (induction k arbitrary: p) simp_all

lemma pkcs_walk_same: "k \<le> n \<Longrightarrow> pkcs_walk k x (replicate n x @ bs) = Inr (uint x)"
proof (induction k arbitrary: n)
  case (Suc k)
  then show ?case by (cases n) simp_all
qed simp

lemma padding_modes: "check_padding_mode mode = Inr () \<longleftrightarrow> mode = PADDING_MODE_ISO7816_4 \<or> mode = PADDING_MODE_PKCS7"
  by (auto simp: check_padding_mode_def PADDING_MODE_COUNT_def PADDING_MODE_ISO7816_4_def PADDING_MODE_PKCS7_def)

lemma padding_round_trip:
  assumes "length r < 8" "check_padding_mode mode = Inr ()"
  obtains tl where "add_padding r mode = Inr tl" "length tl = 8" "take (length r) tl = r"
    "\<And>bs. remove_padding (rev tl @ bs) mode = Inr (8 - int (length r))"
proof -
  consider "mode = PADDING_MODE_ISO7816_4" | "mode = PADDING_MODE_PKCS7" "mode \<noteq> PADDING_MODE_ISO7816_4"
    using assms(2) by (auto simp: padding_modes PADDING_MODE_ISO7816_4_def PADDING_MODE_PKCS7_def)
  then show ?thesis
  proof cases
    case 1
    have "iso_walk 8 1 (replicate (7 - length r) 0 @ 0x80 # bs) = Inr (8 - int (length r))" for bs
      using iso_walk_zeros [of "7 - length r" "length r" 1 bs] assms(1) by (simp add: of_nat_diff)
    then show ?thesis using assms 1
      by (intro that [of "padding_add_iso7816_4 r"])
         (simp_all add: add_padding_def remove_padding_def padding_add_iso7816_4_def padding_remove_iso7816_4_def)
  next
    case 2
    define k where "k = 7 - length r"
    have k: "8 - length r = Suc k" "k \<le> 7" using assms(1) by (simp_all add: k_def)
    have x: "unat (of_nat (Suc k) :: u8) = Suc k" using k by (subst unat_of_nat) simp
    then have "uint (of_nat (Suc k) :: u8) = 8 - int (length r)" using k assms(1) by (simp add: uint_nat del: of_nat_Suc)
    then have "padding_remove_pkcs7 (replicate (Suc k) (of_nat (Suc k)) @ bs) = Inr (8 - int (length r))" for bs
      using x by (simp add: pkcs_walk_same del: of_nat_Suc)
    then show ?thesis using assms 2 k
      by (intro that [of "padding_add_pkcs7 r"])
         (simp_all add: add_padding_def remove_padding_def padding_add_pkcs7_def replicate_app_Cons_same
            del: of_nat_Suc padding_remove_pkcs7.simps)
  qed
qed

text \<open>
  C28: Encryption round trip: for a key of eight bytes, either padding and every text (shorter than
  \<open>2 ^ 31\<close> bytes), \<^verbatim>\<open>ldesencode\<close> succeeds with a text of \<^verbatim>\<open>(textsz + 8) & ~7\<close> bytes, and \<^verbatim>\<open>ldesdecode\<close> with
  the same key and padding gives the text back.
\<close>

theorem des_round_trip:
  assumes "length key = 8" "mode = PADDING_MODE_ISO7816_4 \<or> mode = PADDING_MODE_PKCS7"
  shows "\<exists>c. ldesencode key str mode = Inr c \<and> length c = 8 * (length str div 8 + 1) \<and> ldesdecode key c mode = Inr str"
proof -
  let ?SK = "des_main_ks key"
  obtain buffer r where b: "des_blocks ?SK str = (buffer, r)" by fastforce
  have shape: "8 dvd length buffer" "length buffer + length r = length str" "length r < 8"
    using des_blocks_shape [of ?SK str] by (simp_all add: b)
  then have len: "length buffer = 8 * (length str div 8)" by presburger
  obtain tl where tl: "add_padding r mode = Inr tl" "length tl = 8" "take (length r) tl = r"
    "\<And>bs. remove_padding (rev tl @ bs) mode = Inr (8 - int (length r))"
    using padding_round_trip [OF shape(3)] assms(2) padding_modes by blast
  define c where "c = buffer @ des_crypt ?SK tl"
  have enc: "ldesencode key str mode = Inr c" by (simp add: ldesencode_def des_key_def assms(1) b tl c_def)
  define plain where "plain = fst (des_blocks (reverse_ks ?SK) buffer)"
  have dec: "fst (des_blocks (reverse_ks ?SK) c) = plain @ tl"
    by (simp add: c_def des_blocks_append shape des_blocks_one des_crypt_undo tl(2) plain_def)
  have whole: "plain @ r = str" using des_blocks_undo [of ?SK str] by (simp add: b plain_def)
  have "length c = 8 * (length str div 8 + 1)" by (simp add: c_def len)
  moreover have "take (length c - nat (8 - int (length r))) (plain @ tl) = str"
  proof -
    have "length plain = length buffer" using whole shape(2) by (auto simp flip: whole)
    then show ?thesis using shape(3) tl(2,3) whole by (simp add: c_def nat_diff_distrib)
  qed
  ultimately have "ldesdecode key c mode = Inr str"
    using shape(3) by (auto simp: ldesdecode_def des_key_def assms(1) dec tl(4) Let_def)
  with enc \<open>length c = _\<close> show ?thesis by blast
qed

theorem des_round_trip_witness:
  "\<exists>c. ldesencode (replicate 8 1) [104, 105] 0 = Inr c \<and> length c = 8 * (2 div 8 + 1) \<and> ldesdecode (replicate 8 1) c 0 = Inr [104, 105]"
  using des_round_trip [of "replicate 8 1" 0 "[104, 105]"] by (simp add: PADDING_MODE_ISO7816_4_def)

text \<open>
  C39: Removing PKCS#7 padding does not check the length byte against the block: for every key, one
  block that decrypts to eight bytes 9 makes \<^verbatim>\<open>padding_remove_pkcs7\<close> read before the start of the buffer.
\<close>

theorem pkcs7_overread:
  assumes "length key = 8"
  shows "ldesdecode key (des_crypt (des_main_ks key) (replicate 8 9)) PADDING_MODE_PKCS7 = Inl (CFault OutOfBounds)"
proof -
  have "des_crypt (reverse_ks (des_main_ks key)) (des_crypt (des_main_ks key) (replicate 8 9)) = replicate 8 9"
    by (rule des_crypt_undo) simp_all
  moreover have "padding_remove_pkcs7 (replicate 8 9) = Inl OutOfBounds" by code_simp
  moreover have "des_crypt (des_main_ks key) (replicate 8 9) \<noteq> []"
    by (metis length_des_crypt list.size(3) zero_neq_numeral)
  ultimately show ?thesis
    using assms by (simp add: ldesdecode_def des_key_def des_blocks_one remove_padding_def check_padding_mode_def Let_def
        PADDING_MODE_COUNT_def PADDING_MODE_PKCS7_def PADDING_MODE_ISO7816_4_def)
qed

theorem pkcs7_overread_witness:
  "ldesdecode (replicate 8 1) (des_crypt (des_main_ks (replicate 8 1)) (replicate 8 9)) PADDING_MODE_PKCS7 = Inl (CFault OutOfBounds)"
  by (rule pkcs7_overread) simp

end
