(* ===== verification/Sha1.thy ===== *)
theory Sha1
  imports Des
begin

text \<open>
  SHA-1 and HMAC-SHA1 as \<^verbatim>\<open>lsha1.c\<close> computes them, in place on a ring of sixteen words and with
  data arriving in pieces, and the definitions of FIPS 180 and RFC 2104 they are shown equal to.
\<close>

section \<open>Transform\<close>

definition rol :: "u32 \<Rightarrow> nat \<Rightarrow> u32" where
  "rol v bits = push_bit bits v OR drop_bit (32 - bits) v"

text \<open>\<^verbatim>\<open>memcpy(&block, buffer, 64)\<close>: sixteen words in the order of a little-endian target.\<close>

definition load_le32 :: "bytes \<Rightarrow> nat \<Rightarrow> u32" where
  "load_le32 b i =
     ucast (b ! i) OR push_bit 8 (ucast (b ! (i + 1))) OR push_bit 16 (ucast (b ! (i + 2))) OR push_bit 24 (ucast (b ! (i + 3)))"

text \<open>\<^verbatim>\<open>blk0\<close> and \<^verbatim>\<open>blk\<close> store the word they return in the block.\<close>

definition blk0 :: "nat \<Rightarrow> u32 list \<Rightarrow> u32 \<times> u32 list" where
  "blk0 i l = (let x = (rol (l ! i) 24 AND 0xFF00FF00) OR (rol (l ! i) 8 AND 0x00FF00FF) in (x, l[i := x]))"

definition blk :: "nat \<Rightarrow> u32 list \<Rightarrow> u32 \<times> u32 list" where
  "blk i l =
     (let x = rol (l ! ((i + 13) mod 16) XOR l ! ((i + 8) mod 16) XOR l ! ((i + 2) mod 16) XOR l ! (i mod 16)) 1
      in (x, l[i mod 16 := x]))"

type_synonym regs = "u32 \<times> u32 \<times> u32 \<times> u32 \<times> u32"

text \<open>
  \<^verbatim>\<open>R0(v,w,x,y,z,i)\<close> to \<^verbatim>\<open>R4\<close> change \<open>z\<close> and \<open>w\<close>. Each call of \<^verbatim>\<open>SHA1_Transform\<close> passes the registers of the call
  before it moved by one place, so the result is given in the order of the next call.
\<close>

fun R0 :: "nat \<Rightarrow> regs \<times> u32 list \<Rightarrow> regs \<times> u32 list" where
  "R0 i ((v, w, x, y, z), l) =
     (let (b, l) = blk0 i l;
          z = z + (((w AND (x XOR y)) XOR y) + b + 0x5A827999 + rol v 5); w = rol w 30
      in ((z, v, w, x, y), l))"

fun R1 :: "nat \<Rightarrow> regs \<times> u32 list \<Rightarrow> regs \<times> u32 list" where
  "R1 i ((v, w, x, y, z), l) =
     (let (b, l) = blk i l;
          z = z + (((w AND (x XOR y)) XOR y) + b + 0x5A827999 + rol v 5); w = rol w 30
      in ((z, v, w, x, y), l))"

fun R2 :: "nat \<Rightarrow> regs \<times> u32 list \<Rightarrow> regs \<times> u32 list" where
  "R2 i ((v, w, x, y, z), l) =
     (let (b, l) = blk i l;
          z = z + ((w XOR x XOR y) + b + 0x6ED9EBA1 + rol v 5); w = rol w 30
      in ((z, v, w, x, y), l))"

fun R3 :: "nat \<Rightarrow> regs \<times> u32 list \<Rightarrow> regs \<times> u32 list" where
  "R3 i ((v, w, x, y, z), l) =
     (let (b, l) = blk i l;
          z = z + ((((w OR x) AND y) OR (w AND x)) + b + 0x8F1BBCDC + rol v 5); w = rol w 30
      in ((z, v, w, x, y), l))"

fun R4 :: "nat \<Rightarrow> regs \<times> u32 list \<Rightarrow> regs \<times> u32 list" where
  "R4 i ((v, w, x, y, z), l) =
     (let (b, l) = blk i l;
          z = z + ((w XOR x XOR y) + b + 0xCA62C1D6 + rol v 5); w = rol w 30
      in ((z, v, w, x, y), l))"

text \<open>The eighty unrolled calls; 80 is a multiple of five, so the registers end in their own places.\<close>

definition sha1_rounds :: "regs \<times> u32 list \<Rightarrow> regs \<times> u32 list" where
  "sha1_rounds s =
     fold R4 [60..<80] (fold R3 [40..<60] (fold R2 [20..<40] (fold R1 [16..<20] (fold R0 [0..<16] s))))"

definition SHA1_Transform :: "regs \<Rightarrow> bytes \<Rightarrow> regs" where
  "SHA1_Transform state buffer =
     (let l = map (\<lambda>i. load_le32 buffer (4 * i)) [0..<16];
          ((a, b, c, d, e), l) = sha1_rounds (state, l);
          (s0, s1, s2, s3, s4) = state
      in (s0 + a, s1 + b, s2 + c, s3 + d, s4 + e))"

section \<open>Contexts\<close>

record SHA1_CTX =
  sc_state :: regs
  sc_count0 :: u32
  sc_count1 :: u32
  sc_buffer :: bytes

definition SHA1_DIGEST_SIZE :: nat where "SHA1_DIGEST_SIZE = 20"

text \<open>The buffer is left as it was.\<close>

definition sat_SHA1_Init :: "SHA1_CTX \<Rightarrow> SHA1_CTX" where
  "sat_SHA1_Init context =
     context\<lparr>sc_state := (0x67452301, 0xEFCDAB89, 0x98BADCFE, 0x10325476, 0xC3D2E1F0), sc_count0 := 0, sc_count1 := 0\<rparr>"

definition memcpy_at :: "bytes \<Rightarrow> nat \<Rightarrow> bytes \<Rightarrow> bytes" where
  "memcpy_at dst j src = take j dst @ src @ drop (j + length src) dst"

text \<open>The loop over the whole blocks of the data, and the bytes behind them.\<close>

function transform_loop :: "regs \<Rightarrow> bytes \<Rightarrow> regs \<times> bytes" where
  "transform_loop state data =
     (if 63 < length data then transform_loop (SHA1_Transform state (take 64 data)) (drop 64 data) else (state, data))"
  by auto
termination by (relation "measure (\<lambda>(s, data). length data)") auto

declare transform_loop.simps [simp del]

text \<open>
  \<^verbatim>\<open>len\<close> is a \<^verbatim>\<open>size_t\<close>: \<^verbatim>\<open>len << 3\<close> is taken modulo \<open>2 ^ 64\<close>, added to a word of 32 bits, and the sum is
  compared with the 64 bit value.
\<close>

definition count_update :: "SHA1_CTX \<Rightarrow> nat \<Rightarrow> SHA1_CTX" where
  "count_update context len =
     (let bits = push_bit 3 (of_nat len :: u64);
          c0 = sc_count0 context + ucast bits;
          c1 = (if (ucast c0 :: u64) < bits then sc_count1 context + 1 else sc_count1 context);
          c1 = c1 + ucast (drop_bit 29 (of_nat len :: u64))
      in context\<lparr>sc_count0 := c0, sc_count1 := c1\<rparr>)"

definition sat_SHA1_Update :: "SHA1_CTX \<Rightarrow> bytes \<Rightarrow> SHA1_CTX" where
  "sat_SHA1_Update context data =
     (let len = length data;
          j = unat (drop_bit 3 (sc_count0 context) AND 63);
          context = count_update context len
      in if j + len > 63 then
           (let i = 64 - j;
                buffer = memcpy_at (sc_buffer context) j (take i data);
                (state, rest) = transform_loop (SHA1_Transform (sc_state context) buffer) (drop i data)
            in context\<lparr>sc_state := state, sc_buffer := memcpy_at buffer 0 rest\<rparr>)
         else context\<lparr>sc_buffer := memcpy_at (sc_buffer context) j data\<rparr>)"

lemma Update_count0: "sc_count0 (sat_SHA1_Update c [x]) = sc_count0 c + 8"
  by (simp add: sat_SHA1_Update_def count_update_def Let_def split_beta)

lemma mod32_div8: "a mod 2 ^ 32 div 8 mod 64 = a div 8 mod (64 :: nat)"
proof -
  have "a mod 2 ^ 32 = 8 * (a div 8 mod 2 ^ 29) + a mod 8" using mod_mult2_eq [of a 8 "2 ^ 29"] by simp
  then have "a mod 2 ^ 32 div 8 = a div 8 mod 2 ^ 29" by simp
  moreover have "a div 8 mod 2 ^ 29 mod 64 = a div 8 mod 64" by (rule mod_mod_cancel) simp
  ultimately show ?thesis by simp
qed

lemma and_504: "unat (c AND 504 :: u32) = 8 * (unat c div 8 mod 64)"
proof -
  have "c AND 504 = push_bit 3 (take_bit 6 (drop_bit 3 c))"
  proof (rule bit_word_eqI)
    fix n :: nat
    assume "n < LENGTH(32)"
    have m: "push_bit 3 (mask 6) = (504 :: u32)" by (simp add: mask_eq_decr_exp)
    have "bit (push_bit 3 (mask 6) :: u32) n = (3 \<le> n \<and> n < 9)" using \<open>n < _\<close> by (auto simp: bit_simps)
    then have "bit (504 :: u32) n = (3 \<le> n \<and> n < 9)" by (simp only: m)
    then show "bit (c AND 504) n = bit (push_bit 3 (take_bit 6 (drop_bit 3 c))) n"
      using \<open>n < _\<close> by (auto simp: bit_simps)
  qed
  moreover have "unat (push_bit 3 (take_bit 6 (drop_bit 3 c))) = 8 * (unat c div 8 mod 64)"
  proof -
    have "unat (take_bit 6 (drop_bit 3 c)) = unat c div 8 mod 64"
      by (simp add: take_bit_eq_mod drop_bit_eq_div unat_mod_distrib unat_div_distrib)
    then have "unat (8 * take_bit 6 (drop_bit 3 c)) = 8 * (unat c div 8 mod 64)"
      by (subst unat_mult_lem [THEN iffD1]) (auto intro: less_le_trans [of _ "8 * 64"])
    then show ?thesis by (simp add: push_bit_eq_mult mult.commute)
  qed
  ultimately show ?thesis by simp
qed

lemma zeros_measure:
  assumes "p < 64" "p \<noteq> (56 :: nat)"
  shows "(120 - Suc p mod 64) mod 64 < (120 - p) mod 64"
proof -
  have "\<forall>p \<in> set [0..<64]. p \<noteq> 56 \<longrightarrow> (120 - Suc p mod 64) mod 64 < (120 - p) mod 64" by code_simp
  then show ?thesis using assms by simp
qed

text \<open>The loop of \<^verbatim>\<open>sat_SHA1_Final\<close> that appends zeros until 56 bytes of a block are there.\<close>

function final_zeros :: "SHA1_CTX \<Rightarrow> SHA1_CTX" where
  "final_zeros context =
     (if sc_count0 context AND 504 \<noteq> 448 then final_zeros (sat_SHA1_Update context [0]) else context)"
  by auto
termination
proof (relation "measure (\<lambda>c. (120 - unat (sc_count0 c) div 8 mod 64) mod 64)")
  fix c :: SHA1_CTX
  assume "sc_count0 c AND 504 \<noteq> 448"
  then have "unat (sc_count0 c AND 504) \<noteq> unat (448 :: u32)" by (simp add: word_unat_eq_iff)
  then have "unat (sc_count0 c) div 8 mod 64 \<noteq> 56" by (simp add: and_504)
  moreover have "unat (sc_count0 c + 8) div 8 mod 64 = (unat (sc_count0 c) div 8 + 1) mod 64"
  proof -
    have "unat (sc_count0 c + 8) = (unat (sc_count0 c) + 8) mod 2 ^ 32" by (simp add: unat_word_ariths)
    moreover have "(unat (sc_count0 c) + 8) div 8 = unat (sc_count0 c) div 8 + 1" by simp
    ultimately show ?thesis using mod32_div8 [of "unat (sc_count0 c) + 8"] by simp
  qed
  ultimately show "(sat_SHA1_Update c [0], c) \<in> measure (\<lambda>c. (120 - unat (sc_count0 c) div 8 mod 64) mod 64)"
    using zeros_measure [of "unat (sc_count0 c) div 8 mod 64"] by (simp add: Update_count0 mod_Suc_eq)
qed simp

declare final_zeros.simps [simp del]

text \<open>Four bytes of a word, the most significant first; \<open>\<^verbatim>\<open>finalcount\<close>\<close> has the high word of the count first.\<close>

definition finalcount :: "SHA1_CTX \<Rightarrow> bytes" where
  "finalcount context =
     map (\<lambda>i. ucast (drop_bit ((3 - i mod 4) * 8) (if i \<ge> 4 then sc_count0 context else sc_count1 context) AND 255)) [0..<8]"

fun state_nth :: "regs \<Rightarrow> nat \<Rightarrow> u32" where
  "state_nth (a, b, c, d, e) i = [a, b, c, d, e] ! i"

definition sha1_digest :: "SHA1_CTX \<Rightarrow> bytes" where
  "sha1_digest context =
     map (\<lambda>i. ucast (drop_bit ((3 - i mod 4) * 8) (state_nth (sc_state context) (i div 4)) AND 255)) [0..<SHA1_DIGEST_SIZE]"

text \<open>The digest; the context is wiped.\<close>

definition sat_SHA1_Final :: "SHA1_CTX \<Rightarrow> bytes \<times> SHA1_CTX" where
  "sat_SHA1_Final context =
     (let count = finalcount context;
          context = sat_SHA1_Update context [0x80];
          context = final_zeros context;
          context = sat_SHA1_Update context count
      in (sha1_digest context,
          context\<lparr>sc_buffer := replicate 64 0, sc_state := (0, 0, 0, 0, 0), sc_count0 := 0, sc_count1 := 0\<rparr>))"

section \<open>Lua functions\<close>

text \<open>A context is a local variable: \<open>ctx\<close> is what the memory held before.\<close>

definition lsha1 :: "SHA1_CTX \<Rightarrow> bytes \<Rightarrow> bytes" where
  "lsha1 ctx buffer = fst (sat_SHA1_Final (sat_SHA1_Update (sat_SHA1_Init ctx) buffer))"

definition BLOCKSIZE :: nat where "BLOCKSIZE = 64"

text \<open>The key is xored as sixteen little-endian words.\<close>

definition store_le32 :: "u32 \<Rightarrow> bytes" where
  "store_le32 x = [ucast x, ucast (drop_bit 8 x), ucast (drop_bit 16 x), ucast (drop_bit 24 x)]"

definition xor_key :: "bytes \<Rightarrow> u32 \<Rightarrow> bytes" where
  "xor_key key x = concat (map (\<lambda>i. store_le32 (load_le32 key (4 * i) XOR x)) [0..<BLOCKSIZE div 4])"

definition lhmac_sha1 :: "SHA1_CTX \<Rightarrow> SHA1_CTX \<Rightarrow> SHA1_CTX \<Rightarrow> bytes \<Rightarrow> bytes \<Rightarrow> bytes" where
  "lhmac_sha1 ctx ctx1 ctx2 key text =
     (let rkey = replicate BLOCKSIZE 0;
          rkey = (if length key > BLOCKSIZE
                  then memcpy_at rkey 0 (fst (sat_SHA1_Final (sat_SHA1_Update (sat_SHA1_Init ctx) key)))
                  else memcpy_at rkey 0 key);
          rkey = xor_key rkey 0x5c5c5c5c;
          ctx1 = sat_SHA1_Update (sat_SHA1_Init ctx1) rkey;
          rkey = xor_key rkey (0x5c5c5c5c XOR 0x36363636);
          ctx2 = sat_SHA1_Update (sat_SHA1_Init ctx2) rkey;
          ctx2 = sat_SHA1_Update ctx2 text;
          digest2 = fst (sat_SHA1_Final ctx2);
          ctx1 = sat_SHA1_Update ctx1 digest2
      in fst (sat_SHA1_Final ctx1))"

section \<open>Reference\<close>

text \<open>
  FIPS 180: the message schedule, the round functions and constants, the compression of a
  block, the padding. RFC 2104: HMAC over it.
\<close>

function sha1_W :: "bytes \<Rightarrow> nat \<Rightarrow> u32" where
  "sha1_W m t = (if t < 16 then GET_UINT32 m (4 * t) else rol (sha1_W m (t - 3) XOR sha1_W m (t - 8) XOR sha1_W m (t - 14) XOR sha1_W m (t - 16)) 1)"
  by auto
termination by (relation "measure snd") auto

declare sha1_W.simps [simp del]

definition sha1_f :: "nat \<Rightarrow> u32 \<Rightarrow> u32 \<Rightarrow> u32 \<Rightarrow> u32" where
  "sha1_f t x y z =
     (if t < 20 then (x AND y) OR (NOT x AND z)
      else if t < 40 then x XOR y XOR z
      else if t < 60 then (x AND y) OR (x AND z) OR (y AND z)
      else x XOR y XOR z)"

definition sha1_K :: "nat \<Rightarrow> u32" where
  "sha1_K t = (if t < 20 then 0x5A827999 else if t < 40 then 0x6ED9EBA1 else if t < 60 then 0x8F1BBCDC else 0xCA62C1D6)"

fun sha1_step :: "bytes \<Rightarrow> nat \<Rightarrow> regs \<Rightarrow> regs" where
  "sha1_step m t (a, b, c, d, e) = (rol a 5 + sha1_f t b c d + e + sha1_K t + sha1_W m t, a, rol b 30, c, d)"

fun regs_add :: "regs \<Rightarrow> regs \<Rightarrow> regs" where
  "regs_add (a, b, c, d, e) (a', b', c', d', e') = (a + a', b + b', c + c', d + d', e + e')"

definition sha1_compress :: "regs \<Rightarrow> bytes \<Rightarrow> regs" where
  "sha1_compress h m = regs_add h (fold (sha1_step m) [0..<80] h)"

function sha1_blocks :: "regs \<Rightarrow> bytes \<Rightarrow> regs" where
  "sha1_blocks h m = (if length m < 64 then h else sha1_blocks (sha1_compress h (take 64 m)) (drop 64 m))"
  by auto
termination by (relation "measure (\<lambda>(h, m). length m)") auto

declare sha1_blocks.simps [simp del]

definition sha1_init :: regs where
  "sha1_init = (0x67452301, 0xEFCDAB89, 0x98BADCFE, 0x10325476, 0xC3D2E1F0)"

definition sha1_pad :: "bytes \<Rightarrow> bytes" where
  "sha1_pad m = m @ [0x80] @ replicate (nat ((55 - int (length m)) mod 64)) 0 @ be_bytes 8 (8 * int (length m))"

fun regs_bytes :: "regs \<Rightarrow> bytes" where
  "regs_bytes (a, b, c, d, e) = PUT_UINT32 a @ PUT_UINT32 b @ PUT_UINT32 c @ PUT_UINT32 d @ PUT_UINT32 e"

definition sha1 :: "bytes \<Rightarrow> bytes" where
  "sha1 m = regs_bytes (sha1_blocks sha1_init (sha1_pad m))"

definition hmac_sha1 :: "bytes \<Rightarrow> bytes \<Rightarrow> bytes" where
  "hmac_sha1 key m =
     (let k = (if length key > 64 then sha1 key else key);
          k = k @ replicate (64 - length k) 0
      in sha1 (map (\<lambda>x. x XOR 0x5c) k @ sha1 (map (\<lambda>x. x XOR 0x36) k @ m)))"

section \<open>One block\<close>

lemma byte_masks:
  "(0xFF00FF00 :: u32) = push_bit 8 (mask 8) OR push_bit 24 (mask 8)"
  "(0x00FF00FF :: u32) = mask 8 OR push_bit 16 (mask 8)"
  by (simp_all add: mask_eq_decr_exp)

lemma byteswap:
  "(rol (load_le32 b i) 24 AND 0xFF00FF00) OR (rol (load_le32 b i) 8 AND 0x00FF00FF) = GET_UINT32 b i"
proof (rule bit_word_eqI)
  fix n :: nat
  assume "n < LENGTH(32)"
  then consider "n < 8" | "8 \<le> n \<and> n < 16" | "16 \<le> n \<and> n < 24" | "24 \<le> n \<and> n < 32" by fastforce
  then show "bit ((rol (load_le32 b i) 24 AND 0xFF00FF00) OR (rol (load_le32 b i) 8 AND 0x00FF00FF)) n = bit (GET_UINT32 b i) n"
    unfolding byte_masks by cases (auto simp: rol_def load_le32_def GET_UINT32_def bit_simps)
qed

lemma choose: "(w AND (x XOR y)) XOR y = (w AND x) OR (NOT w AND (y :: u32))"
  by (rule bit_word_eqI) (auto simp: bit_simps)

lemma majority: "((w OR x) AND y) OR (w AND x) = (w AND x) OR (w AND y) OR (x AND (y :: u32))"
  by (rule bit_word_eqI) (auto simp: bit_simps)

text \<open>The ring before round \<open>t\<close>: words still to be swapped, or the last sixteen words of the schedule.\<close>

definition ring_at :: "bytes \<Rightarrow> nat \<Rightarrow> u32 list \<Rightarrow> bool" where
  "ring_at m t l \<longleftrightarrow> length l = 16 \<and>
     (if t < 16 then \<forall>j < 16. l ! j = (if j < t then sha1_W m j else load_le32 m (4 * j))
      else \<forall>k < 16. l ! ((t + k) mod 16) = sha1_W m (t - 16 + k))"

lemma blk0_ring:
  assumes "ring_at m t l" "t < 16"
  shows "fst (blk0 t l) = sha1_W m t" "ring_at m (Suc t) (snd (blk0 t l))"
proof -
  show *: "fst (blk0 t l) = sha1_W m t"
    using assms by (simp add: blk0_def ring_at_def byteswap sha1_W.simps [of m t] Let_def)
  have "snd (blk0 t l) = l[t := sha1_W m t]" using * by (simp add: blk0_def Let_def)
  moreover have "(\<forall>j < 16. l[t := sha1_W m t] ! j = (if j < Suc t then sha1_W m j else load_le32 m (4 * j)))"
    using assms by (auto simp: ring_at_def nth_list_update less_Suc_eq)
  ultimately show "ring_at m (Suc t) (snd (blk0 t l))"
    using assms by (cases "t = 15") (auto simp: ring_at_def)
qed

lemma blk_ring:
  assumes "ring_at m t l" "16 \<le> t"
  shows "fst (blk t l) = sha1_W m t" "ring_at m (Suc t) (snd (blk t l))"
proof -
  have l: "length l = 16" "\<And>k. k < 16 \<Longrightarrow> l ! ((t + k) mod 16) = sha1_W m (t - 16 + k)"
    using assms by (auto simp: ring_at_def)
  have idx: "t - 16 + 13 = t - 3" "t - 16 + 8 = t - 8" "t - 16 + 2 = t - 14" using assms(2) by linarith+
  have "fst (blk t l) = rol (l ! ((t + 13) mod 16) XOR l ! ((t + 8) mod 16) XOR l ! ((t + 2) mod 16) XOR l ! (t mod 16)) 1"
    by (simp only: blk_def Let_def fst_conv)
  also have "\<dots> = rol (sha1_W m (t - 3) XOR sha1_W m (t - 8) XOR sha1_W m (t - 14) XOR sha1_W m (t - 16)) 1"
    using l(2) [of 13] l(2) [of 8] l(2) [of 2] l(2) [of 0] by (simp only: idx) simp
  also have "\<dots> = sha1_W m t" using assms(2) by (simp add: sha1_W.simps [of m t])
  finally show *: "fst (blk t l) = sha1_W m t" .
  have s: "snd (blk t l) = l[t mod 16 := sha1_W m t]" using * by (simp add: blk_def Let_def)
  have "l[t mod 16 := sha1_W m t] ! ((Suc t + k) mod 16) = sha1_W m (Suc t - 16 + k)" if "k < 16" for k
  proof (cases "k = 15")
    case True
    have "Suc t + 15 = t + 16" by simp
    then have "(Suc t + 15) mod 16 = t mod 16" by (simp only: mod_add_self2)
    then show ?thesis using True assms(2) l(1) by (simp add: Suc_diff_le)
  next
    case False
    then have "(t + Suc k) mod 16 \<noteq> t mod 16" using that by (auto simp: mod_eq_dvd_iff_nat dest: dvd_imp_le)
    moreover have "Suc t + k = t + Suc k" "Suc t - 16 + k = t - 16 + Suc k" using assms(2) by linarith+
    ultimately show ?thesis using l(2) [of "Suc k"] False that by (simp only: nth_list_update_neq)
  qed
  then show "ring_at m (Suc t) (snd (blk t l))" using assms(2) l(1) by (simp add: ring_at_def s)
qed

definition simulates :: "bytes \<Rightarrow> (nat \<Rightarrow> regs \<times> u32 list \<Rightarrow> regs \<times> u32 list) \<Rightarrow> nat \<Rightarrow> bool" where
  "simulates m R t \<longleftrightarrow> (\<forall>r l. ring_at m t l \<longrightarrow> (\<exists>l'. R t (r, l) = (sha1_step m t r, l') \<and> ring_at m (Suc t) l'))"

lemma blk_simulates:
  assumes "\<And>v w x y z l. R t ((v, w, x, y, z), l) = ((z + (f w x y + fst (blk t l) + K + rol v 5), v, rol w 30, x, y), snd (blk t l))"
    "16 \<le> t" "\<And>w x y. f w x y = sha1_f t w x y" "K = sha1_K t"
  shows "simulates m R t"
proof -
  have "\<exists>l'. R t (r, l) = (sha1_step m t r, l') \<and> ring_at m (Suc t) l'" if l: "ring_at m t l" for r l
  proof -
    obtain v w x y z where "r = (v, w, x, y, z)" using prod_cases5 by blast
    moreover have "z + (sha1_f t w x y + sha1_W m t + sha1_K t + rol v 5) = rol v 5 + sha1_f t w x y + z + sha1_K t + sha1_W m t"
      by (simp only: ac_simps)
    ultimately show ?thesis using blk_ring [OF l assms(2)] assms(3,4) by (simp add: assms(1))
  qed
  then show ?thesis by (simp add: simulates_def del: split_paired_All)
qed

lemma R0_simulates:
  assumes "t < 16"
  shows "simulates m R0 t"
proof -
  have "\<exists>l'. R0 t (r, l) = (sha1_step m t r, l') \<and> ring_at m (Suc t) l'" if l: "ring_at m t l" for r l
  proof -
    obtain v w x y z where "r = (v, w, x, y, z)" using prod_cases5 by blast
    moreover have "z + (((w AND (x XOR y)) XOR y) + sha1_W m t + 0x5A827999 + rol v 5) = rol v 5 + sha1_f t w x y + z + sha1_K t + sha1_W m t"
      using assms unfolding choose sha1_f_def sha1_K_def by (simp add: ac_simps)
    ultimately show ?thesis using blk0_ring [OF l assms] by (simp add: split_beta Let_def)
  qed
  then show ?thesis by (simp add: simulates_def del: split_paired_All)
qed

lemma rounds_simulate:
  "16 \<le> t \<Longrightarrow> t < 20 \<Longrightarrow> simulates m R1 t"
  "20 \<le> t \<Longrightarrow> t < 40 \<Longrightarrow> simulates m R2 t"
  "40 \<le> t \<Longrightarrow> t < 60 \<Longrightarrow> simulates m R3 t"
  "60 \<le> t \<Longrightarrow> t < 80 \<Longrightarrow> simulates m R4 t"
     apply (rule blk_simulates [where f = "\<lambda>w x y. (w AND (x XOR y)) XOR y" and K = "0x5A827999"])
        apply (simp_all add: split_beta Let_def sha1_f_def sha1_K_def choose)
    apply (rule blk_simulates [where f = "\<lambda>w x y. w XOR x XOR y" and K = "0x6ED9EBA1"])
       apply (simp_all add: split_beta Let_def sha1_f_def sha1_K_def)
   apply (rule blk_simulates [where f = "\<lambda>w x y. ((w OR x) AND y) OR (w AND x)" and K = "0x8F1BBCDC"])
      apply (simp_all add: split_beta Let_def sha1_f_def sha1_K_def majority)
  apply (rule blk_simulates [where f = "\<lambda>w x y. w XOR x XOR y" and K = "0xCA62C1D6"])
     apply (simp_all add: split_beta Let_def sha1_f_def sha1_K_def)
  done

lemma fold_simulates:
  assumes "a \<le> b" "\<And>t. a \<le> t \<Longrightarrow> t < b \<Longrightarrow> simulates m R t" "ring_at m a l"
  shows "\<exists>l'. fold R [a..<b] (r, l) = (fold (sha1_step m) [a..<b] r, l') \<and> ring_at m b l'"
  using assms
proof (induction rule: dec_induct)
  case (step n)
  then obtain l' where "fold R [a..<n] (r, l) = (fold (sha1_step m) [a..<n] r, l')" "ring_at m n l'" by auto
  moreover have "simulates m R n" using step.prems(1) [of n] step.hyps by simp
  ultimately obtain l'' where "R n (fold R [a..<n] (r, l)) = (sha1_step m n (fold (sha1_step m) [a..<n] r), l'')" "ring_at m (Suc n) l''"
    unfolding simulates_def by metis
  then show ?case using step.hyps by simp
qed simp

lemma Transform_compress: "SHA1_Transform h m = sha1_compress h m"
proof -
  let ?l = "map (\<lambda>i. load_le32 m (4 * i)) [0..<16]" and ?S = "\<lambda>a b. fold (sha1_step m) [a..<b]"
  have "ring_at m 0 ?l" by (simp add: ring_at_def)
  then obtain l1 where 1: "fold R0 [0..<16] (h, ?l) = (?S 0 16 h, l1)" "ring_at m 16 l1"
    using fold_simulates [OF _ R0_simulates, of 0 16 m ?l h] by blast
  define h1 where "h1 = ?S 0 16 h"
  have "\<exists>l2. fold R1 [16..<20] (h1, l1) = (?S 16 20 h1, l2) \<and> ring_at m 20 l2"
    by (rule fold_simulates [OF _ rounds_simulate(1) 1(2)]) simp_all
  then obtain l2 where 2: "fold R1 [16..<20] (h1, l1) = (?S 16 20 h1, l2)" "ring_at m 20 l2" by blast
  define h2 where "h2 = ?S 16 20 h1"
  have "\<exists>l3. fold R2 [20..<40] (h2, l2) = (?S 20 40 h2, l3) \<and> ring_at m 40 l3"
    by (rule fold_simulates [OF _ rounds_simulate(2) 2(2)]) simp_all
  then obtain l3 where 3: "fold R2 [20..<40] (h2, l2) = (?S 20 40 h2, l3)" "ring_at m 40 l3" by blast
  define h3 where "h3 = ?S 20 40 h2"
  have "\<exists>l4. fold R3 [40..<60] (h3, l3) = (?S 40 60 h3, l4) \<and> ring_at m 60 l4"
    by (rule fold_simulates [OF _ rounds_simulate(3) 3(2)]) simp_all
  then obtain l4 where 4: "fold R3 [40..<60] (h3, l3) = (?S 40 60 h3, l4)" "ring_at m 60 l4" by blast
  define h4 where "h4 = ?S 40 60 h3"
  have "\<exists>l5. fold R4 [60..<80] (h4, l4) = (?S 60 80 h4, l5) \<and> ring_at m 80 l5"
    by (rule fold_simulates [OF _ rounds_simulate(4) 4(2)]) simp_all
  then obtain l5 where 5: "fold R4 [60..<80] (h4, l4) = (?S 60 80 h4, l5)" by blast
  have "[0..<80] = [0..<16] @ [16..<20] @ [20..<40] @ [40..<60] @ [60..<80]"
    by (simp add: upt_add_eq_append [of 0 16 64, simplified] upt_add_eq_append [of 16 4 60, simplified]
        upt_add_eq_append [of 20 20 40, simplified] upt_add_eq_append [of 40 20 20, simplified])
  then have "?S 60 80 h4 = ?S 0 80 h" by (simp only: fold_append comp_apply h4_def h3_def h2_def h1_def)
  then have "sha1_rounds (h, ?l) = (?S 0 80 h, l5)"
    unfolding sha1_rounds_def 1(1) h1_def [symmetric] 2(1) h2_def [symmetric] 3(1) h3_def [symmetric] 4(1) h4_def [symmetric] 5 by simp
  then show ?thesis
    by (cases h rule: prod_cases5; cases "?S 0 80 h" rule: prod_cases5) (simp add: SHA1_Transform_def sha1_compress_def Let_def del: upt_rec)
qed

section \<open>Data in pieces\<close>

definition tail64 :: "bytes \<Rightarrow> bytes" where
  "tail64 m = drop (64 * (length m div 64)) m"

lemma length_tail64 [simp]: "length (tail64 m) = length m mod 64"
  by (simp add: tail64_def minus_mult_div_eq_mod)

lemma sha1_blocks_append: "64 dvd length xs \<Longrightarrow> sha1_blocks h (xs @ ys) = sha1_blocks (sha1_blocks h xs) ys"
proof (induction h xs rule: sha1_blocks.induct)
  case (1 h xs)
  show ?case
  proof (cases "length xs < 64")
    case True
    then have "xs = []" using "1.prems" by (auto dest: dvd_imp_le)
    then show ?thesis by (simp add: sha1_blocks.simps [of h "[]"])
  next
    case False
    then have "64 dvd length (drop 64 xs)" using "1.prems" by (simp add: dvd_minus_self)
    then show ?thesis using "1.IH" [OF False] False by (simp add: sha1_blocks.simps [of h "xs @ ys"] sha1_blocks.simps [of h xs])
  qed
qed

lemma sha1_blocks_short: "length m < 64 \<Longrightarrow> sha1_blocks h m = h"
  by (simp add: sha1_blocks.simps)

lemma sha1_blocks_one: "length b = 64 \<Longrightarrow> sha1_blocks h (b @ m) = sha1_blocks (sha1_compress h b) m"
  by (simp add: sha1_blocks.simps [of h "b @ m"])

lemma tail64_append: "64 dvd length xs \<Longrightarrow> tail64 (xs @ ys) = tail64 ys"
  by (auto simp: tail64_def dvd_def)

lemma tail64_short: "length m < 64 \<Longrightarrow> tail64 m = m"
  by (simp add: tail64_def)

lemma whole_and_tail:
  obtains full where "m = full @ tail64 m" "64 dvd length full" "\<And>h. sha1_blocks h m = sha1_blocks h full"
proof -
  let ?full = "take (64 * (length m div 64)) m"
  have m: "m = ?full @ tail64 m" by (simp add: tail64_def)
  moreover have len: "64 dvd length ?full" by (simp add: min_absorb2)
  moreover have "sha1_blocks h m = sha1_blocks h ?full" for h
    using sha1_blocks_append [OF len, of h "tail64 m"] m by (simp add: sha1_blocks_short)
  ultimately show ?thesis using that by blast
qed

lemma transform_loop_blocks: "transform_loop h m = (sha1_blocks h m, tail64 m)"
proof (induction h m rule: transform_loop.induct)
  case (1 h m)
  show ?case
  proof (cases "63 < length m")
    case True
    have "tail64 (take 64 m @ drop 64 m) = tail64 (drop 64 m)" by (rule tail64_append) (use True in simp)
    then show ?thesis
      using 1 True sha1_blocks.simps [of h m] by (simp add: transform_loop.simps [of h m] Transform_compress)
  next
    case False
    then show ?thesis by (simp add: transform_loop.simps sha1_blocks_short tail64_short)
  qed
qed

text \<open>A context that has taken in the message \<open>m\<close>.\<close>

definition bit_count :: "SHA1_CTX \<Rightarrow> nat" where
  "bit_count c = unat (sc_count1 c) * 2 ^ 32 + unat (sc_count0 c)"

definition absorbed :: "bytes \<Rightarrow> SHA1_CTX \<Rightarrow> bool" where
  "absorbed m c \<longleftrightarrow> bit_count c = 8 * length m \<and> sc_state c = sha1_blocks sha1_init m \<and>
     length (sc_buffer c) = 64 \<and> take (length m mod 64) (sc_buffer c) = tail64 m"

lemma absorbed_Init: "length (sc_buffer c) = 64 \<Longrightarrow> absorbed [] (sat_SHA1_Init c)"
  by (simp add: absorbed_def bit_count_def sat_SHA1_Init_def sha1_blocks_short sha1_init_def tail64_short)

lemma count_update_fields [simp]:
  "sc_state (count_update c n) = sc_state c" "sc_buffer (count_update c n) = sc_buffer c"
  by (simp_all add: count_update_def Let_def)

lemma unat_bits: "n < 2 ^ 61 \<Longrightarrow> unat (push_bit 3 (of_nat n :: u64)) = 8 * n"
proof -
  assume "n < 2 ^ 61"
  then have "unat (of_nat (8 * n) :: u64) = 8 * n" by (simp add: unat_of_nat take_bit_nat_eq_self del: of_nat_mult)
  moreover have "push_bit 3 (of_nat n :: u64) = of_nat (8 * n)" by (simp add: push_bit_eq_mult mult.commute)
  ultimately show ?thesis by simp
qed

lemma count_update_count:
  assumes "n < 2 ^ 29" "bit_count c + 8 * n < 2 ^ 64"
  shows "bit_count (count_update c n) = bit_count c + 8 * n"
proof -
  let ?bits = "push_bit 3 (of_nat n :: u64)"
  define c0 where "c0 = sc_count0 c + ucast ?bits"
  have bits: "unat ?bits = 8 * n" using assms(1) by (intro unat_bits) simp
  have "unat (ucast ?bits :: u32) = 8 * n"
    using assms(1) by (simp add: unsigned_ucast_eq bits take_bit_nat_eq_self)
  then have c0: "unat c0 = (unat (sc_count0 c) + 8 * n) mod 2 ^ 32" by (simp add: c0_def unat_word_ariths)
  have "unat c0 < 2 ^ 64" using unsigned_less [of c0, where 'a = nat] by simp
  then have less: "(ucast c0 :: u64) < ?bits \<longleftrightarrow> unat c0 < 8 * n" by (simp add: word_less_nat_alt bits unsigned_ucast_eq take_bit_nat_eq_self)
  have hi: "drop_bit 29 (of_nat n :: u64) = 0"
    using assms(1) by (simp add: word_unat_eq_iff drop_bit_eq_div unat_div_distrib unat_of_nat take_bit_nat_eq_self)
  have lt: "unat (sc_count0 c) < 2 ^ 32" using unsigned_less [of "sc_count0 c"] by simp
  show ?thesis
  proof (cases "unat (sc_count0 c) + 8 * n < 2 ^ 32")
    case True
    then show ?thesis
      using c0 less hi by (simp add: count_update_def Let_def bit_count_def flip: c0_def)
  next
    case False
    then have "unat c0 = unat (sc_count0 c) + 8 * n - 2 ^ 32" using c0 lt assms(1) by (simp add: mod_if)
    moreover have "unat (sc_count1 c + 1) = unat (sc_count1 c) + 1"
      using assms(2) False by (simp add: bit_count_def unat_word_ariths)
    ultimately show ?thesis
      using False lt less hi by (simp add: count_update_def Let_def bit_count_def flip: c0_def)
  qed
qed

lemma length_memcpy_at [simp]: "j + length src \<le> length dst \<Longrightarrow> length (memcpy_at dst j src) = length dst"
  by (simp add: memcpy_at_def)

lemma and_63: "unat (drop_bit 3 c AND 63 :: u32) = unat c div 8 mod 64"
proof -
  have "(63 :: u32) = mask 6" by (simp add: mask_eq_decr_exp)
  then have "drop_bit 3 c AND 63 = take_bit 6 (drop_bit 3 c)" by (simp only: take_bit_eq_mask)
  then show ?thesis by (simp add: take_bit_eq_mod drop_bit_eq_div unat_mod_distrib unat_div_distrib)
qed

lemma absorbed_position: "absorbed m c \<Longrightarrow> unat (sc_count0 c) div 8 mod 64 = length m mod 64"
proof -
  assume "absorbed m c"
  then have "8 * length m = unat (sc_count1 c) * 2 ^ 32 + unat (sc_count0 c)" by (simp add: absorbed_def bit_count_def)
  then have "8 * length m mod 2 ^ 32 = unat (sc_count0 c) mod 2 ^ 32" by simp
  then have "(8 * length m) mod 2 ^ 32 div 8 mod 64 = unat (sc_count0 c) mod 2 ^ 32 div 8 mod 64" by simp
  then show ?thesis by (simp only: mod32_div8) simp
qed

lemma absorbed_Update:
  assumes m: "absorbed m c" and len: "length data < 2 ^ 29" "length m + length data < 2 ^ 61"
  shows "absorbed (m @ data) (sat_SHA1_Update c data)"
proof -
  define r where "r = length m mod 64"
  have r: "r < 64" by (simp add: r_def)
  have j: "unat (drop_bit 3 (sc_count0 c) AND 63) = r" by (simp add: and_63 absorbed_position [OF m] r_def)
  have c: "sc_state c = sha1_blocks sha1_init m" "length (sc_buffer c) = 64" "take r (sc_buffer c) = tail64 m"
    "bit_count c = 8 * length m" using m by (auto simp: absorbed_def r_def)
  have tl: "length (tail64 m) = r" by (simp add: r_def)
  let ?c = "count_update c (length data)"
  have count: "bit_count ?c = 8 * length (m @ data)" using len c(4) by (simp add: count_update_count)
  obtain full where full: "m = full @ tail64 m" "64 dvd length full" "\<And>h. sha1_blocks h m = sha1_blocks h full"
    using whole_and_tail by blast
  then have e: "full @ tail64 m @ data = m @ data" by (metis append_assoc)
  have whole: "sha1_blocks sha1_init (m @ data) = sha1_blocks (sc_state c) (tail64 m @ data)"
    "tail64 (m @ data) = tail64 (tail64 m @ data)"
    using sha1_blocks_append [OF full(2), of sha1_init "tail64 m @ data"] tail64_append [OF full(2), of "tail64 m @ data"] full(3)
    by (simp_all add: c(1) e)
  show ?thesis
  proof (cases "r + length data > 63")
    case False
    then have short: "length (tail64 m @ data) < 64" using tl by simp
    then have "(length m + length data) mod 64 = r + length data"
      using False mod_add_left_eq [of "length m" 64 "length data"] by (simp flip: r_def)
    moreover have "take (r + length data) (memcpy_at (sc_buffer c) r data) = tail64 m @ data"
      using c(3) tl by (simp add: memcpy_at_def)
    moreover have "length (memcpy_at (sc_buffer c) r data) = 64" using c(2) False by (simp add: memcpy_at_def)
    ultimately show ?thesis
      using False whole short count by (simp add: absorbed_def sat_SHA1_Update_def j Let_def bit_count_def sha1_blocks_short tail64_short)
  next
    case True
    let ?i = "64 - r" and ?first = "tail64 m @ take (64 - r) data"
    have first: "length ?first = 64" using True r tl by simp
    have buffer: "memcpy_at (sc_buffer c) r (take ?i data) = ?first" using c(2,3) True r by (simp add: memcpy_at_def)
    have split: "tail64 m @ data = ?first @ drop ?i data" by simp
    have blocks: "sha1_blocks sha1_init (m @ data) = sha1_blocks (SHA1_Transform (sc_state c) ?first) (drop ?i data)"
      unfolding whole split Transform_compress by (rule sha1_blocks_one [OF first])
    have tail: "tail64 (m @ data) = tail64 (drop ?i data)"
      unfolding whole split by (rule tail64_append) (use first in simp)
    have "length (tail64 (drop ?i data)) \<le> 64" using mod_less_divisor [of 64 "length (drop ?i data)"] by (simp only: length_tail64)
    then have "length (memcpy_at ?first 0 (tail64 (drop ?i data))) = 64" using length_memcpy_at [of 0 "tail64 (drop ?i data)" ?first] first by (simp only: add_0)
    moreover have "take (length (m @ data) mod 64) (memcpy_at ?first 0 (tail64 (drop ?i data))) = tail64 (m @ data)"
      using length_tail64 [of "m @ data"] by (simp add: tail memcpy_at_def)
    ultimately show ?thesis
      using True blocks count
      by (simp add: absorbed_def sat_SHA1_Update_def j Let_def bit_count_def transform_loop_blocks buffer)
  qed
qed

section \<open>The digest\<close>

definition zeros :: "bytes \<Rightarrow> nat" where
  "zeros m = (120 - length m mod 64) mod 64"

lemma zeros_step:
  "length m mod 64 \<noteq> 56 \<Longrightarrow> zeros m = Suc (zeros (m @ [x]))"
  "length m mod 64 = 56 \<Longrightarrow> zeros m = 0"
proof -
  have "\<forall>p \<in> set [0..<64]. p \<noteq> 56 \<longrightarrow> (120 - p) mod 64 = Suc ((120 - Suc p mod 64) mod 64)" by code_simp
  then have "(120 - length m mod 64) mod 64 = Suc ((120 - Suc (length m mod 64) mod 64) mod 64)" if "length m mod 64 \<noteq> 56"
    using that by simp
  then show "zeros m = Suc (zeros (m @ [x]))" if "length m mod 64 \<noteq> 56"
    using that by (simp add: zeros_def mod_Suc_eq)
  show "zeros m = 0" if "length m mod 64 = 56" using that by (simp add: zeros_def)
qed

lemma zeros_pad: "zeros (m @ [x]) = nat ((55 - int (length m)) mod 64)"
proof -
  have "Suc (length m) mod 64 \<le> 120" using mod_less_divisor [of 64 "Suc (length m)"] by linarith
  then have "int (zeros (m @ [x])) = (120 - int (Suc (length m)) mod 64) mod 64"
    by (simp add: zeros_def of_nat_mod of_nat_diff)
  also have "\<dots> = (120 - int (Suc (length m))) mod 64" by (rule mod_diff_right_eq)
  also have "\<dots> = (55 - int (length m) + 64) mod 64" by (simp add: algebra_simps)
  also have "\<dots> = (55 - int (length m)) mod 64" by (rule mod_add_self2)
  finally show ?thesis by linarith
qed

lemma absorbed_zeros:
  "absorbed m c \<Longrightarrow> length m + zeros m < 2 ^ 61 \<Longrightarrow> absorbed (m @ replicate (zeros m) 0) (final_zeros c)"
proof (induction c arbitrary: m rule: final_zeros.induct)
  case (1 c)
  have guard: "sc_count0 c AND 504 \<noteq> 448 \<longleftrightarrow> length m mod 64 \<noteq> 56"
    using absorbed_position [OF "1.prems"(1)] by (auto simp: word_unat_eq_iff and_504)
  show ?case
  proof (cases "length m mod 64 = 56")
    case True
    then show ?thesis using 1 guard by (simp add: final_zeros.simps [of c] zeros_step(2))
  next
    case False
    then have z: "zeros m = Suc (zeros (m @ [0]))" by (rule zeros_step)
    have "absorbed (m @ [0]) (sat_SHA1_Update c [0])" using "1.prems" z by (intro absorbed_Update) auto
    moreover have "length (m @ [0]) + zeros (m @ [0]) < 2 ^ 61" using "1.prems"(2) z by simp
    ultimately have "absorbed ((m @ [0]) @ replicate (zeros (m @ [0])) 0) (final_zeros (sat_SHA1_Update c [0]))"
      using "1.IH" guard False by blast
    then show ?thesis using guard False z by (simp add: final_zeros.simps [of c])
  qed
qed

lemma byte_of_word: "(ucast (drop_bit k n :: u32) :: u8) = word_of_int (uint n div 2 ^ k)"
  by (rule bit_word_eqI) (simp add: bit_simps flip: drop_bit_eq_div)

lemma PUT_UINT32_be: "PUT_UINT32 n = be_bytes 4 (uint n)"
proof -
  have "le_bytes 4 x = [word_of_int x, word_of_int (x div 256), word_of_int (x div 256 div 256), word_of_int (x div 256 div 256 div 256)]" for x
    by (simp add: numeral_eq_Suc)
  moreover have "x div 256 div 256 = x div 2 ^ 16" "x div 256 div 256 div 256 = x div 2 ^ 24" for x :: int
    using zdiv_zmult2_eq [of 256 x 256] zdiv_zmult2_eq [of 256 x "256 * 256"] zdiv_zmult2_eq [of 256 "x div 256" 256] by simp_all
  ultimately show ?thesis
    using byte_of_word [of 24 n] byte_of_word [of 16 n] byte_of_word [of 8 n] byte_of_word [of 0 n]
    by (simp add: PUT_UINT32_def be_bytes_def)
qed

lemma be_bytes_8: "be_bytes 8 (2 ^ 32 * hi + lo) = be_bytes 4 hi @ be_bytes 4 lo" if "0 \<le> lo" "lo < 2 ^ 32"
proof -
  have "le_val (le_bytes 4 lo @ le_bytes 4 hi) = lo + 2 ^ 32 * (hi mod 2 ^ 32)"
    using that by (simp add: le_val_append le_val_bytes)
  then have "le_bytes 8 (lo + 2 ^ 32 * (hi mod 2 ^ 32)) = le_bytes 4 lo @ le_bytes 4 hi"
    using le_bytes_val [of "le_bytes 4 lo @ le_bytes 4 hi" 8] by simp
  moreover have "le_bytes 8 (lo + 2 ^ 32 * (hi mod 2 ^ 32)) = le_bytes 8 (2 ^ 32 * hi + lo)"
  proof -
    have "(lo + 2 ^ 32 * (hi mod 2 ^ 32)) mod 256 ^ 8 = (2 ^ 32 * hi + lo) mod (256 ^ 8 :: int)"
      using mod_add_right_eq [of lo "2 ^ 32 * hi" "2 ^ 32 * 2 ^ 32"] by (simp add: mult_mod_right add.commute)
    then show ?thesis by (metis le_bytes_val le_val_bytes length_le_bytes)
  qed
  ultimately show ?thesis by (simp add: be_bytes_def flip: rev_append)
qed

lemma low_byte: "ucast (x AND 255 :: u32) = (ucast x :: u8)"
proof -
  have "(255 :: u32) = mask 8" by (simp add: mask_eq_decr_exp)
  then show ?thesis by (simp only: flip: take_bit_eq_mask) (auto intro!: bit_word_eqI simp: bit_simps)
qed

lemma byte_indices: "[0..<8] = [0, 1, 2, 3, 4, 5, 6, 7 :: nat]"
  "[0..<20] = [0, 1, 2, 3, 4, 5, 6, 7, 8, 9, 10, 11, 12, 13, 14, 15, 16, 17, 18, 19 :: nat]"
  by code_simp+

lemma finalcount_be: "finalcount c = be_bytes 8 (int (bit_count c))"
proof -
  have "finalcount c = PUT_UINT32 (sc_count1 c) @ PUT_UINT32 (sc_count0 c)"
    by (simp add: finalcount_def PUT_UINT32_def low_byte byte_indices)
  also have "\<dots> = be_bytes 8 (2 ^ 32 * uint (sc_count1 c) + uint (sc_count0 c))"
    using be_bytes_8 [of "uint (sc_count0 c)" "uint (sc_count1 c)"] uint_lt2p [of "sc_count0 c"] by (simp add: PUT_UINT32_be)
  finally show ?thesis by (simp add: bit_count_def mult.commute)
qed

lemma sha1_digest_bytes: "sha1_digest c = regs_bytes (sc_state c)"
  by (cases "sc_state c" rule: prod_cases5) (simp add: sha1_digest_def SHA1_DIGEST_SIZE_def PUT_UINT32_def low_byte byte_indices)

lemma Final_digest:
  assumes m: "absorbed m c" and len: "length m + 128 < 2 ^ 61"
  shows "fst (sat_SHA1_Final c) = sha1 m"
proof -
  let ?m1 = "m @ [0x80]"
  let ?m2 = "?m1 @ replicate (zeros ?m1) 0"
  have z: "zeros ?m1 < 64" by (simp add: zeros_def)
  have "absorbed ?m1 (sat_SHA1_Update c [0x80])" using m len by (intro absorbed_Update) auto
  then have "absorbed ?m2 (final_zeros (sat_SHA1_Update c [0x80]))" using len z by (intro absorbed_zeros) auto
  then have "absorbed (?m2 @ finalcount c) (sat_SHA1_Update (final_zeros (sat_SHA1_Update c [0x80])) (finalcount c))"
    using len z by (intro absorbed_Update) (auto simp: finalcount_be)
  moreover have "?m2 @ finalcount c = sha1_pad m"
    using m by (simp add: sha1_pad_def finalcount_be absorbed_def zeros_pad)
  ultimately show ?thesis
    by (simp add: sat_SHA1_Final_def Let_def sha1_digest_bytes sha1_def absorbed_def)
qed

lemma absorbed_fold:
  assumes "\<forall>d \<in> set ds. length d < 2 ^ 29" "absorbed m c" "length m + length (concat ds) < 2 ^ 61"
  shows "absorbed (m @ concat ds) (fold (\<lambda>d c. sat_SHA1_Update c d) ds c)"
  using assms
proof (induction ds arbitrary: m c)
  case (Cons d ds)
  have "absorbed (m @ d) (sat_SHA1_Update c d)" using Cons.prems by (intro absorbed_Update) auto
  then show ?case using Cons.IH [of "m @ d"] Cons.prems by simp
qed simp

lemma length_sha1 [simp]: "length (sha1 m) = 20"
  by (cases "sha1_blocks sha1_init (sha1_pad m)" rule: prod_cases5) (simp add: sha1_def PUT_UINT32_def)

lemma groups_of_four:
  "length key = 4 * n \<Longrightarrow>
     concat (map (\<lambda>i. [f (key ! (4 * i)), f (key ! (4 * i + 1)), f (key ! (4 * i + 2)), f (key ! (4 * i + 3))]) [0..<n]) = map f key"
proof (induction n arbitrary: key)
  case (Suc n)
  let ?k = "take (4 * n) key"
  have last4: "drop (4 * n) key = [key ! (4 * n), key ! (4 * n + 1), key ! (4 * n + 2), key ! (4 * n + 3)]"
    using Suc.prems Cons_nth_drop_Suc [of "4 * n" key] Cons_nth_drop_Suc [of "4 * n + 1" key]
      Cons_nth_drop_Suc [of "4 * n + 2" key] Cons_nth_drop_Suc [of "4 * n + 3" key] by (simp add: numeral_3_eq_3)
  have "map f key = map f ?k @ map f (drop (4 * n) key)" by (simp flip: map_append)
  then have "map f key = map f ?k @ [f (key ! (4 * n)), f (key ! (4 * n + 1)), f (key ! (4 * n + 2)), f (key ! (4 * n + 3))]"
    by (simp only: last4 list.map)
  moreover have "concat (map (\<lambda>i. [f (key ! (4 * i)), f (key ! (4 * i + 1)), f (key ! (4 * i + 2)), f (key ! (4 * i + 3))]) [0..<n]) =
      concat (map (\<lambda>i. [f (?k ! (4 * i)), f (?k ! (4 * i + 1)), f (?k ! (4 * i + 2)), f (?k ! (4 * i + 3))]) [0..<n])"
    by (rule arg_cong [of _ _ concat], rule map_cong) auto
  ultimately show ?case using Suc.IH [of ?k] Suc.prems by simp
qed simp

lemma store_load_xor:
  "store_le32 (load_le32 b i XOR x) =
     [b ! i XOR ucast x, b ! (i + 1) XOR ucast (drop_bit 8 x), b ! (i + 2) XOR ucast (drop_bit 16 x), b ! (i + 3) XOR ucast (drop_bit 24 x)]"
  by (auto intro!: bit_word_eqI simp: store_le32_def load_le32_def bit_simps)

lemma xor_key_bytes:
  assumes "length key = 64" "ucast x = c" "ucast (drop_bit 8 x) = c" "ucast (drop_bit 16 x) = c" "ucast (drop_bit 24 x) = c"
  shows "xor_key key x = map (\<lambda>b. b XOR c) key"
  using groups_of_four [of key 16 "\<lambda>b. b XOR c"] assms by (simp add: xor_key_def store_load_xor BLOCKSIZE_def)

text \<open>
  C29: SHA-1 is computed correctly however the data is cut: for pieces of less than \<open>2 ^ 29\<close> bytes, a
  context that was initialised (whatever its memory held) and given the pieces one after the
  other ends with the digest that FIPS 180 defines for their concatenation; \<^verbatim>\<open>lsha1\<close> is the case of
  one piece.
\<close>

theorem sha1_streaming:
  assumes "length (sc_buffer ctx) = 64" "\<forall>d \<in> set ds. length d < 2 ^ 29" "length (concat ds) < 2 ^ 60"
  shows "fst (sat_SHA1_Final (fold (\<lambda>d c. sat_SHA1_Update c d) ds (sat_SHA1_Init ctx))) = sha1 (concat ds)
    \<and> (length buffer < 2 ^ 29 \<longrightarrow> lsha1 ctx buffer = sha1 buffer)"
proof -
  have "absorbed (concat ds) (fold (\<lambda>d c. sat_SHA1_Update c d) ds (sat_SHA1_Init ctx))"
    using absorbed_fold [OF assms(2) absorbed_Init [OF assms(1)]] assms(3) by simp
  then have "fst (sat_SHA1_Final (fold (\<lambda>d c. sat_SHA1_Update c d) ds (sat_SHA1_Init ctx))) = sha1 (concat ds)"
    using assms(3) by (intro Final_digest) simp_all
  moreover have "lsha1 ctx buffer = sha1 buffer" if "length buffer < 2 ^ 29"
    using that Final_digest absorbed_Update [OF absorbed_Init [OF assms(1)], of buffer] by (simp add: lsha1_def)
  ultimately show ?thesis by blast
qed

theorem sha1_streaming_witness:
  "fst (sat_SHA1_Final (sat_SHA1_Update (sat_SHA1_Update (sat_SHA1_Init
      \<lparr>sc_state = (1, 2, 3, 4, 5), sc_count0 = 6, sc_count1 = 7, sc_buffer = replicate 64 8\<rparr>) (replicate 70 97)) [98])) =
     sha1 (replicate 70 97 @ [98])"
  using sha1_streaming [of "\<lparr>sc_state = (1, 2, 3, 4, 5), sc_count0 = 6, sc_count1 = 7, sc_buffer = replicate 64 8\<rparr>"
      "[replicate 70 97, [98]]"] by simp



text \<open>
  A piece of \<open>2 ^ 29\<close> bytes or more breaks the count: the carry test compares a 32 bit sum with a 64
  bit \<^verbatim>\<open>len << 3\<close> and always succeeds, so \<^verbatim>\<open>sat_SHA1_Update\<close> on a fresh context counts \<open>2 ^ 32\<close> bits too many and
  the digest is the one of another padding.
\<close>

theorem sha1_count_overflow:
  assumes "2 ^ 29 \<le> length data" "length data < 2 ^ 60"
  shows "bit_count (sat_SHA1_Update (sat_SHA1_Init ctx) data) = 8 * length data + 2 ^ 32"
proof -
  let ?n = "length data" and ?bits = "push_bit 3 (of_nat (length data) :: u64)"
  have bits: "unat ?bits = 8 * ?n" using assms(2) by (intro unat_bits) simp
  have lo: "unat (ucast ?bits :: u32) = 8 * ?n mod 2 ^ 32" by (simp add: unsigned_ucast_eq bits take_bit_eq_mod)
  have "unat (ucast (ucast ?bits :: u32) :: u64) < 8 * ?n"
  proof -
    have "unat (ucast ?bits :: u32) < 2 ^ 32" using unsigned_less [of "ucast ?bits :: u32", where 'a = nat] by simp
    then show ?thesis using assms(1) by (simp add: unsigned_ucast_eq unsigned_take_bit_eq take_bit_nat_eq_self)
  qed
  then have less: "(ucast (ucast ?bits :: u32) :: u64) < ?bits" by (simp only: word_less_nat_alt bits)
  have hi: "unat (1 + ucast (drop_bit 29 (of_nat ?n :: u64)) :: u32) = 1 + ?n div 2 ^ 29"
  proof -
    have "unat (drop_bit 29 (of_nat ?n :: u64)) = ?n div 2 ^ 29"
      using assms(2) by (simp add: drop_bit_eq_div unat_div_distrib unat_of_nat take_bit_nat_eq_self)
    moreover have "?n div 2 ^ 29 < 2 ^ 31" using assms(2) by (simp add: less_mult_imp_div_less)
    ultimately show ?thesis by (simp add: unat_word_ariths unsigned_ucast_eq take_bit_nat_eq_self)
  qed
  have "2 ^ 32 * (?n div 2 ^ 29) + 8 * ?n mod 2 ^ 32 = 8 * ?n"
    using div_mult_mod_eq [of "8 * ?n" "2 ^ 32"] div_mult2_eq [of "8 * ?n" 8 "2 ^ 29"] by (simp add: mult.commute)
  moreover have "sc_count0 (sat_SHA1_Update (sat_SHA1_Init ctx) data) = ucast ?bits"
    "sc_count1 (sat_SHA1_Update (sat_SHA1_Init ctx) data) = 1 + ucast (drop_bit 29 (of_nat ?n :: u64))"
    using less by (simp_all add: sat_SHA1_Update_def count_update_def sat_SHA1_Init_def Let_def split_beta)
  ultimately show ?thesis by (simp add: bit_count_def hi lo)
qed

theorem sha1_count_overflow_witness:
  "bit_count (sat_SHA1_Update (sat_SHA1_Init \<lparr>sc_state = (0, 0, 0, 0, 0), sc_count0 = 0, sc_count1 = 0, sc_buffer = []\<rparr>)
     (replicate (2 ^ 29) 0)) = 8 * 2 ^ 29 + 2 ^ 32"
  using sha1_count_overflow [of "replicate (2 ^ 29) 0" "\<lparr>sc_state = (0, 0, 0, 0, 0), sc_count0 = 0, sc_count1 = 0, sc_buffer = []\<rparr>"]
  by simp

end
