(* ===== verification/Crypt.thy ===== *)
theory Crypt
  imports Sha1
begin

text \<open>
  The rest of \<^verbatim>\<open>lua-crypt.c\<close>: the 64 bit hash and the MD5 based codes over it, hexadecimal and base64
  texts, the Diffie-Hellman exchange modulo the largest prime below \<open>2 ^ 64\<close>, xor with a repeated
  key, and random keys.
\<close>

section \<open>Random keys, hash, hexadecimal\<close>

text \<open>\<open>rs\<close> are the eight values that \<^verbatim>\<open>random()\<close> returns.\<close>

definition lrandomkey :: "u64 list \<Rightarrow> bytes" where
  "lrandomkey rs =
     (let tmp = map ucast (take 8 rs); x = fold (XOR) tmp (0 :: u8)
      in if x = 0 then tmp[0 := tmp ! 0 OR 1] else tmp)"

fun hash_loop :: "bytes \<Rightarrow> u32 \<Rightarrow> u32 \<Rightarrow> u32 \<times> u32" where
  "hash_loop [] djb_hash js_hash = (djb_hash, js_hash)"
| "hash_loop (c # str) djb_hash js_hash =
     hash_loop str (djb_hash + (push_bit 5 djb_hash + ucast c)) (js_hash XOR (push_bit 5 js_hash + ucast c + drop_bit 2 js_hash))"

definition Hash :: "bytes \<Rightarrow> bytes" where
  "Hash str = (let (djb_hash, js_hash) = hash_loop str 5381 1315423911 in store_le32 djb_hash @ store_le32 js_hash)"

definition lhashkey :: "bytes \<Rightarrow> bytes" where
  "lhashkey key = Hash key"

text \<open>The characters \<^verbatim>\<open>0123456789abcdef\<close>.\<close>

definition hex_digits :: bytes where
  "hex_digits = [48, 49, 50, 51, 52, 53, 54, 55, 56, 57, 97, 98, 99, 100, 101, 102]"

definition ltohex :: "bytes \<Rightarrow> bytes" where
  "ltohex text = concat (map (\<lambda>c. [hex_digits ! unat (drop_bit 4 c), hex_digits ! unat (c AND 0xf)]) text)"

text \<open>A byte of 128 or more is a negative \<^verbatim>\<open>char\<close>, which is no digit either.\<close>

definition HEX :: "u8 \<Rightarrow> u8" where
  "HEX c = (if c \<ge> 48 \<and> c \<le> 57 then c - 48 else c - 97 + 10)"

fun fromhex_loop :: "bytes \<Rightarrow> lua_fail + bytes" where
  "fromhex_loop (a # b # text) =
     (let hi = HEX a; low = HEX b in
      if hi > 16 \<or> low > 16 then Inl (Raise ''Invalid hex text'')
      else lbind (fromhex_loop text) (\<lambda>buffer. Inr ((push_bit 4 hi OR low) # buffer)))"
| "fromhex_loop _ = Inr []"

definition lfromhex :: "bytes \<Rightarrow> lua_fail + bytes" where
  "lfromhex text = (if odd (length text) then Inl (Raise ''Invalid hex text size'') else fromhex_loop text)"

section \<open>MD5\<close>

definition k_table :: "u32 list" where
  "k_table = [
     0xd76aa478, 0xe8c7b756, 0x242070db, 0xc1bdceee, 0xf57c0faf, 0x4787c62a, 0xa8304613, 0xfd469501,
     0x698098d8, 0x8b44f7af, 0xffff5bb1, 0x895cd7be, 0x6b901122, 0xfd987193, 0xa679438e, 0x49b40821,
     0xf61e2562, 0xc040b340, 0x265e5a51, 0xe9b6c7aa, 0xd62f105d, 0x02441453, 0xd8a1e681, 0xe7d3fbc8,
     0x21e1cde6, 0xc33707d6, 0xf4d50d87, 0x455a14ed, 0xa9e3e905, 0xfcefa3f8, 0x676f02d9, 0x8d2a4c8a,
     0xfffa3942, 0x8771f681, 0x6d9d6122, 0xfde5380c, 0xa4beea44, 0x4bdecfa9, 0xf6bb4b60, 0xbebfbc70,
     0x289b7ec6, 0xeaa127fa, 0xd4ef3085, 0x04881d05, 0xd9d4d039, 0xe6db99e5, 0x1fa27cf8, 0xc4ac5665,
     0xf4292244, 0x432aff97, 0xab9423a7, 0xfc93a039, 0x655b59c3, 0x8f0ccc92, 0xffeff47d, 0x85845dd1,
     0x6fa87e4f, 0xfe2ce6e0, 0xa3014314, 0x4e0811a1, 0xf7537e82, 0xbd3af235, 0x2ad7d2bb, 0xeb86d391]"

definition r_table :: "nat list" where
  "r_table = [
     7, 12, 17, 22, 7, 12, 17, 22, 7, 12, 17, 22, 7, 12, 17, 22,
     5, 9, 14, 20, 5, 9, 14, 20, 5, 9, 14, 20, 5, 9, 14, 20,
     4, 11, 16, 23, 4, 11, 16, 23, 4, 11, 16, 23, 4, 11, 16, 23,
     6, 10, 15, 21, 6, 10, 15, 21, 6, 10, 15, 21, 6, 10, 15, 21]"

definition LEFTROTATE :: "u32 \<Rightarrow> nat \<Rightarrow> u32" where
  "LEFTROTATE x c = push_bit c x OR drop_bit (32 - c) x"

text \<open>One iteration of the loop over the registers \<open>a, b, c, d\<close>.\<close>

fun md5_iter :: "u32 list \<Rightarrow> nat \<Rightarrow> u32 \<times> u32 \<times> u32 \<times> u32 \<Rightarrow> u32 \<times> u32 \<times> u32 \<times> u32" where
  "md5_iter w i (a, b, c, d) =
     (let (f, g) =
            (if i < 16 then ((b AND c) OR (NOT b AND d), i)
             else if i < 32 then ((d AND b) OR (NOT d AND c), (5 * i + 1) mod 16)
             else if i < 48 then (b XOR c XOR d, (3 * i + 5) mod 16)
             else (c XOR (b OR NOT d), (7 * i) mod 16))
      in (d, b + LEFTROTATE (a + f + k_table ! i + w ! g) (r_table ! i), b, c))"

definition digest_md5 :: "u32 list \<Rightarrow> u32 \<times> u32 \<times> u32 \<times> u32" where
  "digest_md5 w = fold (md5_iter w) [0..<64] (0x67452301, 0xefcdab89, 0x98badcfe, 0x10325476)"

text \<open>A 64 bit number is a pair of words, the low one first.\<close>

type_synonym qword = "u32 \<times> u32"

fun hmac :: "qword \<Rightarrow> qword \<Rightarrow> qword" where
  "hmac (x0, x1) (y0, y1) =
     (let w = concat (replicate 4 [x1, x0, y1, y0]); (r0, r1, r2, r3) = digest_md5 w in (r2 XOR r3, r0 XOR r1))"

fun hmac_md5 :: "qword \<Rightarrow> qword \<Rightarrow> qword" where
  "hmac_md5 (x0, x1) (y0, y1) =
     (let w = concat (replicate 3 [x0, x1, y0, y1]) @ [0x80, 0, 384, 0];
          (r0, r1, r2, r3) = digest_md5 w
      in ((r0 + 0x67452301) XOR (r2 + 0x98badcfe), (r1 + 0xefcdab89) XOR (r3 + 0x10325476)))"

definition read_qword :: "bytes \<Rightarrow> qword" where
  "read_qword x = (load_le32 x 0, load_le32 x 4)"

definition read64 :: "bytes \<Rightarrow> bytes \<Rightarrow> lua_fail + qword \<times> qword" where
  "read64 x y =
     (if length x \<noteq> 8 then Inl (Raise ''Invalid uint64 x'')
      else if length y \<noteq> 8 then Inl (Raise ''Invalid uint64 y'')
      else Inr (read_qword x, read_qword y))"

fun pushqword :: "qword \<Rightarrow> bytes" where
  "pushqword (r0, r1) = store_le32 r0 @ store_le32 r1"

definition lhmac64 :: "bytes \<Rightarrow> bytes \<Rightarrow> lua_fail + bytes" where
  "lhmac64 x y = lbind (read64 x y) (\<lambda>(x, y). Inr (pushqword (hmac x y)))"

definition lhmac64_md5 :: "bytes \<Rightarrow> bytes \<Rightarrow> lua_fail + bytes" where
  "lhmac64_md5 x y = lbind (read64 x y) (\<lambda>(x, y). Inr (pushqword (hmac_md5 x y)))"

definition lhmac_hash :: "bytes \<Rightarrow> bytes \<Rightarrow> lua_fail + bytes" where
  "lhmac_hash x text =
     (if length x \<noteq> 8 then Inl (Raise ''Invalid uint64 key'')
      else
        (let key = read_qword x; h = Hash text; htext = read_qword h
         in Inr (pushqword (hmac htext key))))"

section \<open>Diffie-Hellman\<close>

definition P64 :: u64 where "P64 = 0xffffffffffffffc5"
definition G64 :: u64 where "G64 = 5"

function mul_loop :: "u64 \<Rightarrow> u64 \<Rightarrow> u64 \<Rightarrow> u64" where
  "mul_loop a b m =
     (if b \<noteq> 0 then
        (let m = (if b AND 1 \<noteq> 0 then (let t = P64 - a in if m \<ge> t then m - t else m + a) else m);
             a = (if a \<ge> P64 - a then a * 2 - P64 else a * 2)
         in mul_loop a (drop_bit 1 b) m)
      else m)"
  by auto
termination
proof (relation "measure (\<lambda>(a, b, m). unat b)")
  fix a b m :: u64 and x xa
  assume "b \<noteq> 0"
  then have "unat b div 2 < unat b" by (simp add: unat_gt_0)
  then show "((xa, drop_bit 1 b, x), a, b, m) \<in> measure (\<lambda>(a, b, m). unat b)"
    by (simp add: drop_bit_eq_div unat_div_distrib)
qed simp

declare mul_loop.simps [simp del]

definition mul_mod_p :: "u64 \<Rightarrow> u64 \<Rightarrow> u64" where
  "mul_mod_p a b = mul_loop a b 0"

text \<open>With \<open>b = 0\<close> the recursion does not end; the value is then \<open>None\<close>.\<close>

partial_function (option) pow_mod_p :: "u64 \<Rightarrow> u64 \<Rightarrow> u64 option" where
  "pow_mod_p a b =
     (if b = 1 then Some a
      else Option.bind (pow_mod_p a (drop_bit 1 b)) (\<lambda>t.
        let t = mul_mod_p t t in Some (if b mod 2 \<noteq> 0 then mul_mod_p t a else t)))"

definition powmodp :: "u64 \<Rightarrow> u64 \<Rightarrow> u64 option" where
  "powmodp a b = pow_mod_p (if a > P64 then a mod P64 else a) b"

definition push64 :: "u64 \<Rightarrow> bytes" where
  "push64 n = map (\<lambda>i. ucast (drop_bit (8 * i) n AND 0xff)) [0..<8]"

fun qword64 :: "qword \<Rightarrow> u64" where
  "qword64 (x0, x1) = ucast x0 OR push_bit 32 (ucast x1)"

definition pow_result :: "u64 option \<Rightarrow> lua_fail + bytes" where
  "pow_result p = (case p of None \<Rightarrow> Inl (CFault Diverges) | Some n \<Rightarrow> Inr (push64 n))"

definition ldhsecret :: "bytes \<Rightarrow> bytes \<Rightarrow> lua_fail + bytes" where
  "ldhsecret x y =
     lbind (read64 x y) (\<lambda>(x, y).
     let xx = qword64 x; yy = qword64 y in
     if xx = 0 \<or> yy = 0 then Inl (Raise ''Can't be 0'') else pow_result (powmodp xx yy))"

definition ldhexchange :: "bytes \<Rightarrow> lua_fail + bytes" where
  "ldhexchange x =
     (if length x \<noteq> 8 then Inl (Raise ''Invalid dh uint64 key'')
      else
        (let x64 = qword64 (read_qword x)
         in if x64 = 0 then Inl (Raise ''Can't be 0'') else pow_result (powmodp G64 x64)))"

section \<open>Base64\<close>

definition encoding :: bytes where
  "encoding = [
     65, 66, 67, 68, 69, 70, 71, 72, 73, 74, 75, 76, 77, 78, 79, 80,
     81, 82, 83, 84, 85, 86, 87, 88, 89, 90, 97, 98, 99, 100, 101, 102,
     103, 104, 105, 106, 107, 108, 109, 110, 111, 112, 113, 114, 115, 116, 117, 118,
     119, 120, 121, 122, 48, 49, 50, 51, 52, 53, 54, 55, 56, 57, 43, 47]"

text \<open>Texts are shorter than \<open>2 ^ 31\<close> bytes.\<close>

fun lb64encode :: "bytes \<Rightarrow> bytes" where
  "lb64encode (a # b # c # text) =
     (let v = push_bit 16 (ucast a) OR push_bit 8 (ucast b) OR ucast c :: u32
      in [encoding ! unat (drop_bit 18 v), encoding ! unat (drop_bit 12 v AND 0x3f),
          encoding ! unat (drop_bit 6 v AND 0x3f), encoding ! unat (v AND 0x3f)] @ lb64encode text)"
| "lb64encode [a] =
     (let v = ucast a :: u32
      in [encoding ! unat (drop_bit 2 v), encoding ! unat (push_bit 4 (v AND 3)), 61, 61])"
| "lb64encode [a, b] =
     (let v = push_bit 8 (ucast a) OR ucast b :: u32
      in [encoding ! unat (drop_bit 10 v), encoding ! unat (drop_bit 4 v AND 0x3f),
          encoding ! unat (push_bit 2 (v AND 0xf)), 61])"
| "lb64encode [] = []"

definition decoding :: "int list" where
  "decoding = [
     62, - 1, - 1, - 1, 63, 52, 53, 54, 55, 56, 57, 58, 59, 60, 61, - 1, - 1, - 1, - 2, - 1,
     - 1, - 1, 0, 1, 2, 3, 4, 5, 6, 7, 8, 9, 10, 11, 12, 13, 14, 15, 16, 17,
     18, 19, 20, 21, 22, 23, 24, 25, - 1, - 1, - 1, - 1, - 1, - 1, 26, 27, 28, 29, 30, 31,
     32, 33, 34, 35, 36, 37, 38, 39, 40, 41, 42, 43, 44, 45, 46, 47, 48, 49, 50, 51]"

definition b64index :: "u8 \<Rightarrow> int" where
  "b64index c =
     (if c < 43 then - 1
      else (let c = c - 43 in if uint c \<ge> int (length decoding) then - 1 else decoding ! unat c))"

text \<open>The inner loop: the next \<open>j\<close> characters with an index, and the text behind them.\<close>

fun b64_quad :: "nat \<Rightarrow> bytes \<Rightarrow> lua_fail + int list \<times> bytes" where
  "b64_quad 0 text = Inr ([], text)"
| "b64_quad (Suc j) [] = Inl (Raise ''Invalid base64 text'')"
| "b64_quad (Suc j) (c # text) =
     (if b64index c = - 1 then b64_quad (Suc j) text
      else lbind (b64_quad j text) (\<lambda>(cs, text). Inr (b64index c # cs, text)))"

text \<open>The bytes of four characters; the number of \<^verbatim>\<open>=\<close> among them is \<^verbatim>\<open>padding\<close>.\<close>

definition b64_group :: "int list \<Rightarrow> lua_fail + bytes" where
  "b64_group c =
     (let padding = length (filter (\<lambda>x. x = - 2) c); w = (\<lambda>i. word_of_int (c ! i) :: u32) in
      if padding = 0 then
        (let v = push_bit 18 (w 0) OR push_bit 12 (w 1) OR push_bit 6 (w 2) OR w 3
         in Inr [ucast (drop_bit 16 v), ucast (drop_bit 8 v AND 0xff), ucast (v AND 0xff)])
      else if padding = 1 then
        if c ! 3 \<noteq> - 2 \<or> c ! 2 AND 3 \<noteq> 0 then Inl (Raise ''Invalid base64 text'')
        else
          (let v = push_bit 10 (w 0) OR push_bit 4 (w 1) OR drop_bit 2 (w 2)
           in Inr [ucast (drop_bit 8 v), ucast (v AND 0xff)])
      else if padding = 2 then
        if c ! 3 \<noteq> - 2 \<or> c ! 2 \<noteq> - 2 \<or> c ! 1 AND 0xf \<noteq> 0 then Inl (Raise ''Invalid base64 text'')
        else (let v = push_bit 2 (w 0) OR drop_bit 4 (w 1) in Inr [ucast v])
      else Inl (Raise ''Invalid base64 text''))"

lemma b64_quad_shorter: "b64_quad j str = Inr (cs, rest) \<Longrightarrow> length rest + j \<le> length str"
proof (induction j str arbitrary: cs rule: b64_quad.induct)
  case (3 j c str)
  show ?case
  proof (cases "b64index c = - 1")
    case True
    then show ?thesis using 3 by simp
  next
    case False
    then show ?thesis using 3 by (cases "b64_quad j str") auto
  qed
qed simp_all

function lb64decode :: "bytes \<Rightarrow> lua_fail + bytes" where
  "lb64decode text =
     (if text = [] then Inr []
      else
        (case b64_quad 4 text of
           Inl e \<Rightarrow> Inl e
         | Inr (c, rest) \<Rightarrow> lbind (b64_group c) (\<lambda>out. lbind (lb64decode rest) (\<lambda>buffer. Inr (out @ buffer)))))"
  by auto
termination by (relation "measure length") (auto dest: b64_quad_shorter)

declare lb64decode.simps [simp del]

section \<open>Xor with a key\<close>

definition lxor_str :: "bytes \<Rightarrow> bytes \<Rightarrow> lua_fail + bytes" where
  "lxor_str s1 s2 =
     (if s2 = [] then Inl (Raise ''Can't xor empty string'')
      else Inr (map (\<lambda>i. s1 ! i XOR s2 ! (i mod length s2)) [0..<length s1]))"

section \<open>Round trips of texts\<close>

lemma nibble:
  "unat (drop_bit 4 (c :: u8)) < 16" "unat (c AND 0xf) < 16" "push_bit 4 (drop_bit 4 c) OR (c AND 0xf) = c"
proof -
  have m: "c AND 0xf = take_bit 4 c" by (simp add: take_bit_eq_mask mask_eq_decr_exp)
  show "unat (c AND 0xf) < 16" unfolding m by (simp add: take_bit_eq_mod unat_mod_distrib)
  have "unat c < 256" using unsigned_less [of c, where 'a = nat] by simp
  then show "unat (drop_bit 4 c) < 16" by (simp add: drop_bit_eq_div unat_div_distrib less_mult_imp_div_less)
  show "push_bit 4 (drop_bit 4 c) OR (c AND 0xf) = c" unfolding m by (rule bit_word_eqI) (auto simp: bit_simps)
qed

lemma hex_digit: "unat (x :: u8) < 16 \<Longrightarrow> HEX (hex_digits ! unat x) = x"
proof -
  assume "unat x < 16"
  moreover have "\<forall>n \<in> set [0..<16]. HEX (hex_digits ! n) = of_nat n" by code_simp
  ultimately have "HEX (hex_digits ! unat x) = of_nat (unat x)" by simp
  then show ?thesis by simp
qed

lemma fromhex_tohex: "fromhex_loop (ltohex str) = Inr str"
proof (induction str)
  case (Cons c str)
  have "drop_bit 4 c \<le> 16" "c AND 0xf \<le> 16" using nibble(1,2) [of c] by (simp_all add: word_le_nat_alt)
  then show ?case
    using Cons nibble(3) [of c] hex_digit [OF nibble(1) [of c]] hex_digit [OF nibble(2) [of c]]
    by (simp add: ltohex_def Let_def not_less)
qed (simp add: ltohex_def)

lemma length_tohex: "length (ltohex str) = 2 * length str"
  by (induction str) (simp_all add: ltohex_def)

lemma b64_char: "n < 64 \<Longrightarrow> b64index (encoding ! n) = int n" "b64index 61 = - 2"
proof -
  have "\<forall>n \<in> set [0..<64]. b64index (encoding ! n) = int n" by code_simp
  then show "n < 64 \<Longrightarrow> b64index (encoding ! n) = int n" by simp
  show "b64index 61 = - 2" by code_simp
qed

lemma and_masks: "x AND 0x3f = take_bit 6 (x :: u32)" "x AND 0xf = take_bit 4 x" "x AND 3 = take_bit 2 x" "x AND 0xff = take_bit 8 x"
  by (simp_all add: take_bit_eq_mask mask_eq_decr_exp)

lemma bit_u8_less: "bit (x :: u8) n \<Longrightarrow> n < 8"
  by (rule ccontr) simp

lemma six_bits:
  "unat (x AND 0x3f :: u32) < 64" "unat (push_bit 2 (x AND 0xf) :: u32) < 64" "unat (push_bit 4 (x AND 3) :: u32) < 64"
proof -
  have lt: "unat (take_bit 6 y :: u32) < 64" for y by (simp add: take_bit_eq_mod unat_mod_distrib)
  have "push_bit 2 (take_bit 4 x) = take_bit 6 (push_bit 2 (take_bit 4 x))" "push_bit 4 (take_bit 2 x) = take_bit 6 (push_bit 4 (take_bit 2 x))"
    by (auto intro!: bit_word_eqI simp: bit_simps)
  then show "unat (x AND 0x3f) < 64" "unat (push_bit 2 (x AND 0xf)) < 64" "unat (push_bit 4 (x AND 3)) < 64"
    unfolding and_masks using lt by metis+
qed

lemma quad_of:
  assumes "i0 < 64" "i1 < 64" "i2 < 64" "i3 < 64"
  shows "b64_quad 4 (encoding ! i0 # encoding ! i1 # encoding ! i2 # encoding ! i3 # str) = Inr ([int i0, int i1, int i2, int i3], str)"
    "b64_quad 4 (encoding ! i0 # encoding ! i1 # encoding ! i2 # 61 # str) = Inr ([int i0, int i1, int i2, - 2], str)"
    "b64_quad 4 (encoding ! i0 # encoding ! i1 # 61 # 61 # str) = Inr ([int i0, int i1, - 2, - 2], str)"
  using assms by (simp_all add: b64_char numeral_eq_Suc)

lemma rejoin:
  "push_bit n (drop_bit n v) OR take_bit n v = (v :: u32)"
  "push_bit n (take_bit j (drop_bit n v)) OR take_bit n v = take_bit (n + j) v"
  "n + j \<le> 32 \<Longrightarrow> drop_bit n (push_bit n (take_bit j v)) = take_bit j v"
  by (auto intro!: bit_word_eqI simp: bit_simps)

lemma uint_index [simp]: "uint (x :: u32) \<noteq> - 2"
  using uint_ge_0 [of x] by linarith

lemma int_masks: "x AND 3 = take_bit 2 (x :: int)" "x AND 0xf = take_bit 4 x"
  by (simp_all add: take_bit_eq_mask mask_eq_exp_minus_1)

lemma word_of_unat: "word_of_int (int (unat (x :: u32))) = x"
  by simp

lemma group3:
  fixes a b c :: u8
  defines "v \<equiv> push_bit 16 (ucast a) OR push_bit 8 (ucast b) OR ucast c :: u32"
  shows "unat (drop_bit 18 v) < 64"
    "b64_group [int (unat (drop_bit 18 v)), int (unat (drop_bit 12 v AND 0x3f)), int (unat (drop_bit 6 v AND 0x3f)), int (unat (v AND 0x3f))] = Inr [a, b, c]"
proof -
  have top: "drop_bit 18 v = take_bit 6 (drop_bit 18 v)" by (rule bit_word_eqI) (auto simp: v_def bit_simps dest: bit_u8_less)
  then show "unat (drop_bit 18 v) < 64" using six_bits(1) [of "drop_bit 18 v"] by (simp add: and_masks)
  have "push_bit 18 (drop_bit 18 v) OR push_bit 12 (take_bit 6 (drop_bit 12 v)) OR push_bit 6 (take_bit 6 (drop_bit 6 v)) OR take_bit 6 v = v"
    using rejoin(2) [of 6 6 v] rejoin(2) [of 12 6 v] rejoin(1) [of 18 v] by simp
  moreover have "ucast (drop_bit 16 v) = a" "ucast (take_bit 8 (drop_bit 8 v)) = b" "ucast (take_bit 8 v) = c"
    by (auto intro!: bit_word_eqI simp: v_def bit_simps)
  ultimately show "b64_group [int (unat (drop_bit 18 v)), int (unat (drop_bit 12 v AND 0x3f)), int (unat (drop_bit 6 v AND 0x3f)), int (unat (v AND 0x3f))] = Inr [a, b, c]"
    by (simp add: b64_group_def Let_def and_masks)
qed

lemma group2:
  fixes a b :: u8
  defines "v \<equiv> push_bit 8 (ucast a) OR ucast b :: u32"
  shows "unat (drop_bit 10 v) < 64"
    "b64_group [int (unat (drop_bit 10 v)), int (unat (drop_bit 4 v AND 0x3f)), int (unat (push_bit 2 (v AND 0xf))), - 2] = Inr [a, b]"
proof -
  have top: "drop_bit 10 v = take_bit 6 (drop_bit 10 v)" by (rule bit_word_eqI) (auto simp: v_def bit_simps dest: bit_u8_less)
  then show "unat (drop_bit 10 v) < 64" using six_bits(1) [of "drop_bit 10 v"] by (simp add: and_masks)
  have "push_bit 10 (drop_bit 10 v) OR push_bit 4 (take_bit 6 (drop_bit 4 v)) OR drop_bit 2 (push_bit 2 (take_bit 4 v)) = v"
    using rejoin(3) [of 2 4 v] rejoin(2) [of 4 6 v] rejoin(1) [of 10 v] by simp
  moreover have "ucast (drop_bit 8 v) = a" "ucast (take_bit 8 v) = b"
    by (auto intro!: bit_word_eqI simp: v_def bit_simps)
  moreover have "int (unat (push_bit 2 (take_bit 4 v))) AND 3 = 0"
    unfolding int_masks by (rule bit_eqI) (auto simp: bit_simps)
  ultimately show "b64_group [int (unat (drop_bit 10 v)), int (unat (drop_bit 4 v AND 0x3f)), int (unat (push_bit 2 (v AND 0xf))), - 2] = Inr [a, b]"
    by (simp add: b64_group_def Let_def and_masks)
qed

lemma group1:
  fixes a :: u8
  defines "v \<equiv> ucast a :: u32"
  shows "unat (drop_bit 2 v) < 64"
    "b64_group [int (unat (drop_bit 2 v)), int (unat (push_bit 4 (v AND 3))), - 2, - 2] = Inr [a]"
proof -
  have top: "drop_bit 2 v = take_bit 6 (drop_bit 2 v)" by (rule bit_word_eqI) (auto simp: v_def bit_simps dest: bit_u8_less)
  then show "unat (drop_bit 2 v) < 64" using six_bits(1) [of "drop_bit 2 v"] by (simp add: and_masks)
  have "push_bit 2 (drop_bit 2 v) OR drop_bit 4 (push_bit 4 (take_bit 2 v)) = v"
    using rejoin(3) [of 4 2 v] rejoin(1) [of 2 v] by simp
  moreover have "ucast v = a" by (auto intro!: bit_word_eqI simp: v_def bit_simps)
  moreover have "int (unat (push_bit 4 (take_bit 2 v))) AND 0xf = 0"
    unfolding int_masks by (rule bit_eqI) (auto simp: bit_simps)
  ultimately show "b64_group [int (unat (drop_bit 2 v)), int (unat (push_bit 4 (v AND 3))), - 2, - 2] = Inr [a]"
    by (simp add: b64_group_def Let_def and_masks)
qed

lemma b64_encode_decode: "lb64decode (lb64encode str) = Inr str"
proof (induction str rule: lb64encode.induct)
  case (1 a b c str)
  define v where "v = (push_bit 16 (ucast a) OR push_bit 8 (ucast b) OR ucast c :: u32)"
  have "b64_quad 4 (lb64encode (a # b # c # str)) =
      Inr ([int (unat (drop_bit 18 v)), int (unat (drop_bit 12 v AND 0x3f)), int (unat (drop_bit 6 v AND 0x3f)), int (unat (v AND 0x3f))], lb64encode str)"
    using quad_of(1) six_bits(1) group3(1) [of a b c] by (simp add: Let_def v_def)
  moreover have "b64_group [int (unat (drop_bit 18 v)), int (unat (drop_bit 12 v AND 0x3f)), int (unat (drop_bit 6 v AND 0x3f)), int (unat (v AND 0x3f))] = Inr [a, b, c]"
    unfolding v_def by (rule group3)
  moreover have "lb64encode (a # b # c # str) \<noteq> []" by (simp add: Let_def)
  ultimately show ?case using 1 by (subst lb64decode.simps) (simp add: v_def)
next
  case (2 a)
  then show ?case
    using quad_of(3) [of "unat (drop_bit 2 (ucast a :: u32))" "unat (push_bit 4 (ucast a AND 3 :: u32))" 0 0 "[]"] group1 [of a] six_bits(3) [of "ucast a"]
    by (subst lb64decode.simps) (simp add: Let_def lb64decode.simps [of "[]"])
next
  case (3 a b)
  define v where "v = (push_bit 8 (ucast a) OR ucast b :: u32)"
  show ?case
    using quad_of(2) [of "unat (drop_bit 10 v)" "unat (drop_bit 4 v AND 0x3f)" "unat (push_bit 2 (v AND 0xf))" 0 "[]"]
      group2 [of a b] six_bits(1) [of "drop_bit 4 v"] six_bits(2) [of v]
    by (subst lb64decode.simps) (simp add: Let_def lb64decode.simps [of "[]"] v_def)
qed (simp add: lb64decode.simps [of "[]"])

text \<open>
  C32: Text encodings round trip: hexadecimal and base64 texts decode to the bytes they were made from,
  for every string of bytes (shorter than \<open>2 ^ 31\<close>), and xor with the same non-empty key twice is the identity.
\<close>

theorem text_round_trips:
  "lfromhex (ltohex str) = Inr str \<and> lb64decode (lb64encode str) = Inr str \<and>
   (key \<noteq> [] \<longrightarrow> lbind (lxor_str str key) (\<lambda>s. lxor_str s key) = Inr str)"
  by (auto simp: lfromhex_def fromhex_tohex length_tohex b64_encode_decode lxor_str_def xor.assoc intro!: nth_equalityI)

theorem text_round_trips_witness:
  "lfromhex (ltohex [0, 255]) = Inr [0, 255] \<and> lb64decode (lb64encode [0, 255]) = Inr [0, 255] \<and>
   lbind (lxor_str [0, 255] [1]) (\<lambda>s. lxor_str s [1]) = Inr [0, 255]"
  using text_round_trips [of "[0, 255]" "[1]"] by simp

text \<open>
  The check of a hexadecimal digit is off by one: \<^verbatim>\<open>g\<close> has the value 16, which \<^verbatim>\<open>hi > 16\<close> lets through,
  so that \<^verbatim>\<open>g\<close> followed by any digit decodes like that digit alone.
\<close>

theorem fromhex_accepts_g: "unat d < 16 \<Longrightarrow> lfromhex [103, hex_digits ! unat d] = Inr [d]"
proof -
  assume "unat d < 16"
  then have "HEX (hex_digits ! unat d) = d" "d \<le> 16" using hex_digit by (simp_all add: word_le_nat_alt)
  moreover have "HEX 103 = 16" by code_simp
  moreover have "256 OR d = 0 OR d" by (rule arg_cong [of _ _ "\<lambda>x. x OR d"]) simp
  ultimately show ?thesis by (simp add: lfromhex_def Let_def not_less)
qed

theorem fromhex_accepts_g_witness: "lfromhex [103, hex_digits ! unat (7 :: u8)] = Inr [7]"
  by (rule fromhex_accepts_g) simp

section \<open>Diffie-Hellman\<close>

definition pp :: int where "pp = 2 ^ 64 - 59"

lemma uint_P: "uint P64 = pp"
  by (simp add: P64_def pp_def)

lemma uint_plain:
  "0 \<le> uint a + uint b \<Longrightarrow> uint a + uint b < 2 ^ 64 \<Longrightarrow> uint (a + b :: u64) = uint a + uint b"
  "uint b \<le> uint a \<Longrightarrow> uint (a - b :: u64) = uint a - uint b"
proof -
  show "0 \<le> uint a + uint b \<Longrightarrow> uint a + uint b < 2 ^ 64 \<Longrightarrow> uint (a + b) = uint a + uint b" by (simp add: uint_word_ariths)
  show "uint (a - b) = uint a - uint b" if "uint b \<le> uint a"
  proof -
    have "uint (a - b) = (uint a - uint b) mod 2 ^ 64" by (simp add: uint_word_ariths)
    also have "\<dots> = uint a - uint b"
    proof (rule mod_pos_pos_trivial)
      have "uint a < 2 ^ 64" using uint_lt2p [of a] by simp
      then show "uint a - uint b < 2 ^ 64" using uint_ge_0 [of b] by linarith
    qed (use that in simp)
    finally show ?thesis .
  qed
qed

text \<open>Adding and doubling modulo \<open>P64\<close> without leaving 64 bits.\<close>

lemma add_mod_p:
  assumes "uint a \<le> pp" "uint m < pp"
  shows "uint (if m \<ge> P64 - a then m - (P64 - a) else m + a) = (uint m + uint a) mod pp"
proof -
  have t: "uint (P64 - a) = pp - uint a" using assms(1) by (simp add: uint_plain uint_P)
  show ?thesis
  proof (cases "m \<ge> P64 - a")
    case True
    then have le: "pp - uint a \<le> uint m" by (simp add: word_le_def t)
    then have "uint (m - (P64 - a)) = uint m + uint a - pp" by (simp add: uint_plain t)
    moreover have "(uint m + uint a) mod pp = uint m + uint a - pp"
    proof -
      have "(uint m + uint a - pp) mod pp = uint m + uint a - pp" using le assms by (intro mod_pos_pos_trivial) simp_all
      then show ?thesis by simp
    qed
    ultimately show ?thesis using True by simp
  next
    case False
    then have less: "uint m < pp - uint a" by (simp add: word_le_def t)
    then have "uint (m + a) = uint m + uint a" by (intro uint_plain) (simp_all add: pp_def)
    then show ?thesis using False less by simp
  qed
qed

lemma double_mod_p:
  assumes "uint a \<le> pp"
  defines "a' \<equiv> (if a \<ge> P64 - a then a * 2 - P64 else a * 2)"
  shows "uint a' \<le> pp" "uint a' mod pp = 2 * uint a mod pp" "uint a < pp \<Longrightarrow> uint a' < pp"
proof -
  have t: "uint (P64 - a) = pp - uint a" using assms(1) by (simp add: uint_plain uint_P)
  have "uint a' = (if pp - uint a \<le> uint a then 2 * uint a - pp else 2 * uint a)"
  proof (cases "pp - uint a \<le> uint a")
    case True
    have "uint (a * 2 - P64) = (uint a * 2 - pp) mod 2 ^ 64" by (simp add: uint_word_ariths uint_P mod_diff_left_eq)
    also have "\<dots> = uint a * 2 - pp" using True assms(1) by (intro mod_pos_pos_trivial) (simp_all add: pp_def)
    finally show ?thesis using True by (simp add: a'_def word_le_def t)
  next
    case False
    then have "uint (a * 2) = uint a * 2" by (simp add: uint_word_ariths pp_def)
    then show ?thesis using False by (simp add: a'_def word_le_def t)
  qed
  then show "uint a' \<le> pp" "uint a' mod pp = 2 * uint a mod pp" "uint a < pp \<Longrightarrow> uint a' < pp"
    using assms(1) by (auto simp: mod_diff_right_eq)
qed

lemma mul_loop_mod:
  "uint a \<le> pp \<Longrightarrow> uint m < pp \<Longrightarrow> uint (mul_loop a b m) = (uint m + uint a * uint b) mod pp"
proof (induction a b m rule: mul_loop.induct)
  case (1 a b m)
  show ?case
  proof (cases "b = 0")
    case True
    then show ?thesis using 1 by (simp add: mul_loop.simps)
  next
    case False
    define m' where "m' = (if b AND 1 \<noteq> 0 then (let t = P64 - a in if m \<ge> t then m - t else m + a) else m)"
    define a' where "a' = (if a \<ge> P64 - a then a * 2 - P64 else a * 2)"
    have a': "uint a' \<le> pp" "uint a' mod pp = 2 * uint a mod pp"
      using double_mod_p [OF "1.prems"(1)] by (simp_all add: a'_def)
    have odd: "b AND 1 \<noteq> 0 \<longleftrightarrow> odd (uint b)" using bit_uint_iff [of b 0] by (simp add: and_one_eq bit_0 mod_2_eq_odd)
    have m': "uint m' = (uint m + uint a * (uint b mod 2)) mod pp"
      using add_mod_p [OF "1.prems"] "1.prems"(2) odd by (auto simp: m'_def Let_def odd_iff_mod_2_eq_one)
    have b: "uint (drop_bit 1 b) = uint b div 2" by (simp add: drop_bit_eq_div uint_div_distrib)
    have "pp > 0" by (simp add: pp_def)
    then have "uint m' < pp" by (simp add: m')
    then have "uint (mul_loop a' (drop_bit 1 b) m') = (uint m' + uint a' * (uint b div 2)) mod pp"
      using "1.IH" [OF False m'_def a'_def a'(1)] b by simp
    also have "\<dots> = (uint m + uint a * (uint b mod 2) + 2 * uint a * (uint b div 2)) mod pp"
      unfolding m' by (intro mod_add_cong mod_mult_cong a'(2)) simp_all
    also have "uint m + uint a * (uint b mod 2) + 2 * uint a * (uint b div 2) = uint m + uint a * (2 * (uint b div 2) + uint b mod 2)"
      by (simp only: distrib_left ac_simps)
    also have "2 * (uint b div 2) + uint b mod 2 = uint b" by simp
    finally show ?thesis using False by (simp add: mul_loop.simps [of a b m] Let_def flip: m'_def a'_def)
  qed
qed

lemma mul_mod_p: "uint a \<le> pp \<Longrightarrow> uint (mul_mod_p a b) = uint a * uint b mod pp"
  using mul_loop_mod [of a 0 b] by (simp add: mul_mod_p_def pp_def)

text \<open>\<open>pow_mod_p\<close> returns for every exponent but 0, and does not for 0.\<close>

lemma pow_mod_p_some:
  assumes "uint a < pp" "b \<noteq> 0"
  shows "\<exists>t. pow_mod_p a b = Some t \<and> uint t = uint a ^ unat b mod pp"
  using assms(2)
proof (induction b rule: measure_induct_rule [of unat])
  case (less b)
  show ?case
  proof (cases "b = 1")
    case True
    then show ?thesis using assms(1) by (simp add: pow_mod_p.simps)
  next
    case False
    have u: "unat b \<noteq> 0" "unat b \<noteq> 1" using less.prems False by (simp_all add: word_unat_eq_iff)
    have half: "unat (drop_bit 1 b) = unat b div 2" by (simp add: drop_bit_eq_div unat_div_distrib)
    then have "unat (drop_bit 1 b) \<noteq> 0" "unat (drop_bit 1 b) < unat b" using u by linarith+
    then obtain t where t: "pow_mod_p a (drop_bit 1 b) = Some t" "uint t = uint a ^ (unat b div 2) mod pp"
      using less.IH [of "drop_bit 1 b"] half by (metis unat_0)
    have pp: "pp > 0" by (simp add: pp_def)
    then have "uint t \<le> pp" by (simp add: t(2) less_imp_le)
    then have sq: "uint (mul_mod_p t t) = uint a ^ (2 * (unat b div 2)) mod pp"
      by (simp add: mul_mod_p t(2) mod_mult_eq power_even_eq power2_eq_square flip: power_mult)
    then have "uint (mul_mod_p t t) \<le> pp" using pp by (simp add: less_imp_le)
    then have one: "uint (mul_mod_p (mul_mod_p t t) a) = uint a ^ Suc (2 * (unat b div 2)) mod pp"
      by (simp add: mul_mod_p sq mod_mult_right_eq mult.commute)
    have odd: "b mod 2 \<noteq> 0 \<longleftrightarrow> odd (unat b)" using bit_unsigned_iff [of b 0, where 'a = nat] by (simp add: bit_0 mod_2_eq_odd)
    then have "uint (if b mod 2 \<noteq> 0 then mul_mod_p (mul_mod_p t t) a else mul_mod_p t t) = uint a ^ unat b mod pp"
      using sq one by (cases "odd (unat b)") (auto elim!: oddE evenE simp: odd)
    then show ?thesis using False t(1) by (subst pow_mod_p.simps) (simp add: Let_def)
  qed
qed

lemma pow_mod_p_zero: "pow_mod_p a 0 = None"
proof -
  have "b \<noteq> 0" if "pow_mod_p a b = Some t" for b t
  proof (rule pow_mod_p.raw_induct [of "\<lambda>a b t. b \<noteq> 0", OF _ that])
    fix f :: "u64 \<Rightarrow> u64 \<Rightarrow> u64 option" and a b y
    assume IH: "\<And>a b y. f a b = Some y \<Longrightarrow> b \<noteq> 0"
      and body: "(if b = 1 then Some a
        else Option.bind (f a (drop_bit 1 b)) (\<lambda>t. let t = mul_mod_p t t in Some (if b mod 2 \<noteq> 0 then mul_mod_p t a else t))) = Some y"
    show "b \<noteq> 0"
    proof
      assume "b = 0"
      then obtain s where "f a 0 = Some s" using body by (auto simp: bind_eq_Some_conv)
      then show False using IH by blast
    qed
  qed
  then show ?thesis by (cases "pow_mod_p a 0") auto
qed



lemma length_push64 [simp]: "length (push64 n) = 8"
  by (simp add: push64_def)

lemma push64_byte: "j < 8 \<Longrightarrow> push64 n ! j = ucast (drop_bit (8 * j) n)"
proof -
  have "x AND 0xff = take_bit 8 x" for x :: u64 by (simp add: take_bit_eq_mask mask_eq_decr_exp)
  then show "j < 8 \<Longrightarrow> push64 n ! j = ucast (drop_bit (8 * j) n)" by (auto intro!: bit_word_eqI simp: push64_def bit_simps)
qed

lemma load_bytes:
  assumes "\<And>j. j < 4 \<Longrightarrow> bs ! (i + j) = ucast (drop_bit (8 * j) (n :: u64))"
  shows "load_le32 bs i = ucast n"
proof (rule bit_word_eqI)
  fix m :: nat
  assume "m < LENGTH(32)"
  then consider "m < 8" | "8 \<le> m" "m < 16" | "16 \<le> m" "m < 24" | "24 \<le> m" "m < 32" by fastforce
  then show "bit (load_le32 bs i) m = bit (ucast n :: u32) m"
    using assms [of 0] assms [of 1] assms [of 2] assms [of 3]
    by cases (auto simp: load_le32_def bit_simps)
qed

lemma qword_push64: "qword64 (read_qword (push64 n)) = n"
proof -
  have "load_le32 (push64 n) 0 = ucast n" by (rule load_bytes) (simp add: push64_byte)
  moreover have "load_le32 (push64 n) 4 = ucast (drop_bit 32 n)" by (rule load_bytes) (simp add: push64_byte add.commute)
  moreover have "ucast (ucast n :: u32) OR push_bit 32 (ucast (ucast (drop_bit 32 n) :: u32)) = n"
    by (rule bit_word_eqI) (auto simp: bit_simps)
  ultimately show ?thesis by (simp add: read_qword_def)
qed

lemma G_power:
  assumes "x \<noteq> 0"
  obtains e where "powmodp G64 x = Some e" "uint e = 5 ^ unat x mod pp" "e \<noteq> 0" "uint e < pp"
proof -
  have "uint G64 < pp" "\<not> G64 > P64" by (simp_all add: G64_def pp_def P64_def)
  then obtain e where e: "powmodp G64 x = Some e" "uint e = 5 ^ unat x mod pp"
    using pow_mod_p_some [of G64 x] assms by (auto simp: powmodp_def G64_def)
  have "coprime 5 pp"
  proof (rule coprimeI)
    fix d
    assume "d dvd 5" "d dvd pp"
    then have "d dvd 3 * pp - 5 * 11068046444225730934" by (intro dvd_diff dvd_mult dvd_mult2)
    then show "is_unit d" by (simp add: pp_def)
  qed
  then have "coprime (5 ^ unat x) pp" by simp
  moreover have "\<not> is_unit pp" by (simp add: pp_def)
  ultimately have "\<not> pp dvd 5 ^ unat x" using coprime_common_divisor [of "5 ^ unat x" pp pp] by auto
  then have "e \<noteq> 0" using e(2) by (auto simp: dvd_eq_mod_eq_0)
  moreover have "uint e < pp" using e(2) by (simp add: pp_def)
  ultimately show ?thesis using that e by blast
qed

lemma dh_secret:
  assumes "uint e = 5 ^ n mod pp" "e \<noteq> 0" "uint e < pp" "length y = 8" "qword64 (read_qword y) \<noteq> 0"
  shows "\<exists>s. ldhsecret (push64 e) y = Inr (push64 s) \<and> uint s = 5 ^ (n * unat (qword64 (read_qword y))) mod pp"
proof -
  let ?y = "qword64 (read_qword y)"
  have "\<not> e > P64" using assms(3) by (simp add: word_less_def uint_P)
  moreover obtain s where "pow_mod_p e ?y = Some s" "uint s = uint e ^ unat ?y mod pp"
    using pow_mod_p_some [OF assms(3,5)] by blast
  ultimately show ?thesis using assms
    by (intro exI [of _ s]) (simp add: ldhsecret_def read64_def qword_push64 powmodp_def pow_result_def Let_def power_mod power_mult)
qed

text \<open>
  C27: Key agreement: for any two secrets of eight bytes that are not zero, both sides get a public value
  from \<^verbatim>\<open>ldhexchange\<close>, and \<^verbatim>\<open>ldhsecret\<close> of the other side's public value and the own secret is the same
  key on both sides, \<open>G64 ^ (x * y) mod P64\<close>; no call raises an error.
\<close>

theorem dh_agreement:
  assumes "length x = 8" "length y = 8" "qword64 (read_qword x) \<noteq> 0" "qword64 (read_qword y) \<noteq> 0"
  shows "\<exists>ex ey s. ldhexchange x = Inr ex \<and> ldhexchange y = Inr ey \<and>
    ldhsecret ex y = Inr s \<and> ldhsecret ey x = Inr s"
proof -
  let ?x = "qword64 (read_qword x)" and ?y = "qword64 (read_qword y)"
  obtain ex where ex: "powmodp G64 ?x = Some ex" "uint ex = 5 ^ unat ?x mod pp" "ex \<noteq> 0" "uint ex < pp"
    using G_power [OF assms(3)] .
  obtain ey where ey: "powmodp G64 ?y = Some ey" "uint ey = 5 ^ unat ?y mod pp" "ey \<noteq> 0" "uint ey < pp"
    using G_power [OF assms(4)] .
  obtain s where s: "ldhsecret (push64 ex) y = Inr (push64 s)" "uint s = 5 ^ (unat ?x * unat ?y) mod pp"
    using dh_secret [OF ex(2,3,4) assms(2,4)] by blast
  obtain s' where s': "ldhsecret (push64 ey) x = Inr (push64 s')" "uint s' = 5 ^ (unat ?y * unat ?x) mod pp"
    using dh_secret [OF ey(2,3,4) assms(1,3)] by blast
  have "s = s'" using s(2) s'(2) by (simp add: mult.commute word_uint_eq_iff)
  moreover have "ldhexchange x = Inr (push64 ex)" "ldhexchange y = Inr (push64 ey)"
    using assms ex(1) ey(1) by (simp_all add: ldhexchange_def pow_result_def Let_def)
  ultimately show ?thesis using s(1) s'(1) by blast
qed

theorem dh_agreement_witness:
  "\<exists>ex ey s. ldhexchange [1, 2, 3, 4, 5, 6, 7, 8] = Inr ex \<and> ldhexchange (replicate 8 255) = Inr ey \<and>
    ldhsecret ex (replicate 8 255) = Inr s \<and> ldhsecret ey [1, 2, 3, 4, 5, 6, 7, 8] = Inr s"
proof (rule dh_agreement)
  show "qword64 (read_qword [1, 2, 3, 4, 5, 6, 7, 8]) \<noteq> 0" by code_simp
  show "qword64 (read_qword (replicate 8 255)) \<noteq> 0" by code_simp
qed simp_all

section \<open>The code based on MD5\<close>

text \<open>
  RFC 1321 on a message of whole bytes: the auxiliary functions F, G, H, I, the steps in the
  order of the words, the padding to a whole number of blocks, little-endian output. The tables
  of sines and of shifts are those of the program.
\<close>

definition md5_F :: "nat \<Rightarrow> u32 \<Rightarrow> u32 \<Rightarrow> u32 \<Rightarrow> u32" where
  "md5_F i x y z =
     (if i < 16 then (x AND y) OR (NOT x AND z)
      else if i < 32 then (x AND z) OR (y AND NOT z)
      else if i < 48 then x XOR y XOR z
      else y XOR (x OR NOT z))"

definition md5_word :: "nat \<Rightarrow> nat" where
  "md5_word i = (if i < 16 then i else if i < 32 then (1 + 5 * (i - 16)) mod 16
     else if i < 48 then (5 + 3 * (i - 32)) mod 16 else 7 * (i - 48) mod 16)"

fun md5_step :: "bytes \<Rightarrow> nat \<Rightarrow> u32 \<times> u32 \<times> u32 \<times> u32 \<Rightarrow> u32 \<times> u32 \<times> u32 \<times> u32" where
  "md5_step m i (a, b, c, d) =
     (d, b + LEFTROTATE (a + md5_F i b c d + load_le32 m (4 * md5_word i) + k_table ! i) (r_table ! i), b, c)"

fun md5_add :: "u32 \<times> u32 \<times> u32 \<times> u32 \<Rightarrow> u32 \<times> u32 \<times> u32 \<times> u32 \<Rightarrow> u32 \<times> u32 \<times> u32 \<times> u32" where
  "md5_add (a, b, c, d) (a', b', c', d') = (a + a', b + b', c + c', d + d')"

function md5_blocks :: "u32 \<times> u32 \<times> u32 \<times> u32 \<Rightarrow> bytes \<Rightarrow> u32 \<times> u32 \<times> u32 \<times> u32" where
  "md5_blocks h m =
     (if length m < 64 then h else md5_blocks (md5_add (fold (md5_step m) [0..<64] h) h) (drop 64 m))"
  by auto
termination by (relation "measure (\<lambda>(h, m). length m)") auto

declare md5_blocks.simps [simp del]

definition md5_pad :: "bytes \<Rightarrow> bytes" where
  "md5_pad m = m @ [0x80] @ replicate (nat ((55 - int (length m)) mod 64)) 0 @ le_bytes 8 (8 * int (length m))"

definition md5 :: "bytes \<Rightarrow> bytes" where
  "md5 m = (case md5_blocks (0x67452301, 0xefcdab89, 0x98badcfe, 0x10325476) (md5_pad m) of
     (a, b, c, d) \<Rightarrow> store_le32 a @ store_le32 b @ store_le32 c @ store_le32 d)"

lemma md5_word_table:
  "i < 64 \<Longrightarrow> md5_word i = (if i < 16 then i else if i < 32 then (5 * i + 1) mod 16 else if i < 48 then (3 * i + 5) mod 16 else (7 * i) mod 16)
     \<and> md5_word i < 16"
proof -
  have "\<forall>i \<in> set [0..<64]. md5_word i = (if i < 16 then i else if i < 32 then (5 * i + 1) mod 16 else if i < 48 then (3 * i + 5) mod 16 else (7 * i) mod 16)
     \<and> md5_word i < 16" by code_simp
  then show "i < 64 \<Longrightarrow> ?thesis" by simp
qed

lemma md5_iter_step:
  assumes "i < 64" "\<And>g. g < 16 \<Longrightarrow> w ! g = load_le32 m (4 * g)"
  shows "md5_iter w i h = md5_step m i h"
proof -
  obtain a b c d where h: "h = (a, b, c, d)" using prod_cases4 by blast
  have "md5_iter w i h = (d, b + LEFTROTATE (a + md5_F i b c d + k_table ! i + w ! md5_word i) (r_table ! i), b, c)"
    using md5_word_table [OF assms(1)] by (auto simp: h md5_F_def and.commute)
  moreover have "w ! md5_word i = load_le32 m (4 * md5_word i)" using assms md5_word_table by blast
  ultimately show ?thesis by (simp add: h add.assoc add.commute [of "k_table ! i"])
qed

lemma eight: "length x = 8 \<Longrightarrow> \<exists>a b c d e f g h. x = [a, b, c, d, e, f, g, h]"
  by (auto simp: length_Suc_conv numeral_eq_Suc)

lemma hmac_md5_words:
  assumes "length x = 8" "length y = 8" "g < 16"
  shows "(concat (replicate 3 [load_le32 x 0, load_le32 x 4, load_le32 y 0, load_le32 y 4]) @ [0x80, 0, 384, 0]) ! g =
    load_le32 (md5_pad (concat (replicate 3 (x @ y)))) (4 * g)"
proof -
  obtain x0 x1 x2 x3 x4 x5 x6 x7 y0 y1 y2 y3 y4 y5 y6 y7 where
    xy: "x = [x0, x1, x2, x3, x4, x5, x6, x7]" "y = [y0, y1, y2, y3, y4, y5, y6, y7]" using eight assms(1,2) by metis
  have pad: "md5_pad (concat (replicate 3 (x @ y))) =
      x @ y @ x @ y @ x @ y @ [0x80, 0, 0, 0, 0, 0, 0, 0, 0x80, 0x01, 0, 0, 0, 0, 0, 0]"
  proof -
    have "le_bytes 8 384 = [0x80, 1, 0, 0, 0, 0, 0, 0]" "replicate 7 0 = [0, 0, 0, 0, 0, 0, 0 :: u8]" by code_simp+
    then show ?thesis by (simp add: md5_pad_def xy numeral_3_eq_3)
  qed
  have "g \<in> {0, 1, 2, 3, 4, 5, 6, 7, 8, 9, 10, 11, 12, 13, 14, 15}" using assms(3) by simp presburger
  then show ?thesis unfolding pad by (auto simp: xy load_le32_def numeral_3_eq_3)
qed

lemma store_xor: "store_le32 (a XOR b) = map2 (XOR) (store_le32 a) (store_le32 b)"
  by (auto intro!: bit_word_eqI simp: store_le32_def bit_simps)

lemma lxor_same: "length xs = length ys \<Longrightarrow> ys \<noteq> [] \<Longrightarrow> lxor_str xs ys = Inr (map2 (XOR) xs ys)"
  by (auto simp: lxor_str_def intro!: nth_equalityI)



text \<open>A random key has a bit set, whatever the generator returned.\<close>

lemma lrandomkey_nonzero:
  assumes "length rs \<ge> 8"
  shows "length (lrandomkey rs) = 8 \<and> (\<exists>b \<in> set (lrandomkey rs). b \<noteq> 0)"
proof -
  let ?tmp = "map ucast (take 8 rs) :: u8 list"
  have len: "length ?tmp = 8" using assms by simp
  have zero: "fold (XOR) bs 0 = 0" if "\<forall>b \<in> set bs. b = (0 :: u8)" for bs
    using that by (induction bs) auto
  have "?tmp[0 := ?tmp ! 0 OR 1] ! 0 \<noteq> 0"
  proof
    assume "?tmp[0 := ?tmp ! 0 OR 1] ! 0 = 0"
    then have "bit (?tmp ! 0 OR 1) 0 = bit (0 :: u8) 0" using len by (simp only: nth_list_update_eq)
    then show False by (simp add: bit_simps)
  qed
  then have "\<exists>b \<in> set (?tmp[0 := ?tmp ! 0 OR 1]). b \<noteq> 0"
    using len by (metis length_list_update nth_mem zero_less_numeral)
  moreover have "\<exists>b \<in> set ?tmp. b \<noteq> 0" if "fold (XOR) ?tmp 0 \<noteq> 0" using zero [of ?tmp] that by blast
  ultimately show ?thesis using len unfolding lrandomkey_def Let_def by (simp only: length_list_update split: if_split) blast
qed

end
