(* ===== verification/Mq.thy ===== *)
theory Mq
  imports Prelude
begin

text \<open>
  The message queues of \<^verbatim>\<open>skynet-src/skynet_mq.c\<close>: one growing ring buffer per service
  (\<^verbatim>\<open>struct message_queue\<close>) and the global queue of those that have work, a linked list
  through their \<^verbatim>\<open>next\<close> fields (\<^verbatim>\<open>struct global_queue\<close>). Every operation runs under the
  spinlock of the structure it changes, so an operation is one atomic function here and an
  interleaving of threads is a sequence of operations.

  A cell of the ring is \<open>None\<close> until it is first written (the array comes from
  \<^verbatim>\<open>skynet_malloc\<close>). The C \<^verbatim>\<open>int\<close>s are naturals: no field is ever negative, and none
  overflows as long as a queue holds fewer than \<open>2 ^ 30\<close> messages.
\<close>

section \<open>Data\<close>

definition DEFAULT_QUEUE_SIZE :: nat where "DEFAULT_QUEUE_SIZE = 64"
definition MQ_IN_GLOBAL :: nat where "MQ_IN_GLOBAL = 1"
definition MQ_OVERLOAD :: nat where "MQ_OVERLOAD = 1024"

type_synonym qref = nat

record 'm message_queue =
  mq_handle :: u32
  mq_cap :: nat
  mq_head :: nat
  mq_tail :: nat
  mq_release :: nat
  mq_in_global :: nat
  mq_overload :: nat
  mq_overload_threshold :: nat
  mq_queue :: "'m option list"
  mq_next :: "qref option"

text \<open>The heap of queues and the global queue \<^verbatim>\<open>Q\<close>.\<close>

record 'm mqs =
  mqs_heap :: "qref \<rightharpoonup> 'm message_queue"
  mqs_head :: "qref option"
  mqs_tail :: "qref option"

section \<open>Operations\<close>

definition skynet_mq_init :: "'m mqs" where
  "skynet_mq_init = \<lparr>mqs_heap = Map.empty, mqs_head = None, mqs_tail = None\<rparr>"

definition skynet_globalmq_push :: "qref \<Rightarrow> 'm mqs \<Rightarrow> 'm mqs result" where
  "skynet_globalmq_push r s =
     (case mqs_heap s r of
        None \<Rightarrow> Inl NullDeref
      | Some q \<Rightarrow>
          rbind (cassert (mq_next q = None)) (\<lambda>_.
          (case mqs_tail s of
             Some t \<Rightarrow>
               (case mqs_heap s t of
                  None \<Rightarrow> Inl NullDeref
                | Some tq \<Rightarrow> Inr (s\<lparr>mqs_heap := (mqs_heap s)(t \<mapsto> tq\<lparr>mq_next := Some r\<rparr>),
                                   mqs_tail := Some r\<rparr>))
           | None \<Rightarrow> Inr (s\<lparr>mqs_head := Some r, mqs_tail := Some r\<rparr>))))"

definition skynet_globalmq_pop :: "'m mqs \<Rightarrow> (qref option \<times> 'm mqs) result" where
  "skynet_globalmq_pop s =
     (case mqs_head s of
        None \<Rightarrow> Inr (None, s)
      | Some r \<Rightarrow>
          (case mqs_heap s r of
             None \<Rightarrow> Inl NullDeref
           | Some q \<Rightarrow>
               (let s1 = s\<lparr>mqs_head := mq_next q\<rparr> in
                rbind (if mqs_head s1 = None
                       then rbind (cassert (mqs_tail s1 = Some r)) (\<lambda>_. Inr (s1\<lparr>mqs_tail := None\<rparr>))
                       else Inr s1)
                  (\<lambda>s2. Inr (Some r, s2\<lparr>mqs_heap := (mqs_heap s2)(r \<mapsto> q\<lparr>mq_next := None\<rparr>)\<rparr>)))))"

definition skynet_mq_create :: "u32 \<Rightarrow> 'm message_queue" where
  "skynet_mq_create h =
     \<lparr>mq_handle = h, mq_cap = DEFAULT_QUEUE_SIZE, mq_head = 0, mq_tail = 0, mq_release = 0,
      mq_in_global = MQ_IN_GLOBAL, mq_overload = 0, mq_overload_threshold = MQ_OVERLOAD,
      mq_queue = replicate DEFAULT_QUEUE_SIZE None, mq_next = None\<rparr>"

text \<open>\<^verbatim>\<open>_release\<close> frees the queue.\<close>

definition mq_free :: "qref \<Rightarrow> 'm mqs \<Rightarrow> 'm mqs result" where
  "mq_free r s =
     (case mqs_heap s r of
        None \<Rightarrow> Inl NullDeref
      | Some q \<Rightarrow> rbind (cassert (mq_next q = None)) (\<lambda>_.
                    Inr (s\<lparr>mqs_heap := (mqs_heap s)(r := None)\<rparr>)))"

definition skynet_mq_handle :: "'m message_queue \<Rightarrow> u32" where
  "skynet_mq_handle q = mq_handle q"

definition skynet_mq_length :: "'m message_queue \<Rightarrow> nat" where
  "skynet_mq_length q =
     (if mq_head q \<le> mq_tail q then mq_tail q - mq_head q
      else mq_tail q + mq_cap q - mq_head q)"

definition skynet_mq_overload :: "'m message_queue \<Rightarrow> nat \<times> 'm message_queue" where
  "skynet_mq_overload q =
     (if mq_overload q \<noteq> 0 then (mq_overload q, q\<lparr>mq_overload := 0\<rparr>) else (0, q))"

text \<open>
  The loop \<^verbatim>\<open>while (length > q->overload_threshold)\<close>. The threshold starts at
  \<^verbatim>\<open>MQ_OVERLOAD\<close> and only doubles, so the test that it is positive, which makes the
  recursion well-founded, never decides the loop (\<open>mq_wf\<close>).
\<close>

function overload_loop :: "nat \<Rightarrow> nat \<Rightarrow> nat \<Rightarrow> nat \<times> nat" where
  "overload_loop len ov thr =
     (if 0 < thr \<and> len > thr then overload_loop len len (thr * 2) else (ov, thr))"
  by pat_completeness auto
termination
  by (relation "measure (\<lambda>(len, ov, thr). len - thr)") auto

declare overload_loop.simps [simp del]

text \<open>
  \<^verbatim>\<open>skynet_mq_pop\<close> returns 0 with the message or 1: \<open>Some\<close> or \<open>None\<close> here. The cell
  at \<^verbatim>\<open>head\<close> of a well-formed non-empty queue is initialised.
\<close>

definition skynet_mq_pop :: "'m message_queue \<Rightarrow> 'm option \<times> 'm message_queue" where
  "skynet_mq_pop q =
     (if mq_head q \<noteq> mq_tail q then
        (let message = mq_queue q ! mq_head q;
             head = mq_head q + 1; tail = mq_tail q; cap = mq_cap q;
             head = (if head \<ge> cap then 0 else head);
             len = (if tail < head then tail + cap - head else tail - head);
             (ov, thr) = overload_loop len (mq_overload q) (mq_overload_threshold q)
         in (message, q\<lparr>mq_head := head, mq_overload := ov, mq_overload_threshold := thr\<rparr>))
      else (None, q\<lparr>mq_overload_threshold := MQ_OVERLOAD, mq_in_global := 0\<rparr>))"

definition expand_queue :: "'m message_queue \<Rightarrow> 'm message_queue" where
  "expand_queue q =
     (let cap = mq_cap q;
          new_queue = map (\<lambda>i. mq_queue q ! ((mq_head q + i) mod cap)) [0..<cap]
                      @ replicate (cap * 2 - cap) None
      in q\<lparr>mq_head := 0, mq_tail := cap, mq_cap := cap * 2, mq_queue := new_queue\<rparr>)"

text \<open>The part of \<^verbatim>\<open>skynet_mq_push\<close> that changes the ring.\<close>

definition mq_enqueue :: "'m message_queue \<Rightarrow> 'm \<Rightarrow> 'm message_queue" where
  "mq_enqueue q m =
     (let q1 = q\<lparr>mq_queue := (mq_queue q)[mq_tail q := Some m]\<rparr>;
          t = mq_tail q1 + 1;
          q2 = q1\<lparr>mq_tail := (if t \<ge> mq_cap q1 then 0 else t)\<rparr>
      in if mq_head q2 = mq_tail q2 then expand_queue q2 else q2)"

definition skynet_mq_push :: "qref \<Rightarrow> 'm \<Rightarrow> 'm mqs \<Rightarrow> 'm mqs result" where
  "skynet_mq_push r m s =
     (case mqs_heap s r of
        None \<Rightarrow> Inl NullDeref
      | Some q \<Rightarrow>
          (let q' = mq_enqueue q m in
           if mq_in_global q' = 0
           then skynet_globalmq_push r
                  (s\<lparr>mqs_heap := (mqs_heap s)(r \<mapsto> q'\<lparr>mq_in_global := MQ_IN_GLOBAL\<rparr>)\<rparr>)
           else Inr (s\<lparr>mqs_heap := (mqs_heap s)(r \<mapsto> q')\<rparr>)))"

definition skynet_mq_mark_release :: "qref \<Rightarrow> 'm mqs \<Rightarrow> 'm mqs result" where
  "skynet_mq_mark_release r s =
     (case mqs_heap s r of
        None \<Rightarrow> Inl NullDeref
      | Some q \<Rightarrow>
          rbind (cassert (mq_release q = 0)) (\<lambda>_.
          (let s1 = s\<lparr>mqs_heap := (mqs_heap s)(r \<mapsto> q\<lparr>mq_release := 1\<rparr>)\<rparr> in
           if mq_in_global q \<noteq> MQ_IN_GLOBAL then skynet_globalmq_push r s1 else Inr s1)))"

text \<open>
  \<^verbatim>\<open>_drop_queue\<close> pops every message, passes it to \<^verbatim>\<open>drop_func\<close> and frees the queue. The
  messages are returned in the order in which \<^verbatim>\<open>drop_func\<close> gets them: nothing else can reach
  a released queue, so that the caller's function runs after the loop makes no difference.
\<close>

definition drop_queue :: "qref \<Rightarrow> 'm mqs \<Rightarrow> ('m list \<times> 'm mqs) result" where
  "drop_queue r s =
     (case mqs_heap s r of
        None \<Rightarrow> Inl NullDeref
      | Some q \<Rightarrow>
          (let (dropped, q') = fifo_drain skynet_mq_pop (Suc (skynet_mq_length q)) q in
           rbind (mq_free r (s\<lparr>mqs_heap := (mqs_heap s)(r \<mapsto> q')\<rparr>)) (\<lambda>s'.
           Inr (dropped, s'))))"

definition skynet_mq_release :: "qref \<Rightarrow> 'm mqs \<Rightarrow> ('m list \<times> 'm mqs) result" where
  "skynet_mq_release r s =
     (case mqs_heap s r of
        None \<Rightarrow> Inl NullDeref
      | Some q \<Rightarrow>
          if mq_release q \<noteq> 0 then drop_queue r s
          else rbind (skynet_globalmq_push r s) (\<lambda>s'. Inr ([], s')))"

section \<open>A service queue is a FIFO queue\<close>

definition mq_wf :: "'m message_queue \<Rightarrow> bool" where
  "mq_wf q \<longleftrightarrow> ring_ok (mq_cap q) (mq_head q) (mq_tail q) (mq_queue q) \<and>
               0 < mq_overload_threshold q"

definition mq_list :: "'m message_queue \<Rightarrow> 'm list" where
  "mq_list q = ring_list (mq_cap q) (mq_head q) (mq_tail q) (mq_queue q)"

lemma mq_length_ring: "skynet_mq_length q = ring_len (mq_cap q) (mq_head q) (mq_tail q)"
  by (simp add: skynet_mq_length_def ring_len_def)

lemma overload_loop_pos: "0 < thr \<Longrightarrow> 0 < snd (overload_loop len ov thr)"
  by (induction len ov thr rule: overload_loop.induct) (subst overload_loop.simps, simp)

lemma mq_wf_create: "mq_wf (skynet_mq_create h)" and mq_list_create: "mq_list (skynet_mq_create h) = []"
  by (simp_all add: mq_wf_def mq_list_def skynet_mq_create_def ring_ok_def ring_len_def
      ring_list_def DEFAULT_QUEUE_SIZE_def MQ_OVERLOAD_def)

lemma mq_enqueue_ring:
  assumes "mq_wf q"
  shows "mq_wf (mq_enqueue q m) \<and> mq_list (mq_enqueue q m) = mq_list q @ [m]"
proof (cases "ring_next (mq_cap q) (mq_tail q) = mq_head q")
  case True
  have "mq_cap q < mq_cap q * 2"
    using assms by (auto simp: mq_wf_def ring_ok_def)
  with ring_unroll [OF _ True this] assms True show ?thesis
    by (auto simp: mq_wf_def mq_list_def mq_enqueue_def expand_queue_def ring_next_def Let_def)
next
  case False
  with ring_push [OF _ False] assms show ?thesis
    by (auto simp: mq_wf_def mq_list_def mq_enqueue_def ring_next_def Let_def)
qed

lemma mq_pop_empty:
  "mq_wf q \<Longrightarrow> mq_head q = mq_tail q \<Longrightarrow>
   skynet_mq_pop q = (None, q\<lparr>mq_overload_threshold := MQ_OVERLOAD, mq_in_global := 0\<rparr>)"
  by (simp add: skynet_mq_pop_def)

lemma mq_pop_nonempty:
  assumes "mq_wf q" "mq_head q \<noteq> mq_tail q"
  obtains ov thr where "0 < thr"
    "skynet_mq_pop q = (mq_queue q ! mq_head q,
       q\<lparr>mq_head := ring_next (mq_cap q) (mq_head q), mq_overload := ov,
         mq_overload_threshold := thr\<rparr>)"
proof -
  define h where "h = ring_next (mq_cap q) (mq_head q)"
  define l where "l = (if mq_tail q < h then mq_tail q + mq_cap q - h else mq_tail q - h)"
  obtain ov thr where ol: "overload_loop l (mq_overload q) (mq_overload_threshold q) = (ov, thr)"
    by fastforce
  have "0 < thr"
    using overload_loop_pos [of "mq_overload_threshold q" l "mq_overload q"] ol assms(1)
    by (simp add: mq_wf_def)
  moreover have "skynet_mq_pop q = (mq_queue q ! mq_head q,
      q\<lparr>mq_head := h, mq_overload := ov, mq_overload_threshold := thr\<rparr>)"
    using assms(2) ol unfolding skynet_mq_pop_def Let_def l_def h_def ring_next_def
    by (simp only: if_True if_False split_conv not_False_eq_True)
  ultimately show ?thesis
    using that by (simp add: h_def)
qed

lemma mq_pop_ring:
  assumes "mq_wf q" "mq_head q \<noteq> mq_tail q"
  shows "mq_wf (snd (skynet_mq_pop q)) \<and>
         mq_list q = the (fst (skynet_mq_pop q)) # mq_list (snd (skynet_mq_pop q)) \<and>
         fst (skynet_mq_pop q) \<noteq> None"
proof -
  have "ring_ok (mq_cap q) (mq_head q) (mq_tail q) (mq_queue q)"
    using assms(1) by (simp add: mq_wf_def)
  note r = ring_pop [OF this assms(2)]
  obtain ov thr where "0 < thr" and p: "skynet_mq_pop q = (mq_queue q ! mq_head q,
       q\<lparr>mq_head := ring_next (mq_cap q) (mq_head q), mq_overload := ov,
         mq_overload_threshold := thr\<rparr>)"
    by (rule mq_pop_nonempty [OF assms])
  with r show ?thesis
    by (simp add: mq_wf_def mq_list_def)
qed

lemma mq_list_Nil: "mq_wf q \<Longrightarrow> mq_list q = [] \<longleftrightarrow> mq_head q = mq_tail q"
  by (simp add: mq_wf_def mq_list_def ring_list_Nil)

interpretation mq: fifo mq_enqueue skynet_mq_pop mq_list mq_wf
proof unfold_locales
  fix q :: "'m message_queue" and m x :: 'm and xs
  assume wf: "mq_wf q"
  show "mq_wf (mq_enqueue q m)" and "mq_list (mq_enqueue q m) = mq_list q @ [m]"
    using mq_enqueue_ring [OF wf] by auto
  show "mq_wf (snd (skynet_mq_pop q))"
    using mq_pop_ring [OF wf] wf
    by (cases "mq_head q = mq_tail q")
      (auto simp: mq_pop_empty mq_wf_def MQ_OVERLOAD_def)
  show "fst (skynet_mq_pop q) = None \<and> mq_list (snd (skynet_mq_pop q)) = []" if "mq_list q = []"
    using that wf by (simp add: mq_list_Nil mq_pop_empty) (simp add: mq_list_def ring_list_def ring_len_def)
  show "fst (skynet_mq_pop q) = Some x \<and> mq_list (snd (skynet_mq_pop q)) = xs" if "mq_list q = x # xs"
    using that mq_pop_ring [OF wf] mq_list_Nil [OF wf] by auto
qed

section \<open>The global queue is a linked list\<close>

fun gq_path :: "(qref \<rightharpoonup> 'm message_queue) \<Rightarrow> qref option \<Rightarrow> qref list \<Rightarrow> bool" where
  "gq_path h p [] \<longleftrightarrow> p = None"
| "gq_path h p (r # rs) \<longleftrightarrow> p = Some r \<and> (\<exists>q. h r = Some q \<and> gq_path h (mq_next q) rs)"

definition gq_tail :: "qref list \<Rightarrow> qref option" where
  "gq_tail rs = (if rs = [] then None else Some (last rs))"

text \<open>The state of the global queue is the list \<open>rs\<close>; queues outside it have no successor.\<close>

definition gq_rep :: "'m mqs \<Rightarrow> qref list \<Rightarrow> bool" where
  "gq_rep s rs \<longleftrightarrow> distinct rs \<and> gq_path (mqs_heap s) (mqs_head s) rs \<and> mqs_tail s = gq_tail rs \<and>
     (\<forall>r q. mqs_heap s r = Some q \<longrightarrow> r \<notin> set rs \<longrightarrow> mq_next q = None)"

lemma gq_path_frame:
  "(\<And>r q. r \<in> set rs \<Longrightarrow> h r = Some q \<Longrightarrow> \<exists>q'. h' r = Some q' \<and> mq_next q' = mq_next q) \<Longrightarrow>
   gq_path h p rs \<Longrightarrow> gq_path h' p rs"
proof (induction rs arbitrary: p)
  case Nil
  then show ?case by simp
next
  case (Cons r rs)
  from Cons.prems(2) obtain q where p: "p = Some r" and q: "h r = Some q"
    and rest: "gq_path h (mq_next q) rs" by auto
  from Cons.prems(1) [OF _ q] obtain q' where "h' r = Some q'" "mq_next q' = mq_next q" by auto
  moreover have "gq_path h' (mq_next q) rs"
    by (rule Cons.IH [OF _ rest]) (auto intro: Cons.prems(1))
  ultimately show ?case using p by auto
qed

lemma gq_path_upd: "r \<notin> set rs \<Longrightarrow> gq_path (h(r := x)) p rs \<longleftrightarrow> gq_path h p rs"
  by (induction rs arbitrary: p) auto

lemma gq_path_dom: "gq_path h p rs \<Longrightarrow> set rs \<subseteq> dom h"
  by (induction rs arbitrary: p) auto

lemma gq_path_snoc:
  "gq_path h p rs \<Longrightarrow> distinct rs \<Longrightarrow> rs \<noteq> [] \<Longrightarrow> h (last rs) = Some tq \<Longrightarrow> r \<notin> set rs \<Longrightarrow>
   h r = Some q \<Longrightarrow> mq_next q = None \<Longrightarrow>
   gq_path (h(last rs \<mapsto> tq\<lparr>mq_next := Some r\<rparr>)) p (rs @ [r])"
proof (induction rs arbitrary: p)
  case Nil
  then show ?case by simp
next
  case (Cons a rs)
  show ?case
  proof (cases "rs = []")
    case True
    with Cons.prems show ?thesis by auto
  next
    case False
    with Cons.prems have "last rs \<noteq> a" by auto
    with Cons False show ?thesis by auto
  qed
qed

text \<open>Two heaps with the same queues, up to their links.\<close>

definition same_queues :: "(qref \<rightharpoonup> 'm message_queue) \<Rightarrow> (qref \<rightharpoonup> 'm message_queue) \<Rightarrow> bool" where
  "same_queues h' h \<longleftrightarrow>
     (\<forall>x. map_option (\<lambda>q. q\<lparr>mq_next := None\<rparr>) (h' x) = map_option (\<lambda>q. q\<lparr>mq_next := None\<rparr>) (h x))"

lemma same_queues_dom: "same_queues h' h \<Longrightarrow> dom h' = dom h"
  by (auto simp: same_queues_def dom_def) (metis map_option_is_None not_Some_eq)+

lemma same_queuesD:
  assumes "same_queues h' h" "h' x = Some q'"
  obtains q where "h x = Some q" "q'\<lparr>mq_next := None\<rparr> = q\<lparr>mq_next := None\<rparr>"
  using assms by (cases "h x") (auto simp: same_queues_def dest!: spec [of _ x])

lemma gq_rep_init: "gq_rep skynet_mq_init []"
  by (simp add: gq_rep_def skynet_mq_init_def gq_tail_def)

text \<open>Pushing a queue that is not linked appends it.\<close>

lemma globalmq_push_rep:
  assumes rep: "gq_rep s rs" and r: "mqs_heap s r = Some q" "r \<notin> set rs"
  obtains s' where "skynet_globalmq_push r s = Inr s'" "gq_rep s' (rs @ [r])"
    "same_queues (mqs_heap s') (mqs_heap s)"
proof (cases "rs = []")
  case True
  with rep r that show ?thesis
    by (auto simp: gq_rep_def skynet_globalmq_push_def gq_tail_def same_queues_def)
next
  case False
  have nx: "mq_next q = None"
    using rep r by (auto simp: gq_rep_def)
  obtain tq where tq: "mqs_heap s (last rs) = Some tq"
    using rep gq_path_dom [of "mqs_heap s" "mqs_head s" rs] False
    by (force simp: gq_rep_def)
  let ?s = "s\<lparr>mqs_heap := (mqs_heap s)(last rs \<mapsto> tq\<lparr>mq_next := Some r\<rparr>), mqs_tail := Some r\<rparr>"
  have "skynet_globalmq_push r s = Inr ?s"
    using rep r tq nx False by (simp add: gq_rep_def skynet_globalmq_push_def gq_tail_def)
  moreover have "gq_rep ?s (rs @ [r])"
    using rep r nx tq False gq_path_snoc [of "mqs_heap s" "mqs_head s" rs tq r q]
    by (auto simp: gq_rep_def gq_tail_def)
  moreover have "same_queues (mqs_heap ?s) (mqs_heap s)"
    using tq by (simp add: same_queues_def)
  ultimately show ?thesis using that by blast
qed

text \<open>Popping takes the first queue and unlinks it.\<close>

lemma globalmq_pop_Nil: "gq_rep s [] \<Longrightarrow> skynet_globalmq_pop s = Inr (None, s)"
  by (simp add: gq_rep_def skynet_globalmq_pop_def)

lemma globalmq_pop_Cons:
  assumes rep: "gq_rep s (r # rs)"
  obtains s' where "skynet_globalmq_pop s = Inr (Some r, s')" "gq_rep s' rs"
    "same_queues (mqs_heap s') (mqs_heap s)"
proof -
  obtain q where q: "mqs_head s = Some r" "mqs_heap s r = Some q"
    and path: "gq_path (mqs_heap s) (mq_next q) rs" and d: "r \<notin> set rs" "distinct rs"
    using rep by (auto simp: gq_rep_def)
  have empty: "mq_next q = None \<longleftrightarrow> rs = []"
    using path by (cases rs) auto
  let ?h = "(mqs_heap s)(r \<mapsto> q\<lparr>mq_next := None\<rparr>)"
  let ?s = "s\<lparr>mqs_head := mq_next q, mqs_tail := gq_tail rs, mqs_heap := ?h\<rparr>"
  have "skynet_globalmq_pop s = Inr (Some r, ?s)"
    using rep q empty by (auto simp: skynet_globalmq_pop_def gq_rep_def gq_tail_def Let_def)
  moreover have "gq_rep ?s rs"
    using rep q path d by (auto simp: gq_rep_def gq_path_upd)
  moreover have "same_queues (mqs_heap ?s) (mqs_heap s)"
    using q by (simp add: same_queues_def)
  ultimately show ?thesis using that by blast
qed

text \<open>Rewriting a queue without touching its link keeps the list.\<close>

lemma gq_rep_upd:
  assumes "gq_rep s rs" "mqs_heap s r = Some q" "mq_next q' = mq_next q"
  shows "gq_rep (s\<lparr>mqs_heap := (mqs_heap s)(r \<mapsto> q')\<rparr>) rs"
proof -
  have "gq_path ((mqs_heap s)(r \<mapsto> q')) (mqs_head s) rs"
    by (rule gq_path_frame [of rs "mqs_heap s"]) (use assms in \<open>auto simp: gq_rep_def\<close>)
  with assms show ?thesis by (auto simp: gq_rep_def)
qed

lemma gq_rep_new:
  assumes "gq_rep s rs" "mqs_heap s r = None" "mq_next q = None"
  shows "gq_rep (s\<lparr>mqs_heap := (mqs_heap s)(r \<mapsto> q)\<rparr>) rs"
proof -
  have "r \<notin> set rs"
    using assms gq_path_dom [of "mqs_heap s" "mqs_head s" rs] by (auto simp: gq_rep_def)
  with assms show ?thesis by (auto simp: gq_rep_def gq_path_upd)
qed

lemma gq_rep_free:
  assumes "gq_rep s rs" "r \<notin> set rs"
  shows "gq_rep (s\<lparr>mqs_heap := (mqs_heap s)(r := None)\<rparr>) rs"
  using assms by (auto simp: gq_rep_def gq_path_upd)

section \<open>The scheduling protocol\<close>

text \<open>
  Worker threads and services share the queues. \<open>sc_held\<close> lists the queues a thread owns
  at the moment, one entry per owner: a worker owns the queue it took from the global queue
  (\<^verbatim>\<open>skynet_context_message_dispatch\<close>), and \<^verbatim>\<open>skynet_context_new\<close> owns the queue it
  created until it publishes it. A step is one locked operation:
  \<^item> \<open>create\<close>: \<^verbatim>\<open>skynet_mq_create\<close> in \<^verbatim>\<open>skynet_context_new\<close>;
  \<^item> \<open>send\<close>: \<^verbatim>\<open>skynet_mq_push\<close> to a service whose context is referenced, hence not released;
  \<^item> \<open>fetch\<close>: a worker takes the next queue from the global queue;
  \<^item> \<open>take\<close>, \<open>idle\<close>: a worker that owns a queue (and references its context) pops a
    message, or finds it empty and gives it up;
  \<^item> \<open>requeue\<close>: the owner puts a queue (back) into the global queue;
  \<^item> \<open>retire\<close>: the last reference of the context goes, \<^verbatim>\<open>skynet_mq_mark_release\<close>;
  \<^item> \<open>reap\<close>: the owner of a released queue drops it.
\<close>

record 'm sched =
  sc_mqs :: "'m mqs"
  sc_held :: "qref list"

inductive sched_step :: "'m sched \<Rightarrow> 'm sched \<Rightarrow> bool" where
  create: "mqs_heap (sc_mqs s) r = None \<Longrightarrow>
    sched_step s (s\<lparr>sc_mqs := (sc_mqs s)\<lparr>mqs_heap := (mqs_heap (sc_mqs s))(r \<mapsto> skynet_mq_create h)\<rparr>,
                    sc_held := r # sc_held s\<rparr>)"
| send: "mqs_heap (sc_mqs s) r = Some q \<Longrightarrow> mq_release q = 0 \<Longrightarrow>
    skynet_mq_push r m (sc_mqs s) = Inr s' \<Longrightarrow> sched_step s (s\<lparr>sc_mqs := s'\<rparr>)"
| fetch: "skynet_globalmq_pop (sc_mqs s) = Inr (Some r, s') \<Longrightarrow>
    sched_step s (s\<lparr>sc_mqs := s', sc_held := r # sc_held s\<rparr>)"
| take: "r \<in> set (sc_held s) \<Longrightarrow> mqs_heap (sc_mqs s) r = Some q \<Longrightarrow> mq_release q = 0 \<Longrightarrow>
    skynet_mq_pop q = (Some m, q') \<Longrightarrow>
    sched_step s (s\<lparr>sc_mqs := (sc_mqs s)\<lparr>mqs_heap := (mqs_heap (sc_mqs s))(r \<mapsto> q')\<rparr>\<rparr>)"
| idle: "r \<in> set (sc_held s) \<Longrightarrow> mqs_heap (sc_mqs s) r = Some q \<Longrightarrow> mq_release q = 0 \<Longrightarrow>
    skynet_mq_pop q = (None, q') \<Longrightarrow>
    sched_step s (s\<lparr>sc_mqs := (sc_mqs s)\<lparr>mqs_heap := (mqs_heap (sc_mqs s))(r \<mapsto> q')\<rparr>,
                    sc_held := remove1 r (sc_held s)\<rparr>)"
| requeue: "r \<in> set (sc_held s) \<Longrightarrow> skynet_globalmq_push r (sc_mqs s) = Inr s' \<Longrightarrow>
    sched_step s (s\<lparr>sc_mqs := s', sc_held := remove1 r (sc_held s)\<rparr>)"
| retire: "mqs_heap (sc_mqs s) r = Some q \<Longrightarrow> mq_release q = 0 \<Longrightarrow>
    skynet_mq_mark_release r (sc_mqs s) = Inr s' \<Longrightarrow> sched_step s (s\<lparr>sc_mqs := s'\<rparr>)"
| reap: "r \<in> set (sc_held s) \<Longrightarrow> mqs_heap (sc_mqs s) r = Some q \<Longrightarrow> mq_release q \<noteq> 0 \<Longrightarrow>
    skynet_mq_release r (sc_mqs s) = Inr (ms, s') \<Longrightarrow>
    sched_step s (s\<lparr>sc_mqs := s', sc_held := remove1 r (sc_held s)\<rparr>)"

inductive sched_reachable :: "'m sched \<Rightarrow> bool" where
  start: "sched_reachable \<lparr>sc_mqs = skynet_mq_init, sc_held = []\<rparr>"
| step: "sched_reachable s \<Longrightarrow> sched_step s t \<Longrightarrow> sched_reachable t"

text \<open>
  What the flags promise about one queue: a queue that is scheduled (linked or owned) says
  so unless it is released; a queue that is not scheduled is live, unflagged and empty.
\<close>

definition mq_flag_ok :: "bool \<Rightarrow> 'm message_queue \<Rightarrow> bool" where
  "mq_flag_ok scheduled q \<longleftrightarrow> mq_wf q \<and>
     (if scheduled then mq_in_global q = MQ_IN_GLOBAL \<or> mq_release q \<noteq> 0
      else mq_in_global q = 0 \<and> mq_release q = 0 \<and> mq_list q = [])"

definition sched_rep :: "'m sched \<Rightarrow> qref list \<Rightarrow> bool" where
  "sched_rep s rs \<longleftrightarrow> gq_rep (sc_mqs s) rs \<and> distinct (rs @ sc_held s) \<and>
     set (sc_held s) \<subseteq> dom (mqs_heap (sc_mqs s)) \<and>
     (\<forall>r q. mqs_heap (sc_mqs s) r = Some q \<longrightarrow>
        mq_flag_ok (r \<in> set rs \<union> set (sc_held s)) q)"

text \<open>The flags do not look at the links, which is all the global queue operations change.\<close>

lemma mq_flag_ok_next [simp]: "mq_flag_ok b (q\<lparr>mq_next := x\<rparr>) = mq_flag_ok b q"
  by (simp add: mq_flag_ok_def mq_wf_def mq_list_def)

lemma same_queues_flag:
  assumes "same_queues h' h" "h' x = Some q'"
  obtains q where "h x = Some q" "\<And>b. mq_flag_ok b q' = mq_flag_ok b q"
  using same_queuesD [OF assms] mq_flag_ok_next [where x = None] by metis

lemma sched_repI:
  assumes "gq_rep (sc_mqs s) rs" "distinct (rs @ sc_held s)"
    "set (sc_held s) \<subseteq> dom (mqs_heap (sc_mqs s))"
    "\<And>r q. mqs_heap (sc_mqs s) r = Some q \<Longrightarrow> mq_flag_ok (r \<in> set rs \<union> set (sc_held s)) q"
  shows "sched_rep s rs"
  using assms by (auto simp: sched_rep_def)

lemma sched_repD:
  assumes "sched_rep s rs"
  shows "gq_rep (sc_mqs s) rs" "distinct (rs @ sc_held s)"
    "set (sc_held s) \<subseteq> dom (mqs_heap (sc_mqs s))"
    "mqs_heap (sc_mqs s) r = Some q \<Longrightarrow> mq_flag_ok (r \<in> set rs \<union> set (sc_held s)) q"
  using assms by (auto simp: sched_rep_def)

text \<open>Linking a queue that is not linked, given the flags it then needs.\<close>

lemma sched_rep_link:
  assumes rep: "gq_rep (sc_mqs s) rs" and dist: "distinct (rs @ r # held)"
    and dom: "set held \<subseteq> dom (mqs_heap (sc_mqs s))"
    and q: "mqs_heap (sc_mqs s) r = Some q"
    and ok: "\<And>x p. mqs_heap (sc_mqs s) x = Some p \<Longrightarrow> mq_flag_ok (x \<in> set (r # rs) \<union> set held) p"
  obtains s' where "skynet_globalmq_push r (sc_mqs s) = Inr s'"
    "sched_rep (s\<lparr>sc_mqs := s', sc_held := held\<rparr>) (rs @ [r])"
proof -
  obtain s' where s': "skynet_globalmq_push r (sc_mqs s) = Inr s'" and rep': "gq_rep s' (rs @ [r])"
    and same: "same_queues (mqs_heap s') (mqs_heap (sc_mqs s))"
    using globalmq_push_rep [OF rep q] dist by auto
  have "sched_rep (s\<lparr>sc_mqs := s', sc_held := held\<rparr>) (rs @ [r])"
  proof (rule sched_repI)
    fix x p
    assume "mqs_heap (sc_mqs (s\<lparr>sc_mqs := s', sc_held := held\<rparr>)) x = Some p"
    then obtain p0 where "mqs_heap (sc_mqs s) x = Some p0" "\<And>b. mq_flag_ok b p = mq_flag_ok b p0"
      using same_queues_flag [OF same, of x p] by auto
    with ok show "mq_flag_ok (x \<in> set (rs @ [r]) \<union> set (sc_held (s\<lparr>sc_mqs := s', sc_held := held\<rparr>))) p"
      by (auto simp: insert_commute)
  qed (use rep' dist dom same_queues_dom [OF same] in auto)
  with s' show ?thesis using that by blast
qed

text \<open>Replacing one queue, its link kept.\<close>

lemma sched_rep_upd:
  assumes rep: "sched_rep s rs" and q: "mqs_heap (sc_mqs s) r = Some q" and nx: "mq_next q' = mq_next q"
    and held: "distinct (rs @ held)" "set held \<subseteq> set (sc_held s)"
    and others: "\<And>x. x \<noteq> r \<Longrightarrow> x \<in> set held \<longleftrightarrow> x \<in> set (sc_held s)"
    and ok: "mq_flag_ok (r \<in> set rs \<union> set held) q'"
  shows "sched_rep (s\<lparr>sc_mqs := (sc_mqs s)\<lparr>mqs_heap := (mqs_heap (sc_mqs s))(r \<mapsto> q')\<rparr>,
                      sc_held := held\<rparr>) rs"
proof (rule sched_repI)
  fix x p
  assume "mqs_heap (sc_mqs (s\<lparr>sc_mqs := (sc_mqs s)\<lparr>mqs_heap := (mqs_heap (sc_mqs s))(r \<mapsto> q')\<rparr>,
            sc_held := held\<rparr>)) x = Some p"
  then show "mq_flag_ok (x \<in> set rs \<union> set (sc_held (s\<lparr>sc_mqs := (sc_mqs s)
      \<lparr>mqs_heap := (mqs_heap (sc_mqs s))(r \<mapsto> q')\<rparr>, sc_held := held\<rparr>))) p"
    using ok others [of x] sched_repD(4) [OF rep, of x p] by (auto split: if_splits)
qed (use sched_repD [OF rep] gq_rep_upd [OF sched_repD(1) [OF rep] q nx] held in auto)

text \<open>Rewriting an unscheduled queue and linking it.\<close>

lemma sched_rep_upd_link:
  assumes rep: "sched_rep s rs" and q: "mqs_heap (sc_mqs s) r = Some q"
    and new: "r \<notin> set rs \<union> set (sc_held s)" and nx: "mq_next q' = mq_next q"
    and ok: "mq_flag_ok True q'"
  obtains s' where
    "skynet_globalmq_push r ((sc_mqs s)\<lparr>mqs_heap := (mqs_heap (sc_mqs s))(r \<mapsto> q')\<rparr>) = Inr s'"
    "sched_rep (s\<lparr>sc_mqs := s'\<rparr>) (rs @ [r])"
proof -
  let ?s = "s\<lparr>sc_mqs := (sc_mqs s)\<lparr>mqs_heap := (mqs_heap (sc_mqs s))(r \<mapsto> q')\<rparr>\<rparr>"
  show ?thesis
  proof (rule sched_rep_link [of ?s rs r "sc_held s" q'])
    show "gq_rep (sc_mqs ?s) rs"
      using gq_rep_upd [OF sched_repD(1) [OF rep] q nx] by simp
    show "mq_flag_ok (x \<in> set (r # rs) \<union> set (sc_held s)) p" if "mqs_heap (sc_mqs ?s) x = Some p" for x p
      using that sched_repD(4) [OF rep, of x p] ok by (auto split: if_splits)
  qed (use sched_repD(2,3) [OF rep] new that in auto)
qed

lemma mq_enqueue_frame [simp]:
  "mq_next (mq_enqueue q m) = mq_next q" "mq_in_global (mq_enqueue q m) = mq_in_global q"
  "mq_release (mq_enqueue q m) = mq_release q"
  by (simp_all add: mq_enqueue_def expand_queue_def Let_def)

lemma mq_pop_frame [simp]:
  "mq_next (snd (skynet_mq_pop q)) = mq_next q"
  "mq_release (snd (skynet_mq_pop q)) = mq_release q"
  by (simp_all add: skynet_mq_pop_def Let_def split: prod.splits)

lemma mq_wf_flag_simps [simp]:
  "mq_wf (q\<lparr>mq_in_global := x\<rparr>) = mq_wf q" "mq_wf (q\<lparr>mq_release := x\<rparr>) = mq_wf q"
  "mq_list (q\<lparr>mq_in_global := x\<rparr>) = mq_list q" "mq_list (q\<lparr>mq_release := x\<rparr>) = mq_list q"
  by (simp_all add: mq_wf_def mq_list_def)

lemma mq_pop_flag: "skynet_mq_pop q = (r, q') \<Longrightarrow> mq_wf q \<Longrightarrow>
   mq_in_global q' = (if r = None then 0 else mq_in_global q)"
  using mq.pop_None_iff [of q] mq_list_Nil [of q]
  by (auto simp: skynet_mq_pop_def Let_def split: prod.splits if_splits)

lemma sched_send:
  assumes rep: "sched_rep s rs" and q: "mqs_heap (sc_mqs s) r = Some q" and live: "mq_release q = 0"
  obtains s' rs' where "skynet_mq_push r m (sc_mqs s) = Inr s'" "sched_rep (s\<lparr>sc_mqs := s'\<rparr>) rs'"
proof (cases "mq_in_global q = 0")
  case False
  let ?h = "(mqs_heap (sc_mqs s))(r \<mapsto> mq_enqueue q m)"
  have flag: "mq_flag_ok (r \<in> set rs \<union> set (sc_held s)) (mq_enqueue q m)"
    using sched_repD(4) [OF rep q] False live mq_enqueue_ring [of q m]
    by (auto simp: mq_flag_ok_def split: if_splits)
  have "sched_rep (s\<lparr>sc_mqs := (sc_mqs s)\<lparr>mqs_heap := ?h\<rparr>, sc_held := sc_held s\<rparr>) rs"
    using sched_repD(2) [OF rep] flag by (intro sched_rep_upd [OF rep q]) auto
  then have "sched_rep (s\<lparr>sc_mqs := (sc_mqs s)\<lparr>mqs_heap := ?h\<rparr>\<rparr>) rs" by simp
  moreover have "skynet_mq_push r m (sc_mqs s) = Inr ((sc_mqs s)\<lparr>mqs_heap := ?h\<rparr>)"
    using q False by (simp add: skynet_mq_push_def Let_def)
  ultimately show ?thesis using that by blast
next
  case True
  let ?q = "(mq_enqueue q m)\<lparr>mq_in_global := MQ_IN_GLOBAL\<rparr>"
  have new: "r \<notin> set rs \<union> set (sc_held s)" and wf: "mq_wf q"
    using sched_repD(4) [OF rep q] True live by (auto simp: mq_flag_ok_def MQ_IN_GLOBAL_def split: if_splits)
  have "mq_flag_ok True ?q"
    using mq_enqueue_ring [OF wf, of m] by (simp add: mq_flag_ok_def)
  with sched_rep_upd_link [OF rep q new, of ?q] obtain s' where
    "skynet_globalmq_push r ((sc_mqs s)\<lparr>mqs_heap := (mqs_heap (sc_mqs s))(r \<mapsto> ?q)\<rparr>) = Inr s'"
    "sched_rep (s\<lparr>sc_mqs := s'\<rparr>) (rs @ [r])" by auto
  then show ?thesis
    using that q True by (simp add: skynet_mq_push_def Let_def)
qed

lemma sched_requeue:
  assumes rep: "sched_rep s rs" and r: "r \<in> set (sc_held s)"
  obtains s' rs' where "skynet_globalmq_push r (sc_mqs s) = Inr s'"
    "sched_rep (s\<lparr>sc_mqs := s', sc_held := remove1 r (sc_held s)\<rparr>) rs'"
proof -
  obtain q where q: "mqs_heap (sc_mqs s) r = Some q"
    using sched_repD(3) [OF rep] r by auto
  have d: "distinct (rs @ sc_held s)"
    by (rule sched_repD(2) [OF rep])
  have ok: "mq_flag_ok (x \<in> set (r # rs) \<union> set (remove1 r (sc_held s))) p"
    if "mqs_heap (sc_mqs s) x = Some p" for x p
  proof -
    have "x \<in> set (r # rs) \<union> set (remove1 r (sc_held s)) \<longleftrightarrow> x \<in> set rs \<union> set (sc_held s)"
      using r d by auto
    with sched_repD(4) [OF rep that] show ?thesis by simp
  qed
  have "distinct (rs @ r # remove1 r (sc_held s))" "set (remove1 r (sc_held s)) \<subseteq> dom (mqs_heap (sc_mqs s))"
    using r d sched_repD(3) [OF rep] by auto
  from sched_rep_link [OF sched_repD(1) [OF rep] this q ok] that show ?thesis by blast
qed

lemma sched_retire:
  assumes rep: "sched_rep s rs" and q: "mqs_heap (sc_mqs s) r = Some q" and live: "mq_release q = 0"
  obtains s' rs' where "skynet_mq_mark_release r (sc_mqs s) = Inr s'" "sched_rep (s\<lparr>sc_mqs := s'\<rparr>) rs'"
proof (cases "mq_in_global q = MQ_IN_GLOBAL")
  case True
  let ?h = "(mqs_heap (sc_mqs s))(r \<mapsto> q\<lparr>mq_release := 1\<rparr>)"
  have flag: "mq_flag_ok (r \<in> set rs \<union> set (sc_held s)) (q\<lparr>mq_release := 1\<rparr>)"
    using sched_repD(4) [OF rep q] True by (auto simp: mq_flag_ok_def MQ_IN_GLOBAL_def split: if_splits)
  have "sched_rep (s\<lparr>sc_mqs := (sc_mqs s)\<lparr>mqs_heap := ?h\<rparr>, sc_held := sc_held s\<rparr>) rs"
    using sched_repD(2) [OF rep] flag by (intro sched_rep_upd [OF rep q]) auto
  then have "sched_rep (s\<lparr>sc_mqs := (sc_mqs s)\<lparr>mqs_heap := ?h\<rparr>\<rparr>) rs" by simp
  moreover have "skynet_mq_mark_release r (sc_mqs s) = Inr ((sc_mqs s)\<lparr>mqs_heap := ?h\<rparr>)"
    using q True live by (simp add: skynet_mq_mark_release_def Let_def)
  ultimately show ?thesis using that by blast
next
  case False
  let ?q = "q\<lparr>mq_release := 1\<rparr>"
  have new: "r \<notin> set rs \<union> set (sc_held s)" and "mq_flag_ok True ?q"
    using sched_repD(4) [OF rep q] False live by (auto simp: mq_flag_ok_def split: if_splits)
  with sched_rep_upd_link [OF rep q new, of ?q] obtain s' where
    "skynet_globalmq_push r ((sc_mqs s)\<lparr>mqs_heap := (mqs_heap (sc_mqs s))(r \<mapsto> ?q)\<rparr>) = Inr s'"
    "sched_rep (s\<lparr>sc_mqs := s'\<rparr>) (rs @ [r])" by auto
  then show ?thesis
    using that q False live by (simp add: skynet_mq_mark_release_def Let_def)
qed

lemma fifo_drain_pop_next: "mq_next (snd (fifo_drain skynet_mq_pop n q)) = mq_next q"
  by (induction n arbitrary: q) (auto split: prod.splits option.splits dest: arg_cong [where f = snd],
      (metis mq_pop_frame(1) snd_conv)+)

text \<open>Dropping a released queue hands out its messages in order and frees it.\<close>

lemma sched_reap:
  assumes rep: "sched_rep s rs" and q: "mqs_heap (sc_mqs s) r = Some q"
    and r: "r \<in> set (sc_held s)" and dead: "mq_release q \<noteq> 0"
  obtains s' where "skynet_mq_release r (sc_mqs s) = Inr (mq_list q, s')"
    "sched_rep (s\<lparr>sc_mqs := s', sc_held := remove1 r (sc_held s)\<rparr>) rs"
proof -
  have d: "distinct (rs @ sc_held s)" and nr: "r \<notin> set rs"
    using sched_repD(2) [OF rep] r by auto
  have nx: "mq_next q = None"
    using sched_repD(1) [OF rep] q nr by (auto simp: gq_rep_def)
  have wf: "mq_wf q"
    using sched_repD(4) [OF rep q] by (simp add: mq_flag_ok_def)
  have len: "length (mq_list q) < Suc (skynet_mq_length q)"
    by (simp add: mq_list_def mq_length_ring)
  let ?s = "(sc_mqs s)\<lparr>mqs_heap := (mqs_heap (sc_mqs s))(r := None)\<rparr>"
  have "skynet_mq_release r (sc_mqs s) = Inr (mq_list q, ?s)"
    using q dead mq.drain_all [OF wf len] fifo_drain_pop_next [of "Suc (skynet_mq_length q)" q] nx
    by (auto simp: skynet_mq_release_def drop_queue_def mq_free_def split: prod.splits)
  moreover have "sched_rep (s\<lparr>sc_mqs := ?s, sc_held := remove1 r (sc_held s)\<rparr>) rs"
  proof (rule sched_repI)
    fix x p
    assume "mqs_heap (sc_mqs (s\<lparr>sc_mqs := ?s, sc_held := remove1 r (sc_held s)\<rparr>)) x = Some p"
    then have "x \<noteq> r" "mqs_heap (sc_mqs s) x = Some p" by (auto split: if_splits)
    with sched_repD(4) [OF rep, of x p] show
      "mq_flag_ok (x \<in> set rs \<union> set (sc_held (s\<lparr>sc_mqs := ?s, sc_held := remove1 r (sc_held s)\<rparr>))) p"
      by simp
  qed (use d r nr sched_repD(3) [OF rep] gq_rep_free [OF sched_repD(1) [OF rep] nr] in auto)
  ultimately show ?thesis using that by blast
qed

lemma sched_fetch:
  assumes rep: "sched_rep s rs" and pop: "skynet_globalmq_pop (sc_mqs s) = Inr (Some r, s')"
  obtains rs' where "rs = r # rs'" "sched_rep (s\<lparr>sc_mqs := s', sc_held := r # sc_held s\<rparr>) rs'"
proof (cases rs)
  case Nil
  with pop globalmq_pop_Nil [of "sc_mqs s"] sched_repD(1) [OF rep] show ?thesis by simp
next
  case (Cons a rs')
  obtain s1 where s1: "skynet_globalmq_pop (sc_mqs s) = Inr (Some a, s1)" "gq_rep s1 rs'"
    and same: "same_queues (mqs_heap s1) (mqs_heap (sc_mqs s))"
    using globalmq_pop_Cons [of "sc_mqs s" a rs'] sched_repD(1) [OF rep] Cons by auto
  have a: "a = r" "s1 = s'" using s1 pop by auto
  have "sched_rep (s\<lparr>sc_mqs := s', sc_held := r # sc_held s\<rparr>) rs'"
  proof (rule sched_repI)
    fix x p
    assume "mqs_heap (sc_mqs (s\<lparr>sc_mqs := s', sc_held := r # sc_held s\<rparr>)) x = Some p"
    then obtain p0 where "mqs_heap (sc_mqs s) x = Some p0" "\<And>b. mq_flag_ok b p = mq_flag_ok b p0"
      using same_queues_flag [OF same, of x p] a by auto
    with sched_repD(4) [OF rep, of x p0] Cons a show
      "mq_flag_ok (x \<in> set rs' \<union> set (sc_held (s\<lparr>sc_mqs := s', sc_held := r # sc_held s\<rparr>))) p"
      by simp
  qed (use s1 a Cons sched_repD(1,2,3) [OF rep] same_queues_dom [OF same]
        gq_path_dom [of "mqs_heap (sc_mqs s)" "mqs_head (sc_mqs s)" rs] in \<open>auto simp: gq_rep_def\<close>)
  with Cons a that show ?thesis by blast
qed

lemma sched_take:
  assumes rep: "sched_rep s rs" and r: "r \<in> set (sc_held s)" and q: "mqs_heap (sc_mqs s) r = Some q"
    and live: "mq_release q = 0" and pop: "skynet_mq_pop q = (Some m, q')"
  shows "sched_rep (s\<lparr>sc_mqs := (sc_mqs s)\<lparr>mqs_heap := (mqs_heap (sc_mqs s))(r \<mapsto> q')\<rparr>\<rparr>) rs"
proof -
  have wf: "mq_wf q" and flag: "mq_in_global q = MQ_IN_GLOBAL"
    using sched_repD(4) [OF rep q] r live by (auto simp: mq_flag_ok_def)
  have "mq_flag_ok True q'"
    using mq.invar_pop [OF wf] pop mq_pop_flag [OF pop wf] flag by (simp add: mq_flag_ok_def)
  moreover have "mq_next q' = mq_next q"
    using mq_pop_frame(1) [of q] pop by simp
  ultimately show ?thesis
    using sched_rep_upd [OF rep q, of q' "sc_held s"] sched_repD(2) [OF rep] r by simp
qed

lemma sched_idle:
  assumes rep: "sched_rep s rs" and r: "r \<in> set (sc_held s)" and q: "mqs_heap (sc_mqs s) r = Some q"
    and live: "mq_release q = 0" and pop: "skynet_mq_pop q = (None, q')"
  shows "sched_rep (s\<lparr>sc_mqs := (sc_mqs s)\<lparr>mqs_heap := (mqs_heap (sc_mqs s))(r \<mapsto> q')\<rparr>,
                      sc_held := remove1 r (sc_held s)\<rparr>) rs"
proof -
  have wf: "mq_wf q" using sched_repD(4) [OF rep q] by (simp add: mq_flag_ok_def)
  have "mq_list q = []" using mq.pop_None_iff [OF wf] pop by simp
  then have "mq_list q' = []" using mq.pop_Nil [OF wf] pop by simp
  then have "mq_flag_ok False q'"
    using mq.invar_pop [OF wf] mq_pop_frame [of q] pop live mq_pop_flag [OF pop wf]
    by (simp add: mq_flag_ok_def)
  moreover have "mq_next q' = mq_next q"
    using mq_pop_frame(1) [of q] pop by simp
  moreover have "distinct (rs @ remove1 r (sc_held s))" "r \<notin> set rs \<union> set (remove1 r (sc_held s))"
    using sched_repD(2) [OF rep] r by auto
  ultimately show ?thesis
    using sched_repD(2) [OF rep] by (intro sched_rep_upd [OF rep q]) auto
qed

lemma sched_create:
  assumes rep: "sched_rep s rs" and new: "mqs_heap (sc_mqs s) r = None"
  shows "sched_rep (s\<lparr>sc_mqs := (sc_mqs s)\<lparr>mqs_heap := (mqs_heap (sc_mqs s))(r \<mapsto> skynet_mq_create h)\<rparr>,
                      sc_held := r # sc_held s\<rparr>) rs"
proof -
  have nr: "r \<notin> set rs" "r \<notin> set (sc_held s)"
    using gq_path_dom [of "mqs_heap (sc_mqs s)" "mqs_head (sc_mqs s)" rs] sched_repD(1,3) [OF rep] new
    by (auto simp: gq_rep_def)
  have "mq_flag_ok True (skynet_mq_create h)"
    using mq_wf_create [of h] by (simp add: mq_flag_ok_def skynet_mq_create_def)
  moreover have "mq_next (skynet_mq_create h) = None"
    by (simp add: skynet_mq_create_def)
  ultimately show ?thesis
    using nr sched_repD [OF rep] gq_rep_new [OF sched_repD(1) [OF rep] new]
    by (auto simp: sched_rep_def)
qed

lemma sched_step_rep: "sched_step s t \<Longrightarrow> sched_rep s rs \<Longrightarrow> \<exists>rs'. sched_rep t rs'"
proof (induction rule: sched_step.induct)
  case (create s r h)
  show ?case by (rule exI) (rule sched_create [OF create.prems create.hyps])
next
  case (send s r q m s')
  then show ?case using sched_send [OF send.prems send.hyps(1,2), of m] by (metis sum.inject(2))
next
  case (fetch s r s')
  show ?case by (rule sched_fetch [OF fetch.prems fetch.hyps]) blast
next
  case (take r s q m q')
  show ?case by (rule exI) (rule sched_take [OF take.prems take.hyps])
next
  case (idle r s q q')
  show ?case by (rule exI) (rule sched_idle [OF idle.prems idle.hyps])
next
  case (requeue r s s')
  then show ?case using sched_requeue [OF requeue.prems requeue.hyps(1)] by (metis sum.inject(2))
next
  case (retire s r q s')
  then show ?case using sched_retire [OF retire.prems retire.hyps(1,2)] by (metis sum.inject(2))
next
  case (reap r s q ms s')
  then show ?case using sched_reap [OF reap.prems reap.hyps(2,1,3)] by (metis sum.inject(2) prod.inject)
qed

lemma sched_rep_start: "sched_rep \<lparr>sc_mqs = skynet_mq_init, sc_held = []\<rparr> []"
  by (rule sched_repI) (simp_all add: gq_rep_init, simp add: skynet_mq_init_def)

lemma sched_reachable_rep: "sched_reachable s \<Longrightarrow> \<exists>rs. sched_rep s rs"
  by (induction rule: sched_reachable.induct) (auto intro: sched_rep_start sched_step_rep)

section \<open>Properties\<close>



lemma sched_example_reachable:
  "sched_reachable \<lparr>sc_mqs = skynet_mq_init\<lparr>mqs_heap := [7 \<mapsto> skynet_mq_create 1]\<rparr>, sc_held = [7]\<rparr>"
  using sched_reachable.step [OF sched_reachable.start
      sched_step.create [of "\<lparr>sc_mqs = skynet_mq_init, sc_held = []\<rparr>" 7 1]]
  by (simp add: skynet_mq_init_def)




end
