(* ===== verification/Handle.thy ===== *)
theory Handle
  imports Prelude
begin

text \<open>
  The service registry of \<^verbatim>\<open>skynet-src/skynet_handle.c\<close>: a hash table of contexts indexed
  by the low bits of their handle, which doubles when it is full, and a sorted array of
  names. Contexts are references; \<open>hof\<close> stands for \<^verbatim>\<open>skynet_context_handle\<close>, which reads the
  handle field of a context. Each function runs under the read-write lock of the registry.
\<close>

section \<open>Data\<close>

definition HANDLE_MASK :: u32 where "HANDLE_MASK = 0xffffff"
definition HANDLE_REMOTE_SHIFT :: nat where "HANDLE_REMOTE_SHIFT = 24"
definition DEFAULT_SLOT_SIZE :: nat where "DEFAULT_SLOT_SIZE = 4"
definition MAX_SLOT_SIZE :: nat where "MAX_SLOT_SIZE = 0x40000000"

type_synonym ctxref = nat
type_synonym handle_name = "cstr \<times> u32"

text \<open>\<^verbatim>\<open>slot_size\<close> is the length of \<open>hs_slot\<close>, \<^verbatim>\<open>name_cap\<close> the length of \<open>hs_name\<close>.\<close>

record handle_storage =
  hs_harbor :: u32
  hs_handle_index :: u32
  hs_slot :: "ctxref option list"
  hs_name_count :: nat
  hs_name :: "handle_name option list"

section \<open>Operations\<close>

text \<open>\<^verbatim>\<open>handle & (s->slot_size-1)\<close>\<close>

definition slot_hash :: "nat \<Rightarrow> u32 \<Rightarrow> nat" where
  "slot_hash slot_size handle = unat (handle AND (of_nat slot_size - 1))"

text \<open>The inner \<^verbatim>\<open>for\<close> loop of \<^verbatim>\<open>skynet_handle_register\<close>, \<open>n\<close> iterations to go.\<close>

primrec find_slot :: "ctxref option list \<Rightarrow> nat \<Rightarrow> u32 \<Rightarrow> (nat \<times> u32) option" where
  "find_slot slot 0 handle = None"
| "find_slot slot (Suc n) handle =
     (let handle = (if handle > HANDLE_MASK then 1 else handle);
          hash = slot_hash (length slot) handle
      in if slot ! hash = None then Some (hash, handle) else find_slot slot n (handle + 1))"

text \<open>The loop that moves every context of the full table into the doubled one.\<close>

fun move_slots :: "(ctxref \<Rightarrow> u32) \<Rightarrow> ctxref option list \<Rightarrow> ctxref option list \<Rightarrow> ctxref option list result" where
  "move_slots hof [] new_slot = Inr new_slot"
| "move_slots hof (None # slots) new_slot = Inl NullDeref"
| "move_slots hof (Some c # slots) new_slot =
     (let hash = slot_hash (length new_slot) (hof c) in
      rbind (cassert (new_slot ! hash = None)) (\<lambda>_.
      move_slots hof slots (new_slot[hash := Some c])))"

lemma length_move_slots: "move_slots hof slots new = Inr new' \<Longrightarrow> length new' = length new"
  by (induction hof slots new rule: move_slots.induct) (auto simp: rbind_Inr_iff Let_def)

text \<open>
  The outer loop. With no slot at all the C code would double zero for ever, which is
  the result \<open>Diverges\<close>.
\<close>

function skynet_handle_register ::
    "(ctxref \<Rightarrow> u32) \<Rightarrow> ctxref \<Rightarrow> handle_storage \<Rightarrow> (u32 \<times> handle_storage) result" where
  "skynet_handle_register hof ctx s =
     (case find_slot (hs_slot s) (length (hs_slot s)) (hs_handle_index s) of
        Some (hash, handle) \<Rightarrow>
          Inr (handle OR hs_harbor s,
               s\<lparr>hs_slot := (hs_slot s)[hash := Some ctx], hs_handle_index := handle + 1\<rparr>)
      | None \<Rightarrow>
          if length (hs_slot s) = 0 then Inl Diverges
          else rbind (cassert (length (hs_slot s) * 2 - 1 \<le> unat HANDLE_MASK)) (\<lambda>_.
               rbind (move_slots hof (hs_slot s) (replicate (length (hs_slot s) * 2) None)) (\<lambda>new_slot.
               skynet_handle_register hof ctx (s\<lparr>hs_slot := new_slot\<rparr>))))"
  by pat_completeness auto
termination
  by (relation "measure (\<lambda>(hof, ctx, s). 2 ^ 25 - length (hs_slot s))")
    (auto simp: HANDLE_MASK_def simp flip: length_greater_0_conv dest!: length_move_slots)

declare skynet_handle_register.simps [simp del]

text \<open>The loop of \<^verbatim>\<open>skynet_handle_retire\<close> that removes the names of a handle, \<open>n - i\<close> to go.\<close>

primrec retire_names :: "u32 \<Rightarrow> nat \<Rightarrow> nat \<Rightarrow> nat \<Rightarrow> handle_name option list \<Rightarrow> handle_name option list \<times> nat" where
  "retire_names handle 0 i j name = (name, j)"
| "retire_names handle (Suc n) i j name =
     (case name ! i of
        Some (_, h) \<Rightarrow>
          if h = handle then retire_names handle n (i + 1) j name
          else retire_names handle n (i + 1) (j + 1) (if i \<noteq> j then name[j := name ! i] else name)
      | None \<Rightarrow> retire_names handle n (i + 1) (j + 1) (if i \<noteq> j then name[j := name ! i] else name))"

text \<open>
  Returns whether the handle was live, and the context whose reference the caller then
  gives back with \<^verbatim>\<open>skynet_context_release\<close>.
\<close>

definition skynet_handle_retire ::
    "(ctxref \<Rightarrow> u32) \<Rightarrow> u32 \<Rightarrow> handle_storage \<Rightarrow> bool \<times> ctxref option \<times> handle_storage" where
  "skynet_handle_retire hof handle s =
     (let hash = slot_hash (length (hs_slot s)) handle in
      case hs_slot s ! hash of
        Some ctx \<Rightarrow>
          if hof ctx = handle then
            (let (name, j) = retire_names handle (hs_name_count s) 0 0 (hs_name s) in
             (True, Some ctx,
              s\<lparr>hs_slot := (hs_slot s)[hash := None], hs_name := name, hs_name_count := j\<rparr>))
          else (False, None, s)
      | None \<Rightarrow> (False, None, s))"

text \<open>The context found gets one more reference from the caller (\<^verbatim>\<open>skynet_context_grab\<close>).\<close>

definition skynet_handle_grab :: "(ctxref \<Rightarrow> u32) \<Rightarrow> u32 \<Rightarrow> handle_storage \<Rightarrow> ctxref option" where
  "skynet_handle_grab hof handle s =
     (case hs_slot s ! slot_hash (length (hs_slot s)) handle of
        Some ctx \<Rightarrow> if hof ctx = handle then Some ctx else None
      | None \<Rightarrow> None)"

text \<open>\<^verbatim>\<open>strcmp\<close>: only the sign of the result is used. Bytes compare as unsigned.\<close>

fun strcmp :: "cstr \<Rightarrow> cstr \<Rightarrow> int" where
  "strcmp [] [] = 0"
| "strcmp [] (b # bs) = -1"
| "strcmp (a # as) [] = 1"
| "strcmp (a # as) (b # bs) =
     (if a = b then strcmp as bs else if (of_char a :: nat) < of_char b then -1 else 1)"

text \<open>
  The binary search that \<^verbatim>\<open>skynet_handle_findname\<close> and \<^verbatim>\<open>_insert_name\<close> both contain: the
  index of the entry with this name (\<open>Inl\<close>) or the final \<^verbatim>\<open>begin\<close> (\<open>Inr\<close>).
\<close>

function name_search :: "handle_name option list \<Rightarrow> cstr \<Rightarrow> int \<Rightarrow> int \<Rightarrow> nat + nat" where
  "name_search name key b e =
     (if b \<le> e then
        (let mid = (b + e) div 2;
             c = strcmp (case name ! nat mid of Some (n, _) \<Rightarrow> n | None \<Rightarrow> []) key
         in if c = 0 then Inl (nat mid)
            else if c < 0 then name_search name key (mid + 1) e
            else name_search name key b (mid - 1))
      else Inr (nat b))"
  by pat_completeness auto
termination
  by (relation "measure (\<lambda>(name, key, b, e). nat (e + 1 - b))") auto

declare name_search.simps [simp del]

definition skynet_handle_findname :: "cstr \<Rightarrow> handle_storage \<Rightarrow> u32" where
  "skynet_handle_findname key s =
     (case name_search (hs_name s) key 0 (int (hs_name_count s) - 1) of
        Inl mid \<Rightarrow> (case hs_name s ! mid of Some (_, h) \<Rightarrow> h | None \<Rightarrow> 0)
      | Inr _ \<Rightarrow> 0)"

text \<open>\<^verbatim>\<open>for (i=s->name_count;i>before;i--) s->name[i] = s->name[i-1];\<close>, \<open>k = i - before\<close>\<close>

primrec shift_names :: "nat \<Rightarrow> nat \<Rightarrow> handle_name option list \<Rightarrow> handle_name option list" where
  "shift_names before 0 name = name"
| "shift_names before (Suc k) name =
     shift_names before k (name[before + Suc k := name ! (before + k)])"

definition insert_name_before ::
    "handle_storage \<Rightarrow> cstr \<Rightarrow> u32 \<Rightarrow> nat \<Rightarrow> handle_storage result" where
  "insert_name_before s name handle before =
     (let count = hs_name_count s; cap = length (hs_name s) in
      rbind
        (if count \<ge> cap then
           (let cap' = cap * 2 in
            rbind (cassert (cap' \<le> MAX_SLOT_SIZE)) (\<lambda>_.
            Inr (map (\<lambda>i. if i < before then hs_name s ! i
                          else if before < i \<and> i \<le> count then hs_name s ! (i - 1)
                          else None) [0..<cap'])))
         else Inr (shift_names before (count - before) (hs_name s)))
        (\<lambda>n. Inr (s\<lparr>hs_name := n[before := Some (name, handle)], hs_name_count := count + 1\<rparr>)))"

text \<open>\<open>None\<close> (\<^verbatim>\<open>NULL\<close>) when the name is taken, else the name.\<close>

definition insert_name :: "handle_storage \<Rightarrow> cstr \<Rightarrow> u32 \<Rightarrow> (cstr option \<times> handle_storage) result" where
  "insert_name s name handle =
     (case name_search (hs_name s) name 0 (int (hs_name_count s) - 1) of
        Inl _ \<Rightarrow> Inr (None, s)
      | Inr b \<Rightarrow> rbind (insert_name_before s name handle b) (\<lambda>s'. Inr (Some name, s')))"

definition skynet_handle_namehandle ::
    "u32 \<Rightarrow> cstr \<Rightarrow> handle_storage \<Rightarrow> (cstr option \<times> handle_storage) result" where
  "skynet_handle_namehandle handle name s = insert_name s name handle"

definition skynet_handle_init :: "u32 \<Rightarrow> handle_storage" where
  "skynet_handle_init harbor =
     \<lparr>hs_harbor = push_bit HANDLE_REMOTE_SHIFT (harbor AND 0xff), hs_handle_index = 1,
      hs_slot = replicate DEFAULT_SLOT_SIZE None,
      hs_name_count = 0, hs_name = replicate 2 None\<rparr>"

section \<open>The slot table\<close>

text \<open>The handle a context gets carries the harbor in its high 8 bits, its number below.\<close>

definition hs_ok :: "(ctxref \<Rightarrow> u32) \<Rightarrow> handle_storage \<Rightarrow> bool" where
  "hs_ok hof s \<longleftrightarrow>
     (\<exists>k. length (hs_slot s) = 2 ^ k \<and> 2 \<le> k \<and> k \<le> 24) \<and>
     hs_harbor s AND HANDLE_MASK = 0 \<and> 1 \<le> hs_handle_index s \<and> hs_handle_index s \<le> HANDLE_MASK + 1 \<and>
     (\<forall>i c. i < length (hs_slot s) \<longrightarrow> hs_slot s ! i = Some c \<longrightarrow> slot_hash (length (hs_slot s)) (hof c) = i)"

lemma hs_okI:
  assumes "length (hs_slot s) = 2 ^ k" "2 \<le> k" "k \<le> 24" "hs_harbor s AND HANDLE_MASK = 0"
    "1 \<le> hs_handle_index s" "hs_handle_index s \<le> HANDLE_MASK + 1"
    "\<And>i c. i < length (hs_slot s) \<Longrightarrow> hs_slot s ! i = Some c \<Longrightarrow> slot_hash (length (hs_slot s)) (hof c) = i"
  shows "hs_ok hof s"
  using assms unfolding hs_ok_def by blast

lemma hs_okD:
  assumes "hs_ok hof s"
  shows "hs_harbor s AND HANDLE_MASK = 0" "1 \<le> hs_handle_index s" "hs_handle_index s \<le> HANDLE_MASK + 1"
    "i < length (hs_slot s) \<Longrightarrow> hs_slot s ! i = Some c \<Longrightarrow> slot_hash (length (hs_slot s)) (hof c) = i"
  using assms unfolding hs_ok_def by blast+

lemma slot_hash_mod: "k \<le> 24 \<Longrightarrow> slot_hash (2 ^ k) h = unat h mod 2 ^ k"
proof -
  have "(of_nat (2 ^ k) :: u32) - 1 = mask k"
    by (simp add: mask_eq_exp_minus_1)
  then have "slot_hash (2 ^ k) h = unat (take_bit k h)"
    by (simp only: slot_hash_def take_bit_eq_mask)
  also have "\<dots> = unat h mod 2 ^ k"
    by (simp only: unsigned_take_bit_eq) (simp only: take_bit_eq_mod)
  finally show ?thesis .
qed

lemma hs_ok_hash:
  assumes "hs_ok hof s"
  shows "slot_hash (length (hs_slot s)) h = unat h mod length (hs_slot s)"
    and "slot_hash (length (hs_slot s) * 2) h = unat h mod (length (hs_slot s) * 2) \<or>
         2 ^ 24 \<le> length (hs_slot s)"
    and "4 \<le> length (hs_slot s)" "length (hs_slot s) \<le> 2 ^ 24"
proof -
  obtain k where k: "length (hs_slot s) = 2 ^ k" "2 \<le> k" "k \<le> 24"
    using assms by (auto simp: hs_ok_def)
  show "slot_hash (length (hs_slot s)) h = unat h mod length (hs_slot s)"
    using k by (simp add: slot_hash_mod)
  show "slot_hash (length (hs_slot s) * 2) h = unat h mod (length (hs_slot s) * 2) \<or>
        2 ^ 24 \<le> length (hs_slot s)"
    using k slot_hash_mod [of "Suc k" h] by (cases "k = 24") (auto simp: mult.commute)
  show "4 \<le> length (hs_slot s)"
    using k power_increasing [of 2 k "2::nat"] by simp
  show "length (hs_slot s) \<le> 2 ^ 24"
    using k power_increasing [of k 24 "2::nat"] by simp
qed

lemma find_slot_Some:
  assumes "find_slot slot n h = Some (hash, h')" "1 \<le> h"
  shows "hash = slot_hash (length slot) h' \<and> slot ! hash = None \<and> 1 \<le> h' \<and> h' \<le> HANDLE_MASK"
  using assms
proof (induction n arbitrary: h)
  case 0
  then show ?case by simp
next
  case (Suc n)
  let ?h = "if h > HANDLE_MASK then 1 else h"
  have h: "1 \<le> ?h" "?h \<le> HANDLE_MASK"
    using Suc.prems(2) by (auto simp: HANDLE_MASK_def)
  have unf: "find_slot slot (Suc n) h =
      (if slot ! slot_hash (length slot) ?h = None then Some (slot_hash (length slot) ?h, ?h)
       else find_slot slot n (?h + 1))"
    by (simp only: find_slot.simps Let_def)
  show ?case
  proof (cases "slot ! slot_hash (length slot) ?h = None")
    case True
    then have "hash = slot_hash (length slot) ?h" "h' = ?h"
      using Suc.prems(1) unfolding unf by (auto simp only: if_True option.inject prod.inject simp_thms)
    with True h show ?thesis by blast
  next
    case False
    then have "find_slot slot n (?h + 1) = Some (hash, h')"
      using Suc.prems(1) unfolding unf by (simp only: if_False)
    moreover have "1 \<le> ?h + 1"
      using h by (simp add: HANDLE_MASK_def word_le_nat_alt unat_word_ariths unsigned_of_nat)
    ultimately show ?thesis by (rule Suc.IH)
  qed
qed

text \<open>A scan that does not cross \<^verbatim>\<open>HANDLE_MASK\<close> fails only if every slot it visits is taken.\<close>

lemma find_slot_None:
  assumes "find_slot slot n h = None" "unat h + n \<le> 2 ^ 24" "j < n"
    and hash: "\<And>x. slot_hash (length slot) x = unat x mod length slot"
  shows "slot ! ((unat h + j) mod length slot) \<noteq> None"
  using assms(1-3)
proof (induction n arbitrary: h j)
  case 0
  then show ?case by simp
next
  case (Suc n)
  have h: "\<not> h > HANDLE_MASK"
    using Suc.prems(2) by (simp add: HANDLE_MASK_def word_less_nat_alt)
  with Suc.prems(1) have here: "slot ! (unat h mod length slot) \<noteq> None"
    and rest: "find_slot slot n (h + 1) = None"
    by (auto simp: Let_def hash split: if_splits)
  have suc: "unat (h + 1) = unat h + 1"
    using Suc.prems(2) by (simp add: unat_word_ariths)
  show ?case
  proof (cases j)
    case 0
    with here show ?thesis by simp
  next
    case (Suc j')
    with Suc.IH [OF rest, of j'] Suc.prems suc show ?thesis by simp
  qed
qed

lemma find_slot_full:
  assumes "find_slot slot (length slot) h = None" "unat h + length slot \<le> 2 ^ 24" "i < length slot"
    and hash: "\<And>x. slot_hash (length slot) x = unat x mod length slot"
  shows "slot ! i \<noteq> None"
proof -
  define j where "j = (i + (length slot - unat h mod length slot)) mod length slot"
  have "(unat h + j) mod length slot = i"
  proof -
    have "unat h mod length slot < length slot"
      by (rule mod_less_divisor) (use assms(3) in linarith)
    then have "(unat h mod length slot + (i + (length slot - unat h mod length slot))) mod length slot
          = (i + length slot) mod length slot"
      by (metis add.left_commute add_diff_inverse_nat less_imp_le_nat linorder_not_less nat_less_le)
    then show ?thesis
      using assms(3) by (simp add: j_def mod_simps)
  qed
  moreover have "j < length slot"
    unfolding j_def by (rule mod_less_divisor) (use assms(3) in linarith)
  ultimately show ?thesis
    using find_slot_None [OF assms(1,2) _ hash, of j] by simp
qed

text \<open>Moving contexts with pairwise different hashes fills exactly their slots.\<close>

lemma move_slots_ok:
  "distinct (map (\<lambda>c. slot_hash (length new) (hof c)) cs) \<Longrightarrow>
   \<forall>c \<in> set cs. slot_hash (length new) (hof c) < length new \<and> new ! slot_hash (length new) (hof c) = None \<Longrightarrow>
   \<exists>new'. move_slots hof (map Some cs) new = Inr new' \<and> length new' = length new \<and>
     (\<forall>c \<in> set cs. new' ! slot_hash (length new) (hof c) = Some c) \<and>
     (\<forall>i. i \<notin> (\<lambda>c. slot_hash (length new) (hof c)) ` set cs \<longrightarrow> new' ! i = new ! i)"
proof (induction cs arbitrary: new)
  case Nil
  then show ?case by simp
next
  case (Cons c cs)
  define h where "h = (\<lambda>c. slot_hash (length new) (hof c))"
  define n where "n = new[h c := Some c]"
  have len: "length n = length new" by (simp add: n_def)
  have d: "distinct (map h cs)" "h c \<notin> h ` set cs"
    using Cons.prems(1) by (auto simp: h_def)
  have c: "h c < length new" "new ! h c = None"
    using Cons.prems(2) by (auto simp: h_def)
  have free: "\<forall>e \<in> set cs. h e < length n \<and> n ! h e = None"
  proof
    fix e assume e: "e \<in> set cs"
    then have "h c \<noteq> h e" using d(2) by auto
    then show "h e < length n \<and> n ! h e = None"
      using e Cons.prems(2) by (simp add: n_def h_def)
  qed
  obtain new' where n': "move_slots hof (map Some cs) n = Inr new'" "length new' = length new"
    "\<forall>d \<in> set cs. new' ! h d = Some d" "\<forall>i. i \<notin> h ` set cs \<longrightarrow> new' ! i = n ! i"
    using Cons.IH [of n] d(1) free unfolding len h_def by blast
  have "move_slots hof (map Some (c # cs)) new = Inr new'"
    using n'(1) c by (simp add: n_def h_def)
  moreover have "new' ! h c = Some c"
    using n'(4) d(2) c(1) by (simp add: n_def)
  moreover have "\<forall>i. i \<notin> h ` set (c # cs) \<longrightarrow> new' ! i = new ! i"
    using n'(4) by (simp add: n_def)
  ultimately show ?case
    using n'(2,3) unfolding h_def by auto
qed

definition contexts :: "handle_storage \<Rightarrow> ctxref set" where
  "contexts s = {c. Some c \<in> set (hs_slot s)}"

lemma hs_ok_slot_hash_less: "hs_ok hof s \<Longrightarrow> slot_hash (length (hs_slot s)) h < length (hs_slot s)"
  using hs_ok_hash(1) [of hof s h] hs_ok_hash(3) [of hof s] by (simp del: length_greater_0_conv)

lemma contexts_iff: "c \<in> contexts s \<longleftrightarrow> (\<exists>i < length (hs_slot s). hs_slot s ! i = Some c)"
  by (auto simp: contexts_def in_set_conv_nth)

lemma hs_ok_context:
  "hs_ok hof s \<Longrightarrow> c \<in> contexts s \<Longrightarrow> hs_slot s ! slot_hash (length (hs_slot s)) (hof c) = Some c"
  by (auto simp: contexts_iff hs_okD(4))

lemma grab_iff:
  assumes "hs_ok hof s"
  shows "skynet_handle_grab hof h s = Some c \<longleftrightarrow> c \<in> contexts s \<and> hof c = h"
proof
  assume "skynet_handle_grab hof h s = Some c"
  then have "hs_slot s ! slot_hash (length (hs_slot s)) h = Some c" "hof c = h"
    by (auto simp: skynet_handle_grab_def split: option.splits if_splits)
  with hs_ok_slot_hash_less [OF assms] show "c \<in> contexts s \<and> hof c = h"
    by (auto simp: contexts_iff)
next
  assume "c \<in> contexts s \<and> hof c = h"
  with hs_ok_context [OF assms, of c] show "skynet_handle_grab hof h s = Some c"
    by (auto simp: skynet_handle_grab_def)
qed

lemma Some_in_update:
  assumes "i < length xs" "xs ! i = None"
  shows "Some d \<in> set (xs[i := Some c]) \<longleftrightarrow> d = c \<or> Some d \<in> set xs"
proof -
  have "Some d \<in> set xs \<longleftrightarrow> (\<exists>j < length xs. j \<noteq> i \<and> xs ! j = Some d)"
    using assms by (auto simp: in_set_conv_nth)
  moreover have "Some d \<in> set (xs[i := Some c]) \<longleftrightarrow>
      (\<exists>j < length xs. if j = i then d = c else xs ! j = Some d)"
    using assms by (auto simp: in_set_conv_nth nth_list_update)
  ultimately show ?thesis using assms(1) by auto
qed

text \<open>Doubling a full table keeps every context where its handle says.\<close>

lemma expand_ok:
  assumes ok: "hs_ok hof s" and full: "\<forall>i < length (hs_slot s). hs_slot s ! i \<noteq> None"
    and room: "length (hs_slot s) * 2 \<le> 2 ^ 24"
  obtains new where
    "move_slots hof (hs_slot s) (replicate (length (hs_slot s) * 2) None) = Inr new"
    "length new = length (hs_slot s) * 2"
    "hs_ok hof (s\<lparr>hs_slot := new\<rparr>)" "contexts (s\<lparr>hs_slot := new\<rparr>) = contexts s"
    "\<exists>i < length new. new ! i = None"
proof -
  define n where "n = length (hs_slot s)"
  define cs where "cs = map the (hs_slot s)"
  define h where "h = (\<lambda>c. slot_hash (n * 2) (hof c))"
  have slots: "hs_slot s = map Some cs"
    using full by (auto simp: cs_def intro!: nth_equalityI)
  have ctx: "contexts s = set cs"
    by (auto simp: contexts_def slots)
  have n: "n = length cs" "0 < n" "n \<noteq> 2 ^ 24"
    using hs_ok_hash(3) [OF ok] room by (auto simp: n_def slots)
  have h2: "h c = unat (hof c) mod (n * 2)" for c
    using hs_ok_hash(2) [OF ok, of "hof c"] room n by (auto simp: h_def n_def)
  have at: "hs_slot s ! i = Some c \<Longrightarrow> i < n \<Longrightarrow> unat (hof c) mod n = i" for i c
    using ok hs_ok_hash(1) [OF ok, of "hof c"] by (auto simp: hs_ok_def n_def)
  have mod_n: "h c mod n = unat (hof c) mod n" for c
    by (simp add: h2 mod_mult2_eq)
  have dist: "distinct (map h cs)"
  proof (clarsimp simp: distinct_conv_nth)
    fix i j assume ij: "i < length cs" "j < length cs" "i \<noteq> j" "h (cs ! i) = h (cs ! j)"
    then have "unat (hof (cs ! i)) mod n = unat (hof (cs ! j)) mod n"
      using mod_n by metis
    then show False
      using at [of i "cs ! i"] at [of j "cs ! j"] ij n slots by simp
  qed
  have less: "h c < n * 2" for c
    using n by (simp add: h2)
  have "\<exists>new. move_slots hof (map Some cs) (replicate (n * 2) None) = Inr new \<and> length new = n * 2 \<and>
      (\<forall>c \<in> set cs. new ! h c = Some c) \<and> (\<forall>i. i \<notin> h ` set cs \<longrightarrow> new ! i = replicate (n * 2) None ! i)"
    using move_slots_ok [of "replicate (n * 2) None" hof cs] dist less by (simp add: h_def)
  then obtain new where new: "move_slots hof (hs_slot s) (replicate (n * 2) None) = Inr new"
    "length new = n * 2" "\<forall>c \<in> set cs. new ! h c = Some c"
    "\<forall>i. i \<notin> h ` set cs \<longrightarrow> new ! i = replicate (n * 2) None ! i"
    using slots by auto
  have other: "i < n * 2 \<Longrightarrow> new ! i = Some c \<Longrightarrow> c \<in> set cs \<and> h c = i" for i c
    using new(3,4) by (cases "i \<in> h ` set cs") auto
  have "hs_ok hof (s\<lparr>hs_slot := new\<rparr>)"
  proof -
    obtain k where "n = 2 ^ k" "2 \<le> k" "k \<le> 24"
      using ok by (auto simp: hs_ok_def n_def)
    then have k: "length new = 2 ^ Suc k" "2 \<le> Suc k" "Suc k \<le> 24"
      using new(2) n by (cases "k = 24", auto)+
    show ?thesis
      by (rule hs_okI [of _ "Suc k"]) (use hs_okD(1-3) [OF ok] k other new(2) in \<open>auto simp: h_def\<close>)
  qed
  moreover have "contexts (s\<lparr>hs_slot := new\<rparr>) = contexts s"
  proof -
    have "Some c \<in> set new \<longleftrightarrow> c \<in> set cs" for c
      using new(2,3) other less [of c] by (metis in_set_conv_nth)
    then show ?thesis by (simp add: ctx) (simp add: contexts_def)
  qed
  moreover have "\<exists>i < length new. new ! i = None"
  proof -
    have "card (h ` set cs) \<le> n"
      using card_image_le [of "set cs" h] card_length [of cs] n(1) by simp
    then have "card (h ` set cs) < card {..<n * 2}"
      using n(2) by simp
    then have "\<not> {..<n * 2} \<subseteq> h ` set cs"
      by (meson List.finite_set card_mono finite_imageI leD)
    then show ?thesis
      using new(2,4) by (metis lessThan_iff nth_replicate subsetI)
  qed
  ultimately show ?thesis
    using that new(1,2) by (simp add: n_def)
qed

lemma slot_hash_harbor:
  assumes "harbor AND HANDLE_MASK = 0" "k \<le> 24"
  shows "slot_hash (2 ^ k) (h OR harbor) = slot_hash (2 ^ k) h"
proof -
  have m: "(of_nat (2 ^ k) :: u32) - 1 = mask k"
    by (simp add: mask_eq_exp_minus_1)
  have "HANDLE_MASK = mask 24"
    by (simp add: HANDLE_MASK_def mask_eq_exp_minus_1)
  with assms have "harbor AND mask k = 0"
    by (auto simp: bit_eq_iff bit_simps)
  then show ?thesis
    unfolding slot_hash_def m by (simp add: and.commute [of _ "mask k"] bit.conj_disj_distrib)
qed

text \<open>Placing a context into a free slot.\<close>

lemma place_ok:
  assumes ok: "hs_ok hof s" and find: "find_slot (hs_slot s) n (hs_handle_index s) = Some (hash, handle)"
    and new: "c \<notin> contexts s"
  defines "h \<equiv> handle OR hs_harbor s"
  defines "s' \<equiv> s\<lparr>hs_slot := (hs_slot s)[hash := Some c], hs_handle_index := handle + 1\<rparr>"
  shows "hs_ok (hof(c := h)) s'" "contexts s' = insert c (contexts s)"
    "\<forall>d \<in> contexts s. hof d \<noteq> h" "h AND HANDLE_MASK \<noteq> 0"
proof -
  obtain k where k: "length (hs_slot s) = 2 ^ k" "2 \<le> k" "k \<le> 24"
    using ok by (auto simp: hs_ok_def)
  have f: "hash = slot_hash (2 ^ k) handle" "hs_slot s ! hash = None" "1 \<le> handle" "handle \<le> HANDLE_MASK"
    using find_slot_Some [OF find] ok k by (auto simp: hs_ok_def)
  have hb: "hs_harbor s AND HANDLE_MASK = 0"
    using ok by (simp add: hs_ok_def)
  have hash: "slot_hash (2 ^ k) h = hash"
    using slot_hash_harbor [OF hb k(3)] f(1) by (simp add: h_def)
  have less: "hash < 2 ^ k"
    using hs_ok_slot_hash_less [OF ok, of h] hash k by simp
  show "\<forall>d \<in> contexts s. hof d \<noteq> h"
    using hs_ok_context [OF ok] hash f(2) k(1) by fastforce
  have idx: "1 \<le> handle + 1" "handle + 1 \<le> HANDLE_MASK + 1"
    using f(3,4) by (simp_all add: HANDLE_MASK_def word_le_nat_alt unat_word_ariths)
  have notin: "i < 2 ^ k \<Longrightarrow> hs_slot s ! i \<noteq> Some c" for i
    using new k(1) by (auto simp: contexts_def) (metis nth_mem)
  show "hs_ok (hof(c := h)) s'"
  proof (rule hs_okI [of _ k])
    fix i d
    assume i: "i < length (hs_slot s')" and d: "hs_slot s' ! i = Some d"
    show "slot_hash (length (hs_slot s')) ((hof(c := h)) d) = i"
    proof (cases "i = hash")
      case True
      with d less k(1) have "d = c" by (simp add: s'_def)
      with True hash k(1) show ?thesis by (simp add: s'_def)
    next
      case False
      with i d have "hs_slot s ! i = Some d" "i < length (hs_slot s)" by (simp_all add: s'_def)
      with notin [of i] hs_okD(4) [OF ok, of i d] k(1) show ?thesis by (auto simp: s'_def)
    qed
  qed (use k hs_okD [OF ok] idx in \<open>simp_all add: s'_def\<close>)
  show "contexts s' = insert c (contexts s)"
    using Some_in_update [of hash "hs_slot s"] less k(1) f(2) by (auto simp: contexts_def s'_def)
  have "handle AND HANDLE_MASK = handle"
  proof -
    have "HANDLE_MASK = mask 24"
      by (simp add: HANDLE_MASK_def mask_eq_exp_minus_1)
    moreover have "take_bit 24 handle = handle"
    proof (rule word_unat_eq_iff [THEN iffD2])
      have "unat handle < 2 ^ 24"
        using f(4) by (simp add: HANDLE_MASK_def word_le_nat_alt)
      then show "unat (take_bit 24 handle) = unat handle"
        by (simp only: unsigned_take_bit_eq take_bit_nat_eq_self)
    qed
    ultimately show ?thesis by (simp add: take_bit_eq_mask)
  qed
  moreover have "h AND HANDLE_MASK = handle AND HANDLE_MASK"
    using hb unfolding h_def by (simp add: and.commute [of _ HANDLE_MASK] bit.conj_disj_distrib)
  ultimately show "h AND HANDLE_MASK \<noteq> 0"
    using f(3) by auto
qed

text \<open>A scan that does not wrap takes a number from the index on, which the handle carries below the harbor.\<close>

lemma find_slot_ge:
  assumes "find_slot slot n h = Some (hash, h')" "unat h + n \<le> 2 ^ 24"
  shows "h \<le> h'"
  using assms
proof (induction n arbitrary: h)
  case 0
  then show ?case by simp
next
  case (Suc n)
  have h: "\<not> h > HANDLE_MASK"
    using Suc.prems(2) by (simp add: HANDLE_MASK_def word_less_nat_alt)
  have suc: "unat (h + 1) = unat h + 1"
    using Suc.prems(2) by (simp add: unat_word_ariths)
  show ?case
  proof (cases "slot ! slot_hash (length slot) h = None")
    case True
    then show ?thesis using Suc.prems(1) h by (simp add: Let_def)
  next
    case False
    then have "find_slot slot n (h + 1) = Some (hash, h')" using Suc.prems(1) h by (auto simp: Let_def split: if_splits)
    then have "h + 1 \<le> h'" using Suc.IH [of "h + 1"] Suc.prems(2) suc by simp
    then show ?thesis using suc by (simp add: word_le_nat_alt)
  qed
qed

lemma place_index:
  assumes ok: "hs_ok hof s" and find: "find_slot (hs_slot s) n (hs_handle_index s) = Some (hash, handle)"
    and room: "unat (hs_handle_index s) + n \<le> 2 ^ 24"
  shows "(handle OR hs_harbor s) AND HANDLE_MASK = handle" "hs_handle_index s \<le> handle"
proof -
  show "hs_handle_index s \<le> handle" by (rule find_slot_ge [OF find room])
  have le: "handle \<le> HANDLE_MASK" using find_slot_Some [OF find] hs_okD(2) [OF ok] by simp
  have m: "HANDLE_MASK = mask 24" by (simp add: HANDLE_MASK_def mask_eq_exp_minus_1)
  have "unat handle < 2 ^ 24" using le by (simp add: HANDLE_MASK_def word_le_nat_alt)
  then have "unat (take_bit 24 handle) = unat handle" by (simp add: unsigned_take_bit_eq take_bit_nat_eq_self)
  then have "handle AND HANDLE_MASK = handle"
    unfolding m by (simp add: take_bit_eq_mask word_unat_eq_iff)
  then show "(handle OR hs_harbor s) AND HANDLE_MASK = handle"
    using hs_okD(1) [OF ok] by (simp add: bit.conj_disj_distrib2)
qed

text \<open>
  Registration succeeds whenever the scan cannot cross \<^verbatim>\<open>HANDLE_MASK\<close>, with a handle no
  live context has.
\<close>

lemma register_ok:
  assumes ok: "hs_ok hof s" and new: "c \<notin> contexts s"
    and room: "unat (hs_handle_index s) + length (hs_slot s) * 2 \<le> 2 ^ 24"
  obtains h s' where "skynet_handle_register hof c s = Inr (h, s')" "hs_ok (hof(c := h)) s'"
    "contexts s' = insert c (contexts s)" "\<forall>d \<in> contexts s. hof d \<noteq> h" "h AND HANDLE_MASK \<noteq> 0"
    "hs_name s' = hs_name s" "hs_name_count s' = hs_name_count s"
    "hs_handle_index s \<le> h AND HANDLE_MASK" "hs_handle_index s' = (h AND HANDLE_MASK) + 1"
proof (cases "find_slot (hs_slot s) (length (hs_slot s)) (hs_handle_index s)")
  case (Some p)
  then obtain hash handle where f: "find_slot (hs_slot s) (length (hs_slot s)) (hs_handle_index s) =
      Some (hash, handle)" by (cases p) auto
  let ?s = "s\<lparr>hs_slot := (hs_slot s)[hash := Some c], hs_handle_index := handle + 1\<rparr>"
  show ?thesis
    by (rule that [of "handle OR hs_harbor s" ?s])
      (use f room place_ok [OF ok f new] place_index [OF ok f] in \<open>simp_all add: skynet_handle_register.simps [of hof c s]\<close>)
next
  case None
  have len: "length (hs_slot s) * 2 \<le> 2 ^ 24" "length (hs_slot s) \<noteq> 0"
    using room hs_ok_hash(3) [OF ok] by auto
  have full: "\<forall>i < length (hs_slot s). hs_slot s ! i \<noteq> None"
    using find_slot_full [OF None _ _ hs_ok_hash(1) [OF ok]] room by auto
  obtain slots where m: "move_slots hof (hs_slot s) (replicate (length (hs_slot s) * 2) None) = Inr slots"
    and l: "length slots = length (hs_slot s) * 2" and ok': "hs_ok hof (s\<lparr>hs_slot := slots\<rparr>)"
    and ctx: "contexts (s\<lparr>hs_slot := slots\<rparr>) = contexts s" and free: "\<exists>i < length slots. slots ! i = None"
    using expand_ok [OF ok full len(1)] by blast
  let ?s = "s\<lparr>hs_slot := slots\<rparr>"
  have "find_slot slots (length slots) (hs_handle_index s) \<noteq> None"
  proof
    assume "find_slot slots (length slots) (hs_handle_index s) = None"
    then have "slots ! i \<noteq> None" if "i < length slots" for i
      using find_slot_full [of slots "hs_handle_index s" i] hs_ok_hash(1) [OF ok'] room l that by simp
    with free show False by blast
  qed
  then obtain hash handle where f: "find_slot (hs_slot ?s) (length (hs_slot ?s)) (hs_handle_index ?s) =
      Some (hash, handle)" by auto
  have new': "c \<notin> contexts ?s" using new ctx by simp
  have "skynet_handle_register hof c s = skynet_handle_register hof c ?s"
  proof -
    have "length (hs_slot s) * 2 - 1 \<le> unat HANDLE_MASK"
      using len(1) by (simp add: HANDLE_MASK_def)
    then show ?thesis
      using None len(2) m unfolding skynet_handle_register.simps [of hof c s] by simp
  qed
  also have "\<dots> = Inr (handle OR hs_harbor ?s,
      ?s\<lparr>hs_slot := (hs_slot ?s)[hash := Some c], hs_handle_index := handle + 1\<rparr>)"
    using f unfolding skynet_handle_register.simps [of hof c ?s] by simp
  finally show ?thesis
    by (rule that) (use place_ok [OF ok' f new'] place_index [OF ok' f] ctx room l in simp_all)
qed

lemma retire_ok:
  assumes ok: "hs_ok hof s" and r: "skynet_handle_retire hof h s = (b, ctx, s')"
  shows "hs_ok hof s'" "contexts s' = contexts s - {c. hof c = h}"
    "ctx = skynet_handle_grab hof h s" "b \<longleftrightarrow> ctx \<noteq> None"
proof -
  let ?i = "slot_hash (length (hs_slot s)) h"
  have less: "?i < length (hs_slot s)" by (rule hs_ok_slot_hash_less [OF ok])
  have grab: "ctx = skynet_handle_grab hof h s \<and> (b \<longleftrightarrow> ctx \<noteq> None) \<and>
      (if ctx = None then s' = s else hs_slot s' = (hs_slot s)[?i := None] \<and>
         hs_harbor s' = hs_harbor s \<and> hs_handle_index s' = hs_handle_index s)"
    using r by (auto simp: skynet_handle_retire_def skynet_handle_grab_def Let_def
        split: option.splits if_splits prod.splits) (metis option.distinct(1))
  then show "ctx = skynet_handle_grab hof h s" "b \<longleftrightarrow> ctx \<noteq> None" by auto
  show "hs_ok hof s'"
  proof (cases ctx)
    case None
    with ok grab show ?thesis by simp
  next
    case (Some c)
    obtain k where k: "length (hs_slot s) = 2 ^ k" "2 \<le> k" "k \<le> 24"
      using ok by (auto simp: hs_ok_def)
    show ?thesis
      by (rule hs_okI [of _ k])
        (use k grab Some hs_okD [OF ok] less in \<open>auto simp: nth_list_update split: if_splits\<close>)
  qed
  have in_s': "c \<in> contexts s' \<longleftrightarrow> c \<in> contexts s \<and> hof c \<noteq> h" for c
  proof (cases ctx)
    case None
    with grab grab_iff [OF ok, of h c] show ?thesis by auto
  next
    case (Some d)
    with grab have d: "hof d = h" "d \<in> contexts s" using grab_iff [OF ok, of h d] by auto
    have at: "hs_slot s ! ?i = Some d" using hs_ok_context [OF ok d(2)] d(1) by simp
    have "c \<in> contexts s' \<longleftrightarrow> (\<exists>j < length (hs_slot s). j \<noteq> ?i \<and> hs_slot s ! j = Some c)"
    proof -
      have "hs_slot s' ! j = (if j = ?i then None else hs_slot s ! j)" for j
        using grab Some less by (simp add: nth_list_update)
      moreover have "length (hs_slot s') = length (hs_slot s)"
        using grab Some by simp
      ultimately show ?thesis
        by (simp add: contexts_iff) (metis option.distinct(1))
    qed
    also have "\<dots> \<longleftrightarrow> c \<in> contexts s \<and> hof c \<noteq> h"
    proof
      assume "\<exists>j < length (hs_slot s). j \<noteq> ?i \<and> hs_slot s ! j = Some c"
      then show "c \<in> contexts s \<and> hof c \<noteq> h"
        using hs_okD(4) [OF ok] by (auto simp: contexts_iff)
    next
      assume "c \<in> contexts s \<and> hof c \<noteq> h"
      then obtain j where "j < length (hs_slot s)" "hs_slot s ! j = Some c" "hof c \<noteq> h"
        by (auto simp: contexts_iff)
      with at d(1) show "\<exists>j < length (hs_slot s). j \<noteq> ?i \<and> hs_slot s ! j = Some c"
        by (cases "j = ?i") auto
    qed
    finally show ?thesis .
  qed
  then show "contexts s' = contexts s - {c. hof c = h}" by blast
qed

section \<open>The name table\<close>

lemma strcmp_0: "strcmp a b = 0 \<longleftrightarrow> a = b"
  by (induction a b rule: strcmp.induct) auto

lemma strcmp_trans: "strcmp a b < 0 \<Longrightarrow> strcmp b c < 0 \<Longrightarrow> strcmp a c < 0"
proof (induction a b arbitrary: c rule: strcmp.induct)
  case (2 b bs)
  then show ?case by (cases c) auto
next
  case (4 a as b bs)
  then show ?case by (cases c) (auto split: if_splits)
qed auto

lemma strcmp_neg: "strcmp a b < 0 \<longleftrightarrow> strcmp b a > 0"
  by (induction a b rule: strcmp.induct) (auto simp: neq_iff)

text \<open>The live part of the name array, and its invariant: complete and strictly sorted.\<close>

definition names :: "handle_storage \<Rightarrow> handle_name list" where
  "names s = map the (take (hs_name_count s) (hs_name s))"

definition names_ok :: "handle_storage \<Rightarrow> bool" where
  "names_ok s \<longleftrightarrow> hs_name_count s \<le> length (hs_name s) \<and> 2 \<le> length (hs_name s) \<and>
     (\<forall>i < hs_name_count s. hs_name s ! i \<noteq> None) \<and>
     sorted_wrt (\<lambda>x y. strcmp (fst x) (fst y) < 0) (names s)"

lemma names_ok_length [simp]: "names_ok s \<Longrightarrow> length (names s) = hs_name_count s"
  by (simp add: names_def names_ok_def)

lemma names_nth: "names_ok s \<Longrightarrow> i < hs_name_count s \<Longrightarrow> hs_name s ! i = Some (names s ! i)"
  by (auto simp: names_def names_ok_def)

lemma names_sorted:
  "names_ok s \<Longrightarrow> i < j \<Longrightarrow> j < hs_name_count s \<Longrightarrow> strcmp (fst (names s ! i)) (fst (names s ! j)) < 0"
  using sorted_wrt_nth_less [of "\<lambda>x y. strcmp (fst x) (fst y) < 0" "names s" i j] names_ok_length [of s]
  by (auto simp only: names_ok_def)

text \<open>What the binary search finds: the entry, or the place where it belongs.\<close>

lemma name_search_spec:
  assumes "names_ok s" "0 \<le> b" "e < int (hs_name_count s)" "b \<le> e + 1"
    "\<And>i. i < nat b \<Longrightarrow> strcmp (fst (names s ! i)) key < 0"
    "\<And>i. e < int i \<Longrightarrow> i < hs_name_count s \<Longrightarrow> strcmp (fst (names s ! i)) key > 0"
  shows "case name_search (hs_name s) key b e of
           Inl m \<Rightarrow> m < hs_name_count s \<and> fst (names s ! m) = key
         | Inr p \<Rightarrow> p \<le> hs_name_count s \<and> (\<forall>i < p. strcmp (fst (names s ! i)) key < 0) \<and>
             (\<forall>i. p \<le> i \<longrightarrow> i < hs_name_count s \<longrightarrow> strcmp (fst (names s ! i)) key > 0)"
  using assms(2-)
proof (induction "hs_name s" key b e rule: name_search.induct)
  case (1 key b e)
  show ?case
  proof (cases "b \<le> e")
    case False
    then show ?thesis
      using "1.prems" by (subst name_search.simps) auto
  next
    case True
    define m where "m = (b + e) div 2"
    have m: "b \<le> m" "m \<le> e" using True by (auto simp: m_def)
    then have lt: "nat m < hs_name_count s" using "1.prems" by auto
    have nm: "hs_name s ! nat m = Some (names s ! nat m)"
      by (rule names_nth [OF assms(1) lt])
    define c where "c = strcmp (fst (names s ! nat m)) key"
    have unf: "name_search (hs_name s) key b e =
        (if c = 0 then Inl (nat m) else if c < 0 then name_search (hs_name s) key (m + 1) e
         else name_search (hs_name s) key b (m - 1))"
      using True nm by (subst name_search.simps) (simp add: m_def c_def case_prod_beta Let_def)
    have below: "strcmp (fst (names s ! i)) key < 0" if "c < 0" "i < nat (m + 1)" for i
    proof (cases "i = nat m")
      case False
      with that(2) m "1.prems"(1) have "i < nat m" by linarith
      then show ?thesis
        using names_sorted [OF assms(1), of i "nat m"] lt that(1) strcmp_trans unfolding c_def by blast
    qed (use that in \<open>simp add: c_def\<close>)
    have above: "strcmp (fst (names s ! i)) key > 0" if "c > 0" "m - 1 < int i" "i < hs_name_count s" for i
    proof (cases "i = nat m")
      case False
      then have "strcmp (fst (names s ! nat m)) (fst (names s ! i)) < 0"
        using names_sorted [OF assms(1), of "nat m" i] that m "1.prems" by auto
      then show ?thesis
        using that(1) strcmp_trans strcmp_neg unfolding c_def by blast
    qed (use that in \<open>simp add: c_def\<close>)
    consider "c = 0" | "c < 0" | "c > 0" by linarith
    then show ?thesis
    proof cases
      case 1
      then show ?thesis using lt strcmp_0 by (simp add: unf c_def)
    next
      case 2
      have "strcmp (case hs_name s ! nat m of Some (n, _) \<Rightarrow> n | None \<Rightarrow> []) key < 0"
        using 2 nm by (simp add: c_def case_prod_beta)
      with 2 "1.hyps"(1) [OF True m_def refl] "1.prems" m below show ?thesis
        by (simp add: unf)
    next
      case 3
      have "strcmp (case hs_name s ! nat m of Some (n, _) \<Rightarrow> n | None \<Rightarrow> []) key > 0"
        using 3 nm by (simp add: c_def case_prod_beta)
      with 3 "1.hyps"(2) [OF True m_def refl] "1.prems" m above show ?thesis
        by (simp add: unf)
    qed
  qed
qed

lemma name_search_all:
  assumes "names_ok s"
  shows "case name_search (hs_name s) key 0 (int (hs_name_count s) - 1) of
           Inl m \<Rightarrow> m < hs_name_count s \<and> fst (names s ! m) = key
         | Inr p \<Rightarrow> p \<le> hs_name_count s \<and> (\<forall>i < p. strcmp (fst (names s ! i)) key < 0) \<and>
             (\<forall>i. p \<le> i \<longrightarrow> i < hs_name_count s \<longrightarrow> strcmp (fst (names s ! i)) key > 0)"
  by (rule name_search_spec [OF assms]) auto

lemma names_distinct: "names_ok s \<Longrightarrow> distinct (map fst (names s))"
  using names_sorted [of s] strcmp_0
  by (auto simp: distinct_conv_nth neq_iff) (metis less_irrefl)+

lemma names_okI:
  assumes "hs_name_count s \<le> length (hs_name s)" "2 \<le> length (hs_name s)"
    "\<And>i. i < hs_name_count s \<Longrightarrow> hs_name s ! i = Some (ns ! i)" "length ns = hs_name_count s"
    "sorted_wrt (\<lambda>x y. strcmp (fst x) (fst y) < 0) ns"
  shows "names_ok s" "names s = ns"
proof -
  show "names s = ns"
    using assms(1,3,4) by (auto simp: names_def intro: nth_equalityI)
  with assms show "names_ok s"
    by (auto simp: names_ok_def)
qed

text \<open>Retiring a handle removes exactly its names.\<close>

lemma retire_names_spec:
  assumes "j \<le> i" "i + n \<le> length name" "retire_names handle n i j name = (name', j')"
    "\<And>k. k < length name \<Longrightarrow> i \<le> k \<Longrightarrow> k < i + n \<Longrightarrow> name ! k \<noteq> None"
  shows "length name' = length name \<and> j' \<le> i + n \<and>
         take j' name' = take j name @ filter (\<lambda>e. snd (the e) \<noteq> handle) (take n (drop i name))"
  using assms
proof (induction n arbitrary: i j name)
  case 0
  then show ?case by auto
next
  case (Suc n)
  have i: "i < length name" using Suc.prems(2) by simp
  obtain nm h where e: "name ! i = Some (nm, h)"
    using Suc.prems(4) [of i] i by fastforce
  have tk: "take (Suc n) (drop i name) = name ! i # take n (drop (Suc i) name)"
    using i by (simp add: Cons_nth_drop_Suc [symmetric])
  show ?case
  proof (cases "h = handle")
    case True
    then show ?thesis
      using Suc.IH [of j "Suc i" name] Suc.prems e tk by simp
  next
    case False
    define name1 where "name1 = name[j := name ! i]"
    have "(if i \<noteq> j then name[j := name ! i] else name) = name1"
      by (simp add: name1_def)
    then have "retire_names handle n (Suc i) (Suc j) name1 = (name', j')"
      using Suc.prems(3) e False by simp
    moreover have "name1 ! k \<noteq> None" if "k < length name1" "Suc i \<le> k" "k < Suc i + n" for k
      using Suc.prems(1,4) that by (auto simp: name1_def)
    ultimately have "length name' = length name1 \<and> j' \<le> Suc i + n \<and> take j' name' =
        take (Suc j) name1 @ filter (\<lambda>e. snd (the e) \<noteq> handle) (take n (drop (Suc i) name1))"
      using Suc.IH [of "Suc j" "Suc i" name1] Suc.prems(1,2) by (simp add: name1_def)
    moreover have "take (Suc j) name1 = take j name @ [name ! i]" "drop (Suc i) name1 = drop (Suc i) name"
      using Suc.prems(1) i by (simp_all add: name1_def take_Suc_conv_app_nth)
    ultimately show ?thesis
      using e False tk by (simp add: name1_def)
  qed
qed

lemma retire_names_ok:
  assumes ok: "names_ok s" and r: "skynet_handle_retire hof h s = (b, ctx, s')"
  shows "names_ok s'" "names s' = (if b then filter (\<lambda>e. snd e \<noteq> h) (names s) else names s)"
proof -
  have "names_ok s' \<and> names s' = (if b then filter (\<lambda>e. snd e \<noteq> h) (names s) else names s)"
  proof (cases b)
    case False
    with r ok show ?thesis
      by (auto simp: skynet_handle_retire_def Let_def split: option.splits if_splits prod.splits)
  next
    case True
    obtain name' j' where n: "retire_names h (hs_name_count s) 0 0 (hs_name s) = (name', j')"
      by fastforce
    with r True have s': "hs_name s' = name'" "hs_name_count s' = j'"
      by (auto simp: skynet_handle_retire_def Let_def split: option.splits if_splits)
    have sp: "length name' = length (hs_name s)" "j' \<le> hs_name_count s"
      "take j' name' = filter (\<lambda>e. snd (the e) \<noteq> h) (take (hs_name_count s) (hs_name s))"
      using retire_names_spec [OF _ _ n] ok by (auto simp: names_ok_def)
    have nm: "names s' = filter (\<lambda>e. snd e \<noteq> h) (names s)"
      using sp(3) s' by (simp add: names_def filter_map o_def)
    have some: "name' ! i \<noteq> None" if "i < j'" for i
    proof -
      have "name' ! i \<in> set (take j' name')"
        using that sp(1,2) ok by (auto simp: in_set_conv_nth names_ok_def)
      then have "name' ! i \<in> set (take (hs_name_count s) (hs_name s))"
        by (simp add: sp(3))
      moreover have "\<forall>e \<in> set (take (hs_name_count s) (hs_name s)). e \<noteq> None"
        using ok by (auto simp: in_set_conv_nth names_ok_def)
      ultimately show ?thesis by blast
    qed
    have "sorted_wrt (\<lambda>x y. strcmp (fst x) (fst y) < 0) (names s')"
      using ok nm by (auto simp: names_ok_def intro: sorted_wrt_filter)
    then show ?thesis
      using True nm some sp ok s' by (auto simp: names_ok_def)
  qed
  then show "names_ok s'" "names s' = (if b then filter (\<lambda>e. snd e \<noteq> h) (names s) else names s)"
    by auto
qed

lemma shift_names_nth:
  "before + k < length name \<Longrightarrow>
   shift_names before k name ! i = (if before < i \<and> i \<le> before + k then name ! (i - 1) else name ! i)"
  by (induction k arbitrary: name) (auto simp: nth_list_update)

lemma length_shift_names [simp]: "length (shift_names before k name) = length name"
  by (induction k arbitrary: name) auto

lemma insert_name_before_spec:
  assumes ok: "names_ok s" and p: "p \<le> hs_name_count s" and max: "length (hs_name s) * 2 \<le> MAX_SLOT_SIZE"
    and sorted: "sorted_wrt (\<lambda>x y. strcmp (fst x) (fst y) < 0)
                   (take p (names s) @ (nm, h) # drop p (names s))"
  obtains s' where "insert_name_before s nm h p = Inr s'" "names_ok s'"
    "names s' = take p (names s) @ (nm, h) # drop p (names s)"
    "hs_slot s' = hs_slot s" "hs_harbor s' = hs_harbor s" "hs_handle_index s' = hs_handle_index s"
proof -
  let ?c = "hs_name_count s"
  let ?ns = "take p (names s) @ (nm, h) # drop p (names s)"
  define arr where "arr = (if ?c \<ge> length (hs_name s)
     then map (\<lambda>i. if i < p then hs_name s ! i else if p < i \<and> i \<le> ?c then hs_name s ! (i - 1) else None)
            [0..<length (hs_name s) * 2]
     else shift_names p (?c - p) (hs_name s))"
  let ?s = "s\<lparr>hs_name := arr[p := Some (nm, h)], hs_name_count := ?c + 1\<rparr>"
  have cap: "?c \<le> length (hs_name s)" "2 \<le> length (hs_name s)"
    using ok by (auto simp: names_ok_def)
  have len: "?c < length arr" "2 \<le> length arr"
    using cap by (auto simp: arr_def)
  have nth: "arr ! i = (if i < p then hs_name s ! i else hs_name s ! (i - 1))"
    if "i \<noteq> p" "i \<le> ?c" for i
    using that p cap by (auto simp: arr_def shift_names_nth)
  have cells: "hs_name ?s ! i = Some (?ns ! i)" if "i < ?c + 1" for i
    using that p len(1) names_nth [OF ok] nth ok
    by (auto simp: nth_list_update nth_append min_def nth_Cons' )
  have "insert_name_before s nm h p = Inr ?s"
    using max by (simp add: insert_name_before_def arr_def Let_def)
  moreover note names_okI [of ?s ?ns]
  ultimately show ?thesis
    using that [of ?s] cells len sorted ok p by (simp add: Suc_le_eq)
qed

lemma sorted_insert:
  assumes ok: "names_ok s" and p: "p \<le> hs_name_count s"
    "\<forall>i < p. strcmp (fst (names s ! i)) nm < 0"
    "\<forall>i. p \<le> i \<longrightarrow> i < hs_name_count s \<longrightarrow> strcmp (fst (names s ! i)) nm > 0"
  shows "sorted_wrt (\<lambda>x y. strcmp (fst x) (fst y) < 0) (take p (names s) @ (nm, h) # drop p (names s))"
proof -
  let ?R = "\<lambda>x y :: handle_name. strcmp (fst x) (fst y) < 0"
  have lo: "strcmp (fst x) nm < 0" if "x \<in> set (take p (names s))" for x
    using that p ok by (auto simp: in_set_conv_nth)
  have hi: "strcmp nm (fst y) < 0" if y: "y \<in> set (drop p (names s))" for y
  proof -
    obtain i where "i < hs_name_count s - p" "y = names s ! (p + i)"
      using y ok p(1) by (auto simp: in_set_conv_nth)
    then show ?thesis using p(3) strcmp_neg [of nm "fst y"] by simp
  qed
  have "sorted_wrt ?R (take p (names s) @ drop p (names s))"
    using ok by (simp add: names_ok_def)
  from this [unfolded sorted_wrt_append] show ?thesis
    using lo hi by (auto simp: sorted_wrt_append)
qed

text \<open>Look-up and insertion read and extend the map of the live names.\<close>

lemma findname_map_of:
  assumes ok: "names_ok s"
  shows "skynet_handle_findname key s = (case map_of (names s) key of Some h \<Rightarrow> h | None \<Rightarrow> 0)"
proof (cases "name_search (hs_name s) key 0 (int (hs_name_count s) - 1)")
  case (Inl m)
  with name_search_all [OF ok, of key] have m: "m < hs_name_count s" "fst (names s ! m) = key" by auto
  then have "(key, snd (names s ! m)) \<in> set (names s)"
    using ok by (metis names_ok_length nth_mem prod.collapse)
  then have "map_of (names s) key = Some (snd (names s ! m))"
    using names_distinct [OF ok] by simp
  then show ?thesis
    using Inl names_nth [OF ok m(1)] by (simp add: skynet_handle_findname_def case_prod_beta)
next
  case (Inr p)
  have "key \<noteq> fst (names s ! i)" if "i < hs_name_count s" for i
    using name_search_all [OF ok, of key] Inr that strcmp_0 [of "fst (names s ! i)" key]
    by (cases "i < p") (auto simp: not_less)
  then have "key \<notin> fst ` set (names s)"
    using ok by (auto simp: in_set_conv_nth) (metis fst_conv)
  then show ?thesis
    using Inr by (auto simp: skynet_handle_findname_def map_of_eq_None_iff split: option.splits
        dest: map_of_SomeD intro: rev_image_eqI)
qed

lemma namehandle_taken:
  assumes ok: "names_ok s" and "map_of (names s) nm = Some h'"
  shows "skynet_handle_namehandle h nm s = Inr (None, s)"
proof (cases "name_search (hs_name s) nm 0 (int (hs_name_count s) - 1)")
  case (Inl m)
  then show ?thesis by (simp add: skynet_handle_namehandle_def insert_name_def)
next
  case (Inr p)
  have "nm \<noteq> fst (names s ! i)" if "i < hs_name_count s" for i
    using name_search_all [OF ok, of nm] Inr that strcmp_0 [of "fst (names s ! i)" nm]
    by (cases "i < p") (auto simp: not_less)
  then have "map_of (names s) nm = None"
    using ok by (auto simp: in_set_conv_nth map_of_eq_None_iff) (metis fst_conv)
  with assms(2) show ?thesis by simp
qed

lemma map_of_split:
  assumes "map_of (xs @ ys) k = None"
  shows "map_of (xs @ (k, v) # ys) = (map_of (xs @ ys))(k \<mapsto> v)"
proof -
  have "map_of xs k = None" using assms by (auto simp: map_add_None)
  then show ?thesis by (auto simp: fun_eq_iff map_add_def split: option.splits)
qed

lemma namehandle_free:
  assumes ok: "names_ok s" and free: "map_of (names s) nm = None"
    and max: "length (hs_name s) * 2 \<le> MAX_SLOT_SIZE"
  obtains s' where "skynet_handle_namehandle h nm s = Inr (Some nm, s')" "names_ok s'"
    "map_of (names s') = (map_of (names s))(nm \<mapsto> h)"
    "hs_slot s' = hs_slot s" "hs_harbor s' = hs_harbor s" "hs_handle_index s' = hs_handle_index s"
proof (cases "name_search (hs_name s) nm 0 (int (hs_name_count s) - 1)")
  case (Inl m)
  with name_search_all [OF ok, of nm] have m: "m < hs_name_count s" "fst (names s ! m) = nm" by auto
  then have "nm \<in> fst ` set (names s)"
    using ok by (metis image_eqI names_ok_length nth_mem)
  with free show ?thesis by (simp add: map_of_eq_None_iff)
next
  case (Inr p)
  have p: "p \<le> hs_name_count s" "\<forall>i < p. strcmp (fst (names s ! i)) nm < 0"
    "\<forall>i. p \<le> i \<longrightarrow> i < hs_name_count s \<longrightarrow> strcmp (fst (names s ! i)) nm > 0"
    using name_search_all [OF ok, of nm] Inr by auto
  obtain s' where s': "insert_name_before s nm h p = Inr s'" "names_ok s'"
    "names s' = take p (names s) @ (nm, h) # drop p (names s)"
    "hs_slot s' = hs_slot s" "hs_harbor s' = hs_harbor s" "hs_handle_index s' = hs_handle_index s"
    using insert_name_before_spec [OF ok p(1) max sorted_insert [OF ok p]] by metis
  have "map_of (names s') = (map_of (names s))(nm \<mapsto> h)"
    using map_of_split [of "take p (names s)" "drop p (names s)" nm h] free s'(3) by simp
  then show ?thesis
    using that [of s'] s' Inr by (simp add: skynet_handle_namehandle_def insert_name_def)
qed

lemma map_of_filter_snd:
  "distinct (map fst xs) \<Longrightarrow>
   map_of (filter (\<lambda>e. snd e \<noteq> h) xs) k = (if map_of xs k = Some h then None else map_of xs k)"
proof (induction xs)
  case (Cons x xs)
  have "map_of xs (fst x) = None" using Cons.prems by (simp add: map_of_eq_None_iff)
  moreover have "map_of (filter (\<lambda>e. snd e \<noteq> h) xs) (fst x) = None"
    using Cons.prems by (auto simp: map_of_eq_None_iff)
  ultimately show ?case using Cons by (cases x) simp
qed simp

section \<open>The registry interface\<close>

text \<open>
  What the rest of the node relies on: a registry is a finite map from handles to contexts;
  registering extends it at a handle that was free, retiring removes one entry.
\<close>

locale registry =
  fixes lookup :: "'s \<Rightarrow> u32 \<Rightarrow> 'c option"
    and register :: "'c \<Rightarrow> 's \<Rightarrow> (u32 \<times> 's) result"
    and retire :: "u32 \<Rightarrow> 's \<Rightarrow> 's"
    and invar :: "'s \<Rightarrow> bool"
    and room :: "'s \<Rightarrow> bool"
  assumes register_upd: "invar s \<Longrightarrow> room s \<Longrightarrow> c \<notin> ran (lookup s) \<Longrightarrow>
      \<exists>h s'. register c s = Inr (h, s') \<and> lookup s h = None \<and> h \<noteq> 0 \<and>
             lookup s' = (lookup s)(h \<mapsto> c) \<and> invar s'"
    and retire_upd: "invar s \<Longrightarrow> lookup (retire h s) = (lookup s)(h := None) \<and> invar (retire h s)"
begin

lemma registerE:
  assumes "invar s" "room s" "c \<notin> ran (lookup s)" "register c s = Inr (h, s')"
  shows "lookup s h = None" "h \<noteq> 0" "lookup s' = (lookup s)(h \<mapsto> c)" "invar s'"
  using register_upd [OF assms(1-3)] assms(4) by auto

text \<open>Retiring a handle undoes its registration; two registrations never share a handle.\<close>

lemma register_retire:
  assumes "invar s" "room s" "c \<notin> ran (lookup s)" "register c s = Inr (h, s')"
  shows "lookup (retire h s') = lookup s"
  using registerE [OF assms] retire_upd by (auto simp: fun_upd_idem)

lemma register_register:
  assumes "invar s" "room s" "c \<notin> ran (lookup s)" "register c s = Inr (h, s')"
    and "room s'" "d \<notin> ran (lookup s')" "register d s' = Inr (h2, s2)"
  shows "h2 \<noteq> h" "lookup s2 h = Some c" "lookup s2 h2 = Some d"
  using registerE [OF assms(1-4)] registerE [of s' d h2 s2] assms(5-) by auto

end

text \<open>
  The node's registry is the table together with the handle field of every context:
  \<^verbatim>\<open>ctx->handle = skynet_handle_register(ctx)\<close>.
\<close>

type_synonym reg_state = "(ctxref \<Rightarrow> u32) \<times> handle_storage"

definition reg_lookup :: "reg_state \<Rightarrow> u32 \<Rightarrow> ctxref option" where
  "reg_lookup st h = skynet_handle_grab (fst st) h (snd st)"

definition reg_register :: "ctxref \<Rightarrow> reg_state \<Rightarrow> (u32 \<times> reg_state) result" where
  "reg_register c st = rbind (skynet_handle_register (fst st) c (snd st)) (\<lambda>(h, s').
     Inr (h, ((fst st)(c := h), s')))"

definition reg_retire :: "u32 \<Rightarrow> reg_state \<Rightarrow> reg_state" where
  "reg_retire h st = (fst st, snd (snd (skynet_handle_retire (fst st) h (snd st))))"

definition reg_ok :: "reg_state \<Rightarrow> bool" where
  "reg_ok st \<longleftrightarrow> hs_ok (fst st) (snd st)"

text \<open>Enough handles left that a scan of the table, doubled or not, does not wrap.\<close>

definition reg_room :: "reg_state \<Rightarrow> bool" where
  "reg_room st \<longleftrightarrow> unat (hs_handle_index (snd st)) + length (hs_slot (snd st)) * 2 \<le> 2 ^ 24"

lemma contexts_ran: "hs_ok hof s \<Longrightarrow> ran (reg_lookup (hof, s)) = contexts s"
  by (auto simp: ran_def reg_lookup_def grab_iff)

lemma reg_lookup_insert:
  assumes ok: "hs_ok hof s" "hs_ok (hof(c := h)) s'" and ctx: "contexts s' = insert c (contexts s)"
    and new: "c \<notin> contexts s" "\<forall>d \<in> contexts s. hof d \<noteq> h"
  shows "reg_lookup (hof(c := h), s') = (reg_lookup (hof, s))(h \<mapsto> c)" "reg_lookup (hof, s) h = None"
proof -
  show "reg_lookup (hof, s) h = None"
    using new(2) grab_iff [OF ok(1), of h] by (auto simp: reg_lookup_def) (metis option.exhaust)
  show "reg_lookup (hof(c := h), s') = (reg_lookup (hof, s))(h \<mapsto> c)"
  proof
    fix x
    have "reg_lookup (hof(c := h), s') x = Some d \<longleftrightarrow> ((reg_lookup (hof, s))(h \<mapsto> c)) x = Some d" for d
      using ctx new grab_iff [OF ok(1), of x d] grab_iff [OF ok(2), of x d]
      by (auto simp: reg_lookup_def)
    then show "reg_lookup (hof(c := h), s') x = ((reg_lookup (hof, s))(h \<mapsto> c)) x"
      by (metis option.exhaust)
  qed
qed

lemma reg_lookup_retire:
  assumes "hs_ok hof s"
  shows "reg_lookup (reg_retire h (hof, s)) = (reg_lookup (hof, s))(h := None)" "reg_ok (reg_retire h (hof, s))"
proof -
  obtain b ctx s' where r: "skynet_handle_retire hof h s = (b, ctx, s')"
    by (metis prod.exhaust)
  note rok = retire_ok [OF assms r]
  show "reg_ok (reg_retire h (hof, s))"
    using rok(1) by (simp add: reg_ok_def reg_retire_def r)
  show "reg_lookup (reg_retire h (hof, s)) = (reg_lookup (hof, s))(h := None)"
  proof
    fix x
    have "skynet_handle_grab hof x s' = Some d \<longleftrightarrow> x \<noteq> h \<and> skynet_handle_grab hof x s = Some d" for d
      using grab_iff [OF rok(1), of x d] grab_iff [OF assms, of x d] rok(2) by auto
    then show "reg_lookup (reg_retire h (hof, s)) x = ((reg_lookup (hof, s))(h := None)) x"
      by (simp add: reg_lookup_def reg_retire_def r) (metis option.exhaust)
  qed
qed

interpretation reg: registry reg_lookup reg_register reg_retire reg_ok reg_room
proof unfold_locales
  fix st :: reg_state and c h
  obtain hof s where st: "st = (hof, s)" by fastforce
  assume inv: "reg_ok st"
  then have ok: "hs_ok hof s" by (simp add: reg_ok_def st)
  show "reg_lookup (reg_retire h st) = (reg_lookup st)(h := None) \<and> reg_ok (reg_retire h st)"
    using reg_lookup_retire [OF ok] st by simp
  assume room: "reg_room st" and new: "c \<notin> ran (reg_lookup st)"
  have c: "c \<notin> contexts s" using new contexts_ran [OF ok] st by simp
  have r: "unat (hs_handle_index s) + length (hs_slot s) * 2 \<le> 2 ^ 24"
    using room by (simp add: reg_room_def st)
  obtain h s' where reg: "skynet_handle_register hof c s = Inr (h, s')" and ok': "hs_ok (hof(c := h)) s'"
    and ctx: "contexts s' = insert c (contexts s)" and fresh: "\<forall>d \<in> contexts s. hof d \<noteq> h"
    and nz: "h AND HANDLE_MASK \<noteq> 0"
    using register_ok [OF ok c r] by metis
  show "\<exists>h s'. reg_register c st = Inr (h, s') \<and> reg_lookup st h = None \<and> h \<noteq> 0 \<and>
      reg_lookup s' = (reg_lookup st)(h \<mapsto> c) \<and> reg_ok s'"
    using reg ok' nz reg_lookup_insert [OF ok ok' ctx c fresh] st
    by (auto simp: reg_register_def reg_ok_def)
qed

section \<open>Properties\<close>

lemma reg_ok_init: "reg_ok (hof, skynet_handle_init harbor)"
proof -
  have "push_bit 24 (harbor AND 0xff) AND mask 24 = (0 :: u32)"
    by (auto simp: bit_eq_iff bit_simps)
  moreover have "HANDLE_MASK = mask 24"
    by (simp add: HANDLE_MASK_def mask_eq_exp_minus_1)
  moreover have "Suc 0 \<le> unat (HANDLE_MASK + 1)"
    by (simp add: HANDLE_MASK_def)
  ultimately show ?thesis
    unfolding reg_ok_def
    by (intro hs_okI [of _ 2])
      (simp_all add: skynet_handle_init_def DEFAULT_SLOT_SIZE_def HANDLE_REMOTE_SHIFT_def
        numeral_2_eq_2, simp_all add: mask_eq_exp_minus_1 word_le_nat_alt HANDLE_MASK_def)
qed

text \<open>
  C8: Registering a context that is not registered, while the handle counter is far enough
  from \<^verbatim>\<open>HANDLE_MASK\<close> for the scan not to wrap, always succeeds (growing the table if
  it is full), returns a non-zero handle that no live context has, makes exactly that handle
  find the context and leaves every other handle's result as it was; retiring the handle
  restores the registry.
\<close>

theorem handle_register_refines_map:
  assumes "reg_ok st" "reg_room st" "c \<notin> ran (reg_lookup st)"
  shows "\<exists>h st'. reg_register c st = Inr (h, st') \<and> reg_lookup st h = None \<and> h \<noteq> 0 \<and>
           reg_lookup st' = (reg_lookup st)(h \<mapsto> c) \<and> reg_ok st' \<and>
           reg_lookup (reg_retire h st') = reg_lookup st"
  using reg.register_upd [OF assms] reg.register_retire [OF assms] by metis

theorem handle_register_refines_map_witness:
  "\<exists>h st'. reg_register 5 (\<lambda>_. 0, skynet_handle_init 1) = Inr (h, st') \<and> reg_lookup st' h = Some 5"
proof -
  have "reg_ok (\<lambda>_. 0, skynet_handle_init 1)" by (rule reg_ok_init)
  moreover have "reg_room (\<lambda>_. 0, skynet_handle_init 1)"
    by (simp add: reg_room_def skynet_handle_init_def DEFAULT_SLOT_SIZE_def)
  moreover have "5 \<notin> ran (reg_lookup (\<lambda>_. 0, skynet_handle_init 1))"
    using contexts_ran [of "\<lambda>_. 0" "skynet_handle_init 1"] reg_ok_init [of "\<lambda>_. 0" 1]
    by (auto simp: reg_ok_def contexts_def skynet_handle_init_def)
  ultimately obtain h st' where "reg_register 5 (\<lambda>_. 0, skynet_handle_init 1) = Inr (h, st')"
    "reg_lookup st' = (reg_lookup (\<lambda>_. 0, skynet_handle_init 1))(h \<mapsto> 5)"
    using handle_register_refines_map [of "(\<lambda>_. 0, skynet_handle_init 1)" 5] by metis
  then show ?thesis by auto
qed

lemma names_ok_init: "names_ok (skynet_handle_init harbor)" "names (skynet_handle_init harbor) = []"
  by (simp_all add: names_ok_def names_def skynet_handle_init_def)

text \<open>
  C14: The sorted name array is a map from names to handles. Looking a name up by binary search
  returns the handle registered for it, and 0 for an unknown name; naming a handle under a free
  name always succeeds below the capacity limit (growing the array when it is full) and changes
  that name only, under a taken name it is refused and nothing changes; the array stays sorted.
\<close>

theorem names_refine_map:
  assumes "names_ok s" "length (hs_name s) * 2 \<le> MAX_SLOT_SIZE"
  shows "skynet_handle_findname key s = (case map_of (names s) key of Some h \<Rightarrow> h | None \<Rightarrow> 0) \<and>
    (case map_of (names s) nm of
       Some _ \<Rightarrow> skynet_handle_namehandle h nm s = Inr (None, s)
     | None \<Rightarrow> \<exists>s'. skynet_handle_namehandle h nm s = Inr (Some nm, s') \<and> names_ok s' \<and>
         map_of (names s') = (map_of (names s))(nm \<mapsto> h) \<and>
         skynet_handle_findname nm s' = h \<and> hs_slot s' = hs_slot s)"
proof (cases "map_of (names s) nm")
  case None
  obtain s' where "skynet_handle_namehandle h nm s = Inr (Some nm, s')" "names_ok s'"
    "map_of (names s') = (map_of (names s))(nm \<mapsto> h)" "hs_slot s' = hs_slot s"
    using namehandle_free [OF assms(1) None assms(2), of h] by metis
  then show ?thesis
    using None findname_map_of [OF assms(1)] by (simp add: findname_map_of)
qed (simp add: findname_map_of [OF assms(1)] namehandle_taken [OF assms(1)])

theorem names_refine_map_witness:
  "\<exists>s'. skynet_handle_namehandle 7 ''launcher'' (skynet_handle_init 1) = Inr (Some ''launcher'', s') \<and>
     skynet_handle_findname ''launcher'' s' = 7"
  using names_refine_map [where s = "skynet_handle_init 1" and key = "''launcher''" and nm = "''launcher''" and h = 7] names_ok_init [of 1]
  by (auto simp: skynet_handle_init_def MAX_SLOT_SIZE_def)

text \<open>
  C15: Retiring a live handle makes it, and only it, unknown to the table, and removes exactly
  its own names from the name table; retiring a handle that is not live changes nothing.
\<close>

theorem retire_forgets_handle_and_names:
  assumes "hs_ok hof s" "names_ok s" "skynet_handle_retire hof h s = (live, ctx, s')"
  shows "hs_ok hof s' \<and> names_ok s' \<and> ctx = skynet_handle_grab hof h s \<and> (live \<longleftrightarrow> ctx \<noteq> None) \<and>
    (\<forall>h'. skynet_handle_grab hof h' s' = (if h' = h then None else skynet_handle_grab hof h' s)) \<and>
    (\<forall>key. map_of (names s') key =
       (if live \<and> map_of (names s) key = Some h then None else map_of (names s) key))"
proof -
  have "ctx = skynet_handle_grab hof h s \<and> (live \<longleftrightarrow> ctx \<noteq> None)"
    using assms(3) by (auto simp: skynet_handle_retire_def skynet_handle_grab_def Let_def
        split: option.splits if_splits prod.splits) (metis option.distinct(1))
  moreover have "skynet_handle_grab hof h' s' = (if h' = h then None else skynet_handle_grab hof h' s)" for h'
    using reg.retire_upd [of "(hof, s)" h] assms(1,3)
    by (simp add: reg_ok_def reg_retire_def reg_lookup_def fun_eq_iff)
  moreover have "map_of (names s') key =
      (if live \<and> map_of (names s) key = Some h then None else map_of (names s) key)" for key
    using retire_names_ok [OF assms(2,3)] map_of_filter_snd [OF names_distinct [OF assms(2)]] by simp
  ultimately show ?thesis
    using retire_ok [OF assms(1,3)] retire_names_ok(1) [OF assms(2,3)] by simp
qed

theorem retire_forgets_handle_and_names_witness:
  "\<exists>s'. skynet_handle_retire (\<lambda>_. 1) 1 (skynet_handle_init 0) = (False, None, s') \<and>
      skynet_handle_grab (\<lambda>_. 1) 1 s' = None"
  using retire_forgets_handle_and_names [of "\<lambda>_. 1" "skynet_handle_init 0" 1] names_ok_init(1) [of 0]
    reg_ok_init [of "\<lambda>_. 1" 0]
  by (cases "skynet_handle_retire (\<lambda>_. 1) 1 (skynet_handle_init 0)")
    (auto simp: reg_ok_def skynet_handle_grab_def skynet_handle_init_def slot_hash_def DEFAULT_SLOT_SIZE_def)


end
