(* ===== verification/Timer.thy ===== *)
theory Timer
  imports Message
begin

text \<open>
  The timing wheel of \<^verbatim>\<open>skynet-src/skynet_timer.c\<close>: 256 near slots of one tick and four levels of
  64 coarser slots. A slot is the list its \<^verbatim>\<open>link_list\<close> holds, in link order; \<^verbatim>\<open>link\<close> appends and
  \<^verbatim>\<open>link_clear\<close> empties it. A node carries its \<^verbatim>\<open>timer_event\<close>. The calls of
  \<^verbatim>\<open>skynet_context_push\<close> are returned as the list of events to push, in order.
\<close>

section \<open>Data\<close>

definition TIME_NEAR_SHIFT :: nat where "TIME_NEAR_SHIFT = 8"
definition TIME_NEAR :: nat where "TIME_NEAR = 2 ^ TIME_NEAR_SHIFT"
definition TIME_LEVEL_SHIFT :: nat where "TIME_LEVEL_SHIFT = 6"
definition TIME_LEVEL :: nat where "TIME_LEVEL = 2 ^ TIME_LEVEL_SHIFT"
definition TIME_NEAR_MASK :: u32 where "TIME_NEAR_MASK = of_nat TIME_NEAR - 1"
definition TIME_LEVEL_MASK :: u32 where "TIME_LEVEL_MASK = of_nat TIME_LEVEL - 1"

lemmas timer_consts = TIME_NEAR_SHIFT_def TIME_NEAR_def TIME_LEVEL_SHIFT_def TIME_LEVEL_def
  TIME_NEAR_MASK_def TIME_LEVEL_MASK_def

record timer_event =
  ev_handle :: u32
  ev_session :: int

record timer_node =
  node_expire :: u32
  node_event :: timer_event

text \<open>\<open>near ! i\<close> is \<^verbatim>\<open>near[i]\<close>, \<open>t ! l ! i\<close> is \<^verbatim>\<open>t[l][i]\<close>.\<close>

record timer =
  tm_near :: "timer_node list list"
  tm_t :: "timer_node list list list"
  tm_time :: u32
  tm_starttime :: u32
  tm_current :: u64
  tm_current_point :: u64

section \<open>Operations\<close>

definition near_link :: "nat \<Rightarrow> timer_node \<Rightarrow> timer \<Rightarrow> timer" where
  "near_link i node T = T\<lparr>tm_near := (tm_near T)[i := tm_near T ! i @ [node]]\<rparr>"

definition level_link :: "nat \<Rightarrow> nat \<Rightarrow> timer_node \<Rightarrow> timer \<Rightarrow> timer" where
  "level_link l i node T =
     T\<lparr>tm_t := (tm_t T)[l := (tm_t T ! l)[i := tm_t T ! l ! i @ [node]]]\<rparr>"

definition near_clear :: "nat \<Rightarrow> timer \<Rightarrow> timer_node list \<times> timer" where
  "near_clear i T = (tm_near T ! i, T\<lparr>tm_near := (tm_near T)[i := []]\<rparr>)"

definition level_clear :: "nat \<Rightarrow> nat \<Rightarrow> timer \<Rightarrow> timer_node list \<times> timer" where
  "level_clear l i T = (tm_t T ! l ! i, T\<lparr>tm_t := (tm_t T)[l := (tm_t T ! l)[i := []]]\<rparr>)"

text \<open>The \<^verbatim>\<open>for\<close> loop of \<^verbatim>\<open>add_node\<close>, \<open>n\<close> iterations to go: the level chosen.\<close>

primrec level_loop :: "nat \<Rightarrow> nat \<Rightarrow> u32 \<Rightarrow> u32 \<Rightarrow> u32 \<Rightarrow> nat" where
  "level_loop 0 i msk time current_time = i"
| "level_loop (Suc n) i msk time current_time =
     (if time OR (msk - 1) = current_time OR (msk - 1) then i
      else level_loop n (i + 1) (push_bit TIME_LEVEL_SHIFT msk) time current_time)"

definition add_node :: "timer_node \<Rightarrow> timer \<Rightarrow> timer" where
  "add_node node T =
     (let time = node_expire node; current_time = tm_time T in
      if time OR TIME_NEAR_MASK = current_time OR TIME_NEAR_MASK
      then near_link (unat (time AND TIME_NEAR_MASK)) node T
      else
        (let i = level_loop 3 0 (push_bit TIME_LEVEL_SHIFT (of_nat TIME_NEAR)) time current_time in
         level_link i (unat (drop_bit (TIME_NEAR_SHIFT + i * TIME_LEVEL_SHIFT) time AND TIME_LEVEL_MASK))
           node T))"

text \<open>\<open>time\<close> is a C \<^verbatim>\<open>int\<close>; the addition is unsigned and wraps.\<close>

definition timer_add :: "timer_event \<Rightarrow> int \<Rightarrow> timer \<Rightarrow> timer" where
  "timer_add ev time T = add_node \<lparr>node_expire = of_int time + tm_time T, node_event = ev\<rparr> T"

definition move_list :: "nat \<Rightarrow> nat \<Rightarrow> timer \<Rightarrow> timer" where
  "move_list level idx T = (let (nodes, T') = level_clear level idx T in fold add_node nodes T')"

text \<open>
  The \<^verbatim>\<open>while\<close> loop of \<^verbatim>\<open>timer_shift\<close>. There are four levels: going past them would shift the
  mask out of an \<^verbatim>\<open>int\<close> and read beyond \<^verbatim>\<open>t\<close>.
\<close>

function shift_loop :: "u32 \<Rightarrow> u32 \<Rightarrow> u32 \<Rightarrow> nat \<Rightarrow> timer \<Rightarrow> timer result" where
  "shift_loop ct time msk i T =
     (if i \<ge> 4 then Inl OutOfBounds
      else if ct AND (msk - 1) = 0 then
        (let idx = unat (time AND TIME_LEVEL_MASK) in
         if idx \<noteq> 0 then Inr (move_list i idx T)
         else shift_loop ct (drop_bit TIME_LEVEL_SHIFT time) (push_bit TIME_LEVEL_SHIFT msk) (i + 1) T)
      else Inr T)"
  by pat_completeness auto
termination
  by (relation "measure (\<lambda>(ct, time, msk, i, T). 4 - i)") auto

declare shift_loop.simps [simp del]

definition timer_shift :: "timer \<Rightarrow> timer result" where
  "timer_shift T =
     (let ct = tm_time T + 1; T = T\<lparr>tm_time := ct\<rparr> in
      if ct = 0 then Inr (move_list 3 0 T)
      else shift_loop ct (drop_bit TIME_NEAR_SHIFT ct) (of_nat TIME_NEAR) 0 T)"

text \<open>The message that \<^verbatim>\<open>dispatch_list\<close> pushes for an event.\<close>

definition timeout_message :: "int \<Rightarrow> 'd skynet_message" where
  "timeout_message session =
     \<lparr>msg_source = 0, msg_session = session, msg_data = None,
      msg_sz = push_bit MESSAGE_TYPE_SHIFT (of_nat PTYPE_RESPONSE)\<rparr>"

definition dispatch_list :: "timer_node list \<Rightarrow> (u32 \<times> 'd skynet_message) list" where
  "dispatch_list nodes =
     map (\<lambda>n. (ev_handle (node_event n), timeout_message (ev_session (node_event n)))) nodes"

text \<open>
  The lock is released while a cleared list is dispatched, so other threads may add timers
  in between: the \<open>k\<close>-th element of \<open>windows\<close> is what they add during the \<open>k\<close>-th dispatch
  (nothing once the list is used up).
\<close>

type_synonym timer_adds = "(timer_event \<times> int) list"

definition run_adds :: "timer_adds \<Rightarrow> timer \<Rightarrow> timer" where
  "run_adds adds T = fold (\<lambda>(ev, time). timer_add ev time) adds T"

primrec execute_windows ::
    "timer_adds list \<Rightarrow> timer \<Rightarrow> timer_node list \<times> timer" where
  "execute_windows [] T =
     (let idx = unat (tm_time T AND TIME_NEAR_MASK) in
      if tm_near T ! idx \<noteq> [] then near_clear idx T else ([], T))"
| "execute_windows (adds # windows) T =
     (let idx = unat (tm_time T AND TIME_NEAR_MASK) in
      if tm_near T ! idx \<noteq> [] then
        (let (current, T1) = near_clear idx T;
             (rest, T2) = execute_windows windows (run_adds adds T1)
         in (current @ rest, T2))
      else ([], T))"

definition timer_execute ::
    "timer_adds list \<Rightarrow> timer \<Rightarrow> (u32 \<times> 'd skynet_message) list \<times> timer" where
  "timer_execute windows T = (let (nodes, T') = execute_windows windows T in (dispatch_list nodes, T'))"

definition timer_update ::
    "timer_adds list \<Rightarrow> timer_adds list \<Rightarrow> timer \<Rightarrow> ((u32 \<times> 'd skynet_message) list \<times> timer) result" where
  "timer_update w1 w2 T =
     (let (out1, T1) = timer_execute w1 T in
      rbind (timer_shift T1) (\<lambda>T2.
      let (out2, T3) = timer_execute w2 T2 in Inr (out1 @ out2, T3)))"

definition timer_create_timer :: timer where
  "timer_create_timer =
     \<lparr>tm_near = replicate TIME_NEAR [], tm_t = replicate 4 (replicate TIME_LEVEL []),
      tm_time = 0, tm_starttime = 0, tm_current = 0, tm_current_point = 0\<rparr>"

text \<open>
  \<open>Inl\<close>: the message to push at once (the caller returns -1 if that fails), \<open>Inr\<close>: the timer
  was set. In both cases the session is what \<^verbatim>\<open>skynet_timeout\<close> returns.
\<close>

definition skynet_timeout ::
    "u32 \<Rightarrow> int \<Rightarrow> int \<Rightarrow> timer \<Rightarrow> (u32 \<times> 'd skynet_message) + timer" where
  "skynet_timeout handle time session T =
     (if time \<le> 0 then Inl (handle, timeout_message session)
      else Inr (timer_add \<lparr>ev_handle = handle, ev_session = session\<rparr> time T))"

text \<open>The clocks of the system give seconds and nanoseconds.\<close>

definition systime :: "nat \<Rightarrow> nat \<Rightarrow> u32 \<times> u32" where
  "systime tv_sec tv_nsec = (of_nat tv_sec, of_nat (tv_nsec div 10000000))"

definition gettime :: "nat \<Rightarrow> nat \<Rightarrow> u64" where
  "gettime tv_sec tv_nsec = of_nat tv_sec * 100 + of_nat (tv_nsec div 10000000)"

text \<open>\<open>n\<close> calls of \<^verbatim>\<open>timer_update\<close>; \<open>env k\<close> is what other threads add around the \<open>k\<close>-th.\<close>

primrec update_loop ::
    "(nat \<Rightarrow> timer_adds list \<times> timer_adds list) \<Rightarrow> nat \<Rightarrow> timer \<Rightarrow>
     ((u32 \<times> 'd skynet_message) list \<times> timer) result" where
  "update_loop env 0 T = Inr ([], T)"
| "update_loop env (Suc n) T =
     rbind (timer_update (fst (env n)) (snd (env n)) T) (\<lambda>(out, T').
     rbind (update_loop env n T') (\<lambda>(out', T''). Inr (out @ out', T'')))"

text \<open>The clock reading \<open>cp\<close> is a parameter. A clock that goes back moves the reference point only.\<close>

definition skynet_updatetime ::
    "(nat \<Rightarrow> timer_adds list \<times> timer_adds list) \<Rightarrow> u64 \<Rightarrow> timer \<Rightarrow>
     ((u32 \<times> 'd skynet_message) list \<times> timer) result" where
  "skynet_updatetime env cp T =
     (if cp < tm_current_point T then Inr ([], T\<lparr>tm_current_point := cp\<rparr>)
      else if cp \<noteq> tm_current_point T then
        (let diff = ucast (cp - tm_current_point T) :: u32 in
         update_loop env (unat diff)
           (T\<lparr>tm_current_point := cp, tm_current := tm_current T + ucast diff\<rparr>))
      else Inr ([], T))"

definition skynet_starttime :: "timer \<Rightarrow> u32" where
  "skynet_starttime T = tm_starttime T"

definition skynet_now :: "timer \<Rightarrow> u64" where
  "skynet_now T = tm_current T"

definition skynet_timer_init :: "nat \<times> nat \<Rightarrow> nat \<times> nat \<Rightarrow> timer" where
  "skynet_timer_init realtime monotonic =
     (let T = timer_create_timer; (sec, cs) = systime (fst realtime) (snd realtime) in
      T\<lparr>tm_starttime := sec, tm_current := ucast cs,
        tm_current_point := gettime (fst monotonic) (snd monotonic)\<rparr>)"

section \<open>Where a node belongs\<close>

text \<open>
  The five digits of a time (8, 6, 6, 6, 6 bits) and the slot for expiry \<open>e\<close> at time \<open>t\<close>: the
  level is the highest digit in which they differ, the index is that digit of \<open>e\<close>. Level 0
  stands for the near slots, level \<open>i + 1\<close> for \<^verbatim>\<open>t[i]\<close>.
\<close>

definition dig :: "nat \<Rightarrow> nat \<Rightarrow> nat" where
  "dig l x = (if l = 0 then x mod 256 else x div 2 ^ (2 + 6 * l) mod 64)"

definition lev :: "nat \<Rightarrow> nat \<Rightarrow> nat" where
  "lev t e = (if dig 4 e \<noteq> dig 4 t then 4 else if dig 3 e \<noteq> dig 3 t then 3
              else if dig 2 e \<noteq> dig 2 t then 2 else if dig 1 e \<noteq> dig 1 t then 1 else 0)"

definition pos :: "u32 \<Rightarrow> u32 \<Rightarrow> nat \<times> nat" where
  "pos t e = (let l = lev (unat t) (unat e) in (l, dig l (unat e)))"

text \<open>Times that lie ahead: later in the same turn of the counter, or in the next turn.\<close>

definition ahead :: "u32 \<Rightarrow> u32 \<Rightarrow> bool" where
  "ahead t e \<longleftrightarrow> unat t < unat e \<or> dig 4 (unat e) < dig 4 (unat t)"

lemma dig_0: "dig 0 x = x mod 256"
  and dig_1: "dig 1 x = x div 2 ^ 8 mod 64"
  and dig_2: "dig 2 x = x div 2 ^ 14 mod 64"
  and dig_3: "dig 3 x = x div 2 ^ 20 mod 64"
  and dig_4: "x < 2 ^ 32 \<Longrightarrow> dig 4 x = x div 2 ^ 26"
  by (simp_all add: dig_def)

lemma dig_less: "dig 0 x < 256" "0 < l \<Longrightarrow> dig l x < 64"
  by (simp_all add: dig_def)

lemma div_eq_dig:
  "x div 2 ^ k = y div 2 ^ k \<longleftrightarrow>
   (x div 2 ^ k mod 64 = y div 2 ^ k mod 64 \<and> x div 2 ^ (k + 6) = y div 2 ^ (k + 6))" for x y :: nat
proof -
  have d: "a div 2 ^ (k + 6) = a div 2 ^ k div 64" for a :: nat
    by (simp add: power_add div_mult2_eq)
  show ?thesis
    unfolding d by (metis div_mult_mod_eq)
qed

lemma block_eq:
  assumes "x < 2 ^ 32" "y < 2 ^ 32"
  shows "x div 2 ^ 26 = y div 2 ^ 26 \<longleftrightarrow> dig 4 x = dig 4 y"
    "x div 2 ^ 20 = y div 2 ^ 20 \<longleftrightarrow> dig 3 x = dig 3 y \<and> dig 4 x = dig 4 y"
    "x div 2 ^ 14 = y div 2 ^ 14 \<longleftrightarrow> dig 2 x = dig 2 y \<and> dig 3 x = dig 3 y \<and> dig 4 x = dig 4 y"
    "x div 2 ^ 8 = y div 2 ^ 8 \<longleftrightarrow>
       dig 1 x = dig 1 y \<and> dig 2 x = dig 2 y \<and> dig 3 x = dig 3 y \<and> dig 4 x = dig 4 y"
  using div_eq_dig [of x 20 y] div_eq_dig [of x 14 y] div_eq_dig [of x 8 y]
  by (simp_all only: dig_1 dig_2 dig_3 dig_4 [OF assms(1)] dig_4 [OF assms(2)] flip: numeral_plus_numeral)
     simp_all

lemma div_mod_eq: "(a :: nat) = b \<longleftrightarrow> a mod n = b mod n \<and> a div n = b div n"
  by (metis div_mult_mod_eq)

lemma div_mod_less:
  assumes "0 < (n :: nat)"
  shows "a < b \<longleftrightarrow> a div n < b div n \<or> a div n = b div n \<and> a mod n < b mod n"
proof -
  have "a div n \<le> b div n" if "a < b" using that by (simp add: div_le_mono)
  moreover have "a < b" if "a div n < b div n"
    using that by (metis div_le_mono linorder_not_le)
  moreover have "a < b \<longleftrightarrow> a mod n < b mod n" if "a div n = b div n"
    using that div_mult_mod_eq [of a n] div_mult_mod_eq [of b n] by (metis nat_add_left_cancel_less)
  ultimately show ?thesis by (meson linorder_neqE_nat not_less order_less_le)
qed

lemma eq_dig:
  assumes "x < 2 ^ 32" "y < 2 ^ 32"
  shows "x = y \<longleftrightarrow> dig 0 x = dig 0 y \<and> dig 1 x = dig 1 y \<and> dig 2 x = dig 2 y \<and>
    dig 3 x = dig 3 y \<and> dig 4 x = dig 4 y"
  using div_mod_eq [of x y "2 ^ 8"] block_eq(4) [OF assms] by (simp add: dig_0)

lemma div_less_dig:
  "x div 2 ^ k < y div 2 ^ k \<longleftrightarrow> x div 2 ^ (k + 6) < y div 2 ^ (k + 6) \<or>
   x div 2 ^ (k + 6) = y div 2 ^ (k + 6) \<and> x div 2 ^ k mod 64 < y div 2 ^ k mod 64" for x y :: nat
proof -
  have d: "a div 2 ^ (k + 6) = a div 2 ^ k div 64" for a :: nat
    by (simp add: power_add div_mult2_eq)
  show ?thesis
    unfolding d by (rule div_mod_less) simp
qed

lemma less_dig:
  assumes "x < 2 ^ 32" "y < 2 ^ 32"
  shows "x < y \<longleftrightarrow> dig 4 x < dig 4 y \<or> dig 4 x = dig 4 y \<and> (dig 3 x < dig 3 y \<or>
    dig 3 x = dig 3 y \<and> (dig 2 x < dig 2 y \<or> dig 2 x = dig 2 y \<and> (dig 1 x < dig 1 y \<or>
    dig 1 x = dig 1 y \<and> dig 0 x < dig 0 y)))"
proof -
  have l0: "x < y \<longleftrightarrow> x div 2 ^ 8 < y div 2 ^ 8 \<or> x div 2 ^ 8 = y div 2 ^ 8 \<and> dig 0 x < dig 0 y"
    using div_mod_less [of "2 ^ 8" x y] by (simp add: dig_0)
  have l1: "x div 2 ^ 8 < y div 2 ^ 8 \<longleftrightarrow>
      x div 2 ^ 14 < y div 2 ^ 14 \<or> x div 2 ^ 14 = y div 2 ^ 14 \<and> dig 1 x < dig 1 y"
    using div_less_dig [of x 8 y] by (simp add: dig_def)
  have l2: "x div 2 ^ 14 < y div 2 ^ 14 \<longleftrightarrow>
      x div 2 ^ 20 < y div 2 ^ 20 \<or> x div 2 ^ 20 = y div 2 ^ 20 \<and> dig 2 x < dig 2 y"
    using div_less_dig [of x 14 y] by (simp add: dig_def)
  have l3: "x div 2 ^ 20 < y div 2 ^ 20 \<longleftrightarrow>
      dig 4 x < dig 4 y \<or> dig 4 x = dig 4 y \<and> dig 3 x < dig 3 y"
    using div_less_dig [of x 20 y] dig_4 [OF assms(1)] dig_4 [OF assms(2)] by (simp add: dig_3)
  show ?thesis
    unfolding l0 l1 l2 l3 block_eq [OF assms] by blast
qed

lemma dig_Suc:
  "dig 0 (Suc x) = (if dig 0 x = 255 then 0 else Suc (dig 0 x))"
  "dig 1 (Suc x) = (if dig 0 x = 255 then if dig 1 x = 63 then 0 else Suc (dig 1 x) else dig 1 x)"
  "dig 2 (Suc x) = (if dig 0 x = 255 \<and> dig 1 x = 63 then if dig 2 x = 63 then 0 else Suc (dig 2 x) else dig 2 x)"
  "dig 3 (Suc x) = (if dig 0 x = 255 \<and> dig 1 x = 63 \<and> dig 2 x = 63
     then if dig 3 x = 63 then 0 else Suc (dig 3 x) else dig 3 x)"
  "dig 4 (Suc x) = (if dig 0 x = 255 \<and> dig 1 x = 63 \<and> dig 2 x = 63 \<and> dig 3 x = 63
     then if dig 4 x = 63 then 0 else Suc (dig 4 x) else dig 4 x)"
proof -
  have s: "Suc y mod 64 = (if y mod 64 = 63 then 0 else Suc (y mod 64))"
      "Suc y div 64 = (if y mod 64 = 63 then Suc (y div 64) else y div 64)" for y
    by (auto simp: mod_Suc div_Suc)
  define y where "y = x div 256"
  define z where "z = y div 64"
  define u where "u = z div 64"
  define v where "v = u div 64"
  let ?y = "if dig 0 x = 255 then Suc y else y"
  let ?z = "if dig 0 x = 255 \<and> dig 1 x = 63 then Suc z else z"
  let ?u = "if dig 0 x = 255 \<and> dig 1 x = 63 \<and> dig 2 x = 63 then Suc u else u"
  let ?v = "if dig 0 x = 255 \<and> dig 1 x = 63 \<and> dig 2 x = 63 \<and> dig 3 x = 63 then Suc v else v"
  have d: "dig 0 a = a mod 256" "dig 1 a = a div 256 mod 64" "dig 2 a = a div 256 div 64 mod 64"
    "dig 3 a = a div 256 div 64 div 64 mod 64" "dig 4 a = a div 256 div 64 div 64 div 64 mod 64" for a
    by (simp_all add: dig_def div_mult2_eq [symmetric])
  have x: "dig 1 x = y mod 64" "dig 2 x = z mod 64" "dig 3 x = u mod 64" "dig 4 x = v mod 64"
    by (simp_all only: d y_def z_def u_def v_def)
  have yd: "Suc x div 256 = ?y" by (simp add: y_def d(1) div_Suc mod_Suc)
  have zd: "?y div 64 = ?z" using s(2) [of y] by (simp add: z_def x(1) [unfolded One_nat_def])
  have ud: "?z div 64 = ?u" using s(2) [of z] by (simp add: u_def x(2) x(1) [unfolded One_nat_def])
  have vd: "?u div 64 = ?v" using s(2) [of u] by (simp add: v_def x(3))
  show "dig 0 (Suc x) = (if dig 0 x = 255 then 0 else Suc (dig 0 x))"
    by (simp add: d(1) mod_Suc)
  show "dig 1 (Suc x) = (if dig 0 x = 255 then if dig 1 x = 63 then 0 else Suc (dig 1 x) else dig 1 x)"
    using s(1) [of y] unfolding d(2) [of "Suc x"] yd by (simp add: x(1) [unfolded One_nat_def])
  show "dig 2 (Suc x) = (if dig 0 x = 255 \<and> dig 1 x = 63 then if dig 2 x = 63 then 0 else Suc (dig 2 x) else dig 2 x)"
    using s(1) [of z] unfolding d(3) [of "Suc x"] yd zd by (simp add: x)
  show "dig 3 (Suc x) = (if dig 0 x = 255 \<and> dig 1 x = 63 \<and> dig 2 x = 63
     then if dig 3 x = 63 then 0 else Suc (dig 3 x) else dig 3 x)"
    using s(1) [of u] unfolding d(4) [of "Suc x"] yd zd ud by (simp add: x)
  show "dig 4 (Suc x) = (if dig 0 x = 255 \<and> dig 1 x = 63 \<and> dig 2 x = 63 \<and> dig 3 x = 63
     then if dig 4 x = 63 then 0 else Suc (dig 4 x) else dig 4 x)"
    using s(1) [of v] unfolding d(5) [of "Suc x"] yd zd ud vd by (simp add: x)
qed

text \<open>The masks and shifts of \<^verbatim>\<open>add_node\<close> compute \<open>pos\<close>.\<close>

lemma unat_drop_bit: "unat (drop_bit k (e :: u32)) = unat e div 2 ^ k"
proof -
  have "unat e < 2 ^ 32" using unsigned_less [of e] by simp
  then show ?thesis
    by (simp only: unsigned_drop_bit_eq) (simp add: drop_bit_eq_div take_bit_eq_mod)
qed

lemma or_mask_eq_iff:
  fixes e t :: u32
  shows "e OR mask k = t OR mask k \<longleftrightarrow> unat e div 2 ^ k = unat t div 2 ^ k"
proof -
  have "e OR mask k = t OR mask k \<longleftrightarrow> drop_bit k e = drop_bit k t"
  proof
    assume eq: "e OR mask k = t OR mask k"
    show "drop_bit k e = drop_bit k t"
    proof (rule bit_eqI)
      fix n assume n: "possible_bit TYPE(32 word) n"
      have "bit (e OR mask k) (k + n) = bit (t OR mask k) (k + n)" by (simp add: eq)
      then show "bit (drop_bit k e) n = bit (drop_bit k t) n" by (auto simp: bit_simps)
    qed
  next
    assume eq: "drop_bit k e = drop_bit k t"
    show "e OR mask k = t OR mask k"
    proof (rule bit_eqI)
      fix n assume n: "possible_bit TYPE(32 word) n"
      have "bit (drop_bit k e) (n - k) = bit (drop_bit k t) (n - k)" by (simp add: eq)
      then show "bit (e OR mask k) n = bit (t OR mask k) n"
        using n by (cases "n < k") (auto simp: bit_simps)
    qed
  qed
  also have "\<dots> \<longleftrightarrow> unat (drop_bit k e) = unat (drop_bit k t)"
    by (simp add: word_unat_eq_iff)
  finally show ?thesis
    by (simp add: unat_drop_bit)
qed

lemma unat_drop_and_level:
  fixes e :: u32 shows "unat (drop_bit k e AND TIME_LEVEL_MASK) = unat e div 2 ^ k mod 64"
proof -
  have "TIME_LEVEL_MASK = mask 6" by (simp add: timer_consts mask_eq_exp_minus_1)
  then have "drop_bit k e AND TIME_LEVEL_MASK = take_bit 6 (drop_bit k e)"
    by (simp add: take_bit_eq_mask)
  then show ?thesis
    by (simp only: unsigned_take_bit_eq unat_drop_bit) (simp add: take_bit_eq_mod)
qed

lemma unat_and_near: "unat (e AND TIME_NEAR_MASK) = dig 0 (unat e)"
proof -
  have "TIME_NEAR_MASK = mask 8" by (simp add: timer_consts mask_eq_exp_minus_1)
  then have "e AND TIME_NEAR_MASK = take_bit 8 e"
    by (simp add: take_bit_eq_mask)
  then show ?thesis
    by (simp add: unsigned_take_bit_eq) (simp add: take_bit_eq_mod dig_0)
qed

definition slot :: "timer \<Rightarrow> nat \<times> nat \<Rightarrow> timer_node list" where
  "slot T p = (if fst p = 0 then tm_near T ! snd p else tm_t T ! (fst p - 1) ! snd p)"

definition link_at :: "nat \<times> nat \<Rightarrow> timer_node \<Rightarrow> timer \<Rightarrow> timer" where
  "link_at p node T = (if fst p = 0 then near_link (snd p) node T else level_link (fst p - 1) (snd p) node T)"

lemma add_node_pos: "add_node n T = link_at (pos (tm_time T) (node_expire n)) n T"
proof -
  let ?t = "unat (tm_time T)" and ?e = "unat (node_expire n)"
  have lt: "?e < 2 ^ 32" "?t < 2 ^ 32"
    using unsigned_less [of "node_expire n"] unsigned_less [of "tm_time T"] by simp_all
  have m: "TIME_NEAR_MASK = mask 8" "push_bit TIME_LEVEL_SHIFT (of_nat TIME_NEAR) - 1 = (mask 14 :: u32)"
    "push_bit TIME_LEVEL_SHIFT (push_bit TIME_LEVEL_SHIFT (of_nat TIME_NEAR)) - 1 = (mask 20 :: u32)"
    "push_bit TIME_LEVEL_SHIFT (push_bit TIME_LEVEL_SHIFT (push_bit TIME_LEVEL_SHIFT (of_nat TIME_NEAR))) - 1
       = (mask 26 :: u32)"
    by (simp_all add: timer_consts mask_eq_exp_minus_1)
  have l: "level_loop 3 0 (push_bit TIME_LEVEL_SHIFT (of_nat TIME_NEAR)) (node_expire n) (tm_time T) =
      (if dig 4 ?e \<noteq> dig 4 ?t then 3 else if dig 3 ?e \<noteq> dig 3 ?t then 2
       else if dig 2 ?e \<noteq> dig 2 ?t then 1 else 0)"
    unfolding numeral_3_eq_3 level_loop.simps m or_mask_eq_iff block_eq [OF lt] by auto
  have sh: "TIME_NEAR_SHIFT + i * TIME_LEVEL_SHIFT = 2 + 6 * (i + 1)" for i
    by (simp add: timer_consts)
  have d: "?e div 2 ^ (2 + 6 * (i + 1)) mod 64 = dig (i + 1) ?e" for i
    by (simp add: dig_def)
  show ?thesis
  proof (cases "node_expire n OR TIME_NEAR_MASK = tm_time T OR TIME_NEAR_MASK")
    case True
    then have "lev ?t ?e = 0"
      unfolding m or_mask_eq_iff block_eq [OF lt] by (simp add: lev_def)
    with True show ?thesis
      by (simp add: add_node_def Let_def pos_def link_at_def unat_and_near)
  next
    case False
    then have nz: "lev ?t ?e \<noteq> 0"
      unfolding m or_mask_eq_iff block_eq [OF lt] by (auto simp: lev_def)
    then have "level_loop 3 0 (push_bit TIME_LEVEL_SHIFT (of_nat TIME_NEAR)) (node_expire n) (tm_time T) =
        lev ?t ?e - 1"
      unfolding l by (auto simp: lev_def)
    moreover have "unat (drop_bit (TIME_NEAR_SHIFT + (lev ?t ?e - 1) * TIME_LEVEL_SHIFT) (node_expire n)
        AND TIME_LEVEL_MASK) = dig (lev ?t ?e) ?e"
      using nz d [of "lev ?t ?e - 1"] unfolding unat_drop_and_level sh by simp
    ultimately show ?thesis
      using False nz by (simp only: add_node_def Let_def if_False pos_def link_at_def fst_conv snd_conv)
  qed
qed

section \<open>One tick\<close>

text \<open>The slot that \<^verbatim>\<open>timer_shift\<close> redistributes when the time becomes \<open>t\<close>.\<close>

definition moved :: "u32 \<Rightarrow> (nat \<times> nat) option" where
  "moved t =
     (let x = unat t in
      if dig 0 x \<noteq> 0 then None else if dig 1 x \<noteq> 0 then Some (1, dig 1 x)
      else if dig 2 x \<noteq> 0 then Some (2, dig 2 x) else if dig 3 x \<noteq> 0 then Some (3, dig 3 x)
      else Some (4, dig 4 x))"

lemma unat_u32_less: "unat (x :: u32) < 2 ^ 32"
  using unsigned_less [of x] by simp

lemma unat_max: "unat t = 2 ^ 32 - 1 \<longleftrightarrow> t = 0xffffffff" for t :: u32
  by (simp add: word_unat_eq_iff)

lemma unat_Suc_time: "unat (t + 1 :: u32) = (if t = 0xffffffff then 0 else Suc (unat t))"
proof (cases "t = 0xffffffff")
  case False
  then have "Suc (unat t) < 2 ^ 32"
    using unat_max [of t] unat_u32_less [of t] by simp
  with False show ?thesis by (simp add: unat_word_ariths)
qed simp

lemma dig_max: "t = 0xffffffff \<longleftrightarrow> dig 0 (unat t) = 255 \<and> dig 1 (unat t) = 63 \<and> dig 2 (unat t) = 63 \<and>
    dig 3 (unat t) = 63 \<and> dig 4 (unat t) = 63" for t :: u32
proof -
  have "unat t = 2 ^ 32 - 1 \<longleftrightarrow> dig 0 (unat t) = dig 0 (2 ^ 32 - 1) \<and>
      dig 1 (unat t) = dig 1 (2 ^ 32 - 1) \<and> dig 2 (unat t) = dig 2 (2 ^ 32 - 1) \<and>
      dig 3 (unat t) = dig 3 (2 ^ 32 - 1) \<and> dig 4 (unat t) = dig 4 (2 ^ 32 - 1)"
    by (rule eq_dig) (use unat_u32_less [of t] in simp_all)
  then show ?thesis using unat_max [of t] by (simp add: dig_def)
qed

lemma dig_tick:
  fixes t :: u32
  shows "dig 0 (unat (t + 1)) = (if dig 0 (unat t) = 255 then 0 else Suc (dig 0 (unat t)))"
    "dig 1 (unat (t + 1)) = (if dig 0 (unat t) = 255
       then if dig 1 (unat t) = 63 then 0 else Suc (dig 1 (unat t)) else dig 1 (unat t))"
    "dig 2 (unat (t + 1)) = (if dig 0 (unat t) = 255 \<and> dig 1 (unat t) = 63
       then if dig 2 (unat t) = 63 then 0 else Suc (dig 2 (unat t)) else dig 2 (unat t))"
    "dig 3 (unat (t + 1)) = (if dig 0 (unat t) = 255 \<and> dig 1 (unat t) = 63 \<and> dig 2 (unat t) = 63
       then if dig 3 (unat t) = 63 then 0 else Suc (dig 3 (unat t)) else dig 3 (unat t))"
    "dig 4 (unat (t + 1)) = (if dig 0 (unat t) = 255 \<and> dig 1 (unat t) = 63 \<and> dig 2 (unat t) = 63 \<and> dig 3 (unat t) = 63
       then if dig 4 (unat t) = 63 then 0 else Suc (dig 4 (unat t)) else dig 4 (unat t))"
  using dig_max [of t] dig_Suc [of "unat t"] by (simp_all add: unat_Suc_time dig_def [of _ 0])

lemma ahead_tick:
  assumes "ahead t e"
  shows "e = t + 1 \<or> ahead (t + 1) e"
proof (cases "t = 0xffffffff")
  case True
  then show ?thesis
    using unat_gt_0 [of e] by (auto simp: ahead_def)
next
  case False
  then have S: "unat (t + 1) = Suc (unat t)" by (simp add: unat_Suc_time)
  have "dig 4 (unat t) \<le> dig 4 (unat (t + 1))"
    using False dig_max [of t] dig_tick(5) [of t] by auto
  with assms S show ?thesis
    by (auto simp: ahead_def word_unat_eq_iff)
qed

text \<open>How far the carry of a tick goes.\<close>

lemma tick_cases:
  fixes t :: u32
  defines "x \<equiv> unat t" and "y \<equiv> unat (t + 1)"
  obtains "dig 0 y = Suc (dig 0 x)" "dig 1 y = dig 1 x" "dig 2 y = dig 2 x" "dig 3 y = dig 3 x" "dig 4 y = dig 4 x"
  | "dig 0 x = 255" "dig 0 y = 0" "dig 1 y = Suc (dig 1 x)" "dig 2 y = dig 2 x" "dig 3 y = dig 3 x" "dig 4 y = dig 4 x"
  | "dig 0 x = 255" "dig 1 x = 63" "dig 0 y = 0" "dig 1 y = 0" "dig 2 y = Suc (dig 2 x)" "dig 3 y = dig 3 x" "dig 4 y = dig 4 x"
  | "dig 0 x = 255" "dig 1 x = 63" "dig 2 x = 63" "dig 0 y = 0" "dig 1 y = 0" "dig 2 y = 0"
    "dig 3 y = Suc (dig 3 x)" "dig 4 y = dig 4 x"
  | "dig 0 x = 255" "dig 1 x = 63" "dig 2 x = 63" "dig 3 x = 63" "dig 0 y = 0" "dig 1 y = 0" "dig 2 y = 0" "dig 3 y = 0"
    "dig 4 y = (if dig 4 x = 63 then 0 else Suc (dig 4 x))"
  using dig_tick [of t] unfolding x_def [symmetric] y_def [symmetric]
  by (cases "dig 0 x = 255"; cases "dig 1 x = 63"; cases "dig 2 x = 63"; cases "dig 3 x = 63") simp_all

lemma pos_tick:
  assumes "ahead t e" "moved (t + 1) \<noteq> Some (pos t e)"
  shows "pos (t + 1) e = pos t e"
proof -
  have ah: "unat t < unat e \<or> dig 4 (unat e) < dig 4 (unat t)" using assms(1) by (simp add: ahead_def)
  note ah' = ah [unfolded less_dig [OF unat_u32_less unat_u32_less]]
  have b: "dig 0 (unat e) < 256" "dig 1 (unat e) < 64" "dig 2 (unat e) < 64" "dig 3 (unat e) < 64" "dig 4 (unat e) < 64"
    by (simp_all add: dig_less)
  show ?thesis
    using assms(2) ah' b
    by (rule_tac t = t in tick_cases)
      (auto simp: moved_def pos_def lev_def Let_def simp del: One_nat_def split: if_splits)
qed

lemma pos_self: "pos t t = (0, dig 0 (unat t))"
  by (simp add: pos_def lev_def)

lemma ahead_near: "ahead t e \<Longrightarrow> pos t e \<noteq> (0, dig 0 (unat t))"
  unfolding ahead_def less_dig [OF unat_u32_less unat_u32_less]
  by (auto simp: pos_def lev_def Let_def simp del: One_nat_def split: if_splits)

lemma ahead_add:
  assumes "0 < d" "d < 2 ^ 31"
  shows "ahead t (of_int d + t)"
proof -
  have d: "unat (of_int d :: u32) = nat d"
    using assms by (simp add: unsigned_of_int take_bit_int_eq_self)
  show ?thesis
  proof (cases "nat d + unat t < 2 ^ 32")
    case True
    then have "unat (of_int d + t) = nat d + unat t"
      using d by (simp add: unat_word_ariths)
    then show ?thesis using assms(1) by (simp add: ahead_def)
  next
    case False
    have sum: "unat (of_int d + t) = nat d + unat t - 2 ^ 32"
      using d False assms(2) unat_u32_less [of t] by (simp add: unat_word_ariths mod_if)
    then have "unat (of_int d + t) + 2 ^ 26 \<le> unat t"
      using assms(2) False by simp
    then have "unat (of_int d + t) div 2 ^ 26 < unat t div 2 ^ 26"
      using div_le_mono [of "unat (of_int d + t) + 2 ^ 26" "unat t" "2 ^ 26"] by simp
    then show ?thesis
      using dig_4 [OF unat_u32_less] by (simp add: ahead_def)
  qed
qed

section \<open>The wheel invariant\<close>

definition valid :: "nat \<times> nat \<Rightarrow> bool" where
  "valid p \<longleftrightarrow> fst p \<le> 4 \<and> snd p < (if fst p = 0 then 256 else 64)"

definition shape :: "timer \<Rightarrow> bool" where
  "shape T \<longleftrightarrow> length (tm_near T) = 256 \<and> length (tm_t T) = 4 \<and> (\<forall>l < 4. length (tm_t T ! l) = 64)"

text \<open>
  Every node sits in the slot where \<^verbatim>\<open>add_node\<close> would put it now and is due now or later; in
  between two updates nothing is due now.
\<close>

definition wheel_ok :: "timer \<Rightarrow> bool" where
  "wheel_ok T \<longleftrightarrow> shape T \<and> (\<forall>p n. valid p \<longrightarrow> n \<in> set (slot T p) \<longrightarrow> pos (tm_time T) (node_expire n) = p \<and>
     (node_expire n = tm_time T \<or> ahead (tm_time T) (node_expire n)))"

definition settled :: "timer \<Rightarrow> bool" where
  "settled T \<longleftrightarrow> wheel_ok T \<and> slot T (0, dig 0 (unat (tm_time T))) = []"

text \<open>What is pending for a time, in the order in which it was added.\<close>

definition pending :: "timer \<Rightarrow> u32 \<Rightarrow> timer_node list" where
  "pending T e = filter (\<lambda>n. node_expire n = e) (slot T (pos (tm_time T) e))"

lemma valid_pos: "valid (pos t e)"
proof -
  have "lev (unat t) (unat e) \<le> 4" by (simp add: lev_def)
  then show ?thesis by (auto simp: valid_def pos_def Let_def dig_less)
qed

lemma valid_now: "valid (0, dig 0 (unat t))"
  by (simp add: valid_def dig_less)

lemma wheel_okI:
  assumes "shape T" "\<And>p n. valid p \<Longrightarrow> n \<in> set (slot T p) \<Longrightarrow> pos (tm_time T) (node_expire n) = p"
    "\<And>p n. valid p \<Longrightarrow> n \<in> set (slot T p) \<Longrightarrow> node_expire n = tm_time T \<or> ahead (tm_time T) (node_expire n)"
  shows "wheel_ok T"
  using assms unfolding wheel_ok_def by blast

lemma wheel_okD:
  assumes "wheel_ok T"
  shows "shape T" "valid p \<Longrightarrow> n \<in> set (slot T p) \<Longrightarrow> pos (tm_time T) (node_expire n) = p"
    "valid p \<Longrightarrow> n \<in> set (slot T p) \<Longrightarrow> node_expire n = tm_time T \<or> ahead (tm_time T) (node_expire n)"
  using assms unfolding wheel_ok_def by blast+

lemma slot_link_at:
  assumes "shape T" "valid p" "valid q"
  shows "slot (link_at p n T) q = (if q = p then slot T p @ [n] else slot T q)"
  using assms
  by (cases p; cases q)
    (auto simp: slot_def link_at_def near_link_def level_link_def shape_def valid_def nth_list_update)

lemma shape_link_at: "shape T \<Longrightarrow> shape (link_at p n T)"
  by (cases "fst p - 1 < 4")
    (auto simp: shape_def link_at_def near_link_def level_link_def nth_list_update)

lemma time_link_at [simp]: "tm_time (link_at p n T) = tm_time T"
  by (simp add: link_at_def near_link_def level_link_def)

lemma add_node_ok:
  assumes "wheel_ok T" "node_expire n = tm_time T \<or> ahead (tm_time T) (node_expire n)"
  shows "wheel_ok (add_node n T)" "tm_time (add_node n T) = tm_time T"
    "pending (add_node n T) e = pending T e @ (if node_expire n = e then [n] else [])"
proof -
  have sh: "shape T" using assms by (simp add: wheel_ok_def)
  note sl = slot_link_at [OF sh valid_pos]
  show "wheel_ok (add_node n T)"
    unfolding add_node_pos
  proof (rule wheel_okI)
    fix p m
    assume p: "valid p" "m \<in> set (slot (link_at (pos (tm_time T) (node_expire n)) n T) p)"
    then have "m = n \<and> p = pos (tm_time T) (node_expire n) \<or> m \<in> set (slot T p)"
      using sl [OF p(1)] by (auto split: if_splits)
    then show "pos (tm_time (link_at (pos (tm_time T) (node_expire n)) n T)) (node_expire m) = p"
      "node_expire m = tm_time (link_at (pos (tm_time T) (node_expire n)) n T) \<or>
       ahead (tm_time (link_at (pos (tm_time T) (node_expire n)) n T)) (node_expire m)"
      using assms(2) wheel_okD(2,3) [OF assms(1) p(1)] by auto
  qed (rule shape_link_at [OF sh])
  show "tm_time (add_node n T) = tm_time T"
    by (simp add: add_node_pos)
  show "pending (add_node n T) e = pending T e @ (if node_expire n = e then [n] else [])"
    using sl [OF valid_pos] by (auto simp: pending_def add_node_pos)
qed

lemma fold_add_node_ok:
  assumes "wheel_ok T" "\<forall>n \<in> set ns. node_expire n = tm_time T \<or> ahead (tm_time T) (node_expire n)"
  shows "wheel_ok (fold add_node ns T) \<and> tm_time (fold add_node ns T) = tm_time T \<and>
    (\<forall>e. pending (fold add_node ns T) e = pending T e @ filter (\<lambda>n. node_expire n = e) ns)"
  using assms
proof (induction ns arbitrary: T)
  case (Cons n ns)
  show ?case
    using Cons.IH [of "add_node n T"] Cons.prems add_node_ok [of T n] by auto
qed simp

lemma settled_ahead:
  "settled T \<Longrightarrow> valid p \<Longrightarrow> n \<in> set (slot T p) \<Longrightarrow> ahead (tm_time T) (node_expire n)"
  using wheel_okD(2,3) [of T p n] pos_self [of "tm_time T"] by (auto simp: settled_def)

lemma pending_not_ahead:
  "settled T \<Longrightarrow> \<not> ahead (tm_time T) e \<Longrightarrow> pending T e = []"
  using settled_ahead [of T "pos (tm_time T) e"] valid_pos
  by (auto simp: pending_def filter_empty_conv)

section \<open>Shifting the wheel\<close>

text \<open>\<^verbatim>\<open>timer_shift\<close> stays within the four levels and redistributes the slot \<open>moved\<close> names.\<close>

definition shift_to :: "timer \<Rightarrow> timer" where
  "shift_to T = (case moved (tm_time T) of None \<Rightarrow> T | Some (l, i) \<Rightarrow> move_list (l - 1) i T)"

lemma and_low_eq_0: "(c :: u32) AND mask k = 0 \<longleftrightarrow> unat c mod 2 ^ k = 0"
proof -
  have "c AND mask k = 0 \<longleftrightarrow> unat (take_bit k c) = 0"
    by (simp add: take_bit_eq_mask unat_eq_0)
  then show ?thesis by (simp only: unsigned_take_bit_eq) (simp add: take_bit_eq_mod)
qed

lemma shift_loop_end: "i < 4 \<Longrightarrow> ct AND (msk - 1) \<noteq> 0 \<Longrightarrow> shift_loop ct time msk i T = Inr T"
  by (subst shift_loop.simps) simp

lemma shift_loop_move:
  "i < 4 \<Longrightarrow> ct AND (msk - 1) = 0 \<Longrightarrow> unat (time AND TIME_LEVEL_MASK) \<noteq> 0 \<Longrightarrow>
   shift_loop ct time msk i T = Inr (move_list i (unat (time AND TIME_LEVEL_MASK)) T)"
  by (subst shift_loop.simps) (simp add: Let_def)

lemma shift_loop_next:
  "i < 4 \<Longrightarrow> ct AND (msk - 1) = 0 \<Longrightarrow> unat (time AND TIME_LEVEL_MASK) = 0 \<Longrightarrow>
   shift_loop ct time msk i T =
     shift_loop ct (drop_bit TIME_LEVEL_SHIFT time) (push_bit TIME_LEVEL_SHIFT msk) (i + 1) T"
  by (subst shift_loop.simps) (simp add: Let_def)

lemma mod_pow_dig:
  "x mod 2 ^ 8 = 0 \<longleftrightarrow> dig 0 x = 0"
  "x mod 2 ^ 14 = 0 \<longleftrightarrow> dig 0 x = 0 \<and> dig 1 x = 0"
  "x mod 2 ^ 20 = 0 \<longleftrightarrow> dig 0 x = 0 \<and> dig 1 x = 0 \<and> dig 2 x = 0"
  "x mod 2 ^ 26 = 0 \<longleftrightarrow> dig 0 x = 0 \<and> dig 1 x = 0 \<and> dig 2 x = 0 \<and> dig 3 x = 0"
proof -
  have m: "x mod 2 ^ (k + 6) = 2 ^ k * (x div 2 ^ k mod 64) + x mod 2 ^ k" for k
    using mod_mult2_eq [of x "2 ^ k" 64] by (simp add: power_add)
  show a: "x mod 2 ^ 8 = 0 \<longleftrightarrow> dig 0 x = 0" by (simp add: dig_0)
  show b: "x mod 2 ^ 14 = 0 \<longleftrightarrow> dig 0 x = 0 \<and> dig 1 x = 0"
    using m [of 8] a by (auto simp: dig_def)
  show c: "x mod 2 ^ 20 = 0 \<longleftrightarrow> dig 0 x = 0 \<and> dig 1 x = 0 \<and> dig 2 x = 0"
    using m [of 14] b by (auto simp: dig_def)
  show "x mod 2 ^ 26 = 0 \<longleftrightarrow> dig 0 x = 0 \<and> dig 1 x = 0 \<and> dig 2 x = 0 \<and> dig 3 x = 0"
    using m [of 20] c by (auto simp: dig_def)
qed

lemma timer_shift_eq: "timer_shift T = Inr (shift_to (T\<lparr>tm_time := tm_time T + 1\<rparr>))"
proof -
  let ?ct = "tm_time T + 1" and ?T = "T\<lparr>tm_time := tm_time T + 1\<rparr>"
  let ?x = "unat ?ct"
  let ?m1 = "push_bit TIME_LEVEL_SHIFT (of_nat TIME_NEAR) :: u32"
  let ?m2 = "push_bit TIME_LEVEL_SHIFT ?m1"
  let ?m3 = "push_bit TIME_LEVEL_SHIFT ?m2"
  let ?t0 = "drop_bit TIME_NEAR_SHIFT ?ct"
  let ?t1 = "drop_bit TIME_LEVEL_SHIFT ?t0"
  let ?t2 = "drop_bit TIME_LEVEL_SHIFT ?t1"
  let ?t3 = "drop_bit TIME_LEVEL_SHIFT ?t2"
  have m: "of_nat TIME_NEAR - 1 = (mask 8 :: u32)" "?m1 - 1 = mask 14" "?m2 - 1 = mask 20" "?m3 - 1 = mask 26"
    by (simp_all add: timer_consts mask_eq_exp_minus_1)
  have d: "unat (?t0 AND TIME_LEVEL_MASK) = dig 1 ?x" "unat (?t1 AND TIME_LEVEL_MASK) = dig 2 ?x"
    "unat (?t2 AND TIME_LEVEL_MASK) = dig 3 ?x" "unat (?t3 AND TIME_LEVEL_MASK) = dig 4 ?x"
    unfolding drop_bit_drop_bit TIME_LEVEL_SHIFT_def TIME_NEAR_SHIFT_def unat_drop_and_level
    by (simp_all add: dig_def)
  have z: "?ct = 0 \<longleftrightarrow> dig 0 ?x = 0 \<and> dig 1 ?x = 0 \<and> dig 2 ?x = 0 \<and> dig 3 ?x = 0 \<and> dig 4 ?x = 0"
    using eq_dig [OF unat_u32_less [of ?ct], of 0] by (simp add: unat_eq_0 dig_def)
  have c: "?ct AND (of_nat TIME_NEAR - 1) = 0 \<longleftrightarrow> dig 0 ?x = 0"
    "?ct AND (?m1 - 1) = 0 \<longleftrightarrow> dig 0 ?x = 0 \<and> dig 1 ?x = 0"
    "?ct AND (?m2 - 1) = 0 \<longleftrightarrow> dig 0 ?x = 0 \<and> dig 1 ?x = 0 \<and> dig 2 ?x = 0"
    "?ct AND (?m3 - 1) = 0 \<longleftrightarrow> dig 0 ?x = 0 \<and> dig 1 ?x = 0 \<and> dig 2 ?x = 0 \<and> dig 3 ?x = 0"
    unfolding m and_low_eq_0 mod_pow_dig by (rule refl)+
  let ?r = "\<lambda>t m i. shift_loop ?ct t m i ?T"
  have r3: "?r ?t3 ?m3 3 = Inr (move_list 3 (dig 4 ?x) ?T)"
    if "dig 0 ?x = 0" "dig 1 ?x = 0" "dig 2 ?x = 0" "dig 3 ?x = 0" "dig 4 ?x \<noteq> 0"
    using that c(4) d(4) shift_loop_move [of 3 ?ct ?m3 ?t3 ?T] by simp
  have r2: "?r ?t2 ?m2 2 = (if dig 3 ?x \<noteq> 0 then Inr (move_list 2 (dig 3 ?x) ?T) else ?r ?t3 ?m3 3)"
    if "dig 0 ?x = 0" "dig 1 ?x = 0" "dig 2 ?x = 0"
    using that c(3) d(3) shift_loop_move [of 2 ?ct ?m2 ?t2 ?T] shift_loop_next [of 2 ?ct ?m2 ?t2 ?T] by simp
  have r1: "?r ?t1 ?m1 1 = (if dig 2 ?x \<noteq> 0 then Inr (move_list 1 (dig 2 ?x) ?T) else ?r ?t2 ?m2 2)"
    if "dig 0 ?x = 0" "dig 1 ?x = 0"
    using that c(2) d(2) shift_loop_move [of 1 ?ct ?m1 ?t1 ?T] shift_loop_next [of 1 ?ct ?m1 ?t1 ?T]
    by (simp add: numeral_2_eq_2)
  have r0: "?r ?t0 (of_nat TIME_NEAR) 0 = (if dig 0 ?x \<noteq> 0 then Inr ?T
      else if dig 1 ?x \<noteq> 0 then Inr (move_list 0 (dig 1 ?x) ?T) else ?r ?t1 ?m1 1)"
    using c(1) d(1) shift_loop_end [of 0 ?ct "of_nat TIME_NEAR" ?t0 ?T]
      shift_loop_move [of 0 ?ct "of_nat TIME_NEAR" ?t0 ?T] shift_loop_next [of 0 ?ct "of_nat TIME_NEAR" ?t0 ?T]
    by simp
  have "timer_shift T = (if ?ct = 0 then Inr (move_list 3 0 ?T) else ?r ?t0 (of_nat TIME_NEAR) 0)"
    by (simp add: timer_shift_def Let_def)
  also have "\<dots> = Inr (shift_to ?T)"
    using r0 r1 r2 r3 z
    by (cases "dig 0 ?x = 0"; cases "dig 1 ?x = 0"; cases "dig 2 ?x = 0"; cases "dig 3 ?x = 0"; cases "dig 4 ?x = 0")
      (simp_all add: shift_to_def moved_def Let_def)
  finally show ?thesis .
qed

lemma pending_Nil:
  assumes "\<And>p n. valid p \<Longrightarrow> node_expire n = e \<Longrightarrow> n \<notin> set (slot T p)"
  shows "pending T e = []"
  using assms [OF valid_pos [of "tm_time T" e]] by (auto simp: pending_def filter_empty_conv)

lemma moved_valid: "moved t = Some p \<Longrightarrow> valid p \<and> fst p \<noteq> 0"
  by (auto simp: moved_def Let_def valid_def dig_less split: if_splits)

lemma slot_level_clear:
  assumes "shape T" "valid (l, i)" "l \<noteq> 0" "valid q" "level_clear (l - 1) i T = (ns, T')"
  shows "ns = slot T (l, i)" "shape T'" "tm_time T' = tm_time T"
    "slot T' q = (if q = (l, i) then [] else slot T q)"
  using assms
  by (cases q; auto simp: level_clear_def slot_def shape_def valid_def nth_list_update split: if_splits; fail)+

lemma slot_time_upd [simp]: "slot (T\<lparr>tm_time := t\<rparr>) p = slot T p" "shape (T\<lparr>tm_time := t\<rparr>) = shape T"
  by (simp_all add: slot_def shape_def)

lemma shift_none:
  assumes "settled T" "moved (tm_time T + 1) = None"
  defines "T1 \<equiv> T\<lparr>tm_time := tm_time T + 1\<rparr>"
  shows "wheel_ok T1" "pending T1 e = pending T e"
proof -
  have ok: "wheel_ok T" using assms(1) by (simp add: settled_def)
  have ah: "ahead (tm_time T) (node_expire n)" if "valid p" "n \<in> set (slot T p)" for p n
    using settled_ahead [OF assms(1)] that by blast
  have same: "pos (tm_time T + 1) e = pos (tm_time T) e" if "ahead (tm_time T) e" for e
    using pos_tick [OF that] assms(2) by simp
  show "wheel_ok T1"
    by (rule wheel_okI)
      (use wheel_okD [OF ok] ah same ahead_tick in \<open>auto simp: T1_def\<close>)
  show "pending T1 e = pending T e"
  proof (cases "ahead (tm_time T) e")
    case True
    then show ?thesis by (simp add: pending_def T1_def same)
  next
    case False
    then have "n \<notin> set (slot T p)" if "valid p" "node_expire n = e" for n p
      using ah that by blast
    then have "pending T1 e = []"
      by (intro pending_Nil) (simp add: T1_def)
    then show ?thesis using pending_not_ahead [OF assms(1) False] by simp
  qed
qed

lemma shift_some:
  assumes "settled T" "moved (tm_time T + 1) = Some (l, i)"
    "level_clear (l - 1) i (T\<lparr>tm_time := tm_time T + 1\<rparr>) = (ns, T1)"
  shows "wheel_ok T1" "tm_time T1 = tm_time T + 1"
    "\<forall>n \<in> set ns. node_expire n = tm_time T + 1 \<or> ahead (tm_time T + 1) (node_expire n)"
    "pending T1 e @ filter (\<lambda>n. node_expire n = e) ns = pending T e"
proof -
  have ok: "wheel_ok T" using assms(1) by (simp add: settled_def)
  have v: "valid (l, i)" "l \<noteq> 0" using moved_valid [OF assms(2)] by auto
  have ah: "ahead (tm_time T) (node_expire n)" if "valid p" "n \<in> set (slot T p)" for p n
    using settled_ahead [OF assms(1)] that by blast
  note lc = slot_level_clear [OF _ v _ assms(3)]
  have sh: "shape T" using wheel_okD(1) [OF ok] .
  have ns: "ns = slot T (l, i)" using lc(1) [OF _ valid_pos] sh by simp
  have sl: "slot T1 q = (if q = (l, i) then [] else slot T q)" if "valid q" for q
    using lc(4) [OF _ that] sh by simp
  show tm: "tm_time T1 = tm_time T + 1" using lc(3) [OF _ valid_pos] sh by simp
  have sh1: "shape T1" using lc(2) [OF _ valid_pos] sh by simp
  have same: "pos (tm_time T + 1) e = pos (tm_time T) e" if "ahead (tm_time T) e" "pos (tm_time T) e \<noteq> (l, i)" for e
    using pos_tick [OF that(1)] assms(2) that(2) by simp
  show "wheel_ok T1"
  proof (rule wheel_okI [OF sh1])
    fix p n
    assume p: "valid p" "n \<in> set (slot T1 p)"
    then have n: "p \<noteq> (l, i)" "n \<in> set (slot T p)" using sl by (auto split: if_splits)
    then show "pos (tm_time T1) (node_expire n) = p"
      "node_expire n = tm_time T1 \<or> ahead (tm_time T1) (node_expire n)"
      using wheel_okD(2) [OF ok p(1) n(2)] ah [OF p(1) n(2)] same ahead_tick tm by auto
  qed
  show "\<forall>n \<in> set ns. node_expire n = tm_time T + 1 \<or> ahead (tm_time T + 1) (node_expire n)"
    using ns ah [OF v(1)] ahead_tick by blast
  have in_ns: "filter (\<lambda>n. node_expire n = e) ns = (if pos (tm_time T) e = (l, i) then pending T e else [])"
    using wheel_okD(2) [OF ok v(1)] by (auto simp: ns pending_def filter_empty_conv)
  have at: "pos (tm_time T) (node_expire n) = p" if "valid p" "n \<in> set (slot T1 p)" for p n
    using that sl wheel_okD(2) [OF ok that(1)] by (auto split: if_splits)
  have "pending T1 e = (if pos (tm_time T) e = (l, i) then [] else pending T e)"
  proof (cases "ahead (tm_time T) e \<and> pos (tm_time T) e \<noteq> (l, i)")
    case True
    then show ?thesis using same sl [OF valid_pos] by (simp add: pending_def tm)
  next
    case False
    have "n \<notin> set (slot T1 p)" if "valid p" "node_expire n = e" for n p
      using False at [OF that(1)] that ah [OF that(1)] sl [OF that(1)] by auto
    then have "pending T1 e = []"
      by (intro pending_Nil) blast
    then show ?thesis using False pending_not_ahead [OF assms(1)] by auto
  qed
  then show "pending T1 e @ filter (\<lambda>n. node_expire n = e) ns = pending T e"
    using in_ns by simp
qed

lemma timer_shift_ok:
  assumes "settled T"
  obtains T' where "timer_shift T = Inr T'" "wheel_ok T'" "tm_time T' = tm_time T + 1"
    "\<And>e. pending T' e = pending T e"
proof (cases "moved (tm_time T + 1)")
  case None
  then show ?thesis
    using that [of "T\<lparr>tm_time := tm_time T + 1\<rparr>"] shift_none [OF assms None]
    by (simp add: timer_shift_eq shift_to_def)
next
  case (Some p)
  obtain l i where p: "p = (l, i)" by (cases p)
  obtain ns T1 where lc: "level_clear (l - 1) i (T\<lparr>tm_time := tm_time T + 1\<rparr>) = (ns, T1)" by fastforce
  note s = shift_some [OF assms Some [unfolded p] lc]
  have "wheel_ok (fold add_node ns T1) \<and> tm_time (fold add_node ns T1) = tm_time T1 \<and>
      (\<forall>e. pending (fold add_node ns T1) e = pending T1 e @ filter (\<lambda>n. node_expire n = e) ns)"
    using s by (intro fold_add_node_ok) auto
  then show ?thesis
    using that [of "fold add_node ns T1"] s Some p lc
    by (simp add: timer_shift_eq shift_to_def move_list_def)
qed

section \<open>Dispatching\<close>

definition adds_ok :: "timer_adds \<Rightarrow> bool" where
  "adds_ok adds \<longleftrightarrow> (\<forall>(ev, time) \<in> set adds. 0 < time \<and> time < 2 ^ 31)"

definition add_nodes :: "u32 \<Rightarrow> timer_adds \<Rightarrow> timer_node list" where
  "add_nodes t adds = map (\<lambda>(ev, time). \<lparr>node_expire = of_int time + t, node_event = ev\<rparr>) adds"

lemma settled_add_node:
  assumes "settled T" "ahead (tm_time T) (node_expire n)"
  shows "settled (add_node n T)"
proof -
  have "shape T" using assms(1) by (simp add: settled_def wheel_ok_def)
  then have "slot (add_node n T) (0, dig 0 (unat (tm_time T))) = slot T (0, dig 0 (unat (tm_time T)))"
    using slot_link_at [OF \<open>shape T\<close> valid_pos valid_now, of "tm_time T" "node_expire n" n "tm_time T"]
      ahead_near [OF assms(2)] by (auto simp: add_node_pos)
  then show ?thesis
    using assms add_node_ok [of T n] by (simp add: settled_def)
qed

lemma run_adds_ok:
  assumes "settled T" "adds_ok adds"
  shows "settled (run_adds adds T) \<and> tm_time (run_adds adds T) = tm_time T \<and>
    (\<forall>e. pending (run_adds adds T) e = pending T e @ filter (\<lambda>n. node_expire n = e) (add_nodes (tm_time T) adds))"
  using assms
proof (induction adds arbitrary: T)
  case Nil
  then show ?case by (simp add: run_adds_def add_nodes_def)
next
  case (Cons a adds)
  obtain ev time where a: "a = (ev, time)" by (cases a)
  define n where "n = \<lparr>node_expire = of_int time + tm_time T, node_event = ev\<rparr>"
  have ah: "ahead (tm_time T) (node_expire n)"
    using Cons.prems(2) ahead_add [of time "tm_time T"] by (simp add: n_def adds_ok_def a)
  have ok: "wheel_ok T" using Cons.prems(1) by (simp add: settled_def)
  have "run_adds (a # adds) T = run_adds adds (add_node n T)"
    by (simp add: run_adds_def a timer_add_def n_def)
  moreover have "add_nodes (tm_time T) (a # adds) = n # add_nodes (tm_time T) adds"
    by (simp add: add_nodes_def a n_def)
  ultimately show ?case
    using Cons.IH [of "add_node n T"] settled_add_node [OF Cons.prems(1) ah] Cons.prems(2)
      add_node_ok [OF ok disjI2 [OF ah]] by (simp add: adds_ok_def)
qed

lemma near_clear_ok:
  assumes "wheel_ok T" "near_clear (dig 0 (unat (tm_time T))) T = (ns, T')"
  shows "settled T'" "tm_time T' = tm_time T" "ns = pending T (tm_time T)"
    "pending T' e = (if e = tm_time T then [] else pending T e)"
proof -
  let ?now = "(0, dig 0 (unat (tm_time T)))"
  have sh: "shape T" using wheel_okD(1) [OF assms(1)] .
  have T': "ns = slot T ?now" "tm_time T' = tm_time T" "shape T'"
    using assms(2) sh by (auto simp: near_clear_def slot_def shape_def)
  have sl: "slot T' q = (if q = ?now then [] else slot T q)" if "valid q" for q
    using assms(2) sh that by (cases q) (auto simp: near_clear_def slot_def shape_def valid_def nth_list_update)
  have now: "node_expire n = tm_time T" if "n \<in> set (slot T ?now)" for n
    using wheel_okD(2,3) [OF assms(1) valid_now that] ahead_near by blast
  show "tm_time T' = tm_time T" by (rule T'(2))
  show "ns = pending T (tm_time T)"
    using now by (simp add: T'(1) pending_def pos_self)
  show "settled T'"
    unfolding settled_def
  proof
    show "wheel_ok T'"
      by (rule wheel_okI [OF T'(3)])
        (use wheel_okD(2,3) [OF assms(1)] sl T'(2) in \<open>auto split: if_splits\<close>)
    show "slot T' (0, dig 0 (unat (tm_time T'))) = []"
      using sl [OF valid_now, of "tm_time T"] by (simp add: T'(2))
  qed
  show "pending T' e = (if e = tm_time T then [] else pending T e)"
  proof (cases "pos (tm_time T) e = ?now")
    case True
    then show ?thesis
      using now sl [OF valid_now, of "tm_time T"] by (auto simp: pending_def T'(2) filter_empty_conv)
  next
    case False
    then show ?thesis
      using sl [OF valid_pos] pos_self [of "tm_time T"] by (auto simp: pending_def T'(2))
  qed
qed

text \<open>
  One dispatch is all there is: whatever other threads add during it lies ahead, so the near
  slot is empty when the lock is taken again.
\<close>

definition first_window :: "timer_adds list \<Rightarrow> timer_adds" where
  "first_window w = (case w of [] \<Rightarrow> [] | a # _ \<Rightarrow> a)"

lemma execute_settled:
  assumes "settled T"
  shows "execute_windows w T = ([], T)"
  using assms by (cases w) (simp_all add: settled_def slot_def unat_and_near)

lemma execute_windows_ok:
  assumes "wheel_ok T" "adds_ok (first_window w)" "execute_windows w T = (ns, T')"
  shows "ns = pending T (tm_time T)" "settled T'" "tm_time T' = tm_time T"
    "pending T' e = (if e = tm_time T then [] else pending T e) @
       (if ns = [] then [] else filter (\<lambda>n. node_expire n = e) (add_nodes (tm_time T) (first_window w)))"
proof -
  let ?i = "dig 0 (unat (tm_time T))"
  have near: "tm_near T ! ?i = pending T (tm_time T)"
    using near_clear_ok(3) [OF assms(1)] by (simp add: near_clear_def)
  have "ns = pending T (tm_time T) \<and> settled T' \<and> tm_time T' = tm_time T \<and>
    pending T' e = (if e = tm_time T then [] else pending T e) @
       (if ns = [] then [] else filter (\<lambda>n. node_expire n = e) (add_nodes (tm_time T) (first_window w)))"
  proof (cases "tm_near T ! ?i = []")
    case True
    then have "settled T" using assms(1) by (simp add: settled_def slot_def)
    moreover from this have "ns = []" "T' = T" using execute_settled assms(3) by auto
    ultimately show ?thesis using True near by simp
  next
    case False
    obtain T1 where c: "near_clear ?i T = (pending T (tm_time T), T1)"
      using near_clear_ok(3) [OF assms(1)] by (metis surj_pair)
    note c' = near_clear_ok [OF assms(1) c]
    let ?T2 = "run_adds (first_window w) T1"
    have r: "settled ?T2" "tm_time ?T2 = tm_time T" "pending ?T2 e = pending T1 e @
        filter (\<lambda>n. node_expire n = e) (add_nodes (tm_time T) (first_window w))"
      using run_adds_ok [OF c'(1) assms(2)] c'(2) by auto
    have "execute_windows w T = (pending T (tm_time T), ?T2)"
    proof (cases w)
      case Nil
      then show ?thesis using False c by (simp add: unat_and_near first_window_def run_adds_def)
    next
      case (Cons a w')
      then show ?thesis
        using False c execute_settled [OF r(1), of w'] by (simp add: unat_and_near first_window_def)
    qed
    then have "ns = pending T (tm_time T)" "T' = ?T2" using assms(3) by auto
    then show ?thesis using r c' False near by auto
  qed
  then show "ns = pending T (tm_time T)" "settled T'" "tm_time T' = tm_time T"
    "pending T' e = (if e = tm_time T then [] else pending T e) @
       (if ns = [] then [] else filter (\<lambda>n. node_expire n = e) (add_nodes (tm_time T) (first_window w)))"
    by auto
qed

lemma timer_update_ok:
  assumes "settled T" "adds_ok (first_window w2)"
  obtains T' where
    "timer_update w1 w2 T = Inr (dispatch_list (pending T (tm_time T + 1)), T')"
    "settled T'" "tm_time T' = tm_time T + 1"
    "\<And>e. pending T' e = (if e = tm_time T + 1 then [] else pending T e) @
       (if pending T (tm_time T + 1) = [] then []
        else filter (\<lambda>n. node_expire n = e) (add_nodes (tm_time T + 1) (first_window w2)))"
proof -
  obtain T2 where s: "timer_shift T = Inr T2" "wheel_ok T2" "tm_time T2 = tm_time T + 1"
    "\<And>e. pending T2 e = pending T e"
    using timer_shift_ok [OF assms(1)] by metis
  obtain ns T3 where x: "execute_windows w2 T2 = (ns, T3)" by fastforce
  note x' = execute_windows_ok [OF s(2) assms(2) x]
  show ?thesis
    using that [of T3] x' s x execute_settled [OF assms(1), of w1]
    by (simp add: timer_update_def timer_execute_def dispatch_list_def)
qed

section \<open>Properties\<close>

text \<open>Histories of timeouts and updates, and the agenda they are meant to implement.\<close>

datatype timer_op = Timeout u32 int int | Update "timer_adds list" "timer_adds list"

fun timer_run :: "timer_op list \<Rightarrow> timer \<Rightarrow> ((u32 \<times> 'd skynet_message) list \<times> timer) result" where
  "timer_run [] T = Inr ([], T)"
| "timer_run (Timeout handle time session # ops) T =
     (case skynet_timeout handle time session T of
        Inl msg \<Rightarrow> rbind (timer_run ops T) (\<lambda>(out, T'). Inr (msg # out, T'))
      | Inr T' \<Rightarrow> timer_run ops T')"
| "timer_run (Update w1 w2 # ops) T =
     rbind (timer_update w1 w2 T) (\<lambda>(out, T').
     rbind (timer_run ops T') (\<lambda>(out', T''). Inr (out @ out', T'')))"

fun agenda_run :: "timer_op list \<Rightarrow> u32 \<Rightarrow> timer_node list \<Rightarrow> (u32 \<times> 'd skynet_message) list" where
  "agenda_run [] t P = []"
| "agenda_run (Timeout handle time session # ops) t P =
     (if time \<le> 0 then (handle, timeout_message session) # agenda_run ops t P
      else agenda_run ops t (P @ add_nodes t [(\<lparr>ev_handle = handle, ev_session = session\<rparr>, time)]))"
| "agenda_run (Update w1 w2 # ops) t P =
     (let due = filter (\<lambda>n. node_expire n = t + 1) P in
      dispatch_list due @
      agenda_run ops (t + 1) (filter (\<lambda>n. node_expire n \<noteq> t + 1) P @
        (if due = [] then [] else add_nodes (t + 1) (first_window w2))))"

text \<open>Delays are C \<^verbatim>\<open>int\<close>s; only positive ones reach \<^verbatim>\<open>timer_add\<close>.\<close>

fun op_ok :: "timer_op \<Rightarrow> bool" where
  "op_ok (Timeout handle time session) \<longleftrightarrow> time < 2 ^ 31"
| "op_ok (Update w1 w2) \<longleftrightarrow> adds_ok (first_window w2)"

definition agenda :: "timer \<Rightarrow> timer_node list \<Rightarrow> bool" where
  "agenda T P \<longleftrightarrow> settled T \<and> (\<forall>e. pending T e = filter (\<lambda>n. node_expire n = e) P)"

lemma timeout_agenda:
  assumes "agenda T P" "0 < time" "time < 2 ^ 31"
  shows "agenda (timer_add ev time T) (P @ add_nodes (tm_time T) [(ev, time)])"
    "tm_time (timer_add ev time T) = tm_time T"
proof -
  have "run_adds [(ev, time)] T = timer_add ev time T" by (simp add: run_adds_def)
  moreover have "adds_ok [(ev, time)]" using assms by (simp add: adds_ok_def)
  ultimately show "agenda (timer_add ev time T) (P @ add_nodes (tm_time T) [(ev, time)])"
    "tm_time (timer_add ev time T) = tm_time T"
    using run_adds_ok [of T "[(ev, time)]"] assms(1) by (auto simp: agenda_def)
qed

lemma update_agenda:
  assumes "agenda T P" "adds_ok (first_window w2)"
  defines "due \<equiv> filter (\<lambda>n. node_expire n = tm_time T + 1) P"
  obtains T' where "timer_update w1 w2 T = Inr (dispatch_list due :: (u32 \<times> 'd skynet_message) list, T')" "tm_time T' = tm_time T + 1"
    "agenda T' (filter (\<lambda>n. node_expire n \<noteq> tm_time T + 1) P @
       (if due = [] then [] else add_nodes (tm_time T + 1) (first_window w2)))"
proof -
  have st: "settled T" and P: "\<And>e. pending T e = filter (\<lambda>n. node_expire n = e) P"
    using assms(1) by (auto simp: agenda_def)
  obtain T' where u: "timer_update w1 w2 T = Inr (dispatch_list due :: (u32 \<times> 'd skynet_message) list, T')"
    "settled T'" "tm_time T' = tm_time T + 1"
    "\<And>e. pending T' e = (if e = tm_time T + 1 then [] else pending T e) @
       (if due = [] then [] else filter (\<lambda>n. node_expire n = e) (add_nodes (tm_time T + 1) (first_window w2)))"
    using timer_update_ok [OF st assms(2), of w1] unfolding P due_def [symmetric] by metis
  have "filter (\<lambda>n. node_expire n = e) (filter (\<lambda>n. node_expire n \<noteq> tm_time T + 1) P) =
      (if e = tm_time T + 1 then [] else filter (\<lambda>n. node_expire n = e) P)" for e
    by (auto simp: filter_empty_conv intro: filter_cong)
  then have "agenda T' (filter (\<lambda>n. node_expire n \<noteq> tm_time T + 1) P @
      (if due = [] then [] else add_nodes (tm_time T + 1) (first_window w2)))"
    using u(2,4) P by (auto simp: agenda_def)
  with that u show ?thesis by blast
qed

lemma timer_run_agenda:
  assumes "agenda T P" "\<forall>op \<in> set ops. op_ok op"
  shows "\<exists>T' P'. timer_run ops T = Inr (agenda_run ops (tm_time T) P :: (u32 \<times> 'd skynet_message) list, T') \<and> agenda T' P'"
  using assms
proof (induction ops arbitrary: T P)
  case Nil
  then show ?case by auto
next
  case (Cons op ops)
  show ?case
  proof (cases op)
    case (Timeout handle time session)
    show ?thesis
    proof (cases "time \<le> 0")
      case True
      then show ?thesis using Cons.IH [OF Cons.prems(1)] Cons.prems(2) Timeout
        by (auto simp: skynet_timeout_def)
    next
      case False
      then have t: "0 < time" "time < 2 ^ 31" using Cons.prems(2) Timeout by auto
      note timeout_agenda [OF Cons.prems(1) t, of "\<lparr>ev_handle = handle, ev_session = session\<rparr>"]
      with Cons.IH [OF this(1)] Cons.prems(2) Timeout False show ?thesis
        by (simp add: skynet_timeout_def)
    qed
  next
    case (Update w1 w2)
    have w: "adds_ok (first_window w2)" using Cons.prems(2) Update by simp
    let ?due = "filter (\<lambda>n. node_expire n = tm_time T + 1) P"
    obtain T' where u: "timer_update w1 w2 T = Inr (dispatch_list ?due :: (u32 \<times> 'd skynet_message) list, T')" "tm_time T' = tm_time T + 1"
      "agenda T' (filter (\<lambda>n. node_expire n \<noteq> tm_time T + 1) P @
         (if ?due = [] then [] else add_nodes (tm_time T + 1) (first_window w2)))"
      using update_agenda [OF Cons.prems(1) w, of w1] by metis
    have "\<forall>op \<in> set ops. op_ok op" using Cons.prems(2) by simp
    from Cons.IH [OF u(3) this] show ?thesis
      using Update u(1,2) by (auto simp: Let_def)
  qed
qed

lemma agenda_init: "agenda (skynet_timer_init rt mt) []"
proof -
  let ?T = "skynet_timer_init rt mt"
  have sh: "shape ?T" and tm: "tm_time ?T = 0"
    by (simp_all add: skynet_timer_init_def timer_create_timer_def timer_consts shape_def Let_def case_prod_beta)
  have sl: "slot ?T p = []" if "valid p" for p
    using that by (auto simp: skynet_timer_init_def timer_create_timer_def timer_consts slot_def
        Let_def case_prod_beta valid_def split: if_splits)
  have "settled ?T"
    unfolding settled_def by (auto intro!: wheel_okI sh simp: sl sl [OF valid_now])
  then show ?thesis
    by (simp add: agenda_def pending_def sl [OF valid_pos])
qed

text \<open>
  C4: The timing wheel implements an agenda. For every history of timeouts and clock ticks from
  the initial wheel, with other threads setting timers while a tick dispatches, every update
  succeeds (the shift loop never leaves the four levels) and the messages pushed are, in order,
  exactly those of the list of pending timers: a timer is pushed at the tick that equals its
  expiry, timers of the same tick in the order in which they were set.
\<close>

theorem timer_implements_agenda:
  assumes "\<forall>op \<in> set ops. op_ok op"
  shows "\<exists>T. timer_run ops (skynet_timer_init rt mt) = Inr (agenda_run ops 0 [], T)"
proof -
  have "tm_time (skynet_timer_init rt mt) = 0"
    by (simp add: skynet_timer_init_def timer_create_timer_def Let_def case_prod_beta)
  then show ?thesis using timer_run_agenda [OF agenda_init assms, of rt mt] by auto
qed

theorem timer_implements_agenda_witness:
  "\<exists>T. timer_run [Timeout 8 2 5, Update [] [], Timeout 9 1 6, Update [] []] (skynet_timer_init (0, 0) (0, 0)) =
     Inr ([(8, timeout_message 5 :: unit skynet_message), (9, timeout_message 6)], T)"
  using timer_implements_agenda [of "[Timeout 8 2 5, Update [] [], Timeout 9 1 6, Update [] []]" "(0, 0)" "(0, 0)",
      where ?'a = unit]
  by (simp add: add_nodes_def dispatch_list_def adds_ok_def first_window_def)

lemma of_nat_u32_eq: "k < 2 ^ 32 \<Longrightarrow> m < 2 ^ 32 \<Longrightarrow> (of_nat k :: u32) = of_nat m \<longleftrightarrow> k = m"
  by (simp add: word_unat_eq_iff unsigned_of_nat take_bit_nat_eq_self)

lemma update_loop_quiet:
  fixes T :: timer
  assumes "settled T" "n < 2 ^ 32"
  shows "\<exists>T'. update_loop (\<lambda>_. ([], [])) n T =
      Inr (concat (map (\<lambda>k. dispatch_list (pending T (tm_time T + of_nat k))) [1..<Suc n])
           :: (u32 \<times> 'd skynet_message) list, T')"
  using assms
proof (induction n arbitrary: T)
  case 0
  then show ?case by simp
next
  case (Suc n)
  obtain T' where u:
    "timer_update [] [] T = Inr (dispatch_list (pending T (tm_time T + 1)) :: (u32 \<times> 'd skynet_message) list, T')"
    "settled T'" "tm_time T' = tm_time T + 1"
    "\<And>e. pending T' e = (if e = tm_time T + 1 then [] else pending T e)"
  proof (rule timer_update_ok [OF Suc.prems(1), of "[]" "[]"])
    fix T'
    assume "\<And>e. pending T' e = (if e = tm_time T + 1 then [] else pending T e) @
       (if pending T (tm_time T + 1) = [] then []
        else filter (\<lambda>n. node_expire n = e) (add_nodes (tm_time T + 1) (first_window [])))"
    then have "pending T' e = (if e = tm_time T + 1 then [] else pending T e)" for e
      by (simp add: first_window_def add_nodes_def)
    moreover assume "timer_update [] [] T =
        Inr (dispatch_list (pending T (tm_time T + 1)) :: (u32 \<times> 'd skynet_message) list, T')"
      "settled T'" "tm_time T' = tm_time T + 1"
    ultimately show thesis using that by blast
  qed (simp add: adds_ok_def first_window_def)
  have "pending T' (tm_time T' + of_nat k) = pending T (tm_time T + of_nat (Suc k))" if "k \<in> set [1..<Suc n]" for k
  proof -
    have "(of_nat k :: u32) \<noteq> of_nat 0"
      using that Suc.prems(2) by (subst of_nat_u32_eq) auto
    then show ?thesis using u(3,4) by (simp add: ac_simps)
  qed
  then have "map (\<lambda>k. dispatch_list (pending T' (tm_time T' + of_nat k)) :: (u32 \<times> 'd skynet_message) list) [1..<Suc n] =
      map (\<lambda>k. dispatch_list (pending T (tm_time T + of_nat (Suc k)))) [1..<Suc n]"
    by (intro map_cong refl) presburger
  also have "\<dots> = map (\<lambda>k. dispatch_list (pending T (tm_time T + of_nat k))) (map Suc [1..<Suc n])"
    by (simp add: comp_def)
  finally have m: "map (\<lambda>k. dispatch_list (pending T' (tm_time T' + of_nat k)) :: (u32 \<times> 'd skynet_message) list) [1..<Suc n] =
      map (\<lambda>k. dispatch_list (pending T (tm_time T + of_nat k))) [2..<Suc (Suc n)]"
    by (simp only: map_Suc_upt) (simp only: numeral_2_eq_2 One_nat_def)
  have up: "[1..<Suc (Suc n)] = 1 # [2..<Suc (Suc n)]"
    by (simp add: upt_rec numeral_2_eq_2 del: upt_Suc)
  obtain T'' where "update_loop (\<lambda>_. ([], [])) n T' =
      Inr (concat (map (\<lambda>k. dispatch_list (pending T' (tm_time T' + of_nat k))) [1..<Suc n])
        :: (u32 \<times> 'd skynet_message) list, T'')"
    using Suc.IH [OF u(2)] Suc.prems(2) by auto
  then show ?case
    unfolding m up using u(1) by simp
qed

text \<open>
  C12: A timer fires on time. After any history, set a timer for \<open>d\<close> ticks ahead and let the clock
  advance by any number of ticks below 2^32: its message is pushed at tick \<open>d\<close>, after
  everything set for that tick before it, and at no other tick; what the other ticks push
  does not change.
\<close>

theorem timer_fires_on_time:
  assumes "timer_run ops (skynet_timer_init rt mt) = Inr (out :: (u32 \<times> 'e skynet_message) list, T)" "\<forall>op \<in> set ops. op_ok op"
    "0 < d" "d < 2 ^ 31" "n < 2 ^ 32"
  shows "\<exists>T' T''. skynet_timeout h d s T = Inr T' \<and>
    update_loop (\<lambda>_. ([], [])) n T' = Inr (concat (map (\<lambda>k.
      dispatch_list (pending T (tm_time T + of_nat k)) @ (if int k = d then [(h, timeout_message s)] else []))
      [1..<Suc n]) :: (u32 \<times> 'd skynet_message) list, T'')"
proof -
  let ?ev = "\<lparr>ev_handle = h, ev_session = s\<rparr>"
  let ?T = "timer_add ?ev d T"
  obtain P where P: "agenda T P"
    using timer_run_agenda [OF agenda_init assms(2), of rt mt, where ?'d = 'e] assms(1) by auto
  then have P': "agenda ?T (P @ add_nodes (tm_time T) [(?ev, d)])" "tm_time ?T = tm_time T"
    using timeout_agenda [OF _ assms(3,4)] by auto
  have "pending ?T (tm_time T + of_nat k) = pending T (tm_time T + of_nat k) @
      (if int k = d then add_nodes (tm_time T) [(?ev, d)] else [])" if "k \<in> set [1..<Suc n]" for k
  proof -
    have k: "k < 2 ^ 32" using that assms(5) by auto
    have "(of_int d :: u32) = of_nat (nat d)" using assms(3) by simp
    then have "(of_int d :: u32) + tm_time T = tm_time T + of_nat k \<longleftrightarrow> nat d = k"
      using of_nat_u32_eq [of "nat d" k] assms(4) k by (simp add: add.commute [of _ "tm_time T"])
    also have "\<dots> \<longleftrightarrow> int k = d" using assms(3) by auto
    finally show ?thesis
      using P P' by (auto simp: agenda_def add_nodes_def)
  qed
  then have "dispatch_list (pending ?T (tm_time ?T + of_nat k)) =
      dispatch_list (pending T (tm_time T + of_nat k)) @
        (if int k = d then [(h, timeout_message s :: 'd skynet_message)] else [])" if "k \<in> set [1..<Suc n]" for k
    using that P'(2) by (simp add: dispatch_list_def add_nodes_def del: set_upt)
  then have m: "map (\<lambda>k. dispatch_list (pending ?T (tm_time ?T + of_nat k))) [1..<Suc n] =
      map (\<lambda>k. dispatch_list (pending T (tm_time T + of_nat k)) @
        (if int k = d then [(h, timeout_message s :: 'd skynet_message)] else [])) [1..<Suc n]"
    by (intro map_cong refl) presburger
  have st: "settled ?T" using P'(1) by (simp add: agenda_def)
  obtain T'' where "update_loop (\<lambda>_. ([], [])) n ?T =
      Inr (concat (map (\<lambda>k. dispatch_list (pending ?T (tm_time ?T + of_nat k))) [1..<Suc n])
        :: (u32 \<times> 'd skynet_message) list, T'')"
    using update_loop_quiet [OF st assms(5), where ?'d = 'd] by blast
  then show ?thesis
    unfolding m using assms(3) by (intro exI [of _ ?T] exI [of _ T'']) (simp add: skynet_timeout_def)
qed

theorem timer_fires_on_time_witness:
  "\<exists>T' T'' :: timer. skynet_timeout 8 2 5 (skynet_timer_init (0, 0) (0, 0)) =
      (Inr T' :: (u32 \<times> unit skynet_message) + timer) \<and>
    update_loop (\<lambda>_. ([], [])) 3 T' = Inr ([(8, timeout_message 5 :: unit skynet_message)], T'')"
proof -
  have z: "tm_time (skynet_timer_init (0, 0) (0, 0)) = 0" "\<And>e. pending (skynet_timer_init (0, 0) (0, 0)) e = []"
    using agenda_init [of "(0, 0)" "(0, 0)"]
    by (simp_all add: agenda_def skynet_timer_init_def timer_create_timer_def Let_def case_prod_beta)
  show ?thesis
    using timer_fires_on_time [where ops = "[]" and d = 2 and n = 3 and h = 8 and s = 5 and rt = "(0, 0)" and
        mt = "(0, 0)" and ?'d = unit and ?'e = unit]
    by (simp add: z dispatch_list_def upt_rec)
qed

end
