(* ===== verification/Module.thy ===== *)
theory Module
  imports Prelude
begin

text \<open>
  The table of C services (\<^verbatim>\<open>skynet-src/skynet_module.c\<close>): the shared object of a service is
  looked for along the search path when the service is first launched, its entry points are
  looked up by name, and the module is kept in a table of 32 entries. \<^verbatim>\<open>dlopen\<close> and \<^verbatim>\<open>dlsym\<close> are
  parameters; entry points are numbers, which the model of the node maps to their code.
\<close>

definition MAX_MODULE_TYPE :: nat where "MAX_MODULE_TYPE = 32"

type_synonym dlref = nat
type_synonym entry = nat
type_synonym modref = nat

record skynet_module =
  md_name :: cstr
  md_module :: dlref
  md_create :: "entry option"
  md_init :: "entry option"
  md_release :: "entry option"
  md_signal :: "entry option"

text \<open>\<^verbatim>\<open>count\<close> is the length of \<open>ms_m\<close>, which has room for \<open>MAX_MODULE_TYPE\<close> modules.\<close>

record modules =
  ms_path :: cstr
  ms_m :: "skynet_module list"

text \<open>
  The name of the file for one entry of the path: the mark \<^verbatim>\<open>?\<close> is replaced by the name of the
  service. The text and a NUL must fit into a buffer of \<open>sz\<close> bytes.
\<close>

definition path_file :: "nat \<Rightarrow> cstr \<Rightarrow> cstr \<Rightarrow> cstr result" where
  "path_file sz el name =
     (let pre = takeWhile (\<lambda>c. c \<noteq> CHR ''?'') el; tmp = pre @ name @ drop (length pre + 1) el in
      if length pre + length name > sz then Inl OutOfBounds
      else if length pre = length el then Inl Exit
      else if length tmp < sz then Inr tmp else Inl OutOfBounds)"

text \<open>The entry of a search path that starts at its head, and the rest.\<close>

definition path_entry :: "cstr \<Rightarrow> cstr \<times> cstr" where
  "path_entry path =
     (let p = dropWhile (\<lambda>c. c = CHR '';'') path
      in (takeWhile (\<lambda>c. c \<noteq> CHR '';'') p, dropWhile (\<lambda>c. c \<noteq> CHR '';'') p))"

lemma path_entry_length: "fst (path_entry path) \<noteq> [] \<Longrightarrow> length (snd (path_entry path)) < length path"
proof -
  let ?p = "dropWhile (\<lambda>c. c = CHR '';'') path"
  assume "fst (path_entry path) \<noteq> []"
  then have "length (takeWhile (\<lambda>c. c \<noteq> CHR '';'') ?p) > 0" by (simp add: path_entry_def Let_def)
  moreover have "length (takeWhile (\<lambda>c. c \<noteq> CHR '';'') ?p) + length (dropWhile (\<lambda>c. c \<noteq> CHR '';'') ?p) = length ?p"
    by (metis length_append takeWhile_dropWhile_id)
  moreover have "length ?p \<le> length path" by (rule length_dropWhile_le)
  ultimately show ?thesis unfolding path_entry_def Let_def snd_conv by linarith
qed

function try_open_loop :: "(cstr \<Rightarrow> dlref option) \<Rightarrow> nat \<Rightarrow> cstr \<Rightarrow> cstr \<Rightarrow> dlref option result" where
  "try_open_loop dlopen sz path name =
     (let (el, rest) = path_entry path in
      if el = [] then Inr None
      else
        rbind (path_file sz el name) (\<lambda>tmp.
        case dlopen tmp of Some dl \<Rightarrow> Inr (Some dl) | None \<Rightarrow> try_open_loop dlopen sz rest name))"
  by auto
termination
proof (relation "measure (\<lambda>(dlopen, sz, path, name). length path)")
  fix dlopen :: "cstr \<Rightarrow> dlref option" and sz and path :: cstr and name :: cstr and p el rest tmp
  assume "p = path_entry path" "(el, rest) = p" "el \<noteq> []"
  then show "((dlopen, sz, rest, name), (dlopen, sz, path, name)) \<in> measure (\<lambda>(dlopen, sz, path, name). length path)"
    using path_entry_length [of path] by (metis case_prod_conv fst_conv in_measure snd_conv)
qed simp

declare try_open_loop.simps [simp del]

definition try_open :: "(cstr \<Rightarrow> dlref option) \<Rightarrow> modules \<Rightarrow> cstr \<Rightarrow> dlref option result" where
  "try_open dlopen m name = try_open_loop dlopen (length (ms_path m) + length name) (ms_path m) name"

text \<open>\<^verbatim>\<open>_query\<close>: the index of the module with this name.\<close>

fun query_from :: "skynet_module list \<Rightarrow> cstr \<Rightarrow> nat \<Rightarrow> modref option" where
  "query_from [] name i = None"
| "query_from (m # ms) name i = (if md_name m = name then Some i else query_from ms name (i + 1))"

definition module_query :: "modules \<Rightarrow> cstr \<Rightarrow> modref option" where
  "module_query M name = query_from (ms_m M) name 0"

text \<open>The name of a symbol: what follows the last dot of the module's name, and the suffix.\<close>

definition api_symbol :: "cstr \<Rightarrow> cstr \<Rightarrow> cstr" where
  "api_symbol name api = rev (takeWhile (\<lambda>c. c \<noteq> CHR ''.'') (rev (name @ api)))"

definition get_api :: "(dlref \<Rightarrow> cstr \<Rightarrow> entry option) \<Rightarrow> skynet_module \<Rightarrow> cstr \<Rightarrow> entry option" where
  "get_api dlsym md api = dlsym (md_module md) (api_symbol (md_name md) api)"

text \<open>The module with its entry points, and whether \<^verbatim>\<open>open_sym\<close> returns 0.\<close>

definition open_sym :: "(dlref \<Rightarrow> cstr \<Rightarrow> entry option) \<Rightarrow> skynet_module \<Rightarrow> bool \<times> skynet_module" where
  "open_sym dlsym md =
     (let md = md\<lparr>md_create := get_api dlsym md ''_create'', md_init := get_api dlsym md ''_init'',
                  md_release := get_api dlsym md ''_release'', md_signal := get_api dlsym md ''_signal''\<rparr>
      in (md_init md \<noteq> None, md))"

definition skynet_module_query ::
    "(cstr \<Rightarrow> dlref option) \<Rightarrow> (dlref \<Rightarrow> cstr \<Rightarrow> entry option) \<Rightarrow> cstr \<Rightarrow> modules \<Rightarrow> (modref option \<times> modules) result" where
  "skynet_module_query dlopen dlsym name M =
     (case module_query M name of
        Some i \<Rightarrow> Inr (Some i, M)
      | None \<Rightarrow>
          if length (ms_m M) < MAX_MODULE_TYPE then
            rbind (try_open dlopen M name) (\<lambda>dl.
            case dl of
              None \<Rightarrow> Inr (None, M)
            | Some dl \<Rightarrow>
                (let (ok, md) = open_sym dlsym \<lparr>md_name = name, md_module = dl, md_create = None, md_init = None, md_release = None, md_signal = None\<rparr>
                 in if ok then Inr (Some (length (ms_m M)), M\<lparr>ms_m := ms_m M @ [md]\<rparr>) else Inr (None, M)))
          else Inr (None, M))"

definition skynet_module_insert :: "skynet_module \<Rightarrow> modules \<Rightarrow> modules result" where
  "skynet_module_insert md M =
     rbind (cassert (module_query M (md_name md) = None \<and> length (ms_m M) < MAX_MODULE_TYPE)) (\<lambda>_.
     Inr (M\<lparr>ms_m := ms_m M @ [md]\<rparr>))"

definition skynet_module_init :: "cstr \<Rightarrow> modules" where
  "skynet_module_init path = \<lparr>ms_path = path, ms_m = []\<rparr>"

section \<open>Properties\<close>

text \<open>Every entry of the search path has the mark that \<^verbatim>\<open>_try_open\<close> asks for.\<close>

function path_ok :: "cstr \<Rightarrow> bool" where
  "path_ok path = (let (el, rest) = path_entry path in if el = [] then True else if CHR ''?'' \<in> set el then path_ok rest else False)"
  by auto
termination
proof (relation "measure length")
  fix path :: cstr and p el rest
  assume "p = path_entry path" "(el, rest) = p" "el \<noteq> []"
  then show "(rest, path) \<in> measure length"
    using path_entry_length [of path] by (metis fst_conv in_measure snd_conv)
qed simp

declare path_ok.simps [simp del]

definition modules_ok :: "modules \<Rightarrow> bool" where
  "modules_ok M \<longleftrightarrow> length (ms_m M) \<le> MAX_MODULE_TYPE \<and> distinct (map md_name (ms_m M)) \<and> (\<forall>md \<in> set (ms_m M). md_init md \<noteq> None)"

lemma query_from_Some: "query_from ms name i = Some j \<Longrightarrow> i \<le> j \<and> j - i < length ms \<and> md_name (ms ! (j - i)) = name"
  by (induction ms arbitrary: i) (force split: if_splits simp: Suc_diff_le nth_Cons')+

lemma query_from_None: "query_from ms name i = None \<longleftrightarrow> name \<notin> md_name ` set ms"
  by (induction ms arbitrary: i) auto

text \<open>The buffer for a file name is long enough for every entry of the path.\<close>

lemma path_file_fits:
  assumes "el \<noteq> []" "length el \<le> n"
  shows "path_file (n + length name) el name = (if CHR ''?'' \<in> set el then
    Inr (takeWhile (\<lambda>c. c \<noteq> CHR ''?'') el @ name @ drop (length (takeWhile (\<lambda>c. c \<noteq> CHR ''?'') el) + 1) el) else Inl Exit)"
proof -
  let ?pre = "takeWhile (\<lambda>c. c \<noteq> CHR ''?'') el"
  have le: "length ?pre \<le> length el" by (rule length_takeWhile_le)
  have eq: "length ?pre = length el \<longleftrightarrow> CHR ''?'' \<notin> set el"
  proof
    assume "length ?pre = length el"
    then have "?pre = el" by (metis append_eq_conv_conj take_all_iff takeWhile_dropWhile_id le_refl takeWhile_eq_take)
    then show "CHR ''?'' \<notin> set el" by (metis set_takeWhileD)
  next
    assume "CHR ''?'' \<notin> set el"
    then have "?pre = el" by (auto simp: takeWhile_eq_all_conv)
    then show "length ?pre = length el" by (rule arg_cong)
  qed
  show ?thesis
    using assms le eq by (auto simp: path_file_def Let_def)
qed

lemma path_entry_le: "length (fst (path_entry path)) \<le> length path"
  using length_takeWhile_le [of "\<lambda>c. c \<noteq> CHR '';''" "dropWhile (\<lambda>c. c = CHR '';'') path"] length_dropWhile_le [of "\<lambda>c. c = CHR '';''" path]
  by (simp add: path_entry_def Let_def)

lemma try_open_loop_ok:
  assumes "path_ok path" "length path \<le> n"
  shows "\<exists>dl. try_open_loop dlopen (n + length name) path name = Inr dl"
  using assms
proof (induction path rule: measure_induct_rule [where f = length])
  case (less path)
  obtain el rest where p: "path_entry path = (el, rest)" by fastforce
  have ok: "el = [] \<or> CHR ''?'' \<in> set el \<and> path_ok rest" using less.prems(1) p by (simp add: path_ok.simps [of path] split: if_splits)
  show ?case
  proof (cases "el = []")
    case True
    then show ?thesis using p by (subst try_open_loop.simps) simp
  next
    case False
    then have "CHR ''?'' \<in> set el" "path_ok rest" using ok by simp_all
    moreover have "length el \<le> n" using path_entry_le [of path] p less.prems(2) by simp
    moreover have "length rest < length path" using path_entry_length [of path] p False by simp
    ultimately show ?thesis
      using less.IH [of rest] less.prems p False path_file_fits [of el n name]
      by (subst try_open_loop.simps) (auto split: option.splits)
  qed
qed

lemma module_query_ok:
  assumes "modules_ok M" "path_ok (ms_path M)"
  shows "\<exists>r M'. skynet_module_query dlopen dlsym name M = Inr (r, M') \<and> modules_ok M' \<and> ms_path M' = ms_path M \<and>
    (\<exists>ms. ms_m M' = ms_m M @ ms) \<and>
    (\<forall>i. r = Some i \<longrightarrow> i < length (ms_m M') \<and> md_name (ms_m M' ! i) = name \<and> md_init (ms_m M' ! i) \<noteq> None)"
proof (cases "module_query M name")
  case (Some i)
  then show ?thesis
    using query_from_Some [of "ms_m M" name 0 i] assms(1) by (auto simp: module_query_def skynet_module_query_def modules_ok_def)
next
  case None
  then have new: "name \<notin> md_name ` set (ms_m M)" by (simp add: module_query_def query_from_None)
  obtain dl where dl: "try_open dlopen M name = Inr dl"
    using try_open_loop_ok [OF assms(2) order_refl, of dlopen name] by (auto simp: try_open_def)
  show ?thesis
  proof (cases "length (ms_m M) < MAX_MODULE_TYPE")
    case True
    then show ?thesis using assms(1) None dl new
      by (cases dl) (auto simp: skynet_module_query_def open_sym_def modules_ok_def nth_append Let_def)
  next
    case False
    then show ?thesis using assms(1) None by (simp add: skynet_module_query_def)
  qed
qed

end
