(* ===== verification/Node.thy ===== *)
theory Node
  imports Mq Handle Timer Module CString Bytes
begin

text \<open>
  One node of the framework: the service contexts with their reference counts and mailboxes, the
  sending of messages inside the node and to the harbor service, and the dispatch of messages by a
  worker (\<^verbatim>\<open>skynet-src/skynet_server.c\<close>, \<^verbatim>\<open>skynet_harbor.c\<close>, \<^verbatim>\<open>skynet_error.c\<close>, \<^verbatim>\<open>skynet_monitor.c\<close>). It is built on the
  message queues, the handle registry, the timer and the module table.
\<close>

section \<open>State\<close>

definition GLOBALNAME_LENGTH :: nat where "GLOBALNAME_LENGTH = 16"

text \<open>
  What a message points to: bytes, or the \<^verbatim>\<open>struct remote_message\<close> that carries a message for another
  node to the harbor service. The memory behind a pointer is a value here, so \<^verbatim>\<open>skynet_free\<close> of the
  data of a message leaves no trace.
\<close>

record remote_message =
  rm_name :: cstr
  rm_handle :: u32
  rm_message :: "bytes option"
  rm_sz :: u64
  rm_type :: nat

datatype payload = Raw bytes | Rmsg remote_message

type_synonym msg = "payload skynet_message"
type_synonym fileref = nat
type_synonym cbref = nat

text \<open>The callback stands for both \<^verbatim>\<open>cb\<close> and \<^verbatim>\<open>cb_ud\<close>.\<close>

record skynet_context =
  cx_instance :: int
  cx_mod :: modref
  cx_cb :: "cbref option"
  cx_queue :: qref
  cx_logfile :: "fileref option"
  cx_cpu_cost :: u64
  cx_cpu_start :: u64
  cx_result :: cstr
  cx_handle :: u32
  cx_session_id :: int
  cx_ref :: int
  cx_message_count :: int
  cx_init :: bool
  cx_endless :: bool
  cx_profile :: bool

record skynet_monitor =
  sm_version :: u32
  sm_check_version :: u32
  sm_source :: u32
  sm_destination :: u32

text \<open>
  The state of the process: the registry, the queues, the contexts by address, the modules, the
  timer, the environment, \<^verbatim>\<open>G_NODE\<close>, the variables \<^verbatim>\<open>HARBOR\<close> and \<^verbatim>\<open>REMOTE\<close> of the harbor, the cached handle
  of the logger, the monitors of the workers, the handle key of the running thread. \<open>nd_alloc\<close> is the
  next unused address, \<open>nd_clock\<close> the number of readings of the thread clock so far.
\<close>

record node =
  nd_handles :: handle_storage
  nd_mqs :: "msg mqs"
  nd_ctx :: "ctxref \<rightharpoonup> skynet_context"
  nd_modules :: modules
  nd_timer :: timer
  nd_env :: "cstr \<rightharpoonup> cstr"
  nd_total :: int
  nd_monitor_exit :: u32
  nd_profile :: bool
  nd_HARBOR :: u32
  nd_REMOTE :: "ctxref option"
  nd_logger :: u32
  nd_monitors :: "skynet_monitor list"
  nd_current :: u32
  nd_alloc :: nat
  nd_clock :: nat

text \<open>
  The code outside the node: the entry points of the modules and the callbacks, which may do to the
  node what they like, the dynamic linker, the clock of the thread, \<^verbatim>\<open>fopen\<close>.
\<close>

record world =
  w_dlopen :: "cstr \<Rightarrow> dlref option"
  w_dlsym :: "dlref \<Rightarrow> cstr \<Rightarrow> entry option"
  w_create :: "entry \<Rightarrow> node \<Rightarrow> (int \<times> node) result"
  w_init :: "entry \<Rightarrow> int \<Rightarrow> ctxref \<Rightarrow> cstr option \<Rightarrow> node \<Rightarrow> (int \<times> node) result"
  w_release :: "entry \<Rightarrow> int \<Rightarrow> node \<Rightarrow> node result"
  w_signal :: "entry \<Rightarrow> int \<Rightarrow> int \<Rightarrow> node \<Rightarrow> node result"
  w_cb :: "cbref \<Rightarrow> ctxref \<Rightarrow> nat \<Rightarrow> int \<Rightarrow> u32 \<Rightarrow> payload option \<Rightarrow> u64 \<Rightarrow> node \<Rightarrow> (bool \<times> node) result"
  w_thread_time :: "nat \<Rightarrow> u64"
  w_fopen :: "cstr \<Rightarrow> fileref option"

section \<open>Contexts\<close>

text \<open>Access through a pointer; a context that was deleted is not there.\<close>

definition ctx_get :: "ctxref \<Rightarrow> node \<Rightarrow> skynet_context result" where
  "ctx_get c n = (case nd_ctx n c of None \<Rightarrow> Inl UseAfterFree | Some x \<Rightarrow> Inr x)"

definition ctx_put :: "ctxref \<Rightarrow> skynet_context \<Rightarrow> node \<Rightarrow> node" where
  "ctx_put c x n = n\<lparr>nd_ctx := (nd_ctx n)(c \<mapsto> x)\<rparr>"

definition nonnull :: "ctxref option \<Rightarrow> ctxref result" where
  "nonnull p = (case p of None \<Rightarrow> Inl NullDeref | Some c \<Rightarrow> Inr c)"

text \<open>\<^verbatim>\<open>skynet_context_handle\<close>, as the registry uses it on the contexts in its slots, which are live.\<close>

definition node_hof :: "node \<Rightarrow> ctxref \<Rightarrow> u32" where
  "node_hof n c = (case nd_ctx n c of None \<Rightarrow> 0 | Some x \<Rightarrow> cx_handle x)"

definition skynet_context_handle :: "ctxref \<Rightarrow> node \<Rightarrow> u32 result" where
  "skynet_context_handle c n = rbind (ctx_get c n) (\<lambda>x. Inr (cx_handle x))"

definition skynet_context_total :: "node \<Rightarrow> int" where
  "skynet_context_total n = nd_total n"

definition context_inc :: "node \<Rightarrow> node" where
  "context_inc n = n\<lparr>nd_total := nd_total n + 1\<rparr>"

definition context_dec :: "node \<Rightarrow> node" where
  "context_dec n = n\<lparr>nd_total := nd_total n - 1\<rparr>"

definition skynet_current_handle :: "node \<Rightarrow> u32" where
  "skynet_current_handle n = nd_current n"

definition skynet_initthread :: "u32 \<Rightarrow> node \<Rightarrow> node" where
  "skynet_initthread m n = n\<lparr>nd_current := - m\<rparr>"

definition skynet_profile_enable :: "bool \<Rightarrow> node \<Rightarrow> node" where
  "skynet_profile_enable enable n = n\<lparr>nd_profile := enable\<rparr>"

text \<open>The name under which \<^verbatim>\<open>LAUNCH\<close> returns a handle: a colon and eight digits.\<close>

definition hex_digit :: "u32 \<Rightarrow> char" where
  "hex_digit d = ''0123456789ABCDEF'' ! unat (d AND 0xf)"

definition id_to_hex :: "u32 \<Rightarrow> cstr" where
  "id_to_hex h = CHR '':'' # map (\<lambda>i. hex_digit (drop_bit ((7 - i) * 4) h)) [0..<8]"

text \<open>\<^verbatim>\<open>++session_id\<close> is an \<^verbatim>\<open>int\<close>; past its maximum it goes on at the minimum.\<close>

definition skynet_context_newsession :: "ctxref \<Rightarrow> node \<Rightarrow> (int \<times> node) result" where
  "skynet_context_newsession c n =
     rbind (ctx_get c n) (\<lambda>x.
     let session = signed_take_bit 31 (cx_session_id x + 1);
         session = (if session \<le> 0 then 1 else session)
     in Inr (session, ctx_put c (x\<lparr>cx_session_id := session\<rparr>) n))"

definition skynet_context_grab :: "ctxref \<Rightarrow> node \<Rightarrow> node result" where
  "skynet_context_grab c n = rbind (ctx_get c n) (\<lambda>x. Inr (ctx_put c (x\<lparr>cx_ref := cx_ref x + 1\<rparr>) n))"

definition skynet_context_reserve :: "ctxref \<Rightarrow> node \<Rightarrow> node result" where
  "skynet_context_reserve c n = rbind (skynet_context_grab c n) (\<lambda>n. Inr (context_dec n))"

definition module_of :: "modref \<Rightarrow> node \<Rightarrow> skynet_module result" where
  "module_of m n = (if m < length (ms_m (nd_modules n)) then Inr (ms_m (nd_modules n) ! m) else Inl OutOfBounds)"

definition skynet_module_instance_create :: "world \<Rightarrow> modref \<Rightarrow> node \<Rightarrow> (int \<times> node) result" where
  "skynet_module_instance_create W m n =
     rbind (module_of m n) (\<lambda>md. case md_create md of Some f \<Rightarrow> w_create W f n | None \<Rightarrow> Inr (- 1, n))"

definition skynet_module_instance_init :: "world \<Rightarrow> modref \<Rightarrow> int \<Rightarrow> ctxref \<Rightarrow> cstr option \<Rightarrow> node \<Rightarrow> (int \<times> node) result" where
  "skynet_module_instance_init W m inst c parm n =
     rbind (module_of m n) (\<lambda>md. case md_init md of Some f \<Rightarrow> w_init W f inst c parm n | None \<Rightarrow> Inl NullDeref)"

definition skynet_module_instance_release :: "world \<Rightarrow> modref \<Rightarrow> int \<Rightarrow> node \<Rightarrow> node result" where
  "skynet_module_instance_release W m inst n =
     rbind (module_of m n) (\<lambda>md. case md_release md of Some f \<Rightarrow> w_release W f inst n | None \<Rightarrow> Inr n)"

definition skynet_module_instance_signal :: "world \<Rightarrow> modref \<Rightarrow> int \<Rightarrow> int \<Rightarrow> node \<Rightarrow> node result" where
  "skynet_module_instance_signal W m inst sig n =
     rbind (module_of m n) (\<lambda>md. case md_signal md of Some f \<Rightarrow> w_signal W f inst sig n | None \<Rightarrow> Inr n)"

text \<open>The module's release runs first; then the queue is marked and the context is freed.\<close>

definition delete_context :: "world \<Rightarrow> ctxref \<Rightarrow> node \<Rightarrow> node result" where
  "delete_context W c n =
     rbind (ctx_get c n) (\<lambda>x.
     rbind (skynet_module_instance_release W (cx_mod x) (cx_instance x) n) (\<lambda>n.
     rbind (ctx_get c n) (\<lambda>x.
     rbind (skynet_mq_mark_release (cx_queue x) (nd_mqs n)) (\<lambda>mqs.
     Inr (context_dec (n\<lparr>nd_mqs := mqs, nd_ctx := (nd_ctx n)(c := None)\<rparr>))))))"

definition skynet_context_release :: "world \<Rightarrow> ctxref \<Rightarrow> node \<Rightarrow> (ctxref option \<times> node) result" where
  "skynet_context_release W c n =
     rbind (ctx_get c n) (\<lambda>x.
     let n = ctx_put c (x\<lparr>cx_ref := cx_ref x - 1\<rparr>) n in
     if cx_ref x = 1 then rbind (delete_context W c n) (\<lambda>n. Inr (None, n))
     else Inr (Some c, n))"

text \<open>\<^verbatim>\<open>skynet_handle_grab\<close> with the reference it takes, \<^verbatim>\<open>skynet_handle_retire\<close> with the one it gives back.\<close>

definition handle_grab :: "u32 \<Rightarrow> node \<Rightarrow> (ctxref option \<times> node) result" where
  "handle_grab handle n =
     (case skynet_handle_grab (node_hof n) handle (nd_handles n) of
        None \<Rightarrow> Inr (None, n)
      | Some c \<Rightarrow> rbind (skynet_context_grab c n) (\<lambda>n. Inr (Some c, n)))"

definition handle_retire :: "world \<Rightarrow> u32 \<Rightarrow> node \<Rightarrow> (bool \<times> node) result" where
  "handle_retire W handle n =
     (let (ret, ctx, s) = skynet_handle_retire (node_hof n) handle (nd_handles n); n = n\<lparr>nd_handles := s\<rparr> in
      case ctx of
        None \<Rightarrow> Inr (ret, n)
      | Some c \<Rightarrow> rbind (skynet_context_release W c n) (\<lambda>(_, n). Inr (ret, n)))"

section \<open>Sending\<close>

definition mq_push_at :: "qref \<Rightarrow> msg \<Rightarrow> node \<Rightarrow> node result" where
  "mq_push_at r m n = rbind (skynet_mq_push r m (nd_mqs n)) (\<lambda>mqs. Inr (n\<lparr>nd_mqs := mqs\<rparr>))"

text \<open>0 when the message was pushed, -1 when nobody has the handle.\<close>

definition skynet_context_push :: "world \<Rightarrow> u32 \<Rightarrow> msg \<Rightarrow> node \<Rightarrow> (int \<times> node) result" where
  "skynet_context_push W handle message n =
     rbind (handle_grab handle n) (\<lambda>(ctx, n).
     case ctx of
       None \<Rightarrow> Inr (- 1, n)
     | Some c \<Rightarrow>
         rbind (ctx_get c n) (\<lambda>x.
         rbind (mq_push_at (cx_queue x) message n) (\<lambda>n.
         rbind (skynet_context_release W c n) (\<lambda>(_, n).
         Inr (0, n)))))"

definition skynet_context_endless :: "world \<Rightarrow> u32 \<Rightarrow> node \<Rightarrow> node result" where
  "skynet_context_endless W handle n =
     rbind (handle_grab handle n) (\<lambda>(ctx, n).
     case ctx of
       None \<Rightarrow> Inr n
     | Some c \<Rightarrow>
         rbind (ctx_get c n) (\<lambda>x.
         rbind (skynet_context_release W c (ctx_put c (x\<lparr>cx_endless := True\<rparr>) n)) (\<lambda>(_, n).
         Inr n)))"

definition c_bytes :: "cstr \<Rightarrow> bytes" where
  "c_bytes s = map of_char s"

text \<open>
  \<^verbatim>\<open>skynet_error\<close> on the formatted text: it goes to the service named \<^verbatim>\<open>logger\<close>, whose handle is looked
  up once. A text that does not fit into the first buffer is formatted again into one of twice the
  size until it fits.
\<close>

definition LOG_MESSAGE_SIZE :: nat where "LOG_MESSAGE_SIZE = 256"

function log_size :: "nat \<Rightarrow> nat \<Rightarrow> nat" where
  "log_size len max_size = (if max_size = 0 \<or> len < max_size * 2 then max_size * 2 else log_size len (max_size * 2))"
  by auto
termination by (relation "measure (\<lambda>(len, max_size). len - max_size)") auto

declare log_size.simps [simp del]

definition error_data :: "cstr \<Rightarrow> bytes" where
  "error_data s =
     (let len = length s in
      if len < LOG_MESSAGE_SIZE then c_bytes s @ [0]
      else take (log_size len LOG_MESSAGE_SIZE - 1) (c_bytes s) @ [0])"

definition skynet_error :: "world \<Rightarrow> ctxref option \<Rightarrow> cstr \<Rightarrow> node \<Rightarrow> node result" where
  "skynet_error W context s n =
     (let logger = (if nd_logger n = 0 then skynet_handle_findname ''logger'' (nd_handles n) else nd_logger n);
          n = n\<lparr>nd_logger := logger\<rparr> in
      if logger = 0 then Inr n
      else
        rbind (case context of None \<Rightarrow> Inr 0 | Some c \<Rightarrow> skynet_context_handle c n) (\<lambda>source.
        rbind (skynet_context_push W logger
                 \<lparr>msg_source = source, msg_session = 0, msg_data = Some (Raw (error_data s)),
                  msg_sz = of_nat (length s) OR push_bit MESSAGE_TYPE_SHIFT (of_nat PTYPE_TEXT)\<rparr> n) (\<lambda>(_, n).
        Inr n)))"

text \<open>\<^verbatim>\<open>skynet_harbor.c\<close>; a remote handle carries the number of another node in its high byte.\<close>

definition skynet_harbor_message_isremote :: "u32 \<Rightarrow> node \<Rightarrow> bool result" where
  "skynet_harbor_message_isremote handle n =
     rbind (cassert (nd_HARBOR n \<noteq> - 1)) (\<lambda>_.
     let h = handle AND NOT HANDLE_MASK in Inr (h \<noteq> nd_HARBOR n \<and> h \<noteq> 0))"

definition skynet_isremote :: "u32 \<Rightarrow> node \<Rightarrow> (bool \<times> int) result" where
  "skynet_isremote handle n =
     rbind (skynet_harbor_message_isremote handle n) (\<lambda>ret. Inr (ret, uint (drop_bit HANDLE_REMOTE_SHIFT handle)))"

definition skynet_context_send :: "ctxref \<Rightarrow> payload option \<Rightarrow> u64 \<Rightarrow> u32 \<Rightarrow> nat \<Rightarrow> int \<Rightarrow> node \<Rightarrow> node result" where
  "skynet_context_send c m sz source type session n =
     rbind (ctx_get c n) (\<lambda>x.
     mq_push_at (cx_queue x)
       \<lparr>msg_source = source, msg_session = session, msg_data = m, msg_sz = sz OR push_bit MESSAGE_TYPE_SHIFT (of_nat type)\<rparr> n)"

definition invalid_type :: "nat \<Rightarrow> bool" where
  "invalid_type type \<longleftrightarrow> type \<noteq> PTYPE_SYSTEM \<and> type \<noteq> PTYPE_HARBOR"

text \<open>\<^verbatim>\<open>sizeof(struct remote_message)\<close> on a 64-bit target\<close>

definition SIZEOF_RMSG :: u64 where "SIZEOF_RMSG = 48"

definition skynet_harbor_send :: "remote_message \<Rightarrow> u32 \<Rightarrow> int \<Rightarrow> node \<Rightarrow> node result" where
  "skynet_harbor_send rmsg source session n =
     (case nd_REMOTE n of
        None \<Rightarrow> Inl AssertFail
      | Some c \<Rightarrow>
          rbind (cassert (invalid_type (rm_type rmsg))) (\<lambda>_.
          skynet_context_send c (Some (Rmsg rmsg)) SIZEOF_RMSG source PTYPE_SYSTEM session n))"

definition skynet_harbor_init :: "u32 \<Rightarrow> node \<Rightarrow> node" where
  "skynet_harbor_init harbor n = n\<lparr>nd_HARBOR := push_bit HANDLE_REMOTE_SHIFT harbor\<rparr>"

definition skynet_harbor_start :: "ctxref \<Rightarrow> node \<Rightarrow> node result" where
  "skynet_harbor_start c n = rbind (skynet_context_reserve c n) (\<lambda>n. Inr (n\<lparr>nd_REMOTE := Some c\<rparr>))"

definition skynet_harbor_exit :: "world \<Rightarrow> node \<Rightarrow> node result" where
  "skynet_harbor_exit W n =
     (let ctx = nd_REMOTE n; n = n\<lparr>nd_REMOTE := None\<rparr> in
      case ctx of None \<Rightarrow> Inr n | Some c \<Rightarrow> rbind (skynet_context_release W c n) (\<lambda>(_, n). Inr n))"

text \<open>
  \<^verbatim>\<open>_filter_args\<close>: the session, the data (a copy with a NUL behind it unless the sender gives the
  data away) and the size with the type in its top byte.
\<close>

definition has_tag :: "nat \<Rightarrow> nat \<Rightarrow> bool" where
  "has_tag type tag \<longleftrightarrow> type AND tag \<noteq> 0"

definition filter_args :: "ctxref option \<Rightarrow> nat \<Rightarrow> int \<Rightarrow> bytes option \<Rightarrow> u64 \<Rightarrow> node \<Rightarrow> (int \<times> bytes option \<times> u64 \<times> node) result" where
  "filter_args context type session data sz n =
     rbind (if has_tag type PTYPE_TAG_ALLOCSESSION then
              rbind (cassert (session = 0)) (\<lambda>_.
              rbind (nonnull context) (\<lambda>c. skynet_context_newsession c n))
            else Inr (session, n)) (\<lambda>(session, n).
     rbind (case data of
              None \<Rightarrow> Inr None
            | Some bs \<Rightarrow>
                if has_tag type PTYPE_TAG_DONTCOPY then Inr (Some bs)
                else if length bs < unat sz then Inl OutOfBounds
                else Inr (Some (take (unat sz) bs @ [0]))) (\<lambda>data.
     Inr (session, data, sz OR push_bit MESSAGE_TYPE_SHIFT (of_nat (type AND 0xff)), n)))"

definition skynet_send ::
    "world \<Rightarrow> ctxref option \<Rightarrow> u32 \<Rightarrow> u32 \<Rightarrow> nat \<Rightarrow> int \<Rightarrow> bytes option \<Rightarrow> u64 \<Rightarrow> node \<Rightarrow> (int \<times> node) result" where
  "skynet_send W context source destination type session data sz n =
     (if sz AND MESSAGE_TYPE_MASK \<noteq> sz then
        rbind (skynet_error W context (''The message to '' @ fmt_x destination @ '' is too large'') n) (\<lambda>n. Inr (- 2, n))
      else
        rbind (filter_args context type session data sz n) (\<lambda>(session, data, sz, n).
        rbind (if source = 0 then rbind (nonnull context) (\<lambda>c. skynet_context_handle c n) else Inr source) (\<lambda>source.
        if destination = 0 then
          if data \<noteq> None then
            rbind (skynet_error W context ''Destination address can't be 0'' n) (\<lambda>n. Inr (- 1, n))
          else Inr (session, n)
        else
          rbind (skynet_harbor_message_isremote destination n) (\<lambda>remote.
          if remote then
            rbind (skynet_harbor_send
                     \<lparr>rm_name = [], rm_handle = destination, rm_message = data, rm_sz = sz AND MESSAGE_TYPE_MASK,
                      rm_type = unat (drop_bit MESSAGE_TYPE_SHIFT sz)\<rparr> source session n) (\<lambda>n.
            Inr (session, n))
          else
            rbind (skynet_context_push W destination
                     \<lparr>msg_source = source, msg_session = session, msg_data = map_option Raw data, msg_sz = sz\<rparr> n) (\<lambda>(r, n).
            Inr (if r \<noteq> 0 then - 1 else session, n))))))"

text \<open>\<^verbatim>\<open>copy_name\<close>: at most 16 bytes, filled up with NUL.\<close>

definition copy_name :: "cstr \<Rightarrow> cstr" where
  "copy_name addr = take GLOBALNAME_LENGTH (addr @ replicate GLOBALNAME_LENGTH (CHR 0x00))"

text \<open>The first character of a C string; NUL when it is empty.\<close>

definition first_char :: "cstr \<Rightarrow> char" where
  "first_char s = (case s of [] \<Rightarrow> CHR 0x00 | c # _ \<Rightarrow> c)"

definition skynet_sendname ::
    "world \<Rightarrow> ctxref option \<Rightarrow> u32 \<Rightarrow> cstr \<Rightarrow> nat \<Rightarrow> int \<Rightarrow> bytes option \<Rightarrow> u64 \<Rightarrow> node \<Rightarrow> (int \<times> node) result" where
  "skynet_sendname W context source addr type session data sz n =
     rbind (if source = 0 then rbind (nonnull context) (\<lambda>c. skynet_context_handle c n) else Inr source) (\<lambda>source.
     if first_char addr = CHR '':'' then
       skynet_send W context source (ucast (strtoul 16 (drop 1 addr))) type session data sz n
     else if first_char addr = CHR ''.'' then
       (let des = skynet_handle_findname (drop 1 addr) (nd_handles n) in
        if des = 0 then Inr (- 1, n) else skynet_send W context source des type session data sz n)
     else if sz AND MESSAGE_TYPE_MASK \<noteq> sz then
       rbind (skynet_error W context (''The message to '' @ addr @ '' is too large'') n) (\<lambda>n. Inr (- 2, n))
     else
       rbind (filter_args context type session data sz n) (\<lambda>(session, data, sz, n).
       rbind (skynet_harbor_send
                \<lparr>rm_name = copy_name addr, rm_handle = 0, rm_message = data, rm_sz = sz AND MESSAGE_TYPE_MASK,
                 rm_type = unat (drop_bit MESSAGE_TYPE_SHIFT sz)\<rparr> source session n) (\<lambda>n.
       Inr (session, n))))"

definition skynet_queryname :: "world \<Rightarrow> ctxref option \<Rightarrow> cstr \<Rightarrow> node \<Rightarrow> (u32 \<times> node) result" where
  "skynet_queryname W context name n =
     (if first_char name = CHR '':'' then Inr (ucast (strtoul 16 (drop 1 name)), n)
      else if first_char name = CHR ''.'' then Inr (skynet_handle_findname (drop 1 name) (nd_handles n), n)
      else rbind (skynet_error W context (''Don't support query global name '' @ name) n) (\<lambda>n. Inr (0, n)))"

definition skynet_callback :: "ctxref \<Rightarrow> cbref option \<Rightarrow> node \<Rightarrow> node result" where
  "skynet_callback c cb n = rbind (ctx_get c n) (\<lambda>x. Inr (ctx_put c (x\<lparr>cx_cb := cb\<rparr>) n))"

section \<open>Launching\<close>

definition drop_message :: "world \<Rightarrow> u32 \<Rightarrow> msg \<Rightarrow> node \<Rightarrow> node result" where
  "drop_message W handle m n =
     rbind (cassert (handle \<noteq> 0)) (\<lambda>_.
     rbind (skynet_send W None handle (msg_source m) PTYPE_ERROR 0 None 0 n) (\<lambda>(_, n). Inr n))"

fun drop_messages :: "world \<Rightarrow> u32 \<Rightarrow> msg list \<Rightarrow> node \<Rightarrow> node result" where
  "drop_messages W handle [] n = Inr n"
| "drop_messages W handle (m # ms) n = rbind (drop_message W handle m n) (drop_messages W handle ms)"

text \<open>\<^verbatim>\<open>skynet_mq_release\<close> with \<^verbatim>\<open>drop_message\<close>\<close>

definition mq_release_at :: "world \<Rightarrow> u32 \<Rightarrow> qref \<Rightarrow> node \<Rightarrow> node result" where
  "mq_release_at W handle r n =
     rbind (skynet_mq_release r (nd_mqs n)) (\<lambda>(ms, mqs). drop_messages W handle ms (n\<lparr>nd_mqs := mqs\<rparr>))"

definition globalmq_push_at :: "qref \<Rightarrow> node \<Rightarrow> node result" where
  "globalmq_push_at r n = rbind (skynet_globalmq_push r (nd_mqs n)) (\<lambda>mqs. Inr (n\<lparr>nd_mqs := mqs\<rparr>))"

definition globalmq_pop_at :: "node \<Rightarrow> (qref option \<times> node) result" where
  "globalmq_pop_at n = rbind (skynet_globalmq_pop (nd_mqs n)) (\<lambda>(r, mqs). Inr (r, n\<lparr>nd_mqs := mqs\<rparr>))"

text \<open>The new context before it is registered, with two references.\<close>

definition fresh_context :: "node \<Rightarrow> modref \<Rightarrow> int \<Rightarrow> skynet_context" where
  "fresh_context n m inst =
     \<lparr>cx_instance = inst, cx_mod = m, cx_cb = None, cx_queue = nd_alloc n, cx_logfile = None,
      cx_cpu_cost = 0, cx_cpu_start = 0, cx_result = [], cx_handle = 0, cx_session_id = 0, cx_ref = 2,
      cx_message_count = 0, cx_init = False, cx_endless = False, cx_profile = nd_profile n\<rparr>"

text \<open>Registration of the context and creation of its queue, both at the next free address.\<close>

definition register_context :: "modref \<Rightarrow> int \<Rightarrow> node \<Rightarrow> (ctxref \<times> node) result" where
  "register_context m inst n =
     (let c = nd_alloc n; x = fresh_context n m inst;
          n = ctx_put c x (n\<lparr>nd_alloc := nd_alloc n + 1\<rparr>) in
      rbind (skynet_handle_register (node_hof n) c (nd_handles n)) (\<lambda>(h, s).
      Inr (c, context_inc (ctx_put c (x\<lparr>cx_handle := h\<rparr>)
                (n\<lparr>nd_handles := s, nd_mqs := (nd_mqs n)\<lparr>mqs_heap := (mqs_heap (nd_mqs n))(cx_queue x \<mapsto> skynet_mq_create h)\<rparr>\<rparr>)))))"

text \<open>
  What follows the module's initialisation. On success the reference of the launcher goes back, and
  if the context is still there it is marked as initialised, its queue is scheduled and the launch
  is logged; on failure context, handle and queue are given back.
\<close>

definition launch_done :: "world \<Rightarrow> ctxref \<Rightarrow> qref \<Rightarrow> node \<Rightarrow> (ctxref option \<times> node) result" where
  "launch_done W c r n =
     rbind (skynet_context_release W c n) (\<lambda>(ret, n).
     rbind (case ret of None \<Rightarrow> Inr n | Some c \<Rightarrow> rbind (ctx_get c n) (\<lambda>x. Inr (ctx_put c (x\<lparr>cx_init := True\<rparr>) n))) (\<lambda>n.
     rbind (globalmq_push_at r n) (\<lambda>n. Inr (ret, n))))"

definition launch_failed :: "world \<Rightarrow> ctxref \<Rightarrow> qref \<Rightarrow> cstr \<Rightarrow> node \<Rightarrow> node result" where
  "launch_failed W c r name n =
     rbind (skynet_error W (Some c) (''FAILED launch '' @ name) n) (\<lambda>n.
     rbind (skynet_context_handle c n) (\<lambda>handle.
     rbind (skynet_context_release W c n) (\<lambda>(_, n).
     rbind (handle_retire W handle n) (\<lambda>(_, n).
     mq_release_at W handle r n))))"

definition skynet_context_new :: "world \<Rightarrow> cstr \<Rightarrow> cstr option \<Rightarrow> node \<Rightarrow> (ctxref option \<times> node) result" where
  "skynet_context_new W name param n =
     rbind (skynet_module_query (w_dlopen W) (w_dlsym W) name (nd_modules n)) (\<lambda>(md, M).
     let n = n\<lparr>nd_modules := M\<rparr> in
     case md of
       None \<Rightarrow> Inr (None, n)
     | Some m \<Rightarrow>
         rbind (skynet_module_instance_create W m n) (\<lambda>(inst, n).
         if inst = 0 then Inr (None, n)
         else
           rbind (register_context m inst n) (\<lambda>(c, n).
           rbind (ctx_get c n) (\<lambda>x.
           rbind (skynet_module_instance_init W m inst c param n) (\<lambda>(r, n).
           if r = 0 then
             rbind (launch_done W c (cx_queue x) n) (\<lambda>(ret, n).
             case ret of
               None \<Rightarrow> Inr (None, n)
             | Some c \<Rightarrow>
                 rbind (skynet_error W (Some c) (''LAUNCH '' @ name @ '' '' @ (case param of None \<Rightarrow> [] | Some p \<Rightarrow> p)) n) (\<lambda>n.
                 Inr (Some c, n)))
           else rbind (launch_failed W c (cx_queue x) name n) (\<lambda>n. Inr (None, n)))))))"

section \<open>Monitors\<close>

definition skynet_monitor_new :: skynet_monitor where
  "skynet_monitor_new = \<lparr>sm_version = 0, sm_check_version = 0, sm_source = 0, sm_destination = 0\<rparr>"

definition skynet_monitor_trigger :: "nat \<Rightarrow> u32 \<Rightarrow> u32 \<Rightarrow> node \<Rightarrow> node" where
  "skynet_monitor_trigger i source destination n =
     (let sm = nd_monitors n ! i in
      n\<lparr>nd_monitors := (nd_monitors n)[i := sm\<lparr>sm_source := source, sm_destination := destination, sm_version := sm_version sm + 1\<rparr>]\<rparr>)"

text \<open>\<^verbatim>\<open>%08x\<close>\<close>

definition fmt_08x :: "u32 \<Rightarrow> cstr" where
  "fmt_08x w = replicate (8 - length (fmt_x w)) (CHR ''0'') @ fmt_x w"

definition skynet_monitor_check :: "world \<Rightarrow> nat \<Rightarrow> node \<Rightarrow> node result" where
  "skynet_monitor_check W i n =
     (let sm = nd_monitors n ! i in
      if sm_version sm = sm_check_version sm then
        if sm_destination sm \<noteq> 0 then
          rbind (skynet_context_endless W (sm_destination sm) n) (\<lambda>n.
          skynet_error W None (''A message from [ :'' @ fmt_08x (sm_source sm) @ '' ] to [ :'' @ fmt_08x (sm_destination sm) @
            '' ] maybe in an endless loop (version = '' @ fmt_d (sm_version sm) @ '')'') n)
        else Inr n
      else Inr (n\<lparr>nd_monitors := (nd_monitors n)[i := sm\<lparr>sm_check_version := sm_version sm\<rparr>]\<rparr>))"

section \<open>Dispatch\<close>

definition skynet_thread_time :: "world \<Rightarrow> node \<Rightarrow> u64 \<times> node" where
  "skynet_thread_time W n = (w_thread_time W (nd_clock n), n\<lparr>nd_clock := nd_clock n + 1\<rparr>)"

text \<open>
  The message counter is an unbounded integer. The log of a message goes to a file and is left
  out, and so is the release of the data when the callback does not keep them.
\<close>

definition dispatch_message :: "world \<Rightarrow> ctxref \<Rightarrow> msg \<Rightarrow> node \<Rightarrow> node result" where
  "dispatch_message W c m n =
     rbind (ctx_get c n) (\<lambda>x.
     rbind (cassert (cx_init x)) (\<lambda>_.
     let type = unat (drop_bit MESSAGE_TYPE_SHIFT (msg_sz m)); sz = msg_sz m AND MESSAGE_TYPE_MASK;
         x = x\<lparr>cx_message_count := cx_message_count x + 1\<rparr>;
         n = ctx_put c x (n\<lparr>nd_current := cx_handle x\<rparr>) in
     case cx_cb x of
       None \<Rightarrow> Inl NullDeref
     | Some cb \<Rightarrow>
         if cx_profile x then
           (let (start, n) = skynet_thread_time W n; n = ctx_put c (x\<lparr>cx_cpu_start := start\<rparr>) n in
            rbind (w_cb W cb c type (msg_session m) (msg_source m) (msg_data m) sz n) (\<lambda>(_, n).
            let (now, n) = skynet_thread_time W n in
            rbind (ctx_get c n) (\<lambda>x.
            Inr (ctx_put c (x\<lparr>cx_cpu_cost := cx_cpu_cost x + (now - cx_cpu_start x)\<rparr>) n))))
         else
           rbind (w_cb W cb c type (msg_session m) (msg_source m) (msg_data m) sz n) (\<lambda>(_, n). Inr n)))"

definition mq_pop_at :: "qref \<Rightarrow> node \<Rightarrow> (msg option \<times> node) result" where
  "mq_pop_at r n =
     (case mqs_heap (nd_mqs n) r of
        None \<Rightarrow> Inl UseAfterFree
      | Some q \<Rightarrow> (let (m, q) = skynet_mq_pop q in Inr (m, n\<lparr>nd_mqs := (nd_mqs n)\<lparr>mqs_heap := (mqs_heap (nd_mqs n))(r \<mapsto> q)\<rparr>\<rparr>)))"

definition mq_get :: "qref \<Rightarrow> node \<Rightarrow> msg message_queue result" where
  "mq_get r n = (case mqs_heap (nd_mqs n) r of None \<Rightarrow> Inl UseAfterFree | Some q \<Rightarrow> Inr q)"

text \<open>The body of the loop after the pop.\<close>

definition handle_message :: "world \<Rightarrow> nat \<Rightarrow> u32 \<Rightarrow> ctxref \<Rightarrow> qref \<Rightarrow> msg \<Rightarrow> node \<Rightarrow> node result" where
  "handle_message W sm handle c r m n =
     rbind (mq_get r n) (\<lambda>q.
     let (overload, q) = skynet_mq_overload q;
         n = n\<lparr>nd_mqs := (nd_mqs n)\<lparr>mqs_heap := (mqs_heap (nd_mqs n))(r \<mapsto> q)\<rparr>\<rparr> in
     rbind (if overload \<noteq> 0 then skynet_error W (Some c) (''May overload, message queue length = '' @ show_int (int overload)) n else Inr n) (\<lambda>n.
     let n = skynet_monitor_trigger sm (msg_source m) handle n in
     rbind (ctx_get c n) (\<lambda>x.
     rbind (if cx_cb x = None then Inr n else dispatch_message W c m n) (\<lambda>n.
     Inr (skynet_monitor_trigger sm 0 0 n)))))"

text \<open>\<open>k\<close> more iterations; the result says whether the loop ran to its end.\<close>

fun dispatch_loop :: "world \<Rightarrow> nat \<Rightarrow> u32 \<Rightarrow> ctxref \<Rightarrow> qref \<Rightarrow> nat \<Rightarrow> node \<Rightarrow> (bool \<times> node) result" where
  "dispatch_loop W sm handle c r 0 n = Inr (True, n)"
| "dispatch_loop W sm handle c r (Suc k) n =
     rbind (mq_pop_at r n) (\<lambda>(m, n).
     case m of
       None \<Rightarrow> Inr (False, n)
     | Some m \<Rightarrow> rbind (handle_message W sm handle c r m n) (dispatch_loop W sm handle c r k))"

text \<open>The first iteration also sets the number of iterations from the length of the queue.\<close>

definition dispatch_all_of :: "world \<Rightarrow> nat \<Rightarrow> int \<Rightarrow> u32 \<Rightarrow> ctxref \<Rightarrow> qref \<Rightarrow> node \<Rightarrow> (bool \<times> node) result" where
  "dispatch_all_of W sm weight handle c r n =
     rbind (mq_pop_at r n) (\<lambda>(m, n).
     case m of
       None \<Rightarrow> Inr (False, n)
     | Some m \<Rightarrow>
         rbind (mq_get r n) (\<lambda>q.
         let k = (if weight \<ge> 0 then drop_bit (nat weight) (skynet_mq_length q) else 1) in
         rbind (handle_message W sm handle c r m n) (dispatch_loop W sm handle c r (k - 1))))"

text \<open>After a complete round the queue goes back into the global list unless that is empty.\<close>

definition dispatch_end :: "world \<Rightarrow> ctxref \<Rightarrow> qref \<Rightarrow> node \<Rightarrow> (qref option \<times> node) result" where
  "dispatch_end W c r n =
     rbind (ctx_get c n) (\<lambda>x.
     rbind (cassert (r = cx_queue x)) (\<lambda>_.
     rbind (globalmq_pop_at n) (\<lambda>(nq, n).
     rbind (case nq of None \<Rightarrow> Inr (r, n) | Some nr \<Rightarrow> rbind (globalmq_push_at r n) (\<lambda>n. Inr (nr, n))) (\<lambda>(r, n).
     rbind (skynet_context_release W c n) (\<lambda>(_, n). Inr (Some r, n))))))"

definition dispatch_queue :: "world \<Rightarrow> nat \<Rightarrow> qref \<Rightarrow> int \<Rightarrow> node \<Rightarrow> (qref option \<times> node) result" where
  "dispatch_queue W sm r weight n =
     rbind (mq_get r n) (\<lambda>q.
     rbind (handle_grab (skynet_mq_handle q) n) (\<lambda>(ctx, n).
     case ctx of
       None \<Rightarrow> rbind (mq_release_at W (skynet_mq_handle q) r n) globalmq_pop_at
     | Some c \<Rightarrow>
         rbind (dispatch_all_of W sm weight (skynet_mq_handle q) c r n) (\<lambda>(complete, n).
         if \<not> complete then rbind (skynet_context_release W c n) (\<lambda>(_, n). globalmq_pop_at n)
         else dispatch_end W c r n)))"

definition skynet_context_message_dispatch :: "world \<Rightarrow> nat \<Rightarrow> qref option \<Rightarrow> int \<Rightarrow> node \<Rightarrow> (qref option \<times> node) result" where
  "skynet_context_message_dispatch W sm q weight n =
     rbind (case q of None \<Rightarrow> globalmq_pop_at n | Some r \<Rightarrow> Inr (Some r, n)) (\<lambda>(q, n).
     case q of None \<Rightarrow> Inr (None, n) | Some r \<Rightarrow> dispatch_queue W sm r weight n)"

text \<open>\<^verbatim>\<open>skynet_context_dispatchall\<close>: ends when the queue is empty; \<open>Diverges\<close> when \<open>fuel\<close> messages are not enough.\<close>

fun skynet_context_dispatchall :: "world \<Rightarrow> nat \<Rightarrow> ctxref \<Rightarrow> qref \<Rightarrow> node \<Rightarrow> node result" where
  "skynet_context_dispatchall W 0 c r n = Inl Diverges"
| "skynet_context_dispatchall W (Suc fuel) c r n =
     rbind (mq_pop_at r n) (\<lambda>(m, n).
     case m of
       None \<Rightarrow> Inr n
     | Some m \<Rightarrow> rbind (dispatch_message W c m n) (skynet_context_dispatchall W fuel c r))"

text \<open>
  \<^verbatim>\<open>skynet_handle_retireall\<close>: passes over the slots until one retires nothing. The number of slots is
  read again in every iteration, since a release may register contexts. \<open>fuel\<close> bounds the number of
  iterations of both loops together; \<open>i\<close> is the slot, \<open>k\<close> the number of handles retired in this pass.
\<close>

fun skynet_handle_retireall :: "world \<Rightarrow> nat \<Rightarrow> nat \<Rightarrow> nat \<Rightarrow> node \<Rightarrow> node result" where
  "skynet_handle_retireall W 0 i k n = Inl Diverges"
| "skynet_handle_retireall W (Suc fuel) i k n =
     (if i < length (hs_slot (nd_handles n)) then
        rbind (case hs_slot (nd_handles n) ! i of
                 None \<Rightarrow> Inr 0
               | Some c \<Rightarrow> skynet_context_handle c n) (\<lambda>handle.
        if handle \<noteq> 0 then
          rbind (handle_retire W handle n) (\<lambda>(ret, n).
          skynet_handle_retireall W fuel (i + 1) (if ret then k + 1 else k) n)
        else skynet_handle_retireall W fuel (i + 1) k n)
      else if k = 0 then Inr n
      else skynet_handle_retireall W fuel 0 0 n)"

section \<open>Start\<close>

text \<open>The node after the initialisations of \<^verbatim>\<open>skynet_start\<close> and \<^verbatim>\<open>skynet_globalinit\<close>, before the first launch.\<close>

definition skynet_init :: "u32 \<Rightarrow> cstr \<Rightarrow> bool \<Rightarrow> nat \<Rightarrow> timer \<Rightarrow> (cstr \<rightharpoonup> cstr) \<Rightarrow> node" where
  "skynet_init harbor module_path profile thread T env =
     \<lparr>nd_handles = skynet_handle_init harbor, nd_mqs = skynet_mq_init, nd_ctx = Map.empty,
      nd_modules = skynet_module_init module_path, nd_timer = T, nd_env = env, nd_total = 0, nd_monitor_exit = 0,
      nd_profile = profile, nd_HARBOR = push_bit HANDLE_REMOTE_SHIFT harbor, nd_REMOTE = None, nd_logger = 0,
      nd_monitors = replicate thread skynet_monitor_new, nd_current = - 1, nd_alloc = 0, nd_clock = 0\<rparr>"

end
