(* ===== verification/NodeOk.thy ===== *)
theory NodeOk
  imports Node "HOL-Library.Multiset"
begin

text \<open>
  The invariant of the node and its preservation: reference counts equal the references there are,
  a context is freed with its last reference and never used afterwards, its queue lives as long as
  it does, and the queues are scheduled as the protocol of the message queues demands.
\<close>

section \<open>Queues as the node sees them\<close>

text \<open>Handle, release flag and messages of a queue.\<close>

definition queue_view :: "'m mqs \<Rightarrow> qref \<Rightarrow> (u32 \<times> nat \<times> 'm list) option" where
  "queue_view s r = map_option (\<lambda>q. (mq_handle q, mq_release q, mq_list q)) (mqs_heap s r)"

text \<open>The scheduling state is consistent when the queues \<open>H\<close> are held by threads.\<close>

definition mqs_ok :: "qref list \<Rightarrow> 'm mqs \<Rightarrow> bool" where
  "mqs_ok H s \<longleftrightarrow> (\<exists>rs. sched_rep \<lparr>sc_mqs = s, sc_held = H\<rparr> rs)"

lemma queue_view_Some:
  "queue_view s r = Some (h, rel, l) \<longleftrightarrow> (\<exists>q. mqs_heap s r = Some q \<and> mq_handle q = h \<and> mq_release q = rel \<and> mq_list q = l)"
  by (auto simp: queue_view_def)

lemma queue_view_None: "queue_view s r = None \<longleftrightarrow> mqs_heap s r = None"
  by (simp add: queue_view_def)

lemma queue_view_upd: "queue_view (s\<lparr>mqs_heap := (mqs_heap s)(r \<mapsto> q)\<rparr>) = (queue_view s)(r \<mapsto> (mq_handle q, mq_release q, mq_list q))"
  by (auto simp: queue_view_def fun_eq_iff)

lemma same_queues_view:
  assumes "same_queues (mqs_heap s') (mqs_heap s)"
  shows "queue_view s' = queue_view s"
proof
  fix x
  let ?f = "\<lambda>q. (mq_handle q, mq_release q, mq_list q)"
  have next_None: "?f q = ?f (q\<lparr>mq_next := None\<rparr>)" for q :: "'a message_queue" by (simp add: mq_list_def)
  have "map_option (\<lambda>q. q\<lparr>mq_next := None\<rparr>) (mqs_heap s' x) = map_option (\<lambda>q. q\<lparr>mq_next := None\<rparr>) (mqs_heap s x)"
    using assms by (simp add: same_queues_def)
  then have "map_option ?f (map_option (\<lambda>q. q\<lparr>mq_next := None\<rparr>) (mqs_heap s' x)) = map_option ?f (map_option (\<lambda>q. q\<lparr>mq_next := None\<rparr>) (mqs_heap s x))"
    by simp
  then show "queue_view s' x = queue_view s x"
    by (simp only: queue_view_def option.map_comp comp_def next_None [symmetric])
qed

lemma globalmq_push_same: "skynet_globalmq_push r s = Inr s' \<Longrightarrow> same_queues (mqs_heap s') (mqs_heap s)"
  by (auto simp: skynet_globalmq_push_def same_queues_def rbind_Inr_iff split: option.splits)

lemma globalmq_pop_same: "skynet_globalmq_pop s = Inr (r, s') \<Longrightarrow> same_queues (mqs_heap s') (mqs_heap s)"
  by (auto simp: skynet_globalmq_pop_def same_queues_def rbind_Inr_iff Let_def split: option.splits if_splits)

lemma mq_enqueue_handle [simp]: "mq_handle (mq_enqueue q m) = mq_handle q"
  by (simp add: mq_enqueue_def expand_queue_def Let_def)

lemma mq_pop_handle [simp]: "mq_handle (snd (skynet_mq_pop q)) = mq_handle q"
  by (simp add: skynet_mq_pop_def Let_def split: prod.splits)

lemma mqs_ok_wf: "mqs_ok H s \<Longrightarrow> mqs_heap s r = Some q \<Longrightarrow> mq_wf q"
  by (auto simp: mqs_ok_def mq_flag_ok_def dest: sched_repD(4))

lemma mqs_ok_held: "mqs_ok H s \<Longrightarrow> r \<in> set H \<Longrightarrow> queue_view s r \<noteq> None"
  unfolding mqs_ok_def queue_view_None using sched_repD(3) [of "\<lparr>sc_mqs = s, sc_held = H\<rparr>"] by fastforce

lemma mqs_ok_distinct: "mqs_ok H s \<Longrightarrow> distinct H"
  by (auto simp: mqs_ok_def dest: sched_repD(2))

lemma mqs_push:
  assumes "mqs_ok H s" "queue_view s r = Some (h, 0, l)"
  shows "\<exists>s'. skynet_mq_push r m s = Inr s' \<and> mqs_ok H s' \<and> queue_view s' = (queue_view s)(r \<mapsto> (h, 0, l @ [m]))"
proof -
  obtain rs where rep: "sched_rep \<lparr>sc_mqs = s, sc_held = H\<rparr> rs" using assms(1) by (auto simp: mqs_ok_def)
  obtain q where q: "mqs_heap s r = Some q" "mq_handle q = h" "mq_release q = 0" "mq_list q = l"
    using assms(2) by (auto simp: queue_view_Some)
  obtain s' rs' where s': "skynet_mq_push r m s = Inr s'" "sched_rep \<lparr>sc_mqs = s', sc_held = H\<rparr> rs'"
    using sched_send [OF rep, of r q m] q by auto
  have e: "mq_list (mq_enqueue q m) = l @ [m]" using mq_enqueue_ring [OF mqs_ok_wf [OF assms(1) q(1)]] q by simp
  have "queue_view s' = (queue_view s)(r \<mapsto> (h, 0, l @ [m]))"
  proof (cases "mq_in_global q = 0")
    case True
    then have "queue_view s' = queue_view (s\<lparr>mqs_heap := (mqs_heap s)(r \<mapsto> (mq_enqueue q m)\<lparr>mq_in_global := MQ_IN_GLOBAL\<rparr>)\<rparr>)"
      using s'(1) q by (auto simp: skynet_mq_push_def Let_def intro!: same_queues_view dest: globalmq_push_same)
    then show ?thesis using q e by (simp add: queue_view_upd)
  next
    case False
    then show ?thesis using s'(1) q e by (auto simp: skynet_mq_push_def Let_def queue_view_upd)
  qed
  with s' show ?thesis by (auto simp: mqs_ok_def)
qed

lemma mqs_mark:
  assumes "mqs_ok H s" "queue_view s r = Some (h, 0, l)"
  shows "\<exists>s'. skynet_mq_mark_release r s = Inr s' \<and> mqs_ok H s' \<and> queue_view s' = (queue_view s)(r \<mapsto> (h, 1, l))"
proof -
  obtain rs where rep: "sched_rep \<lparr>sc_mqs = s, sc_held = H\<rparr> rs" using assms(1) by (auto simp: mqs_ok_def)
  obtain q where q: "mqs_heap s r = Some q" "mq_handle q = h" "mq_release q = 0" "mq_list q = l"
    using assms(2) by (auto simp: queue_view_Some)
  obtain s' rs' where s': "skynet_mq_mark_release r s = Inr s'" "sched_rep \<lparr>sc_mqs = s', sc_held = H\<rparr> rs'"
    using sched_retire [OF rep, of r q] q by auto
  have "queue_view s' = queue_view (s\<lparr>mqs_heap := (mqs_heap s)(r \<mapsto> q\<lparr>mq_release := 1\<rparr>)\<rparr>)"
    using s'(1) q by (auto simp: skynet_mq_mark_release_def Let_def intro!: same_queues_view dest: globalmq_push_same split: if_splits)
  with s' q show ?thesis by (auto simp: mqs_ok_def queue_view_upd)
qed

lemma mqs_gpush:
  assumes "mqs_ok H s" "r \<in> set H"
  shows "\<exists>s'. skynet_globalmq_push r s = Inr s' \<and> mqs_ok (remove1 r H) s' \<and> queue_view s' = queue_view s"
proof -
  obtain rs where rep: "sched_rep \<lparr>sc_mqs = s, sc_held = H\<rparr> rs" using assms(1) by (auto simp: mqs_ok_def)
  obtain s' rs' where "skynet_globalmq_push r s = Inr s'" "sched_rep \<lparr>sc_mqs = s', sc_held = remove1 r H\<rparr> rs'"
    using sched_requeue [OF rep, of r] assms(2) by auto
  then show ?thesis using same_queues_view [OF globalmq_push_same] by (auto simp: mqs_ok_def)
qed

lemma mqs_gpop:
  assumes "mqs_ok H s"
  shows "skynet_globalmq_pop s = Inr (None, s) \<or>
    (\<exists>r s'. skynet_globalmq_pop s = Inr (Some r, s') \<and> r \<notin> set H \<and> mqs_ok (r # H) s' \<and> queue_view s' = queue_view s)"
proof -
  obtain rs where rep: "sched_rep \<lparr>sc_mqs = s, sc_held = H\<rparr> rs" using assms(1) by (auto simp: mqs_ok_def)
  have g: "gq_rep s rs" using sched_repD(1) [OF rep] by simp
  show ?thesis
  proof (cases rs)
    case Nil
    then show ?thesis using globalmq_pop_Nil [of s] g by simp
  next
    case (Cons r rs')
    then obtain s' where s': "skynet_globalmq_pop s = Inr (Some r, s')"
      using globalmq_pop_Cons g by metis
    with sched_fetch [OF rep, of r s'] obtain rs'' where "sched_rep \<lparr>sc_mqs = s', sc_held = r # H\<rparr> rs''" by auto
    moreover from this have "r \<notin> set H" by (auto dest: sched_repD(2))
    ultimately show ?thesis
      using s' same_queues_view [OF globalmq_pop_same [OF s']] by (auto simp: mqs_ok_def)
  qed
qed

lemma mqs_pop:
  assumes "mqs_ok H s" "r \<in> set H" "mqs_heap s r = Some q" "mq_release q = 0"
  defines "s' \<equiv> s\<lparr>mqs_heap := (mqs_heap s)(r \<mapsto> snd (skynet_mq_pop q))\<rparr>"
  shows "mq_list q = [] \<Longrightarrow> fst (skynet_mq_pop q) = None \<and> mqs_ok (remove1 r H) s' \<and> queue_view s' = queue_view s"
    and "mq_list q = m # ms \<Longrightarrow> fst (skynet_mq_pop q) = Some m \<and> mqs_ok H s' \<and> queue_view s' = (queue_view s)(r \<mapsto> (mq_handle q, 0, ms))"
proof -
  obtain rs where rep: "sched_rep \<lparr>sc_mqs = s, sc_held = H\<rparr> rs" using assms(1) by (auto simp: mqs_ok_def)
  have wf: "mq_wf q" by (rule mqs_ok_wf [OF assms(1,3)])
  obtain o' q' where p: "skynet_mq_pop q = (o', q')" by fastforce
  have fr: "mq_handle q' = mq_handle q" "mq_release q' = mq_release q"
    using mq_pop_handle [of q] mq_pop_frame(2) [of q] p by simp_all
  { assume l: "mq_list q = []"
    then have "o' = None" "mq_list q' = []" using mq.pop_Nil [OF wf] p by simp_all
    moreover from this have "mqs_ok (remove1 r H) s'"
      using sched_idle [OF rep, of r q q'] assms(2-4) p by (auto simp: mqs_ok_def s'_def)
    ultimately show "fst (skynet_mq_pop q) = None \<and> mqs_ok (remove1 r H) s' \<and> queue_view s' = queue_view s"
      using p fr l assms(3) by (auto simp: s'_def queue_view_upd fun_eq_iff) (auto simp: queue_view_def) }
  { assume l: "mq_list q = m # ms"
    then have "o' = Some m" "mq_list q' = ms" using mq.pop_Cons [OF wf] p by simp_all
    moreover from this have "mqs_ok H s'"
      using sched_take [OF rep, of r q m q'] assms(2-4) p by (auto simp: mqs_ok_def s'_def)
    ultimately show "fst (skynet_mq_pop q) = Some m \<and> mqs_ok H s' \<and> queue_view s' = (queue_view s)(r \<mapsto> (mq_handle q, 0, ms))"
      using p fr assms(4) by (auto simp: s'_def queue_view_upd) }
qed

lemma mqs_overload:
  assumes "mqs_ok H s" "mqs_heap s r = Some q"
  defines "s' \<equiv> s\<lparr>mqs_heap := (mqs_heap s)(r \<mapsto> snd (skynet_mq_overload q))\<rparr>"
  shows "mqs_ok H s' \<and> queue_view s' = queue_view s"
proof -
  obtain rs where rep: "sched_rep \<lparr>sc_mqs = s, sc_held = H\<rparr> rs" using assms(1) by (auto simp: mqs_ok_def)
  let ?q = "snd (skynet_mq_overload q)"
  have same: "mq_next ?q = mq_next q" "mq_handle ?q = mq_handle q" "mq_release ?q = mq_release q" "mq_list ?q = mq_list q"
    "\<And>b. mq_flag_ok b ?q = mq_flag_ok b q"
    by (simp_all add: skynet_mq_overload_def mq_list_def mq_flag_ok_def mq_wf_def)
  have "sched_rep \<lparr>sc_mqs = s', sc_held = H\<rparr> rs"
    using sched_rep_upd [OF rep, of r q ?q H] sched_repD(2,4) [OF rep] assms(2) same by (simp add: s'_def)
  then show ?thesis
    using assms(2) same by (auto simp: mqs_ok_def s'_def queue_view_upd fun_eq_iff) (auto simp: queue_view_def)
qed

lemma mqs_release:
  assumes "mqs_ok H s" "r \<in> set H" "queue_view s r = Some (h, rel, l)"
  shows "\<exists>s'. skynet_mq_release r s = Inr (if rel = 0 then [] else l, s') \<and> mqs_ok (remove1 r H) s' \<and>
    queue_view s' = (if rel = 0 then queue_view s else (queue_view s)(r := None))"
proof -
  obtain rs where rep: "sched_rep \<lparr>sc_mqs = s, sc_held = H\<rparr> rs" using assms(1) by (auto simp: mqs_ok_def)
  obtain q where q: "mqs_heap s r = Some q" "mq_handle q = h" "mq_release q = rel" "mq_list q = l"
    using assms(3) by (auto simp: queue_view_Some)
  show ?thesis
  proof (cases "rel = 0")
    case True
    then show ?thesis using mqs_gpush [OF assms(1,2)] q by (auto simp: skynet_mq_release_def)
  next
    case False
    then obtain s' where s': "skynet_mq_release r s = Inr (l, s')" "sched_rep \<lparr>sc_mqs = s', sc_held = remove1 r H\<rparr> rs"
      using sched_reap [OF rep, of r q] q assms(2) by auto
    have "mqs_heap s' = (mqs_heap s)(r := None)"
      using s'(1) q False
      by (auto simp: skynet_mq_release_def drop_queue_def mq_free_def rbind_Inr_iff split: prod.splits)
    then have "queue_view s' = (queue_view s)(r := None)" by (auto simp: queue_view_def fun_eq_iff)
    with s' False show ?thesis by (auto simp: mqs_ok_def)
  qed
qed

lemma mqs_new:
  fixes h :: u32
  assumes "mqs_ok H s" "mqs_heap s r = None"
  defines "s' \<equiv> s\<lparr>mqs_heap := (mqs_heap s)(r \<mapsto> skynet_mq_create h)\<rparr>"
  shows "mqs_ok (r # H) s' \<and> queue_view s' = (queue_view s)(r \<mapsto> (h, 0, []))"
proof -
  obtain rs where "sched_rep \<lparr>sc_mqs = s, sc_held = H\<rparr> rs" using assms(1) by (auto simp: mqs_ok_def)
  from sched_create [OF this, of r h] assms(2) have "mqs_ok (r # H) s'" by (auto simp: mqs_ok_def s'_def)
  then show ?thesis by (simp add: s'_def queue_view_upd mq_list_create) (simp add: skynet_mq_create_def)
qed

lemma mqs_init: "mqs_ok [] skynet_mq_init"
  unfolding mqs_ok_def by (rule exI) (rule sched_rep_start)

section \<open>The invariant\<close>

text \<open>
  What the threads of the node have in their hands: references to contexts, contexts that are just
  being deleted, queues held by workers and queues of contexts that are just being launched; and how
  many contexts were reserved for the harbor.
\<close>

record hands =
  g_refs :: "ctxref multiset"
  g_dying :: "ctxref set"
  g_held :: "qref list"
  g_new :: "qref list"
  g_reserved :: int

text \<open>The references to a context: of the registry, of the harbor, and in the hands of threads.\<close>

definition refcount :: "hands \<Rightarrow> node \<Rightarrow> ctxref \<Rightarrow> int" where
  "refcount g n c = (if c \<in> contexts (nd_handles n) then 1 else 0) + (if nd_REMOTE n = Some c then 1 else 0) + int (count (g_refs g) c)"

definition ctx_ok :: "hands \<Rightarrow> node \<Rightarrow> ctxref \<Rightarrow> skynet_context \<Rightarrow> bool" where
  "ctx_ok g n c x \<longleftrightarrow>
     cx_ref x = refcount g n c \<and> (cx_ref x = 0 \<longleftrightarrow> c \<in> g_dying g) \<and> cx_mod x < length (ms_m (nd_modules n)) \<and>
     (\<exists>l. queue_view (nd_mqs n) (cx_queue x) = Some (cx_handle x, 0, l)) \<and>
     (\<not> cx_init x \<longrightarrow> c \<in> contexts (nd_handles n) \<longrightarrow> cx_queue x \<in> set (g_new g))"

lemma ctx_ok_upd:
  assumes "ctx_ok g n c x" "refcount g' n' c = refcount g n c" "g_dying g' = g_dying g" "nd_modules n' = nd_modules n"
    "\<exists>l. queue_view (nd_mqs n') (cx_queue x) = Some (cx_handle x, 0, l)"
    "\<not> cx_init x \<Longrightarrow> c \<in> contexts (nd_handles n') \<Longrightarrow> cx_queue x \<in> set (g_new g')"
  shows "ctx_ok g' n' c x"
  using assms(1) unfolding ctx_ok_def assms(2-4) using assms(5,6) by blast

lemma ctx_ok_mono:
  assumes "ctx_ok g n c x" "refcount g' n' c = refcount g n c" "g_dying g' = g_dying g" "g_new g' = g_new g"
    "nd_modules n' = nd_modules n" "nd_mqs n' = nd_mqs n" "contexts (nd_handles n') \<subseteq> contexts (nd_handles n)"
  shows "ctx_ok g' n' c x"
  by (rule ctx_ok_upd [OF assms(1-3) assms(5)]) (use assms(1,4,6,7) in \<open>auto simp: ctx_ok_def\<close>)

definition node_ok :: "hands \<Rightarrow> node \<Rightarrow> bool" where
  "node_ok g n \<longleftrightarrow>
     hs_ok (node_hof n) (nd_handles n) \<and>
     mqs_ok (g_held g @ g_new g) (nd_mqs n) \<and>
     (\<forall>c x. nd_ctx n c = Some x \<longrightarrow> ctx_ok g n c x) \<and>
     (\<forall>c. nd_ctx n c = None \<longrightarrow> refcount g n c = 0 \<and> c \<notin> g_dying g) \<and>
     (\<forall>c d x y. nd_ctx n c = Some x \<longrightarrow> nd_ctx n d = Some y \<longrightarrow> cx_queue x = cx_queue y \<longrightarrow> c = d) \<and>
     (\<forall>r r' h v v'. queue_view (nd_mqs n) r = Some (h, v) \<longrightarrow> queue_view (nd_mqs n) r' = Some (h, v') \<longrightarrow> r = r') \<and>
     (\<forall>r h v. queue_view (nd_mqs n) r = Some (h, v) \<longrightarrow> r < nd_alloc n \<and> h \<noteq> 0 \<and> h AND HANDLE_MASK < hs_handle_index (nd_handles n)) \<and>
     finite (dom (nd_ctx n)) \<and> (\<forall>c \<in> dom (nd_ctx n). c < nd_alloc n) \<and>
     nd_total n = int (card (dom (nd_ctx n))) - g_reserved g \<and>
     modules_ok (nd_modules n) \<and> path_ok (ms_path (nd_modules n)) \<and> nd_HARBOR n \<noteq> - 1"

lemma node_okD:
  assumes "node_ok g n"
  shows "hs_ok (node_hof n) (nd_handles n)" "mqs_ok (g_held g @ g_new g) (nd_mqs n)"
    "nd_ctx n c = Some x \<Longrightarrow> ctx_ok g n c x"
    "nd_ctx n c = None \<Longrightarrow> refcount g n c = 0 \<and> c \<notin> g_dying g"
    "nd_ctx n c = Some x \<Longrightarrow> nd_ctx n d = Some y \<Longrightarrow> cx_queue x = cx_queue y \<Longrightarrow> c = d"
    "queue_view (nd_mqs n) r = Some (h, v) \<Longrightarrow> queue_view (nd_mqs n) r' = Some (h, v') \<Longrightarrow> r = r'"
    "queue_view (nd_mqs n) r = Some (h, v) \<Longrightarrow> r < nd_alloc n \<and> h \<noteq> 0 \<and> h AND HANDLE_MASK < hs_handle_index (nd_handles n)"
    "finite (dom (nd_ctx n))" "nd_ctx n c = Some x \<Longrightarrow> c < nd_alloc n"
    "nd_total n = int (card (dom (nd_ctx n))) - g_reserved g"
    "modules_ok (nd_modules n)" "path_ok (ms_path (nd_modules n))" "nd_HARBOR n \<noteq> - 1"
  using assms unfolding node_ok_def by blast+

lemma node_okI:
  assumes "hs_ok (node_hof n) (nd_handles n)" "mqs_ok (g_held g @ g_new g) (nd_mqs n)"
    "\<And>c x. nd_ctx n c = Some x \<Longrightarrow> ctx_ok g n c x"
    "\<And>c. nd_ctx n c = None \<Longrightarrow> refcount g n c = 0 \<and> c \<notin> g_dying g"
    "\<And>c d x y. nd_ctx n c = Some x \<Longrightarrow> nd_ctx n d = Some y \<Longrightarrow> cx_queue x = cx_queue y \<Longrightarrow> c = d"
    "\<And>r r' h v v'. queue_view (nd_mqs n) r = Some (h, v) \<Longrightarrow> queue_view (nd_mqs n) r' = Some (h, v') \<Longrightarrow> r = r'"
    "\<And>r h v. queue_view (nd_mqs n) r = Some (h, v) \<Longrightarrow> r < nd_alloc n \<and> h \<noteq> 0 \<and> h AND HANDLE_MASK < hs_handle_index (nd_handles n)"
    "finite (dom (nd_ctx n))" "\<And>c x. nd_ctx n c = Some x \<Longrightarrow> c < nd_alloc n"
    "nd_total n = int (card (dom (nd_ctx n))) - g_reserved g"
    "modules_ok (nd_modules n)" "path_ok (ms_path (nd_modules n))" "nd_HARBOR n \<noteq> - 1"
  shows "node_ok g n"
  using assms unfolding node_ok_def by (intro conjI allI impI ballI) blast+

text \<open>The parts of the state that the invariant does not look at.\<close>

lemma node_hof_cong: "nd_ctx n' = nd_ctx n \<Longrightarrow> node_hof n' = node_hof n"
  by (simp add: node_hof_def fun_eq_iff)

lemma node_ok_cong:
  assumes "nd_handles n' = nd_handles n" "nd_mqs n' = nd_mqs n" "nd_ctx n' = nd_ctx n" "nd_modules n' = nd_modules n"
    "nd_total n' = nd_total n" "nd_HARBOR n' = nd_HARBOR n" "nd_REMOTE n' = nd_REMOTE n" "nd_alloc n' = nd_alloc n"
  shows "node_ok g n' = node_ok g n"
  using assms unfolding node_ok_def ctx_ok_def refcount_def node_hof_cong [OF assms(3)] by simp

lemma node_ok_frame [simp]:
  "node_ok g (n\<lparr>nd_logger := a1\<rparr>) = node_ok g n"
  "node_ok g (n\<lparr>nd_monitors := a2\<rparr>) = node_ok g n"
  "node_ok g (n\<lparr>nd_current := a3\<rparr>) = node_ok g n"
  "node_ok g (n\<lparr>nd_clock := a4\<rparr>) = node_ok g n"
  "node_ok g (n\<lparr>nd_timer := a5\<rparr>) = node_ok g n"
  "node_ok g (n\<lparr>nd_env := a6\<rparr>) = node_ok g n"
  "node_ok g (n\<lparr>nd_monitor_exit := a7\<rparr>) = node_ok g n"
  "node_ok g (n\<lparr>nd_profile := a8\<rparr>) = node_ok g n"
  by (rule node_ok_cong, simp_all)+

lemma refcount_0: "refcount g n c = 0 \<longleftrightarrow> c \<notin> contexts (nd_handles n) \<and> nd_REMOTE n \<noteq> Some c \<and> c \<notin># g_refs g"
proof -
  have "int (count (g_refs g) c) = 0 \<longleftrightarrow> c \<notin># g_refs g" "0 \<le> int (count (g_refs g) c)" by (simp_all add: count_eq_zero_iff)
  then show ?thesis unfolding refcount_def by (smt (verit))
qed

text \<open>A context that somebody refers to is there.\<close>

lemma registered_live: "node_ok g n \<Longrightarrow> c \<in> contexts (nd_handles n) \<Longrightarrow> \<exists>x. nd_ctx n c = Some x"
  using node_okD(4) [of g n c] by (cases "nd_ctx n c") (auto simp: refcount_0)

lemma held_live: "node_ok g n \<Longrightarrow> c \<in># g_refs g \<Longrightarrow> \<exists>x. nd_ctx n c = Some x"
  using node_okD(4) [of g n c] by (cases "nd_ctx n c") (auto simp: refcount_0)

lemma remote_live: "node_ok g n \<Longrightarrow> nd_REMOTE n = Some c \<Longrightarrow> \<exists>x. nd_ctx n c = Some x"
  using node_okD(4) [of g n c] by (cases "nd_ctx n c") (auto simp: refcount_0)

lemma dying_live: "node_ok g n \<Longrightarrow> c \<in> g_dying g \<Longrightarrow> \<exists>x. nd_ctx n c = Some x"
  using node_okD(4) [of g n c] by (cases "nd_ctx n c") auto

lemma ctx_get_Some [simp]: "nd_ctx n c = Some x \<Longrightarrow> ctx_get c n = Inr x"
  by (simp add: ctx_get_def)

lemma ctx_put_simps [simp]:
  "nd_ctx (ctx_put c x n) = (nd_ctx n)(c \<mapsto> x)" "nd_handles (ctx_put c x n) = nd_handles n" "nd_mqs (ctx_put c x n) = nd_mqs n"
  "nd_modules (ctx_put c x n) = nd_modules n" "nd_total (ctx_put c x n) = nd_total n" "nd_HARBOR (ctx_put c x n) = nd_HARBOR n"
  "nd_REMOTE (ctx_put c x n) = nd_REMOTE n" "nd_alloc (ctx_put c x n) = nd_alloc n"
  by (simp_all add: ctx_put_def)

lemma node_hof_put:
  "nd_ctx n c = Some x \<Longrightarrow> cx_handle y = cx_handle x \<Longrightarrow> node_hof (ctx_put c y n) = node_hof n"
  by (auto simp: node_hof_def fun_eq_iff ctx_put_def)

text \<open>Changing a context, and with it the references in the hands of threads.\<close>

lemma node_ok_put:
  assumes ok: "node_ok g n" and c: "nd_ctx n c = Some x"
    and y: "cx_handle y = cx_handle x" "cx_queue y = cx_queue x" "cx_mod y = cx_mod x" "cx_init x \<longrightarrow> cx_init y"
    and g: "\<forall>d. d \<noteq> c \<longrightarrow> count (g_refs g') d = count (g_refs g) d \<and> (d \<in> g_dying g' \<longleftrightarrow> d \<in> g_dying g)"
      "g_held g' = g_held g" "g_new g' = g_new g" "g_reserved g' = g_reserved g"
    and ref: "cx_ref y = refcount g' n c" "cx_ref y = 0 \<longleftrightarrow> c \<in> g_dying g'"
  shows "node_ok g' (ctx_put c y n)"
proof -
  have rc: "refcount g' (ctx_put c y n) d = refcount g' n d" for d by (simp add: refcount_def)
  have same: "refcount g' n d = refcount g n d" if "d \<noteq> c" for d using g(1) that by (simp add: refcount_def)
  show ?thesis
  proof (rule node_okI)
    show "ctx_ok g' (ctx_put c y n) d z" if "nd_ctx (ctx_put c y n) d = Some z" for d z
    proof (cases "d = c")
      case True
      then have "z = y" using that by simp
      then show ?thesis using node_okD(3) [OF ok c] y ref g(3) True by (auto simp: ctx_ok_def rc)
    next
      case False
      then have z: "nd_ctx n d = Some z" using that by simp
      show ?thesis using node_okD(3) [OF ok z] g False by (auto simp: ctx_ok_def rc same)
    qed
    show "refcount g' (ctx_put c y n) d = 0 \<and> d \<notin> g_dying g'" if "nd_ctx (ctx_put c y n) d = None" for d
    proof -
      have "d \<noteq> c" "nd_ctx n d = None" using that by (auto split: if_splits)
      then show ?thesis using node_okD(4) [OF ok, of d] g same by (simp add: rc)
    qed
    have dom: "dom (nd_ctx (ctx_put c y n)) = dom (nd_ctx n)" using c by auto
    then show "finite (dom (nd_ctx (ctx_put c y n)))" "nd_total (ctx_put c y n) = int (card (dom (nd_ctx (ctx_put c y n)))) - g_reserved g'"
      using node_okD(8,10) [OF ok] g(4) by simp_all
    show "d = e" if "nd_ctx (ctx_put c y n) d = Some a" "nd_ctx (ctx_put c y n) e = Some b" "cx_queue a = cx_queue b" for d e a b
    proof -
      have old: "\<exists>a0. nd_ctx n d = Some a0 \<and> cx_queue a0 = cx_queue a" if "nd_ctx (ctx_put c y n) d = Some a" for d a
        using that c y(2) by (auto split: if_splits)
      show ?thesis using old [OF that(1)] old [OF that(2)] that(3) node_okD(5) [OF ok, of d _ e] by auto
    qed
    show "hs_ok (node_hof (ctx_put c y n)) (nd_handles (ctx_put c y n))"
      unfolding node_hof_put [OF c y(1)] using node_okD(1) [OF ok] by simp
    show "d < nd_alloc (ctx_put c y n)" if "nd_ctx (ctx_put c y n) d = Some z" for d z
      using that node_okD(9) [OF ok] c by (auto split: if_splits)
  qed (use node_okD(2,6,7,11,12,13) [OF ok] g in \<open>simp_all\<close>)
qed

lemma node_ok_put_same:
  assumes "node_ok g n" "nd_ctx n c = Some x" "cx_handle y = cx_handle x" "cx_queue y = cx_queue x" "cx_mod y = cx_mod x"
    "cx_init x \<longrightarrow> cx_init y" "cx_ref y = cx_ref x"
  shows "node_ok g (ctx_put c y n)"
proof -
  have "cx_ref x = refcount g n c" "cx_ref x = 0 \<longleftrightarrow> c \<in> g_dying g"
    using node_okD(3) [OF assms(1,2)] unfolding ctx_ok_def by blast+
  then show ?thesis using assms by (intro node_ok_put [OF assms(1,2)]) simp_all
qed

section \<open>References\<close>

lemma grab_ok:
  assumes ok: "node_ok g n" and c: "nd_ctx n c = Some x" "c \<notin> g_dying g"
  shows "skynet_context_grab c n = Inr (ctx_put c (x\<lparr>cx_ref := cx_ref x + 1\<rparr>) n)"
    "node_ok (g\<lparr>g_refs := add_mset c (g_refs g)\<rparr>) (ctx_put c (x\<lparr>cx_ref := cx_ref x + 1\<rparr>) n)"
proof -
  have x: "cx_ref x = refcount g n c" "cx_ref x \<noteq> 0" using node_okD(3) [OF ok c(1)] c(2) unfolding ctx_ok_def by blast+
  moreover have "0 \<le> refcount g n c" by (simp add: refcount_def)
  moreover have "refcount (g\<lparr>g_refs := add_mset c (g_refs g)\<rparr>) n c = refcount g n c + 1" by (simp add: refcount_def)
  ultimately show "node_ok (g\<lparr>g_refs := add_mset c (g_refs g)\<rparr>) (ctx_put c (x\<lparr>cx_ref := cx_ref x + 1\<rparr>) n)"
    using c(2) by (intro node_ok_put [OF ok c(1)]) simp_all
  show "skynet_context_grab c n = Inr (ctx_put c (x\<lparr>cx_ref := cx_ref x + 1\<rparr>) n)"
    using c by (simp add: skynet_context_grab_def)
qed

text \<open>A registered context is found under its handle, with one more reference.\<close>

lemma handle_grab_ok:
  assumes ok: "node_ok g n"
  shows "(\<forall>c \<in> contexts (nd_handles n). node_hof n c \<noteq> h) \<and> handle_grab h n = Inr (None, n) \<or>
    (\<exists>c x. c \<in> contexts (nd_handles n) \<and> nd_ctx n c = Some x \<and> cx_handle x = h \<and> c \<notin> g_dying g \<and>
      handle_grab h n = Inr (Some c, ctx_put c (x\<lparr>cx_ref := cx_ref x + 1\<rparr>) n) \<and>
      node_ok (g\<lparr>g_refs := add_mset c (g_refs g)\<rparr>) (ctx_put c (x\<lparr>cx_ref := cx_ref x + 1\<rparr>) n))"
proof (cases "skynet_handle_grab (node_hof n) h (nd_handles n)")
  case None
  then show ?thesis using grab_iff [OF node_okD(1) [OF ok], of h] by (auto simp: handle_grab_def)
next
  case (Some c)
  then have c: "c \<in> contexts (nd_handles n)" "node_hof n c = h" using grab_iff [OF node_okD(1) [OF ok], of h c] by auto
  obtain x where x: "nd_ctx n c = Some x" using registered_live [OF ok c(1)] by blast
  have "refcount g n c \<noteq> 0" using c(1) by (simp add: refcount_0)
  then have live: "c \<notin> g_dying g" using node_okD(3) [OF ok x] by (auto simp: ctx_ok_def)
  show ?thesis using Some c x live grab_ok [OF ok x live] by (auto simp: handle_grab_def node_hof_def)
qed

text \<open>
  The code of the modules keeps the invariant, whatever the threads have in their hands; it does not
  give a context that somebody refers to another queue or handle or make it uninitialised, a harbor that was
  started stays, and modules stay where they are.
\<close>

definition stays :: "skynet_context \<Rightarrow> skynet_context \<Rightarrow> bool" where
  "stays x x' \<longleftrightarrow> cx_queue x' = cx_queue x \<and> cx_handle x' = cx_handle x \<and> (cx_init x \<longrightarrow> cx_init x')"

lemma stays_refl [simp]: "stays x x"
  by (simp add: stays_def)

definition keeps :: "hands \<Rightarrow> node \<Rightarrow> node \<Rightarrow> bool" where
  "keeps g n n' \<longleftrightarrow> node_ok g n' \<and>
     (\<forall>c x x'. c \<in># g_refs g \<or> c \<in> g_dying g \<longrightarrow> nd_ctx n c = Some x \<longrightarrow> nd_ctx n' c = Some x' \<longrightarrow> stays x x') \<and>
     (nd_REMOTE n \<noteq> None \<longrightarrow> nd_REMOTE n' \<noteq> None) \<and>
     (\<exists>ms. ms_m (nd_modules n') = ms_m (nd_modules n) @ ms)"

definition world_ok :: "world \<Rightarrow> bool" where
  "world_ok W \<longleftrightarrow>
     (\<forall>g n. node_ok g n \<longrightarrow>
        (\<forall>f. \<exists>inst. w_create W f n = Inr (inst, n)) \<and>
        (\<forall>f inst c param. c \<in># g_refs g \<longrightarrow> (\<exists>r n'. w_init W f inst c param n = Inr (r, n') \<and> keeps g n n')) \<and>
        (\<forall>f inst. \<exists>n'. w_release W f inst n = Inr n' \<and> keeps g n n') \<and>
        (\<forall>f inst sig. \<exists>n'. w_signal W f inst sig n = Inr n' \<and> keeps g n n') \<and>
        (\<forall>cb c type session source data sz. c \<in># g_refs g \<longrightarrow>
           (\<exists>b n'. w_cb W cb c type session source data sz n = Inr (b, n') \<and> keeps g n n')))"

lemma keeps_refl: "node_ok g n \<Longrightarrow> keeps g n n"
  by (auto simp: keeps_def)

lemma keeps_ok: "keeps g n n' \<Longrightarrow> node_ok g n'"
  by (simp add: keeps_def)

lemma keepsI:
  assumes "node_ok g n'" "\<exists>ms. ms_m (nd_modules n') = ms_m (nd_modules n) @ ms" "nd_REMOTE n \<noteq> None \<longrightarrow> nd_REMOTE n' \<noteq> None"
    "\<And>c x x'. c \<in># g_refs g \<or> c \<in> g_dying g \<Longrightarrow> nd_ctx n c = Some x \<Longrightarrow> nd_ctx n' c = Some x' \<Longrightarrow> stays x x'"
  shows "keeps g n n'"
  using assms unfolding keeps_def by blast

lemma keeps_remote: "keeps g n n' \<Longrightarrow> nd_REMOTE n \<noteq> None \<Longrightarrow> nd_REMOTE n' \<noteq> None"
  unfolding keeps_def by blast

lemma keeps_cong: "nd_ctx n1 = nd_ctx n \<Longrightarrow> nd_REMOTE n1 = nd_REMOTE n \<Longrightarrow> nd_modules n1 = nd_modules n \<Longrightarrow> keeps g n1 n' = keeps g n n'"
  by (simp add: keeps_def)

lemma keeps_stays:
  "keeps g n n' \<Longrightarrow> c \<in># g_refs g \<or> c \<in> g_dying g \<Longrightarrow> nd_ctx n c = Some x \<Longrightarrow> nd_ctx n' c = Some x' \<Longrightarrow> stays x x'"
  unfolding keeps_def by blast

lemma keeps_then:
  assumes 1: "keeps g n n'" and 2: "keeps g' n' n''"
    and g: "\<And>c. c \<in># g_refs g' \<or> c \<in> g_dying g' \<Longrightarrow> c \<in># g_refs g \<or> c \<in> g_dying g"
  shows "keeps g' n n''"
proof -
  have "stays x x''" if c: "c \<in># g_refs g' \<or> c \<in> g_dying g'" "nd_ctx n c = Some x" "nd_ctx n'' c = Some x''" for c x x''
  proof -
    obtain x' where "nd_ctx n' c = Some x'" using g [OF c(1)] held_live dying_live keeps_ok [OF 1] by blast
    then show ?thesis using keeps_stays [OF 1 g [OF c(1)] c(2)] keeps_stays [OF 2 c(1) _ c(3)] by (auto simp: stays_def)
  qed
  moreover have "\<exists>ms. ms_m (nd_modules n'') = ms_m (nd_modules n) @ ms"
    using 1 2 unfolding keeps_def by (metis append.assoc)
  moreover have "nd_REMOTE n \<noteq> None \<longrightarrow> nd_REMOTE n'' \<noteq> None" using keeps_remote [OF 1] keeps_remote [OF 2] by blast
  ultimately show ?thesis using keeps_ok [OF 2] unfolding keeps_def by blast
qed

lemma keeps_trans: "keeps g n n' \<Longrightarrow> keeps g n' n'' \<Longrightarrow> keeps g n n''"
  by (rule keeps_then)

text \<open>Giving a reference back: the context stays when it was not the last one.\<close>

lemma release_not_last:
  assumes ok: "node_ok (g\<lparr>g_refs := add_mset c (g_refs g)\<rparr>) n" and c: "nd_ctx n c = Some x"
    and more: "refcount g n c \<noteq> 0"
  shows "skynet_context_release W c n = Inr (Some c, ctx_put c (x\<lparr>cx_ref := cx_ref x - 1\<rparr>) n)"
    "node_ok g (ctx_put c (x\<lparr>cx_ref := cx_ref x - 1\<rparr>) n)"
proof -
  let ?g = "g\<lparr>g_refs := add_mset c (g_refs g)\<rparr>"
  have x: "cx_ref x = refcount ?g n c" "cx_ref x = 0 \<longleftrightarrow> c \<in> g_dying ?g" using node_okD(3) [OF ok c] unfolding ctx_ok_def by blast+
  have rc: "refcount ?g n c = refcount g n c + 1" by (simp add: refcount_def)
  have pos: "0 \<le> refcount g n c" by (simp add: refcount_def)
  show "skynet_context_release W c n = Inr (Some c, ctx_put c (x\<lparr>cx_ref := cx_ref x - 1\<rparr>) n)"
    using c x rc more by (simp add: skynet_context_release_def)
  show "node_ok g (ctx_put c (x\<lparr>cx_ref := cx_ref x - 1\<rparr>) n)"
    using x rc more pos by (intro node_ok_put [OF ok c]) simp_all
qed

lemma hs_ok_hof:
  assumes "\<forall>c \<in> contexts s. hof' c = hof c" "hs_ok hof s"
  shows "hs_ok hof' s"
proof -
  have "hof' c = hof c" if "i < length (hs_slot s)" "hs_slot s ! i = Some c" for i c
    using assms(1) that by (auto simp: contexts_iff)
  then show ?thesis using assms(2) unfolding hs_ok_def by simp
qed

lemma context_dec_simps [simp]:
  "nd_ctx (context_dec n) = nd_ctx n" "nd_handles (context_dec n) = nd_handles n" "nd_mqs (context_dec n) = nd_mqs n"
  "nd_modules (context_dec n) = nd_modules n" "nd_total (context_dec n) = nd_total n - 1" "nd_HARBOR (context_dec n) = nd_HARBOR n"
  "nd_REMOTE (context_dec n) = nd_REMOTE n" "nd_alloc (context_dec n) = nd_alloc n"
  by (simp_all add: context_dec_def)

text \<open>Freeing a context without references, its queue marked.\<close>

lemma free_ok:
  assumes ok: "node_ok (g\<lparr>g_dying := insert c (g_dying g)\<rparr>) n" and c: "nd_ctx n c = Some x" "c \<notin> g_dying g"
    and s': "mqs_ok (g_held g @ g_new g) s'" "queue_view s' = (queue_view (nd_mqs n))(cx_queue x \<mapsto> (cx_handle x, 1, l))"
  shows "node_ok g (context_dec (n\<lparr>nd_mqs := s', nd_ctx := (nd_ctx n)(c := None)\<rparr>))" (is "node_ok g ?n")
proof -
  let ?g = "g\<lparr>g_dying := insert c (g_dying g)\<rparr>"
  have x: "cx_ref x = refcount ?g n c" "cx_ref x = 0" "\<exists>l. queue_view (nd_mqs n) (cx_queue x) = Some (cx_handle x, 0, l)"
    using node_okD(3) [OF ok c(1)] unfolding ctx_ok_def by auto
  then have no: "c \<notin> contexts (nd_handles n)" "nd_REMOTE n \<noteq> Some c" "c \<notin># g_refs g" using refcount_0 [of ?g n c] by simp_all
  have rc: "refcount g ?n d = refcount ?g n d" for d by (simp add: refcount_def)
  have old: "nd_ctx n d = Some y \<and> d \<noteq> c" if "nd_ctx ?n d = Some y" for d y using that by (simp split: if_splits)
  have view: "queue_view (nd_mqs ?n) = (queue_view (nd_mqs n))(cx_queue x \<mapsto> (cx_handle x, 1, l))" using s'(2) by simp
  have handle: "\<exists>v. queue_view (nd_mqs n) r = Some (h, v)" if "queue_view (nd_mqs ?n) r = Some (h, v)" for r h v
    using that x(3) view by (auto split: if_splits)
  show ?thesis
  proof (rule node_okI)
    show "hs_ok (node_hof ?n) (nd_handles ?n)"
      using hs_ok_hof [OF _ node_okD(1) [OF ok], of "node_hof ?n"] no by (auto simp: node_hof_def)
    show "ctx_ok g ?n d y" if "nd_ctx ?n d = Some y" for d y
    proof -
      have d: "nd_ctx n d = Some y" "d \<noteq> c" using old [OF that] by auto
      then have "cx_queue y \<noteq> cx_queue x" using node_okD(5) [OF ok d(1) c(1)] by auto
      then show ?thesis using node_okD(3) [OF ok d(1)] d(2) view unfolding ctx_ok_def rc by fastforce
    qed
    show "refcount g ?n d = 0 \<and> d \<notin> g_dying g" if "nd_ctx ?n d = None" for d
    proof (cases "d = c")
      case True
      then show ?thesis using x c(2) unfolding rc by simp
    next
      case False
      then have "nd_ctx n d = None" using that by simp
      then show ?thesis using node_okD(4) [OF ok, of d] unfolding rc by simp
    qed
    show "d = e" if "nd_ctx ?n d = Some a" "nd_ctx ?n e = Some b" "cx_queue a = cx_queue b" for d e a b
      using old [OF that(1)] old [OF that(2)] that(3) node_okD(5) [OF ok, of d a e b] by blast
    show "r = r'" if "queue_view (nd_mqs ?n) r = Some (h, v)" "queue_view (nd_mqs ?n) r' = Some (h, v')" for r r' h v v'
      using handle [OF that(1)] handle [OF that(2)] node_okD(6) [OF ok, of r h _ r'] by blast
    show "r < nd_alloc ?n \<and> h \<noteq> 0 \<and> h AND HANDLE_MASK < hs_handle_index (nd_handles ?n)" if "queue_view (nd_mqs ?n) r = Some (h, v)" for r h v
      using handle [OF that] node_okD(7) [OF ok, of r h] by auto
    have dom: "dom (nd_ctx ?n) = dom (nd_ctx n) - {c}" by auto
    then show "finite (dom (nd_ctx ?n))" using node_okD(8) [OF ok] by simp
    have "card (dom (nd_ctx n)) = Suc (card (dom (nd_ctx ?n)))"
      unfolding dom using node_okD(8) [OF ok] c(1) by (intro card.remove) auto
    then show "nd_total ?n = int (card (dom (nd_ctx ?n))) - g_reserved g" using node_okD(10) [OF ok] by simp
    show "d < nd_alloc ?n" if "nd_ctx ?n d = Some y" for d y using old [OF that] node_okD(9) [OF ok, of d y] by simp
  qed (use node_okD(11,12,13) [OF ok] s'(1) in simp_all)
qed

lemma module_of_ok:
  "node_ok g n \<Longrightarrow> nd_ctx n c = Some x \<Longrightarrow> module_of (cx_mod x) n = Inr (ms_m (nd_modules n) ! cx_mod x)"
  using node_okD(3) [of g n c x] by (simp add: module_of_def ctx_ok_def)

lemma instance_release_ok:
  assumes "world_ok W" "node_ok g n" "nd_ctx n c = Some x"
  shows "\<exists>n'. skynet_module_instance_release W (cx_mod x) inst n = Inr n' \<and> keeps g n n'"
  using assms(1) assms(2) keeps_refl [OF assms(2)] unfolding skynet_module_instance_release_def module_of_ok [OF assms(2,3)] world_ok_def
  by (auto split: option.splits)

lemma ctx_release_last:
  assumes ok: "node_ok (g\<lparr>g_refs := add_mset c (g_refs g)\<rparr>) n" and c: "nd_ctx n c = Some x"
    and lst: "refcount g n c = 0" and W: "world_ok W"
  shows "\<exists>n'. skynet_context_release W c n = Inr (None, n') \<and> keeps g n n' \<and> nd_ctx n' c = None \<and>
    (\<forall>d y. nd_ctx n' d = Some y \<longrightarrow> cx_queue y \<noteq> cx_queue x) \<and> (\<exists>l. queue_view (nd_mqs n') (cx_queue x) = Some (cx_handle x, 1, l))"
proof -
  let ?g = "g\<lparr>g_refs := add_mset c (g_refs g)\<rparr>" and ?d = "g\<lparr>g_dying := insert c (g_dying g)\<rparr>"
  let ?n = "ctx_put c (x\<lparr>cx_ref := cx_ref x - 1\<rparr>) n"
  have x: "cx_ref x = refcount ?g n c" "cx_ref x = 0 \<longleftrightarrow> c \<in> g_dying ?g" using node_okD(3) [OF ok c] unfolding ctx_ok_def by blast+
  have rc: "refcount ?g n c = 1" "refcount ?d n c = 0" using lst by (simp_all add: refcount_def)
  have new: "c \<notin> g_dying g" "c \<notin># g_refs g" using x rc lst refcount_0 [of g n c] by auto
  have ok1: "node_ok ?d ?n" using x rc by (intro node_ok_put [OF ok c]) simp_all
  obtain n2 where n2: "skynet_module_instance_release W (cx_mod x) (cx_instance x) ?n = Inr n2" "keeps ?d ?n n2"
    using instance_release_ok [OF W ok1, of c "x\<lparr>cx_ref := cx_ref x - 1\<rparr>"] by auto
  note ok2 = keeps_ok [OF n2(2)]
  obtain y where y: "nd_ctx n2 c = Some y" using dying_live [OF ok2, of c] by auto
  obtain l where l: "queue_view (nd_mqs n2) (cx_queue y) = Some (cx_handle y, 0, l)"
    using node_okD(3) [OF ok2 y] by (auto simp: ctx_ok_def)
  obtain s' where s': "skynet_mq_mark_release (cx_queue y) (nd_mqs n2) = Inr s'" "mqs_ok (g_held g @ g_new g) s'"
    "queue_view s' = (queue_view (nd_mqs n2))(cx_queue y \<mapsto> (cx_handle y, 1, l))"
    using mqs_mark [OF node_okD(2) [OF ok2] l] by auto
  let ?n3 = "context_dec (n2\<lparr>nd_mqs := s', nd_ctx := (nd_ctx n2)(c := None)\<rparr>)"
  have "keeps g n ?n3"
  proof (rule keepsI)
    show "node_ok g ?n3" by (rule free_ok [OF ok2 y new(1) s'(2,3)])
    show "\<exists>ms. ms_m (nd_modules ?n3) = ms_m (nd_modules n) @ ms" using n2(2) by (simp add: keeps_def)
    show "nd_REMOTE n \<noteq> None \<longrightarrow> nd_REMOTE ?n3 \<noteq> None" using keeps_remote [OF n2(2)] by simp
    fix d a b
    assume d: "d \<in># g_refs g \<or> d \<in> g_dying g" "nd_ctx n d = Some a" "nd_ctx ?n3 d = Some b"
    then have "d \<noteq> c" using new by auto
    then have "nd_ctx ?n d = Some a" "nd_ctx n2 d = Some b" using d(2,3) by simp_all
    then show "stays a b" using keeps_stays [OF n2(2), of d a b] d(1) by auto
  qed
  moreover have yx: "cx_queue y = cx_queue x" "cx_handle y = cx_handle x" using keeps_stays [OF n2(2), of c _ y] y by (simp_all add: stays_def)
  moreover have "cx_queue z \<noteq> cx_queue x" if "nd_ctx ?n3 d = Some z" for d z
  proof -
    have d: "d \<noteq> c" "nd_ctx n2 d = Some z" using that by (auto split: if_splits)
    then show ?thesis using node_okD(5) [OF ok2 d(2) y] yx by auto
  qed
  moreover have "queue_view (nd_mqs ?n3) (cx_queue x) = Some (cx_handle x, 1, l)" using s'(3) yx by simp
  moreover have "skynet_context_release W c n = Inr (None, ?n3)"
    using c x rc n2(1) y s'(1) by (simp add: skynet_context_release_def delete_context_def)
  ultimately show ?thesis by (intro exI [of _ ?n3]) simp
qed

lemma ctx_release_ok:
  assumes ok: "node_ok (g\<lparr>g_refs := add_mset c (g_refs g)\<rparr>) n" and W: "world_ok W"
  obtains x ret n' where "nd_ctx n c = Some x" "skynet_context_release W c n = Inr (ret, n')" "keeps g n n'"
    "ret = Some c \<and> n' = ctx_put c (x\<lparr>cx_ref := cx_ref x - 1\<rparr>) n \<or> ret = None \<and> (\<forall>d y. nd_ctx n' d = Some y \<longrightarrow> cx_queue y \<noteq> cx_queue x) \<and> (\<exists>l. queue_view (nd_mqs n') (cx_queue x) = Some (cx_handle x, 1, l))"
proof -
  obtain x where c: "nd_ctx n c = Some x" using held_live [OF ok, of c] by auto
  show thesis
  proof (cases "refcount g n c = 0")
    case True
    then show thesis using ctx_release_last [OF ok c True W] that [OF c] by blast
  next
    case False
    let ?n = "ctx_put c (x\<lparr>cx_ref := cx_ref x - 1\<rparr>) n"
    have "keeps g n ?n"
      by (rule keepsI [OF release_not_last(2) [OF ok c False]]) (use c in \<open>auto simp: stays_def split: if_splits\<close>)
    then show thesis using release_not_last(1) [OF ok c False] that [OF c] by blast
  qed
qed

section \<open>Messages\<close>

text \<open>Changing queues without changing which there are, to whom they belong and whether they are released.\<close>

definition same_owners :: "'m mqs \<Rightarrow> 'm mqs \<Rightarrow> bool" where
  "same_owners s s' \<longleftrightarrow> (\<forall>r. map_option (\<lambda>(h, rel, l). (h, rel)) (queue_view s' r) = map_option (\<lambda>(h, rel, l). (h, rel)) (queue_view s r))"

lemma same_ownersD:
  assumes "same_owners s s'" "queue_view s' r = Some (h, rel, l)"
  shows "\<exists>l. queue_view s r = Some (h, rel, l)"
proof -
  have "map_option (\<lambda>(h, rel, l). (h, rel)) (queue_view s r) = Some (h, rel)"
    using assms(1) [unfolded same_owners_def, rule_format, of r] assms(2) by simp
  then show ?thesis by auto
qed

lemma same_owners_sym: "same_owners s s' \<Longrightarrow> same_owners s' s"
  by (simp add: same_owners_def)

lemma same_owners_view: "queue_view s' = queue_view s \<Longrightarrow> same_owners s s'"
  by (simp add: same_owners_def)

lemma same_owners_upd: "queue_view s r = Some (h, rel, l) \<Longrightarrow> queue_view s' = (queue_view s)(r \<mapsto> (h, rel, l')) \<Longrightarrow> same_owners s s'"
  by (simp add: same_owners_def)

lemma node_ok_mqs:
  assumes ok: "node_ok g n" and s': "mqs_ok (g_held g' @ g_new g') s'" "same_owners (nd_mqs n) s'"
    and g: "g_refs g' = g_refs g" "g_dying g' = g_dying g" "g_reserved g' = g_reserved g"
    and new: "\<And>c x. nd_ctx n c = Some x \<Longrightarrow> \<not> cx_init x \<Longrightarrow> c \<in> contexts (nd_handles n) \<Longrightarrow> cx_queue x \<in> set (g_new g')"
  shows "node_ok g' (n\<lparr>nd_mqs := s'\<rparr>)" (is "node_ok _ ?n")
proof -
  have rc: "refcount g' ?n c = refcount g n c" for c using g by (simp add: refcount_def)
  have handle: "\<exists>v. queue_view (nd_mqs n) r = Some (h, v)" if "queue_view (nd_mqs ?n) r = Some (h, v)" for r h v
    using same_ownersD [OF s'(2), of r h "fst v" "snd v"] that by auto
  have hof: "node_hof ?n = node_hof n" by (rule node_hof_cong) simp
  show ?thesis
  proof (rule node_okI)
    show "ctx_ok g' ?n c x" if "nd_ctx ?n c = Some x" for c x
    proof -
      have c: "nd_ctx n c = Some x" using that by simp
      obtain l where "queue_view (nd_mqs n) (cx_queue x) = Some (cx_handle x, 0, l)"
        using node_okD(3) [OF ok c] by (auto simp: ctx_ok_def)
      then have "\<exists>l. queue_view s' (cx_queue x) = Some (cx_handle x, 0, l)" by (rule same_ownersD [OF same_owners_sym [OF s'(2)]])
      then show ?thesis by (intro ctx_ok_upd [OF node_okD(3) [OF ok c] rc g(2)]) (use new [OF c] in simp_all)
    qed
    show "refcount g' ?n c = 0 \<and> c \<notin> g_dying g'" if "nd_ctx ?n c = None" for c
      using that node_okD(4) [OF ok, of c] g(2) unfolding rc by simp
    show "r = r'" if "queue_view (nd_mqs ?n) r = Some (h, v)" "queue_view (nd_mqs ?n) r' = Some (h, v')" for r r' h v v'
      using handle [OF that(1)] handle [OF that(2)] node_okD(6) [OF ok, of r h _ r'] by blast
    show "r < nd_alloc ?n \<and> h \<noteq> 0 \<and> h AND HANDLE_MASK < hs_handle_index (nd_handles ?n)" if "queue_view (nd_mqs ?n) r = Some (h, v)" for r h v
      using handle [OF that] node_okD(7) [OF ok, of r h] by auto
    show "hs_ok (node_hof ?n) (nd_handles ?n)" unfolding hof using node_okD(1) [OF ok] by simp
  qed (use s'(1) node_okD(5,8,9,10,11,12,13) [OF ok] g(3) in simp_all)
qed

lemma node_ok_mqs_same:
  assumes "node_ok g n" "mqs_ok (g_held g @ g_new g) s'" "same_owners (nd_mqs n) s'"
  shows "node_ok g (n\<lparr>nd_mqs := s'\<rparr>)"
proof (rule node_ok_mqs [OF assms])
  show "cx_queue x \<in> set (g_new g)" if "nd_ctx n c = Some x" "\<not> cx_init x" "c \<in> contexts (nd_handles n)" for c x
    using node_okD(3) [OF assms(1) that(1)] that(2,3) by (simp add: ctx_ok_def)
qed simp_all

lemma context_queue:
  "node_ok g n \<Longrightarrow> nd_ctx n c = Some x \<Longrightarrow> \<exists>l. queue_view (nd_mqs n) (cx_queue x) = Some (cx_handle x, 0, l)"
  using node_okD(3) [of g n c x] by (simp add: ctx_ok_def)

lemma push_at_ok:
  assumes ok: "node_ok g n" and r: "queue_view (nd_mqs n) r = Some (h, 0, l)"
  shows "\<exists>s'. mq_push_at r m n = Inr (n\<lparr>nd_mqs := s'\<rparr>) \<and> node_ok g (n\<lparr>nd_mqs := s'\<rparr>) \<and>
    queue_view s' = (queue_view (nd_mqs n))(r \<mapsto> (h, 0, l @ [m]))"
proof -
  obtain s' where s': "skynet_mq_push r m (nd_mqs n) = Inr s'" "mqs_ok (g_held g @ g_new g) s'"
    "queue_view s' = (queue_view (nd_mqs n))(r \<mapsto> (h, 0, l @ [m]))"
    using mqs_push [OF node_okD(2) [OF ok] r] by blast
  then show ?thesis
    using node_ok_mqs_same [OF ok s'(2) same_owners_upd [OF r s'(3)]] by (auto simp: mq_push_at_def)
qed

lemma same_owners_keeps: "node_ok g (n\<lparr>nd_mqs := s'\<rparr>) \<Longrightarrow> keeps g n (n\<lparr>nd_mqs := s'\<rparr>)"
  by (rule keepsI) auto

text \<open>Pushing to a handle that nobody has does nothing; otherwise the message is appended to the mailbox.\<close>

lemma context_push_none:
  "node_ok g n \<Longrightarrow> \<forall>c \<in> contexts (nd_handles n). node_hof n c \<noteq> h \<Longrightarrow> skynet_context_push W h m n = Inr (- 1, n)"
  using handle_grab_ok [of g n h] by (fastforce simp: skynet_context_push_def node_hof_def)

lemma ctx_put_back: "nd_ctx n c = Some x \<Longrightarrow> ctx_put c x ((ctx_put c y n)\<lparr>nd_mqs := s\<rparr>) = n\<lparr>nd_mqs := s\<rparr>"
proof -
  assume "nd_ctx n c = Some x"
  then have "(nd_ctx n)(c \<mapsto> y, c \<mapsto> x) = nd_ctx n" by (auto simp: fun_eq_iff)
  then show ?thesis by (simp add: ctx_put_def)
qed

lemma context_push_live:
  assumes ok: "node_ok g n" and c: "c \<in> contexts (nd_handles n)" "nd_ctx n c = Some x"
    and l: "queue_view (nd_mqs n) (cx_queue x) = Some (cx_handle x, 0, l)"
  shows "\<exists>s'. skynet_context_push W (cx_handle x) m n = Inr (0, n\<lparr>nd_mqs := s'\<rparr>) \<and> node_ok g (n\<lparr>nd_mqs := s'\<rparr>) \<and>
    queue_view s' = (queue_view (nd_mqs n))(cx_queue x \<mapsto> (cx_handle x, 0, l @ [m]))"
proof -
  let ?x = "x\<lparr>cx_ref := cx_ref x + 1\<rparr>" and ?g = "g\<lparr>g_refs := add_mset c (g_refs g)\<rparr>"
  have grab: "handle_grab (cx_handle x) n = Inr (Some c, ctx_put c ?x n)" "node_ok ?g (ctx_put c ?x n)"
  proof -
    have *: "skynet_handle_grab (node_hof n) (cx_handle x) (nd_handles n) = Some c"
      using grab_iff [OF node_okD(1) [OF ok], of "cx_handle x" c] c by (simp add: node_hof_def)
    have "refcount g n c \<noteq> 0" using c(1) by (simp add: refcount_0)
    then have "c \<notin> g_dying g" using node_okD(3) [OF ok c(2)] by (auto simp: ctx_ok_def)
    then show "handle_grab (cx_handle x) n = Inr (Some c, ctx_put c ?x n)" "node_ok ?g (ctx_put c ?x n)"
      using grab_ok [OF ok c(2)] * by (simp_all add: handle_grab_def)
  qed
  obtain s' where s': "mq_push_at (cx_queue x) m (ctx_put c ?x n) = Inr ((ctx_put c ?x n)\<lparr>nd_mqs := s'\<rparr>)"
    "node_ok ?g ((ctx_put c ?x n)\<lparr>nd_mqs := s'\<rparr>)" "queue_view s' = (queue_view (nd_mqs n))(cx_queue x \<mapsto> (cx_handle x, 0, l @ [m]))"
    using push_at_ok [OF grab(2), of "cx_queue x" "cx_handle x" l m] l by auto
  have "refcount g ((ctx_put c ?x n)\<lparr>nd_mqs := s'\<rparr>) c \<noteq> 0" using c(1) by (simp add: refcount_0)
  from release_not_last [OF s'(2) _ this, of ?x] have
    "skynet_context_release W c ((ctx_put c ?x n)\<lparr>nd_mqs := s'\<rparr>) = Inr (Some c, n\<lparr>nd_mqs := s'\<rparr>)" "node_ok g (n\<lparr>nd_mqs := s'\<rparr>)"
    using ctx_put_back [OF c(2)] by simp_all
  then show ?thesis using grab(1) s'(1,3) by (auto simp: skynet_context_push_def)
qed

lemma context_push_ok:
  assumes ok: "node_ok g n"
  shows "\<exists>r s'. skynet_context_push W h m n = Inr (r, n\<lparr>nd_mqs := s'\<rparr>) \<and> node_ok g (n\<lparr>nd_mqs := s'\<rparr>)"
proof (cases "\<forall>c \<in> contexts (nd_handles n). node_hof n c \<noteq> h")
  case True
  then show ?thesis using context_push_none [OF ok True] ok by (intro exI [of _ "- 1"] exI [of _ "nd_mqs n"]) simp
next
  case False
  then obtain c where c: "c \<in> contexts (nd_handles n)" "node_hof n c = h" by blast
  obtain x where x: "nd_ctx n c = Some x" using registered_live [OF ok c(1)] by blast
  then have h: "cx_handle x = h" using c(2) by (simp add: node_hof_def)
  obtain l where "queue_view (nd_mqs n) (cx_queue x) = Some (cx_handle x, 0, l)" using context_queue [OF ok x] by blast
  then show ?thesis using context_push_live [OF ok c(1) x] h by blast
qed

text \<open>The logger gets its message when there is one; nothing else changes.\<close>

lemma error_ok:
  assumes ok: "node_ok g n" and c: "\<And>c. co = Some c \<Longrightarrow> \<exists>x. nd_ctx n c = Some x"
  shows "\<exists>s' lg. skynet_error W co t n = Inr (n\<lparr>nd_logger := lg, nd_mqs := s'\<rparr>) \<and> node_ok g (n\<lparr>nd_logger := lg, nd_mqs := s'\<rparr>)"
proof -
  define lg where "lg = (if nd_logger n = 0 then skynet_handle_findname ''logger'' (nd_handles n) else nd_logger n)"
  let ?n = "n\<lparr>nd_logger := lg\<rparr>"
  have ok': "node_ok g ?n" using ok by simp
  obtain src where src: "(case co of None \<Rightarrow> Inr 0 | Some c \<Rightarrow> skynet_context_handle c ?n) = Inr src"
    using c by (cases co) (force simp: skynet_context_handle_def ctx_get_def)+
  show ?thesis
  proof (cases "lg = 0")
    case True
    then have "skynet_error W co t n = Inr ?n" by (simp add: skynet_error_def lg_def [symmetric] Let_def)
    then show ?thesis using ok' by (intro exI [of _ "nd_mqs n"] exI [of _ lg]) simp
  next
    case False
    obtain r s' where "skynet_context_push W lg \<lparr>msg_source = src, msg_session = 0, msg_data = Some (Raw (error_data t)),
                  msg_sz = of_nat (length t) OR push_bit MESSAGE_TYPE_SHIFT (of_nat PTYPE_TEXT)\<rparr> ?n = Inr (r, ?n\<lparr>nd_mqs := s'\<rparr>)"
      "node_ok g (?n\<lparr>nd_mqs := s'\<rparr>)"
      using context_push_ok [OF ok'] by blast
    then show ?thesis using False src by (auto simp: skynet_error_def lg_def [symmetric] Let_def)
  qed
qed

lemma keeps_same_ctx: "node_ok g n' \<Longrightarrow> nd_ctx n' = nd_ctx n \<Longrightarrow> nd_modules n' = nd_modules n \<Longrightarrow> nd_REMOTE n' = nd_REMOTE n \<Longrightarrow> keeps g n n'"
  by (rule keepsI) auto

lemma error_keeps:
  assumes "node_ok g n" "\<And>c. co = Some c \<Longrightarrow> \<exists>x. nd_ctx n c = Some x"
  shows "\<exists>n'. skynet_error W co t n = Inr n' \<and> keeps g n n' \<and> nd_ctx n' = nd_ctx n \<and> nd_handles n' = nd_handles n \<and> nd_REMOTE n' = nd_REMOTE n"
proof -
  obtain s' lg where *: "skynet_error W co t n = Inr (n\<lparr>nd_logger := lg, nd_mqs := s'\<rparr>)" "node_ok g (n\<lparr>nd_logger := lg, nd_mqs := s'\<rparr>)"
    using error_ok [OF assms] by blast
  then show ?thesis using keeps_same_ctx [OF *(2), of n] by simp
qed

text \<open>Retiring a handle takes the context out of the registry and gives the registry's reference back.\<close>

lemma retire_index: "skynet_handle_retire hof h s = (b, ctx, s') \<Longrightarrow> hs_handle_index s' = hs_handle_index s"
  by (auto simp: skynet_handle_retire_def Let_def split: option.splits if_splits prod.splits)

lemma unregister_ok:
  assumes ok: "node_ok g n" and r: "skynet_handle_retire (node_hof n) h (nd_handles n) = (b, ctx, s)"
  shows "ctx = None \<Longrightarrow> b = False \<and> node_ok g (n\<lparr>nd_handles := s\<rparr>)"
    "ctx = Some c \<Longrightarrow> b = True \<and> node_ok (g\<lparr>g_refs := add_mset c (g_refs g)\<rparr>) (n\<lparr>nd_handles := s\<rparr>)"
proof -
  note R = retire_ok [OF node_okD(1) [OF ok] r]
  have hof: "node_hof (n\<lparr>nd_handles := s\<rparr>) = node_hof n" by (rule node_hof_cong) simp
  have grab: "ctx = Some c \<longleftrightarrow> c \<in> contexts (nd_handles n) \<and> node_hof n c = h" for c
    using R(3) grab_iff [OF node_okD(1) [OF ok], of h c] by simp
  have same: "node_ok g' (n\<lparr>nd_handles := s\<rparr>)"
    if g': "g_dying g' = g_dying g" "g_held g' = g_held g" "g_new g' = g_new g" "g_reserved g' = g_reserved g"
      and rc: "\<And>c. refcount g' (n\<lparr>nd_handles := s\<rparr>) c = refcount g n c" for g'
  proof (rule node_okI)
    show "ctx_ok g' (n\<lparr>nd_handles := s\<rparr>) c x" if "nd_ctx (n\<lparr>nd_handles := s\<rparr>) c = Some x" for c x
      using ctx_ok_mono [OF node_okD(3) [OF ok, of c x] rc] that g' R(2) by auto
    show "refcount g' (n\<lparr>nd_handles := s\<rparr>) c = 0 \<and> c \<notin> g_dying g'" if "nd_ctx (n\<lparr>nd_handles := s\<rparr>) c = None" for c
      using node_okD(4) [OF ok, of c] that g' unfolding rc by simp
    show "hs_ok (node_hof (n\<lparr>nd_handles := s\<rparr>)) (nd_handles (n\<lparr>nd_handles := s\<rparr>))" unfolding hof using R(1) by simp
    show "q < nd_alloc (n\<lparr>nd_handles := s\<rparr>) \<and> h \<noteq> 0 \<and> h AND HANDLE_MASK < hs_handle_index (nd_handles (n\<lparr>nd_handles := s\<rparr>))"
      if "queue_view (nd_mqs (n\<lparr>nd_handles := s\<rparr>)) q = Some (h, v)" for q h v
      using node_okD(7) [OF ok, of q h v] that retire_index [OF r] by simp
  qed (use node_okD(2,5,6,8,9,10,11,12,13) [OF ok] g' in simp_all)
  show "b = False \<and> node_ok g (n\<lparr>nd_handles := s\<rparr>)" if none: "ctx = None"
  proof -
    have "contexts s = contexts (nd_handles n)" using R(2) grab none by auto
    then have "node_ok g (n\<lparr>nd_handles := s\<rparr>)" by (intro same) (simp_all add: refcount_def)
    then show ?thesis using R(4) none by simp
  qed
  show "b = True \<and> node_ok (g\<lparr>g_refs := add_mset c (g_refs g)\<rparr>) (n\<lparr>nd_handles := s\<rparr>)" if some: "ctx = Some c"
  proof -
    have "d = c" if "d \<in> contexts (nd_handles n)" "node_hof n d = h" for d using grab [of d] some that by simp
    then have c: "c \<in> contexts (nd_handles n)" "contexts s = contexts (nd_handles n) - {c}" using R(2) grab [of c] some by auto
    then have "node_ok (g\<lparr>g_refs := add_mset c (g_refs g)\<rparr>) (n\<lparr>nd_handles := s\<rparr>)" by (intro same) (auto simp: refcount_def)
    then show ?thesis using R(4) some by simp
  qed
qed

lemma handle_retire_ok:
  assumes ok: "node_ok g n" and W: "world_ok W"
  shows "\<exists>b n'. handle_retire W h n = Inr (b, n') \<and> keeps g n n'"
proof -
  obtain b ctx s where r: "skynet_handle_retire (node_hof n) h (nd_handles n) = (b, ctx, s)" by (metis prod.exhaust)
  show ?thesis
  proof (cases ctx)
    case None
    then show ?thesis using unregister_ok(1) [OF ok r] r by (auto simp: handle_retire_def intro: keeps_same_ctx)
  next
    case (Some c)
    have "node_ok (g\<lparr>g_refs := add_mset c (g_refs g)\<rparr>) (n\<lparr>nd_handles := s\<rparr>)" using unregister_ok(2) [OF ok r Some] by simp
    from ctx_release_ok [OF this W] obtain ret n' where "skynet_context_release W c (n\<lparr>nd_handles := s\<rparr>) = Inr (ret, n')"
      "keeps g (n\<lparr>nd_handles := s\<rparr>) n'" by metis
    then show ?thesis using r Some keeps_cong [of "n\<lparr>nd_handles := s\<rparr>" n g n'] by (simp add: handle_retire_def)
  qed
qed

lemma newsession_ok:
  assumes ok: "node_ok g n" and c: "nd_ctx n c = Some x"
  shows "\<exists>k y. skynet_context_newsession c n = Inr (k, ctx_put c y n) \<and> node_ok g (ctx_put c y n) \<and>
    cx_handle y = cx_handle x \<and> stays x y"
proof -
  obtain k where "skynet_context_newsession c n = Inr (k, ctx_put c (x\<lparr>cx_session_id := k\<rparr>) n)"
    using c by (simp add: skynet_context_newsession_def Let_def)
  then show ?thesis using node_ok_put_same [OF ok c, of "x\<lparr>cx_session_id := k\<rparr>"]
    by (intro exI [of _ k] exI [of _ "x\<lparr>cx_session_id := k\<rparr>"]) (simp add: stays_def)
qed

text \<open>What a sender has to take care of.\<close>

definition send_args_ok :: "ctxref option \<Rightarrow> u32 \<Rightarrow> nat \<Rightarrow> int \<Rightarrow> bytes option \<Rightarrow> u64 \<Rightarrow> node \<Rightarrow> bool" where
  "send_args_ok co source type session data sz n \<longleftrightarrow>
     (\<forall>c. co = Some c \<longrightarrow> nd_ctx n c \<noteq> None) \<and> (co = None \<longrightarrow> source \<noteq> 0 \<and> \<not> has_tag type PTYPE_TAG_ALLOCSESSION) \<and>
     (has_tag type PTYPE_TAG_ALLOCSESSION \<longrightarrow> session = 0) \<and>
     (\<forall>bs. data = Some bs \<longrightarrow> has_tag type PTYPE_TAG_DONTCOPY \<or> unat sz \<le> length bs) \<and>
     invalid_type (type AND 0xff)"

lemma filter_args_ok:
  assumes ok: "node_ok g n" and a: "send_args_ok co source type session data sz n"
  shows "\<exists>k d n'. filter_args co type session data sz n = Inr (k, d, sz OR push_bit MESSAGE_TYPE_SHIFT (of_nat (type AND 0xff)), n') \<and>
    keeps g n n' \<and> nd_REMOTE n' = nd_REMOTE n \<and> dom (nd_ctx n') = dom (nd_ctx n) \<and> (d = None \<longleftrightarrow> data = None)"
proof -
  have "\<exists>k n'. (if has_tag type PTYPE_TAG_ALLOCSESSION then rbind (cassert (session = 0)) (\<lambda>_. rbind (nonnull co) (\<lambda>c. skynet_context_newsession c n))
      else Inr (session, n)) = Inr (k, n') \<and> keeps g n n' \<and> nd_REMOTE n' = nd_REMOTE n \<and> dom (nd_ctx n') = dom (nd_ctx n)"
  proof (cases "has_tag type PTYPE_TAG_ALLOCSESSION")
    case False
    then show ?thesis using keeps_refl [OF ok] by simp
  next
    case True
    then obtain c x where c: "co = Some c" "nd_ctx n c = Some x" "session = 0" using a unfolding send_args_ok_def by (cases co) auto
    obtain k y where y: "skynet_context_newsession c n = Inr (k, ctx_put c y n)" "node_ok g (ctx_put c y n)" "stays x y"
      using newsession_ok [OF ok c(2)] by blast
    have "keeps g n (ctx_put c y n)" by (rule keepsI [OF y(2)]) (use c y(3) in \<open>auto split: if_splits\<close>)
    then show ?thesis using True c y by (auto simp: nonnull_def)
  qed
  moreover have "\<exists>d. (case data of None \<Rightarrow> Inr None | Some bs \<Rightarrow> if has_tag type PTYPE_TAG_DONTCOPY then Inr (Some bs)
        else if length bs < unat sz then Inl OutOfBounds else Inr (Some (take (unat sz) bs @ [0]))) = (Inr d :: bytes option result) \<and> (d = None \<longleftrightarrow> data = None)"
    using a unfolding send_args_ok_def by (cases data) auto
  ultimately show ?thesis unfolding filter_args_def by force
qed

lemma pack_type:
  assumes "sz AND MESSAGE_TYPE_MASK = sz" "t < 256"
  shows "unat (drop_bit MESSAGE_TYPE_SHIFT (sz OR push_bit MESSAGE_TYPE_SHIFT (of_nat t) :: u64)) = t"
  using msg_sz_pack(2) [OF assms] .

lemma and_ff_less: "(type :: nat) AND 0xff < 256"
proof -
  have "type AND 0xff = take_bit 8 type" by (simp add: take_bit_eq_mask mask_eq_exp_minus_1)
  then show ?thesis using take_bit_nat_less_exp [of 8 type] by simp
qed

lemma send_keeps:
  assumes ok: "node_ok g n" and a: "send_args_ok co source type session data sz n" and up: "nd_REMOTE n \<noteq> None"
  shows "\<exists>k n'. skynet_send W co source destination type session data sz n = Inr (k, n') \<and> keeps g n n'"
proof (cases "sz AND MESSAGE_TYPE_MASK = sz")
  case False
  have "\<exists>x. nd_ctx n c = Some x" if "co = Some c" for c using a that by (auto simp: send_args_ok_def)
  from error_keeps [OF ok this] obtain n' where
    "skynet_error W co (''The message to '' @ fmt_x destination @ '' is too large'') n = Inr n'" "keeps g n n'" by blast
  then show ?thesis using False by (simp add: skynet_send_def)
next
  case True
  obtain k d n1 where f: "filter_args co type session data sz n = Inr (k, d, sz OR push_bit MESSAGE_TYPE_SHIFT (of_nat (type AND 0xff)), n1)"
    "keeps g n n1" "nd_REMOTE n1 = nd_REMOTE n" "dom (nd_ctx n1) = dom (nd_ctx n)"
    using filter_args_ok [OF ok a] by blast
  note ok1 = keeps_ok [OF f(2)]
  let ?sz = "sz OR push_bit MESSAGE_TYPE_SHIFT (of_nat (type AND 0xff)) :: u64"
  have co: "\<exists>x. nd_ctx n1 c = Some x" if "co = Some c" for c using a that f(4) by (auto simp: send_args_ok_def)
  have "\<exists>src. (if source = 0 then rbind (nonnull co) (\<lambda>c. skynet_context_handle c n1) else Inr source) = Inr src"
    using a co by (cases co) (auto simp: send_args_ok_def nonnull_def skynet_context_handle_def ctx_get_def)
  then obtain src where src: "(if source = 0 then rbind (nonnull co) (\<lambda>c. skynet_context_handle c n1) else Inr source) = Inr src" by blast
  obtain rem where rem: "skynet_harbor_message_isremote destination n1 = Inr rem"
    using node_okD(13) [OF ok1] by (simp add: skynet_harbor_message_isremote_def Let_def)
  have type: "unat (drop_bit MESSAGE_TYPE_SHIFT ?sz) = type AND 0xff" by (rule pack_type [OF True and_ff_less])
  have "\<exists>k n'. skynet_send W co source destination type session data sz n = Inr (k, n') \<and> keeps g n1 n'"
  proof (cases "destination = 0")
    case zero: True
    show ?thesis
    proof (cases "d = None")
      case True
      then show ?thesis using f(1) src zero keeps_refl [OF ok1] \<open>sz AND _ = sz\<close> by (simp add: skynet_send_def)
    next
      case False
      from error_keeps [OF ok1 co] obtain n2 where
        "skynet_error W co ''Destination address can't be 0'' n1 = Inr n2" "keeps g n1 n2" by blast
      then show ?thesis using f(1) src zero False True by (simp add: skynet_send_def)
    qed
  next
    case nz: False
    show ?thesis
    proof (cases rem)
      case True
      obtain c x l where c: "nd_REMOTE n1 = Some c" "nd_ctx n1 c = Some x" "queue_view (nd_mqs n1) (cx_queue x) = Some (cx_handle x, 0, l)"
        using up f(3) remote_live [OF ok1] context_queue [OF ok1] by (metis not_None_eq)
      have "invalid_type (type AND 0xff)" using a by (simp add: send_args_ok_def)
      then have "\<exists>n2. skynet_harbor_send \<lparr>rm_name = [], rm_handle = destination, rm_message = d, rm_sz = ?sz AND MESSAGE_TYPE_MASK,
          rm_type = unat (drop_bit MESSAGE_TYPE_SHIFT ?sz)\<rparr> src k n1 = Inr n2 \<and> keeps g n1 n2"
        using push_at_ok [OF ok1 c(3)] c same_owners_keeps unfolding type by (fastforce simp: skynet_harbor_send_def skynet_context_send_def)
      then show ?thesis using f(1) src nz rem True \<open>sz AND _ = sz\<close> by (auto simp: skynet_send_def)
    next
      case False
      obtain r s' where "skynet_context_push W destination \<lparr>msg_source = src, msg_session = k, msg_data = map_option Raw d, msg_sz = ?sz\<rparr> n1 = Inr (r, n1\<lparr>nd_mqs := s'\<rparr>)"
        "node_ok g (n1\<lparr>nd_mqs := s'\<rparr>)" using context_push_ok [OF ok1] by blast
      then show ?thesis using f(1) src nz rem False True same_owners_keeps by (auto simp: skynet_send_def)
    qed
  qed
  then show ?thesis using keeps_trans [OF f(2)] by blast
qed

lemma drop_message_ok:
  assumes "node_ok g n" "h \<noteq> 0" "nd_REMOTE n \<noteq> None"
  shows "\<exists>n'. drop_message W h m n = Inr n' \<and> keeps g n n'"
proof -
  have "send_args_ok None h PTYPE_ERROR 0 None 0 n"
    using assms(2) by (simp add: send_args_ok_def has_tag_def PTYPE_ERROR_def PTYPE_TAG_ALLOCSESSION_def invalid_type_def PTYPE_SYSTEM_def PTYPE_HARBOR_def)
  from send_keeps [OF assms(1) this assms(3), of W "msg_source m"] obtain k n' where
    "skynet_send W None h (msg_source m) PTYPE_ERROR 0 None 0 n = Inr (k, n')" "keeps g n n'" by blast
  then show ?thesis using assms(2) by (simp add: drop_message_def)
qed

lemma drop_messages_ok:
  assumes "node_ok g n" "h \<noteq> 0" "nd_REMOTE n \<noteq> None"
  shows "\<exists>n'. drop_messages W h ms n = Inr n' \<and> keeps g n n'"
  using assms
proof (induction ms arbitrary: n)
  case Nil
  then show ?case using keeps_refl by simp
next
  case (Cons m ms)
  obtain n1 where n1: "drop_message W h m n = Inr n1" "keeps g n n1" using drop_message_ok [OF Cons.prems] by blast
  obtain n2 where "drop_messages W h ms n1 = Inr n2" "keeps g n1 n2"
    using Cons.IH [OF keeps_ok [OF n1(2)] Cons.prems(2) keeps_remote [OF n1(2) Cons.prems(3)]] by blast
  then show ?case using n1(1) keeps_trans [OF n1(2)] by auto
qed

section \<open>Scheduling\<close>

definition worker_gives :: "qref \<Rightarrow> hands \<Rightarrow> hands" where
  "worker_gives r g = g\<lparr>g_held := remove1 r (g_held g)\<rparr>"

definition worker_takes :: "qref option \<Rightarrow> hands \<Rightarrow> hands" where
  "worker_takes q g = (case q of None \<Rightarrow> g | Some r \<Rightarrow> g\<lparr>g_held := r # g_held g\<rparr>)"

lemma worker_simps [simp]:
  "g_refs (worker_gives r g) = g_refs g" "g_dying (worker_gives r g) = g_dying g" "g_new (worker_gives r g) = g_new g"
  "g_reserved (worker_gives r g) = g_reserved g" "g_held (worker_gives r g) = remove1 r (g_held g)"
  "g_refs (worker_takes q g) = g_refs g" "g_dying (worker_takes q g) = g_dying g" "g_new (worker_takes q g) = g_new g"
  "g_reserved (worker_takes q g) = g_reserved g" "worker_takes None g = g" "g_held (worker_takes (Some r) g) = r # g_held g"
  by (simp_all add: worker_gives_def worker_takes_def split: option.splits)

lemma init_new: "node_ok g n \<Longrightarrow> nd_ctx n c = Some x \<Longrightarrow> \<not> cx_init x \<Longrightarrow> c \<in> contexts (nd_handles n) \<Longrightarrow> cx_queue x \<in> set (g_new g)"
  using node_okD(3) [of g n c x] by (simp add: ctx_ok_def)

lemma globalmq_pop_at_ok:
  assumes ok: "node_ok g n"
  shows "\<exists>q s'. globalmq_pop_at n = Inr (q, n\<lparr>nd_mqs := s'\<rparr>) \<and> node_ok (worker_takes q g) (n\<lparr>nd_mqs := s'\<rparr>) \<and> queue_view s' = queue_view (nd_mqs n)"
  using mqs_gpop [OF node_okD(2) [OF ok]]
proof (elim disjE exE conjE)
  assume "skynet_globalmq_pop (nd_mqs n) = Inr (None, nd_mqs n)"
  then show ?thesis using ok by (intro exI [of _ None] exI [of _ "nd_mqs n"]) (simp add: globalmq_pop_at_def)
next
  fix r s'
  assume "skynet_globalmq_pop (nd_mqs n) = Inr (Some r, s')" "mqs_ok (r # g_held g @ g_new g) s'" and v: "queue_view s' = queue_view (nd_mqs n)"
  moreover from this have "node_ok (worker_takes (Some r) g) (n\<lparr>nd_mqs := s'\<rparr>)"
    by (intro node_ok_mqs [OF ok _ same_owners_view [OF v]]) (auto dest: init_new [OF ok])
  ultimately show ?thesis by (auto simp: globalmq_pop_at_def)
qed

lemma held_not_new: "node_ok g n \<Longrightarrow> r \<in> set (g_held g) \<Longrightarrow> r \<notin> set (g_new g)"
  using mqs_ok_distinct [OF node_okD(2), of g n] by auto

text \<open>Giving a queue out of hand, from \<open>g\<close> to \<open>g'\<close>.\<close>

definition gives :: "qref \<Rightarrow> hands \<Rightarrow> hands \<Rightarrow> bool" where
  "gives r g g' \<longleftrightarrow> r \<in> set (g_held g @ g_new g) \<and> g_held g' @ g_new g' = remove1 r (g_held g @ g_new g) \<and>
     g_refs g' = g_refs g \<and> g_dying g' = g_dying g \<and> g_reserved g' = g_reserved g"

text \<open>No context is left that would have to be initialised before its queue is scheduled.\<close>

definition launched :: "hands \<Rightarrow> node \<Rightarrow> bool" where
  "launched g n \<longleftrightarrow> (\<forall>c x. nd_ctx n c = Some x \<longrightarrow> \<not> cx_init x \<longrightarrow> c \<in> contexts (nd_handles n) \<longrightarrow> cx_queue x \<in> set (g_new g))"

lemma gives_worker: "r \<in> set (g_held g) \<Longrightarrow> gives r g (worker_gives r g)"
  by (simp add: gives_def remove1_append)

lemma launched_worker: "node_ok g n \<Longrightarrow> launched (worker_gives r g) n"
  unfolding launched_def using init_new by auto

lemma globalmq_push_at_ok:
  assumes ok: "node_ok g n" and r: "gives r g g'" "launched g' n"
  shows "\<exists>s'. globalmq_push_at r n = Inr (n\<lparr>nd_mqs := s'\<rparr>) \<and> node_ok g' (n\<lparr>nd_mqs := s'\<rparr>) \<and> queue_view s' = queue_view (nd_mqs n)"
proof -
  obtain s' where s': "skynet_globalmq_push r (nd_mqs n) = Inr s'" "mqs_ok (g_held g' @ g_new g') s'" "queue_view s' = queue_view (nd_mqs n)"
    using mqs_gpush [OF node_okD(2) [OF ok], of r] r(1) by (auto simp: gives_def)
  have "node_ok g' (n\<lparr>nd_mqs := s'\<rparr>)"
    using r by (intro node_ok_mqs [OF ok s'(2) same_owners_view [OF s'(3)]]) (auto simp: gives_def launched_def)
  then show ?thesis using s' by (intro exI [of _ s']) (simp add: globalmq_push_at_def)
qed

text \<open>A queue that a thread holds, of a context nobody has the handle of, is requeued or dropped.\<close>

lemma release_at_ok:
  assumes ok: "node_ok g n" and r: "gives r g g'" "launched g' n" and h: "h \<noteq> 0" and up: "nd_REMOTE n \<noteq> None"
  shows "\<exists>n'. mq_release_at W h r n = Inr n' \<and> keeps g' n n'"
proof -
  have g': "r \<in> set (g_held g @ g_new g)" "g_held g' @ g_new g' = remove1 r (g_held g @ g_new g)"
    "g_refs g' = g_refs g" "g_dying g' = g_dying g" "g_reserved g' = g_reserved g" using r(1) by (simp_all add: gives_def)
  obtain h' rel l where v: "queue_view (nd_mqs n) r = Some (h', rel, l)" using mqs_ok_held [OF node_okD(2) [OF ok] g'(1)] by auto
  obtain s' where s': "skynet_mq_release r (nd_mqs n) = Inr (if rel = 0 then [] else l, s')" "mqs_ok (g_held g' @ g_new g') s'"
    "queue_view s' = (if rel = 0 then queue_view (nd_mqs n) else (queue_view (nd_mqs n))(r := None))"
    using mqs_release [OF node_okD(2) [OF ok] g'(1) v] g'(2) by auto
  have ok1: "node_ok g' (n\<lparr>nd_mqs := s'\<rparr>)" (is "node_ok _ ?n")
  proof (cases "rel = 0")
    case True
    then show ?thesis using s' r(2) g' by (intro node_ok_mqs [OF ok s'(2) same_owners_view]) (auto simp: launched_def)
  next
    case False
    have sub: "queue_view (nd_mqs n) q = Some w" if "queue_view s' q = Some w" for q w using that s'(3) False by (auto split: if_splits)
    have rc: "refcount g' ?n c = refcount g n c" for c using g'(3) by (simp add: refcount_def)
    have hof: "node_hof ?n = node_hof n" by (rule node_hof_cong) simp
    show ?thesis
    proof (rule node_okI)
      show "ctx_ok g' ?n c x" if "nd_ctx ?n c = Some x" for c x
      proof -
        have c: "nd_ctx n c = Some x" using that by simp
        obtain l' where l': "queue_view (nd_mqs n) (cx_queue x) = Some (cx_handle x, 0, l')" using context_queue [OF ok c] by blast
        then have "cx_queue x \<noteq> r" using v False by auto
        then have "queue_view s' (cx_queue x) = Some (cx_handle x, 0, l')" using l' s'(3) False by simp
        then show ?thesis by (intro ctx_ok_upd [OF node_okD(3) [OF ok c] rc g'(4)]) (use r(2) c in \<open>auto simp: launched_def\<close>)
      qed
      show "refcount g' ?n c = 0 \<and> c \<notin> g_dying g'" if "nd_ctx ?n c = None" for c
        using that node_okD(4) [OF ok, of c] g'(4) unfolding rc by simp
      show "q = q'" if "queue_view (nd_mqs ?n) q = Some (h, w)" "queue_view (nd_mqs ?n) q' = Some (h, w')" for q q' h w w'
        using sub that node_okD(6) [OF ok, of q h w q' w'] by simp
      show "q < nd_alloc ?n \<and> h \<noteq> 0 \<and> h AND HANDLE_MASK < hs_handle_index (nd_handles ?n)" if "queue_view (nd_mqs ?n) q = Some (h, w)" for q h w
        using sub that node_okD(7) [OF ok, of q h w] by simp
      show "hs_ok (node_hof ?n) (nd_handles ?n)" unfolding hof using node_okD(1) [OF ok] by simp
    qed (use s'(2) node_okD(5,8,9,10,11,12,13) [OF ok] g'(5) in simp_all)
  qed
  obtain n2 where n2: "drop_messages W h (if rel = 0 then [] else l) ?n = Inr n2" "keeps g' ?n n2"
    using drop_messages_ok [OF ok1 h] up by fastforce
  moreover have "keeps g' n n2" using n2(2) keeps_cong [of ?n n g' n2] by simp
  ultimately show ?thesis using s'(1) by (auto simp: mq_release_at_def)
qed

end
