(* ===== verification/NodeRun.thy ===== *)
theory NodeRun
  imports NodeOk
begin

text \<open>
  Launching a service and dispatching its messages keep the invariant of the node: no assertion
  fails, nothing is used after it was freed, and every queue that is taken is given back.
\<close>

section \<open>Launching\<close>

lemma node_ok_modules:
  assumes ok: "node_ok g n" and M: "modules_ok M" "path_ok (ms_path M)" "\<exists>ms. ms_m M = ms_m (nd_modules n) @ ms"
  shows "node_ok g (n\<lparr>nd_modules := M\<rparr>)" (is "node_ok _ ?n")
proof -
  have rc: "refcount g ?n c = refcount g n c" for c by (simp add: refcount_def)
  have hof: "node_hof ?n = node_hof n" by (rule node_hof_cong) simp
  show ?thesis
  proof (rule node_okI)
    show "ctx_ok g ?n c x" if "nd_ctx ?n c = Some x" for c x
      using node_okD(3) [OF ok, of c x] that M(3) unfolding ctx_ok_def rc by auto
    show "refcount g ?n c = 0 \<and> c \<notin> g_dying g" if "nd_ctx ?n c = None" for c
      using that node_okD(4) [OF ok, of c] unfolding rc by simp
    show "hs_ok (node_hof ?n) (nd_handles ?n)" unfolding hof using node_okD(1) [OF ok] by simp
  qed (use M(1,2) node_okD(2,5,6,7,8,9,10,13) [OF ok] in simp_all)
qed

lemma alloc_fresh:
  assumes ok: "node_ok g n"
  shows "nd_ctx n (nd_alloc n) = None" "queue_view (nd_mqs n) (nd_alloc n) = None" "nd_alloc n \<notin> contexts (nd_handles n)"
    "nd_REMOTE n \<noteq> Some (nd_alloc n)" "nd_alloc n \<notin># g_refs g" "nd_alloc n \<notin> g_dying g"
proof -
  show c: "nd_ctx n (nd_alloc n) = None" using node_okD(9) [OF ok, of "nd_alloc n"] by (cases "nd_ctx n (nd_alloc n)") auto
  show "queue_view (nd_mqs n) (nd_alloc n) = None"
    using node_okD(7) [OF ok, of "nd_alloc n"] by (cases "queue_view (nd_mqs n) (nd_alloc n)") auto
  show "nd_alloc n \<notin> contexts (nd_handles n)" "nd_REMOTE n \<noteq> Some (nd_alloc n)" "nd_alloc n \<notin># g_refs g" "nd_alloc n \<notin> g_dying g"
    using node_okD(4) [OF ok c] by (auto simp: refcount_0)
qed

lemma mqs_ok_perm:
  assumes "mqs_ok H s" "mset H' = mset H"
  shows "mqs_ok H' s"
proof -
  obtain rs where rep: "sched_rep \<lparr>sc_mqs = s, sc_held = H\<rparr> rs" using assms(1) by (auto simp: mqs_ok_def)
  have "set H' = set H" "distinct (rs @ H') = distinct (rs @ H)"
    using assms(2) mset_eq_setD [OF assms(2)] mset_eq_imp_distinct_iff [of "rs @ H'" "rs @ H"] by simp_all
  then have "sched_rep \<lparr>sc_mqs = s, sc_held = H'\<rparr> rs" using rep unfolding sched_rep_def by simp
  then show ?thesis by (auto simp: mqs_ok_def)
qed

text \<open>What the launcher holds: a reference to the context, and its queue.\<close>

definition launching :: "ctxref \<Rightarrow> qref \<Rightarrow> hands \<Rightarrow> hands" where
  "launching c r g = g\<lparr>g_refs := add_mset c (g_refs g), g_new := r # g_new g\<rparr>"

lemma launching_simps [simp]:
  "g_refs (launching c r g) = add_mset c (g_refs g)" "g_new (launching c r g) = r # g_new g" "g_dying (launching c r g) = g_dying g"
  "g_held (launching c r g) = g_held g" "g_reserved (launching c r g) = g_reserved g"
  by (simp_all add: launching_def)

lemma mask_less_Suc: "(h :: u32) AND HANDLE_MASK < (h AND HANDLE_MASK) + 1"
proof -
  have "h AND HANDLE_MASK \<le> HANDLE_MASK" by (simp add: word_and_le1)
  then have "unat (h AND HANDLE_MASK) < 2 ^ 24" by (simp add: HANDLE_MASK_def word_le_nat_alt)
  then show ?thesis by (simp add: word_less_nat_alt unat_word_ariths)
qed

text \<open>
  A node with one context more: the new context, its empty queue of the same address and its handle,
  which is the next one of the registry.
\<close>

lemma node_ok_add:
  assumes ok: "node_ok g n" and c: "c = nd_alloc n"
    and hs: "hs_ok (node_hof n') (nd_handles n')" "contexts (nd_handles n') = insert c (contexts (nd_handles n))"
    and h: "h AND HANDLE_MASK \<noteq> 0" "hs_handle_index (nd_handles n) \<le> h AND HANDLE_MASK"
      "hs_handle_index (nd_handles n') = (h AND HANDLE_MASK) + 1"
    and mq: "mqs_ok (c # g_held g @ g_new g) (nd_mqs n')" "queue_view (nd_mqs n') = (queue_view (nd_mqs n))(c \<mapsto> (h, 0, []))"
    and x: "cx_handle x = h" "cx_queue x = c" "cx_ref x = 2" "\<not> cx_init x" "cx_mod x < length (ms_m (nd_modules n))"
    and n': "nd_ctx n' = (nd_ctx n)(c \<mapsto> x)" "nd_modules n' = nd_modules n" "nd_total n' = nd_total n + 1"
      "nd_HARBOR n' = nd_HARBOR n" "nd_REMOTE n' = nd_REMOTE n" "nd_alloc n' = nd_alloc n + 1"
  shows "node_ok (launching c c g) n'"
proof (rule node_okI)
  let ?g = "launching c c g"
  note fresh = alloc_fresh [OF ok, folded c]
  have rc: "refcount ?g n' d = (if d = c then 2 else refcount g n d)" for d
    using fresh hs(2) by (simp add: refcount_def n' count_eq_zero_iff)
  show "ctx_ok ?g n' d y" if "nd_ctx n' d = Some y" for d y
  proof (cases "d = c")
    case True
    then show ?thesis using that x fresh(6) by (simp add: ctx_ok_def rc n' mq(2))
  next
    case False
    then have d: "nd_ctx n d = Some y" using that n' by simp
    show ?thesis
    proof (rule ctx_ok_upd [OF node_okD(3) [OF ok d]])
      obtain l where "queue_view (nd_mqs n) (cx_queue y) = Some (cx_handle y, 0, l)" using context_queue [OF ok d] by blast
      then show "\<exists>l. queue_view (nd_mqs n') (cx_queue y) = Some (cx_handle y, 0, l)" using fresh(2) mq(2) by auto
      show "cx_queue y \<in> set (g_new ?g)" if "\<not> cx_init y" "d \<in> contexts (nd_handles n')"
        using init_new [OF ok d that(1)] that(2) False hs(2) by simp
    qed (use False n' rc in simp_all)
  qed
  show "refcount ?g n' d = 0 \<and> d \<notin> g_dying ?g" if "nd_ctx n' d = None" for d
    using that node_okD(4) [OF ok, of d] n' rc by (auto split: if_splits)
  have old: "d = c \<and> cx_queue a = c \<or> d \<noteq> c \<and> nd_ctx n d = Some a \<and> cx_queue a \<noteq> c" if "nd_ctx n' d = Some a" for d a
    using that context_queue [OF ok, of d a] fresh(2) x(2) by (auto simp: n' split: if_splits)
  show "d = e" if "nd_ctx n' d = Some a" "nd_ctx n' e = Some b" "cx_queue a = cx_queue b" for d e a b
    using old [OF that(1)] old [OF that(2)] that(3) node_okD(5) [OF ok, of d a e b] by metis
  have other: "h' \<noteq> h \<and> h' AND HANDLE_MASK < hs_handle_index (nd_handles n)" if "queue_view (nd_mqs n) r = Some (h', v)" for r h' v
    using node_okD(7) [OF ok that] h(2) by auto
  show "r = r'" if "queue_view (nd_mqs n') r = Some (h', v)" "queue_view (nd_mqs n') r' = Some (h', v')" for r r' h' v v'
    using that node_okD(6) [OF ok, of r h' v r' v'] other [of r h' v] other [of r' h' v'] by (auto simp: mq(2) split: if_splits)
  show "r < nd_alloc n' \<and> h' \<noteq> 0 \<and> h' AND HANDLE_MASK < hs_handle_index (nd_handles n')"
    if q: "queue_view (nd_mqs n') r = Some (h', v)" for r h' v
    using q node_okD(7) [OF ok, of r h' v] h mask_less_Suc [of h] c by (cases "r = c") (auto simp: mq(2) n')
  have dom: "dom (nd_ctx n') = insert c (dom (nd_ctx n))" by (auto simp: n')
  then show "finite (dom (nd_ctx n'))" using node_okD(8) [OF ok] by simp
  have "c \<notin> dom (nd_ctx n)" using fresh(1) by auto
  then show "nd_total n' = int (card (dom (nd_ctx n'))) - g_reserved ?g"
    unfolding dom using node_okD(8,10) [OF ok] by (simp add: n')
  show "d < nd_alloc n'" if "nd_ctx n' d = Some y" for d y
    using that node_okD(9) [OF ok, of d y] c by (auto simp: n' split: if_splits)
  show "mqs_ok (g_held ?g @ g_new ?g) (nd_mqs n')" using mqs_ok_perm [OF mq(1), of "g_held ?g @ g_new ?g"] by simp
qed (use hs(1) n' node_okD(11,12,13) [OF ok] in simp_all)

lemma register_context_ok:
  assumes ok: "node_ok g n" and room: "reg_room (node_hof n, nd_handles n)" and m: "m < length (ms_m (nd_modules n))"
  shows "\<exists>n' x. register_context m inst n = Inr (nd_alloc n, n') \<and> nd_ctx n' (nd_alloc n) = Some x \<and> cx_queue x = nd_alloc n \<and>
    node_ok (launching (nd_alloc n) (nd_alloc n) g) n' \<and> nd_modules n' = nd_modules n \<and> nd_REMOTE n' = nd_REMOTE n \<and>
    (\<forall>d. d \<noteq> nd_alloc n \<longrightarrow> nd_ctx n' d = nd_ctx n d)"
proof -
  let ?c = "nd_alloc n" and ?x = "fresh_context n m inst"
  define n1 where "n1 = ctx_put ?c ?x (n\<lparr>nd_alloc := nd_alloc n + 1\<rparr>)"
  note fresh = alloc_fresh [OF ok]
  have hof1: "node_hof n1 d = (if d = ?c then 0 else node_hof n d)" for d by (simp add: node_hof_def n1_def ctx_put_def fresh_context_def)
  have hs1: "hs_ok (node_hof n1) (nd_handles n)"
    using fresh(3) by (intro hs_ok_hof [OF _ node_okD(1) [OF ok]]) (auto simp: hof1)
  have r: "unat (hs_handle_index (nd_handles n)) + length (hs_slot (nd_handles n)) * 2 \<le> 2 ^ 24" using room by (simp add: reg_room_def)
  obtain h s' where reg: "skynet_handle_register (node_hof n1) ?c (nd_handles n) = Inr (h, s')" "hs_ok ((node_hof n1)(?c := h)) s'"
    "contexts s' = insert ?c (contexts (nd_handles n))" "h AND HANDLE_MASK \<noteq> 0"
    "hs_handle_index (nd_handles n) \<le> h AND HANDLE_MASK" "hs_handle_index s' = (h AND HANDLE_MASK) + 1"
    by (rule register_ok [OF hs1 fresh(3) r]) (rule that; assumption)
  let ?mqs = "(nd_mqs n)\<lparr>mqs_heap := (mqs_heap (nd_mqs n))(?c \<mapsto> skynet_mq_create h)\<rparr>"
  define n' where "n' = context_inc (ctx_put ?c (?x\<lparr>cx_handle := h\<rparr>) (n1\<lparr>nd_handles := s', nd_mqs := ?mqs\<rparr>))"
  have n': "nd_ctx n' = (nd_ctx n)(?c \<mapsto> ?x\<lparr>cx_handle := h\<rparr>)" "nd_handles n' = s'" "nd_mqs n' = ?mqs" "nd_modules n' = nd_modules n"
    "nd_total n' = nd_total n + 1" "nd_HARBOR n' = nd_HARBOR n" "nd_REMOTE n' = nd_REMOTE n" "nd_alloc n' = nd_alloc n + 1"
    by (simp_all add: n'_def n1_def context_inc_def ctx_put_def)
  have hof': "node_hof n' = (node_hof n1)(?c := h)" by (auto simp: fun_eq_iff hof1) (auto simp: node_hof_def n')
  have "mqs_heap (nd_mqs n) ?c = None" using fresh(2) by (simp add: queue_view_None)
  note mq = mqs_new [OF node_okD(2) [OF ok] this, of h]
  have "node_ok (launching ?c ?c g) n'"
    by (rule node_ok_add [OF ok refl, where h = h and x = "?x\<lparr>cx_handle := h\<rparr>"]) (use reg mq m hof' n' in \<open>simp_all add: fresh_context_def\<close>)
  moreover have "register_context m inst n = Inr (?c, n')"
    using reg(1) by (simp add: register_context_def Let_def n'_def n1_def [symmetric]) (simp add: n1_def fresh_context_def)
  ultimately show ?thesis using n' by (simp add: fresh_context_def)
qed

lemma launching_refs: "launching c r g = (g\<lparr>g_new := r # g_new g\<rparr>)\<lparr>g_refs := add_mset c (g_refs (g\<lparr>g_new := r # g_new g\<rparr>))\<rparr>"
  by (simp add: launching_def)

lemma gives_new: "node_ok g0 n \<Longrightarrow> g_held g0 = g_held g \<Longrightarrow> g_new g0 = r # g_new g \<Longrightarrow> g_refs g0 = g_refs g \<Longrightarrow> g_dying g0 = g_dying g \<Longrightarrow>
    g_reserved g0 = g_reserved g \<Longrightarrow> gives r g0 g"
  using mqs_ok_distinct [OF node_okD(2), of g0 n] by (auto simp: gives_def remove1_append remove1_idem)

text \<open>When the context is initialised or gone, its queue may be scheduled.\<close>

lemma launched_new:
  assumes ok: "node_ok g0 n" and new: "g_new g0 = r # g_new g"
    and only: "\<And>d y. nd_ctx n d = Some y \<Longrightarrow> cx_queue y = r \<Longrightarrow> cx_init y \<or> d \<notin> contexts (nd_handles n)"
  shows "launched g n"
  unfolding launched_def using init_new [OF ok] new only by fastforce

lemma launch_done_ok:
  assumes ok: "node_ok (launching c r g) n" and c: "nd_ctx n c = Some x" "cx_queue x = r" and W: "world_ok W"
  shows "\<exists>ret n'. launch_done W c r n = Inr (ret, n') \<and> keeps g n n' \<and> (\<forall>d. ret = Some d \<longrightarrow> (\<exists>y. nd_ctx n' d = Some y))"
proof -
  let ?g = "g\<lparr>g_new := r # g_new g\<rparr>"
  obtain x' ret n1 where rel: "nd_ctx n c = Some x'" "skynet_context_release W c n = Inr (ret, n1)" "keeps ?g n n1"
    "ret = Some c \<and> n1 = ctx_put c (x'\<lparr>cx_ref := cx_ref x' - 1\<rparr>) n \<or> ret = None \<and> (\<forall>d y. nd_ctx n1 d = Some y \<longrightarrow> cx_queue y \<noteq> cx_queue x') \<and> (\<exists>l. queue_view (nd_mqs n1) (cx_queue x') = Some (cx_handle x', 1, l))"
    by (rule ctx_release_ok [OF ok [unfolded launching_refs] W])
  note ok1 = keeps_ok [OF rel(3)]
  have "\<exists>n2. (case ret of None \<Rightarrow> Inr n1 | Some c \<Rightarrow> rbind (ctx_get c n1) (\<lambda>x. Inr (ctx_put c (x\<lparr>cx_init := True\<rparr>) n1))) = Inr n2 \<and>
      keeps ?g n1 n2 \<and> launched g n2 \<and> (\<forall>d. ret = Some d \<longrightarrow> (\<exists>y. nd_ctx n2 d = Some y))"
    using rel(4)
  proof (elim disjE conjE)
    assume n1: "ret = Some c" "n1 = ctx_put c (x'\<lparr>cx_ref := cx_ref x' - 1\<rparr>) n"
    then obtain y where y: "nd_ctx n1 c = Some y" "cx_queue y = r" using c rel(1) by auto
    let ?n2 = "ctx_put c (y\<lparr>cx_init := True\<rparr>) n1"
    have ok2: "node_ok ?g ?n2" by (rule node_ok_put_same [OF ok1 y(1)]) simp_all
    have "keeps ?g n1 ?n2" by (rule keepsI [OF ok2]) (use y in \<open>auto simp: stays_def split: if_splits\<close>)
    moreover have "launched g ?n2"
    proof (rule launched_new [OF ok2])
      show "cx_init z \<or> d \<notin> contexts (nd_handles ?n2)" if "nd_ctx ?n2 d = Some z" "cx_queue z = r" for d z
        using that node_okD(5) [OF ok1 _ y(1), of d z] y(2) by (cases "d = c") auto
    qed simp
    ultimately show ?thesis using n1(1) y(1) by simp
  next
    assume "ret = None" "\<forall>d y. nd_ctx n1 d = Some y \<longrightarrow> cx_queue y \<noteq> cx_queue x'"
    moreover from this have "launched g n1" by (intro launched_new [OF ok1]) (use c rel(1) in auto)
    ultimately show ?thesis using keeps_refl [OF ok1] by simp
  qed
  then obtain n2 where n2: "(case ret of None \<Rightarrow> Inr n1 | Some c \<Rightarrow> rbind (ctx_get c n1) (\<lambda>x. Inr (ctx_put c (x\<lparr>cx_init := True\<rparr>) n1))) = Inr n2"
    "keeps ?g n1 n2" "launched g n2" "\<forall>d. ret = Some d \<longrightarrow> (\<exists>y. nd_ctx n2 d = Some y)" by blast
  note ok2 = keeps_ok [OF n2(2)]
  obtain s' where s': "globalmq_push_at r n2 = Inr (n2\<lparr>nd_mqs := s'\<rparr>)" "node_ok g (n2\<lparr>nd_mqs := s'\<rparr>)"
    using globalmq_push_at_ok [OF ok2 gives_new [OF ok2, of g] n2(3)] by auto
  have "keeps ?g n n2" using rel(3) n2(2) by (rule keeps_trans)
  then have "keeps g n (n2\<lparr>nd_mqs := s'\<rparr>)" using same_owners_keeps [OF s'(2)] by (rule keeps_then) auto
  then show ?thesis using rel(2) n2(1,4) s'(1) by (auto simp: launch_done_def)
qed

text \<open>After the handle of a queue's context is retired, no registered context has the queue.\<close>

lemma retire_queue:
  assumes ok: "node_ok g n" and r: "queue_view (nd_mqs n) r = Some (h, v)" and W: "world_ok W"
  shows "\<exists>b n'. handle_retire W h n = Inr (b, n') \<and> keeps g n n' \<and> (\<forall>d y. nd_ctx n' d = Some y \<longrightarrow> cx_queue y = r \<longrightarrow> d \<notin> contexts (nd_handles n'))"
proof -
  obtain b ctx s where ret: "skynet_handle_retire (node_hof n) h (nd_handles n) = (b, ctx, s)" by (metis prod.exhaust)
  note R = retire_ok [OF node_okD(1) [OF ok] ret]
  have queue: "cx_queue y = r \<longleftrightarrow> cx_handle y = h" if d: "nd_ctx n d = Some y" for d y
  proof -
    obtain l where l: "queue_view (nd_mqs n) (cx_queue y) = Some (cx_handle y, 0, l)" using context_queue [OF ok d] by blast
    then show ?thesis using r node_okD(6) [OF ok l, of r v] by auto
  qed
  have gone: "d \<notin> contexts s" if "nd_ctx n d = Some y" "cx_queue y = r" for d y
    using R(2) queue [OF that(1)] that by (simp add: node_hof_def)
  show ?thesis
  proof (cases ctx)
    case None
    let ?n = "n\<lparr>nd_handles := s\<rparr>"
    have "keeps g n ?n" using unregister_ok(1) [OF ok ret None] by (intro keeps_same_ctx) simp_all
    moreover have "handle_retire W h n = Inr (b, ?n)" using ret None by (simp add: handle_retire_def)
    ultimately show ?thesis using gone by auto
  next
    case (Some c)
    let ?n = "n\<lparr>nd_handles := s\<rparr>"
    have c: "c \<in> contexts (nd_handles n)" "node_hof n c = h" using R(3) Some grab_iff [OF node_okD(1) [OF ok], of h c] by auto
    have ok1: "node_ok (g\<lparr>g_refs := add_mset c (g_refs g)\<rparr>) ?n" using unregister_ok(2) [OF ok ret Some] by simp
    obtain x o' n' where rel: "nd_ctx ?n c = Some x" "skynet_context_release W c ?n = Inr (o', n')" "keeps g ?n n'"
      "o' = Some c \<and> n' = ctx_put c (x\<lparr>cx_ref := cx_ref x - 1\<rparr>) ?n \<or> o' = None \<and> (\<forall>d y. nd_ctx n' d = Some y \<longrightarrow> cx_queue y \<noteq> cx_queue x) \<and> (\<exists>l. queue_view (nd_mqs n') (cx_queue x) = Some (cx_handle x, 1, l))"
      by (rule ctx_release_ok [OF ok1 W])
    have x: "cx_queue x = r" using queue [of c x] rel(1) c(2) by (simp add: node_hof_def)
    have "\<forall>d y. nd_ctx n' d = Some y \<longrightarrow> cx_queue y = r \<longrightarrow> d \<notin> contexts (nd_handles n')"
      using rel(4)
    proof (elim disjE conjE)
      assume n': "n' = ctx_put c (x\<lparr>cx_ref := cx_ref x - 1\<rparr>) ?n"
      show ?thesis
      proof (intro allI impI)
        fix d y
        assume d: "nd_ctx n' d = Some y" "cx_queue y = r"
        then show "d \<notin> contexts (nd_handles n')"
          using gone [of d y] gone [of c x] rel(1) x n' by (cases "d = c") simp_all
      qed
    qed (use x in auto)
    moreover have "handle_retire W h n = Inr (b, n')" using ret Some rel(2) by (simp add: handle_retire_def)
    moreover have "keeps g n n'" using rel(3) keeps_cong [of ?n n g n'] by simp
    ultimately show ?thesis by blast
  qed
qed

lemma launch_failed_ok:
  assumes ok: "node_ok (launching c r g) n" and c: "nd_ctx n c = Some x" "cx_queue x = r" and W: "world_ok W" and up: "nd_REMOTE n \<noteq> None"
  shows "\<exists>n'. launch_failed W c r name n = Inr n' \<and> keeps g n n'"
proof -
  let ?g = "g\<lparr>g_new := r # g_new g\<rparr>"
  obtain n1 where n1: "skynet_error W (Some c) (''FAILED launch '' @ name) n = Inr n1" "keeps (launching c r g) n n1" "nd_ctx n1 = nd_ctx n"
    using error_keeps [OF ok, of "Some c"] c(1) by blast
  note ok1 = keeps_ok [OF n1(2)]
  obtain x1 o' n2 where n2: "nd_ctx n1 c = Some x1" "skynet_context_release W c n1 = Inr (o', n2)" "keeps ?g n1 n2"
    "o' = Some c \<and> n2 = ctx_put c (x1\<lparr>cx_ref := cx_ref x1 - 1\<rparr>) n1 \<or> o' = None \<and> (\<forall>d y. nd_ctx n2 d = Some y \<longrightarrow> cx_queue y \<noteq> cx_queue x1) \<and> (\<exists>l. queue_view (nd_mqs n2) (cx_queue x1) = Some (cx_handle x1, 1, l))"
    by (rule ctx_release_ok [OF ok1 [unfolded launching_refs] W])
  note ok2 = keeps_ok [OF n2(3)]
  have h: "cx_handle x \<noteq> 0" using context_queue [OF ok c(1)] node_okD(7) [OF ok] by blast
  have x1: "x1 = x" using n1(3) n2(1) c(1) by simp
  have "\<exists>v. queue_view (nd_mqs n2) r = Some (cx_handle x, v)"
    using n2(4) context_queue [OF ok1 n2(1)] x1 c(2) by (elim disjE conjE) auto
  then obtain b n3 where n3: "handle_retire W (cx_handle x) n2 = Inr (b, n3)" "keeps ?g n2 n3"
    "\<forall>d y. nd_ctx n3 d = Some y \<longrightarrow> cx_queue y = r \<longrightarrow> d \<notin> contexts (nd_handles n3)"
    using retire_queue [OF ok2 _ W] by blast
  note ok3 = keeps_ok [OF n3(2)]
  have launched: "launched g n3" by (rule launched_new [OF ok3]) (use n3(3) in auto)
  have "gives r ?g g" by (rule gives_new [OF ok3]) simp_all
  moreover have "nd_REMOTE n3 \<noteq> None" using up keeps_remote [OF n1(2)] keeps_remote [OF n2(3)] keeps_remote [OF n3(2)] by blast
  ultimately obtain n4 where n4: "mq_release_at W (cx_handle x) r n3 = Inr n4" "keeps g n3 n4"
    using release_at_ok [OF ok3 _ launched h] by blast
  have "keeps ?g n n2" by (rule keeps_then [OF n1(2) n2(3)]) auto
  then have "keeps ?g n n3" using n3(2) by (rule keeps_trans)
  then have "keeps g n n4" using n4(2) by (rule keeps_then) auto
  then show ?thesis using n1 n2(2) n3(1) n4(1) c(1) by (simp add: launch_failed_def skynet_context_handle_def)
qed

text \<open>The end of a launch once the module's init has returned.\<close>

lemma launch_end_ok:
  assumes ok: "node_ok (launching c c g) n" and y: "nd_ctx n c = Some y" "cx_queue y = c" and W: "world_ok W"
    and up: "r = 0 \<or> nd_REMOTE n \<noteq> None"
  shows "\<exists>ret n'. (if r = 0 then
       rbind (launch_done W c c n) (\<lambda>(ret, n). case ret of None \<Rightarrow> Inr (None, n)
         | Some d \<Rightarrow> rbind (skynet_error W (Some d) txt n) (\<lambda>n. Inr (Some d, n)))
     else rbind (launch_failed W c c name n) (\<lambda>n. Inr (None, n))) = Inr (ret, n') \<and>
     keeps g n n' \<and> (\<forall>d. ret = Some d \<longrightarrow> (\<exists>y. nd_ctx n' d = Some y))"
proof (cases "r = 0")
  case True
  obtain ret n1 where n1: "launch_done W c c n = Inr (ret, n1)" "keeps g n n1" "\<forall>d. ret = Some d \<longrightarrow> (\<exists>y. nd_ctx n1 d = Some y)"
    using launch_done_ok [OF ok y W] by blast
  show ?thesis
  proof (cases ret)
    case None
    then show ?thesis using True n1 by simp
  next
    case (Some d)
    obtain z where "nd_ctx n1 d = Some z" using n1(3) Some by blast
    then obtain n2 where n2: "skynet_error W (Some d) txt n1 = Inr n2" "keeps g n1 n2" "nd_ctx n2 = nd_ctx n1"
      using error_keeps [OF keeps_ok [OF n1(2)], of "Some d"] by blast
    have "keeps g n n2" by (rule keeps_trans [OF n1(2) n2(2)])
    then show ?thesis using True Some n1(1,3) n2 by simp
  qed
next
  case False
  then obtain n' where "launch_failed W c c name n = Inr n'" "keeps g n n'" using launch_failed_ok [OF ok y W] up by blast
  then show ?thesis using False by simp
qed

text \<open>The references that were held before the launch outlive it.\<close>

lemma launch_keeps:
  assumes ok: "node_ok g n" and new: "\<forall>d. d \<noteq> nd_alloc n \<longrightarrow> nd_ctx n1 d = nd_ctx n d"
    and same: "\<exists>ms. ms_m (nd_modules n1) = ms_m (nd_modules n) @ ms" "nd_REMOTE n1 = nd_REMOTE n"
    and k: "keeps (launching (nd_alloc n) (nd_alloc n) g) n1 n2" "keeps g n2 n'"
  shows "keeps g n n'"
proof (rule keepsI [OF keeps_ok [OF k(2)]])
  have k': "keeps g n1 n'" using k by (rule keeps_then) auto
  then show "\<exists>ms. ms_m (nd_modules n') = ms_m (nd_modules n) @ ms" "nd_REMOTE n \<noteq> None \<longrightarrow> nd_REMOTE n' \<noteq> None"
    using same unfolding keeps_def by auto
  fix d a b
  assume d: "d \<in># g_refs g \<or> d \<in> g_dying g" "nd_ctx n d = Some a" "nd_ctx n' d = Some b"
  then have "nd_ctx n1 d = Some a" using new alloc_fresh(5,6) [OF ok] by (cases "d = nd_alloc n") auto
  with k' show "stays a b" using d by (auto intro: keeps_stays)
qed

text \<open>
  A launch: if there is room for another handle, it ends without a fault, with the context in the
  registry's hands only, or with nothing left of it.
\<close>

lemma context_new_ok:
  assumes ok: "node_ok g n" and W: "world_ok W" and room: "reg_room (node_hof n, nd_handles n)"
    and up: "nd_REMOTE n \<noteq> None \<or> (\<forall>f inst c p n r n'. w_init W f inst c p n = Inr (r, n') \<longrightarrow> r = 0)"
  shows "\<exists>ret n'. skynet_context_new W name param n = Inr (ret, n') \<and> keeps g n n' \<and> (\<forall>d. ret = Some d \<longrightarrow> (\<exists>y. nd_ctx n' d = Some y))"
proof -
  obtain md M where q: "skynet_module_query (w_dlopen W) (w_dlsym W) name (nd_modules n) = Inr (md, M)" "modules_ok M" "ms_path M = ms_path (nd_modules n)"
    "\<exists>ms. ms_m M = ms_m (nd_modules n) @ ms" "\<forall>i. md = Some i \<longrightarrow> i < length (ms_m M) \<and> md_name (ms_m M ! i) = name \<and> md_init (ms_m M ! i) \<noteq> None"
    using module_query_ok [OF node_okD(11,12) [OF ok]] by blast
  let ?n = "n\<lparr>nd_modules := M\<rparr>"
  have ok1: "node_ok g ?n" by (rule node_ok_modules [OF ok q(2) _ q(4)]) (use q(3) node_okD(12) [OF ok] in simp)
  have k1: "keeps g n ?n" by (rule keepsI [OF ok1]) (use q(4) in auto)
  show ?thesis
  proof (cases md)
    case None
    then show ?thesis using q(1) k1 by (simp add: skynet_context_new_def)
  next
    case (Some m)
    have m: "m < length (ms_m M)" "md_init (ms_m M ! m) \<noteq> None" using q(5) Some by auto
    have "\<exists>inst. skynet_module_instance_create W m ?n = Inr (inst, ?n)"
      using W ok1 m(1) unfolding skynet_module_instance_create_def module_of_def world_ok_def by (auto split: option.splits)
    then obtain inst where inst: "skynet_module_instance_create W m ?n = Inr (inst, ?n)" by blast
    show ?thesis
    proof (cases "inst = 0")
      case True
      then show ?thesis using q(1) Some inst k1 by (simp add: skynet_context_new_def)
    next
      case False
      let ?c = "nd_alloc n" and ?g = "launching (nd_alloc n) (nd_alloc n) g"
      have "node_hof ?n = node_hof n" by (rule node_hof_cong) simp
      then have room1: "reg_room (node_hof ?n, nd_handles ?n)" using room by (simp add: reg_room_def)
      obtain n2 x where n2: "register_context m inst ?n = Inr (?c, n2)" "nd_ctx n2 ?c = Some x" "cx_queue x = ?c" "node_ok ?g n2"
        "nd_modules n2 = M" "nd_REMOTE n2 = nd_REMOTE n" "\<forall>d. d \<noteq> ?c \<longrightarrow> nd_ctx n2 d = nd_ctx n d"
        using register_context_ok [OF ok1 room1, of m inst] m(1) by auto
      obtain f where f: "md_init (ms_m M ! m) = Some f" using m(2) by blast
      have "\<exists>r n3. w_init W f inst ?c param n2 = Inr (r, n3) \<and> keeps ?g n2 n3" using W n2(4) unfolding world_ok_def by auto
      then obtain r n3 where init: "w_init W f inst ?c param n2 = Inr (r, n3)" and n3: "keeps ?g n2 n3" by blast
      have run: "skynet_module_instance_init W m inst ?c param n2 = Inr (r, n3)"
        using init f m(1) n2(5) by (simp add: skynet_module_instance_init_def module_of_def)
      obtain y where y: "nd_ctx n3 ?c = Some y" using held_live [OF keeps_ok [OF n3], of ?c] by auto
      then have "cx_queue y = ?c" using keeps_stays [OF n3 _ n2(2) y] n2(3) by (simp add: stays_def)
      moreover have "r = 0 \<or> nd_REMOTE n3 \<noteq> None" using up init keeps_remote [OF n3] n2(6) by metis
      ultimately show ?thesis
        using launch_end_ok [OF keeps_ok [OF n3] y _ W, of r "''LAUNCH '' @ name @ '' '' @ (case param of None \<Rightarrow> [] | Some p \<Rightarrow> p)" name]
          launch_keeps [OF ok n2(7) _ n2(6) n3] q(1,4) Some inst False n2(1,2,3,5) run
        by (auto simp: skynet_context_new_def ctx_get_def)
    qed
  qed
qed

section \<open>Dispatch\<close>

lemma pop_at_ok:
  assumes ok: "node_ok g n" and r: "r \<in> set (g_held g)" "queue_view (nd_mqs n) r = Some (h, 0, l)"
  shows "l = [] \<Longrightarrow> \<exists>s'. mq_pop_at r n = Inr (None, n\<lparr>nd_mqs := s'\<rparr>) \<and> node_ok (worker_gives r g) (n\<lparr>nd_mqs := s'\<rparr>)"
    "l = m # ms \<Longrightarrow> \<exists>s'. mq_pop_at r n = Inr (Some m, n\<lparr>nd_mqs := s'\<rparr>) \<and> node_ok g (n\<lparr>nd_mqs := s'\<rparr>) \<and> queue_view s' = (queue_view (nd_mqs n))(r \<mapsto> (h, 0, ms))"
proof -
  obtain q where q: "mqs_heap (nd_mqs n) r = Some q" "mq_handle q = h" "mq_release q = 0" "mq_list q = l"
    using r(2) by (auto simp: queue_view_Some)
  let ?s = "(nd_mqs n)\<lparr>mqs_heap := (mqs_heap (nd_mqs n))(r \<mapsto> snd (skynet_mq_pop q))\<rparr>"
  have pop: "mq_pop_at r n = Inr (fst (skynet_mq_pop q), n\<lparr>nd_mqs := ?s\<rparr>)" using q(1) by (simp add: mq_pop_at_def split_beta)
  have held: "r \<in> set (g_held g @ g_new g)" using r(1) by simp
  { assume "l = []"
    then have *: "fst (skynet_mq_pop q) = None" "mqs_ok (remove1 r (g_held g @ g_new g)) ?s" "queue_view ?s = queue_view (nd_mqs n)"
      using mqs_pop(1) [OF node_okD(2) [OF ok] held q(1,3)] q(4) by simp_all
    then have "node_ok (worker_gives r g) (n\<lparr>nd_mqs := ?s\<rparr>)"
      using r(1) by (intro node_ok_mqs [OF ok _ same_owners_view]) (auto simp: remove1_append dest: init_new [OF ok])
    then show "\<exists>s'. mq_pop_at r n = Inr (None, n\<lparr>nd_mqs := s'\<rparr>) \<and> node_ok (worker_gives r g) (n\<lparr>nd_mqs := s'\<rparr>)"
      using pop *(1) by auto }
  { assume "l = m # ms"
    then have *: "fst (skynet_mq_pop q) = Some m" "mqs_ok (g_held g @ g_new g) ?s" "queue_view ?s = (queue_view (nd_mqs n))(r \<mapsto> (h, 0, ms))"
      using mqs_pop(2) [OF node_okD(2) [OF ok] held q(1,3)] q(2,4) by simp_all
    then have "node_ok g (n\<lparr>nd_mqs := ?s\<rparr>)" by (intro node_ok_mqs_same [OF ok _ same_owners_upd [OF r(2)]])
    then show "\<exists>s'. mq_pop_at r n = Inr (Some m, n\<lparr>nd_mqs := s'\<rparr>) \<and> node_ok g (n\<lparr>nd_mqs := s'\<rparr>) \<and> queue_view s' = (queue_view (nd_mqs n))(r \<mapsto> (h, 0, ms))"
      using pop * by auto }
qed

lemma world_cb:
  "world_ok W \<Longrightarrow> node_ok g n \<Longrightarrow> c \<in># g_refs g \<Longrightarrow> \<exists>b n'. w_cb W cb c type session source data sz n = Inr (b, n') \<and> keeps g n n'"
  unfolding world_ok_def by blast

lemma put_keeps:
  assumes "node_ok g n" "nd_ctx n c = Some x" "cx_handle y = cx_handle x" "cx_queue y = cx_queue x" "cx_mod y = cx_mod x"
    "cx_init x \<longrightarrow> cx_init y" "cx_ref y = cx_ref x"
  shows "keeps g n (ctx_put c y n)"
  by (rule keepsI [OF node_ok_put_same [OF assms]]) (use assms in \<open>auto simp: stays_def split: if_splits\<close>)

text \<open>Looking a context up, using it and giving the reference back.\<close>

abbreviation grabbing :: "ctxref \<Rightarrow> hands \<Rightarrow> hands" where
  "grabbing c g \<equiv> g\<lparr>g_refs := add_mset c (g_refs g)\<rparr>"

lemma grabbed [consumes 1]:
  assumes ok: "node_ok g n"
  obtains (none) "handle_grab h n = Inr (None, n)"
    | (some) c x n1 where "handle_grab h n = Inr (Some c, n1)" "nd_ctx n1 c = Some x" "keeps (grabbing c g) n n1" "cx_handle x = h"
  using handle_grab_ok [OF ok, of h]
proof (elim disjE conjE exE)
  assume "handle_grab h n = Inr (None, n)"
  then show thesis by (rule none)
next
  fix c x
  let ?n = "ctx_put c (x\<lparr>cx_ref := cx_ref x + 1\<rparr>) n"
  assume c: "nd_ctx n c = Some x" "cx_handle x = h" and grab: "handle_grab h n = Inr (Some c, ?n)" and ok2: "node_ok (grabbing c g) ?n"
  have "keeps (grabbing c g) n ?n" by (rule keepsI [OF ok2]) (use c in \<open>auto simp: stays_def split: if_splits\<close>)
  then show thesis using some [OF grab] c by simp
qed

lemma released:
  assumes "keeps (grabbing c g) n n1" "world_ok W"
  shows "\<exists>ret n'. skynet_context_release W c n1 = Inr (ret, n') \<and> keeps g n n'"
proof -
  from ctx_release_ok [OF keeps_ok [OF assms(1)] assms(2)] obtain ret n' where "skynet_context_release W c n1 = Inr (ret, n')" "keeps g n1 n'" by metis
  then show ?thesis using keeps_then [OF assms(1)] by auto
qed

lemma dispatch_message_ok:
  assumes ok: "node_ok g n" and W: "world_ok W" and c: "c \<in># g_refs g" "nd_ctx n c = Some x" "cx_init x" "cx_cb x \<noteq> None"
  shows "\<exists>n'. dispatch_message W c m n = Inr n' \<and> keeps g n n'"
proof -
  obtain cb where cb: "cx_cb x = Some cb" using c(4) by blast
  let ?x = "x\<lparr>cx_message_count := cx_message_count x + 1\<rparr>"
  define n1 where "n1 = ctx_put c ?x (n\<lparr>nd_current := cx_handle x\<rparr>)"
  have k1: "keeps g n n1"
  proof -
    have "keeps g n (n\<lparr>nd_current := cx_handle x\<rparr>)" using ok by (intro keeps_same_ctx) simp_all
    moreover have "keeps g (n\<lparr>nd_current := cx_handle x\<rparr>) n1" unfolding n1_def by (rule put_keeps) (use ok c in simp_all)
    ultimately show ?thesis by (rule keeps_trans)
  qed
  have x1: "nd_ctx n1 c = Some ?x" by (simp add: n1_def)
  let ?type = "unat (drop_bit MESSAGE_TYPE_SHIFT (msg_sz m))" and ?sz = "msg_sz m AND MESSAGE_TYPE_MASK"
  show ?thesis
  proof (cases "cx_profile x")
    case False
    obtain b n2 where "w_cb W cb c ?type (msg_session m) (msg_source m) (msg_data m) ?sz n1 = Inr (b, n2)" "keeps g n1 n2"
      using world_cb [OF W keeps_ok [OF k1] c(1)] by blast
    then show ?thesis using keeps_trans [OF k1] c(2,3) cb False by (auto simp: dispatch_message_def Let_def n1_def [symmetric])
  next
    case True
    define n2 where "n2 = ctx_put c (?x\<lparr>cx_cpu_start := fst (skynet_thread_time W n1)\<rparr>) (snd (skynet_thread_time W n1))"
    have k2: "keeps g n1 n2"
    proof -
      have "keeps g n1 (n1\<lparr>nd_clock := nd_clock n1 + 1\<rparr>)" using keeps_ok [OF k1] by (intro keeps_same_ctx) simp_all
      moreover have "keeps g (n1\<lparr>nd_clock := nd_clock n1 + 1\<rparr>) n2"
        unfolding n2_def skynet_thread_time_def snd_conv by (rule put_keeps [where x = ?x]) (use keeps_ok [OF k1] x1 in simp_all)
      ultimately show ?thesis by (rule keeps_trans)
    qed
    obtain b n3 where n3: "w_cb W cb c ?type (msg_session m) (msg_source m) (msg_data m) ?sz n2 = Inr (b, n3)" "keeps g n2 n3"
      using world_cb [OF W keeps_ok [OF k2] c(1)] by blast
    obtain y where y: "nd_ctx n3 c = Some y" using held_live [OF keeps_ok [OF n3(2)] c(1)] by blast
    let ?n4 = "snd (skynet_thread_time W n3)"
    let ?n5 = "ctx_put c (y\<lparr>cx_cpu_cost := cx_cpu_cost y + (fst (skynet_thread_time W n3) - cx_cpu_start y)\<rparr>) ?n4"
    have "keeps g n3 ?n5"
    proof -
      have "keeps g n3 ?n4" unfolding skynet_thread_time_def snd_conv using keeps_ok [OF n3(2)] by (intro keeps_same_ctx) simp_all
      moreover have "keeps g ?n4 ?n5" unfolding skynet_thread_time_def snd_conv by (rule put_keeps) (use keeps_ok [OF n3(2)] y in simp_all)
      ultimately show ?thesis by (rule keeps_trans)
    qed
    then have "keeps g n ?n5" using keeps_trans [OF keeps_trans [OF k1 k2] n3(2)] keeps_trans by blast
    moreover have "dispatch_message W c m n = Inr ?n5"
    proof -
      have t: "skynet_thread_time W n1 = (fst (skynet_thread_time W n1), snd (skynet_thread_time W n1))"
        "skynet_thread_time W n3 = (fst (skynet_thread_time W n3), ?n4)" by simp_all
      have "nd_ctx ?n4 c = Some y" using y by (simp add: skynet_thread_time_def)
      then show ?thesis using c(2,3) cb True n3(1)
        by (simp add: dispatch_message_def Let_def n1_def [symmetric] split_beta n2_def [symmetric])
    qed
    ultimately show ?thesis by blast
  qed
qed

lemma trigger_frame [simp]:
  "nd_ctx (skynet_monitor_trigger i a b n) = nd_ctx n" "nd_mqs (skynet_monitor_trigger i a b n) = nd_mqs n"
  "node_ok g (skynet_monitor_trigger i a b n) = node_ok g n" "keeps g m (skynet_monitor_trigger i a b n) = keeps g m n"
  by (simp_all add: skynet_monitor_trigger_def Let_def keeps_def)

lemma handle_message_ok:
  assumes ok: "node_ok g n" and W: "world_ok W" and c: "c \<in># g_refs g" "nd_ctx n c = Some x" "cx_init x" "r \<in> set (g_held g)"
  shows "\<exists>n'. handle_message W sm handle c r m n = Inr n' \<and> keeps g n n'"
proof -
  obtain q where q: "mqs_heap (nd_mqs n) r = Some q"
    using mqs_ok_held [OF node_okD(2) [OF ok], of r] c(4) by (auto simp: queue_view_None)
  obtain ov q' where o: "skynet_mq_overload q = (ov, q')" by fastforce
  let ?n1 = "n\<lparr>nd_mqs := (nd_mqs n)\<lparr>mqs_heap := (mqs_heap (nd_mqs n))(r \<mapsto> q')\<rparr>\<rparr>"
  have ok1: "node_ok g ?n1"
    using mqs_overload [OF node_okD(2) [OF ok] q] o by (intro node_ok_mqs_same [OF ok] same_owners_view) simp_all
  have k1: "keeps g n ?n1" by (rule same_owners_keeps [OF ok1])
  have "\<exists>n2. (if ov \<noteq> 0 then skynet_error W (Some c) (''May overload, message queue length = '' @ show_int (int ov)) ?n1 else Inr ?n1) = Inr n2 \<and>
      keeps g ?n1 n2 \<and> nd_ctx n2 = nd_ctx n"
  proof (cases "ov = 0")
    case True
    then show ?thesis using keeps_refl [OF ok1] by simp
  next
    case False
    obtain n2 where "skynet_error W (Some c) (''May overload, message queue length = '' @ show_int (int ov)) ?n1 = Inr n2" "keeps g ?n1 n2" "nd_ctx n2 = nd_ctx ?n1"
      using error_keeps [OF ok1, of "Some c"] c(2) by auto
    then show ?thesis using False by simp
  qed
  then obtain n2 where n2: "(if ov \<noteq> 0 then skynet_error W (Some c) (''May overload, message queue length = '' @ show_int (int ov)) ?n1 else Inr ?n1) = Inr n2"
    "keeps g ?n1 n2" "nd_ctx n2 = nd_ctx n" by blast
  let ?n3 = "skynet_monitor_trigger sm (msg_source m) handle n2"
  have k3: "keeps g n ?n3" using keeps_trans [OF k1 n2(2)] by simp
  have "\<exists>n4. (if cx_cb x = None then Inr ?n3 else dispatch_message W c m ?n3) = Inr n4 \<and> keeps g ?n3 n4"
    using dispatch_message_ok [OF keeps_ok [OF k3] W c(1), of x m] keeps_refl [OF keeps_ok [OF k3]] c(2,3) n2(3) by simp
  then obtain n4 where n4: "(if cx_cb x = None then Inr ?n3 else dispatch_message W c m ?n3) = Inr n4" "keeps g ?n3 n4" by blast
  have "handle_message W sm handle c r m n = Inr (skynet_monitor_trigger sm 0 0 n4)"
    using q o n2(1,3) c(2) n4(1) by (simp add: handle_message_def mq_get_def Let_def)
  then show ?thesis using keeps_trans [OF k3 n4(2)] by simp
qed

text \<open>
  A thread that works on the queue of a context it holds a reference to; the context stays
  initialised and keeps its queue.
\<close>

definition working :: "hands \<Rightarrow> ctxref \<Rightarrow> qref \<Rightarrow> node \<Rightarrow> bool" where
  "working g c r n \<longleftrightarrow> node_ok g n \<and> c \<in># g_refs g \<and> r \<in> set (g_held g) \<and> (\<exists>x. nd_ctx n c = Some x \<and> cx_init x \<and> cx_queue x = r)"

lemma working_keeps:
  assumes "working g c r n" "keeps g n n'"
  shows "working g c r n'"
proof -
  obtain x where x: "nd_ctx n c = Some x" "cx_init x" "cx_queue x = r" and c: "c \<in># g_refs g" "r \<in> set (g_held g)"
    using assms(1) by (auto simp: working_def)
  obtain y where y: "nd_ctx n' c = Some y" using held_live [OF keeps_ok [OF assms(2)] c(1)] by blast
  then show ?thesis using keeps_stays [OF assms(2) _ x(1) y] x c keeps_ok [OF assms(2)] by (auto simp: working_def stays_def)
qed

lemma working_pop:
  assumes w: "working g c r n"
  obtains (empty) s' where "mq_pop_at r n = Inr (None, n\<lparr>nd_mqs := s'\<rparr>)" "node_ok (worker_gives r g) (n\<lparr>nd_mqs := s'\<rparr>)"
    | (message) m s' where "mq_pop_at r n = Inr (Some m, n\<lparr>nd_mqs := s'\<rparr>)" "keeps g n (n\<lparr>nd_mqs := s'\<rparr>)"
proof -
  obtain x where x: "nd_ctx n c = Some x" "cx_queue x = r" and r: "node_ok g n" "r \<in> set (g_held g)"
    using w by (auto simp: working_def)
  obtain l where l: "queue_view (nd_mqs n) r = Some (cx_handle x, 0, l)" using context_queue [OF r(1) x(1)] x(2) by auto
  show thesis
  proof (cases l)
    case Nil
    then show thesis using pop_at_ok(1) [OF r l] empty by blast
  next
    case (Cons m ms)
    then show thesis using pop_at_ok(2) [OF r l] message same_owners_keeps by blast
  qed
qed

lemma working_message:
  "working g c r n \<Longrightarrow> world_ok W \<Longrightarrow> \<exists>n'. handle_message W sm handle c r m n = Inr n' \<and> keeps g n n'"
  using handle_message_ok [of g n W c _ r] by (auto simp: working_def)

lemma gives_keeps: "node_ok (worker_gives r g) (n\<lparr>nd_mqs := s'\<rparr>) \<Longrightarrow> keeps g m n \<Longrightarrow> keeps (worker_gives r g) m (n\<lparr>nd_mqs := s'\<rparr>)"
  by (rule keeps_then [OF _ same_owners_keeps]) simp_all

lemma dispatch_loop_ok:
  assumes "working g c r n" "world_ok W"
  shows "\<exists>b n'. dispatch_loop W sm handle c r k n = Inr (b, n') \<and> keeps (if b then g else worker_gives r g) n n'"
  using assms
proof (induction k arbitrary: n)
  case 0
  then show ?case using keeps_refl by (auto simp: working_def)
next
  case (Suc k)
  have ok: "node_ok g n" using Suc.prems(1) by (simp add: working_def)
  show ?case
  proof (rule working_pop [OF Suc.prems(1)])
    fix s'
    assume "mq_pop_at r n = Inr (None, n\<lparr>nd_mqs := s'\<rparr>)" "node_ok (worker_gives r g) (n\<lparr>nd_mqs := s'\<rparr>)"
    then show ?thesis using gives_keeps [OF _ keeps_refl [OF ok]] by (intro exI [of _ False]) auto
  next
    fix m s'
    let ?n1 = "n\<lparr>nd_mqs := s'\<rparr>"
    assume p: "mq_pop_at r n = Inr (Some m, ?n1)" "keeps g n ?n1"
    obtain n2 where n2: "handle_message W sm handle c r m ?n1 = Inr n2" "keeps g ?n1 n2"
      using working_message [OF working_keeps [OF Suc.prems(1) p(2)] Suc.prems(2)] by blast
    have k2: "keeps g n n2" by (rule keeps_trans [OF p(2) n2(2)])
    obtain b n3 where n3: "dispatch_loop W sm handle c r k n2 = Inr (b, n3)" "keeps (if b then g else worker_gives r g) n2 n3"
      using Suc.IH [OF working_keeps [OF Suc.prems(1) k2] Suc.prems(2)] by blast
    have "keeps (if b then g else worker_gives r g) n n3" by (rule keeps_then [OF k2 n3(2)]) (auto split: if_splits)
    then show ?thesis using p(1) n2(1) n3(1) by auto
  qed
qed

lemma dispatch_all_of_ok:
  assumes w: "working g c r n" and W: "world_ok W"
  shows "\<exists>b n'. dispatch_all_of W sm weight handle c r n = Inr (b, n') \<and> keeps (if b then g else worker_gives r g) n n'"
proof (rule working_pop [OF w])
  have ok: "node_ok g n" using w by (simp add: working_def)
  fix s'
  assume "mq_pop_at r n = Inr (None, n\<lparr>nd_mqs := s'\<rparr>)" "node_ok (worker_gives r g) (n\<lparr>nd_mqs := s'\<rparr>)"
  then show ?thesis using gives_keeps [OF _ keeps_refl [OF ok]] by (intro exI [of _ False]) (auto simp: dispatch_all_of_def)
next
  fix m s'
  let ?n1 = "n\<lparr>nd_mqs := s'\<rparr>"
  assume p: "mq_pop_at r n = Inr (Some m, ?n1)" "keeps g n ?n1"
  have w1: "working g c r ?n1" by (rule working_keeps [OF w p(2)])
  obtain q where q: "mq_get r ?n1 = Inr q"
    using mqs_ok_held [OF node_okD(2) [OF keeps_ok [OF p(2)]], of r] w1 by (auto simp: working_def queue_view_None mq_get_def)
  obtain n2 where n2: "handle_message W sm handle c r m ?n1 = Inr n2" "keeps g ?n1 n2" using working_message [OF w1 W] by blast
  have k2: "keeps g n n2" by (rule keeps_trans [OF p(2) n2(2)])
  let ?k = "(if weight \<ge> 0 then drop_bit (nat weight) (skynet_mq_length q) else 1) - 1"
  obtain b n3 where n3: "dispatch_loop W sm handle c r ?k n2 = Inr (b, n3)" "keeps (if b then g else worker_gives r g) n2 n3"
    using dispatch_loop_ok [OF working_keeps [OF w k2] W] by blast
  have "keeps (if b then g else worker_gives r g) n n3" by (rule keeps_then [OF k2 n3(2)]) (auto split: if_splits)
  then show ?thesis using p(1) q n2(1) n3(1) by (auto simp: dispatch_all_of_def Let_def)
qed

lemma worker_hands [simp]:
  "worker_gives r (worker_takes (Some r) g) = g"
  "worker_takes q (g\<lparr>g_refs := R\<rparr>) = (worker_takes q g)\<lparr>g_refs := R\<rparr>"
  by (simp_all add: worker_gives_def worker_takes_def split: option.splits)

lemma dispatch_end_ok:
  assumes w: "working ((worker_takes (Some r) g)\<lparr>g_refs := add_mset c (g_refs g)\<rparr>) c r n" and W: "world_ok W" and up: "nd_REMOTE n \<noteq> None"
  shows "\<exists>q' n'. dispatch_end W c r n = Inr (q', n') \<and> node_ok (worker_takes q' g) n' \<and> nd_REMOTE n' \<noteq> None"
proof -
  let ?g = "(worker_takes (Some r) g)\<lparr>g_refs := add_mset c (g_refs g)\<rparr>"
  obtain y where y: "nd_ctx n c = Some y" "cx_queue y = r" "node_ok ?g n" using w by (auto simp: working_def)
  obtain nq s4 where n4: "globalmq_pop_at n = Inr (nq, n\<lparr>nd_mqs := s4\<rparr>)" "node_ok (worker_takes nq ?g) (n\<lparr>nd_mqs := s4\<rparr>)"
    using globalmq_pop_at_ok [OF y(3)] by blast
  let ?n4 = "n\<lparr>nd_mqs := s4\<rparr>"
  have "\<exists>r' n5. (case nq of None \<Rightarrow> Inr (r, ?n4) | Some nr \<Rightarrow> rbind (globalmq_push_at r ?n4) (\<lambda>n. Inr (nr, n))) = Inr (r', n5) \<and>
      node_ok ((worker_takes (Some r') g)\<lparr>g_refs := add_mset c (g_refs (worker_takes (Some r') g))\<rparr>) n5 \<and> nd_REMOTE n5 \<noteq> None"
  proof (cases nq)
    case None
    then show ?thesis using n4(2) up by simp
  next
    case (Some nr)
    let ?g5 = "(worker_takes (Some nr) g)\<lparr>g_refs := add_mset c (g_refs g)\<rparr>"
    have ok4: "node_ok (worker_takes (Some nr) ?g) ?n4" using n4(2) Some by simp
    have "nr \<noteq> r" using mqs_ok_distinct [OF node_okD(2) [OF ok4]] by auto
    then have "gives r (worker_takes (Some nr) ?g) ?g5" by (simp add: gives_def worker_takes_def)
    moreover have "launched ?g5 ?n4" using init_new [OF ok4] by (auto simp: launched_def)
    ultimately obtain s5 where "globalmq_push_at r ?n4 = Inr (?n4\<lparr>nd_mqs := s5\<rparr>)" "node_ok ?g5 (?n4\<lparr>nd_mqs := s5\<rparr>)"
      using globalmq_push_at_ok [OF ok4] by blast
    then show ?thesis using Some up by simp
  qed
  then obtain r' n5 where n5: "(case nq of None \<Rightarrow> Inr (r, ?n4) | Some nr \<Rightarrow> rbind (globalmq_push_at r ?n4) (\<lambda>n. Inr (nr, n))) = Inr (r', n5)"
    "node_ok ((worker_takes (Some r') g)\<lparr>g_refs := add_mset c (g_refs (worker_takes (Some r') g))\<rparr>) n5" "nd_REMOTE n5 \<noteq> None" by blast
  from ctx_release_ok [OF n5(2) W] obtain o' n6 where n6: "skynet_context_release W c n5 = Inr (o', n6)" "keeps (worker_takes (Some r') g) n5 n6" by metis
  have "dispatch_end W c r n = Inr (Some r', n6)" using y(1,2) n4(1) n5(1) n6(1) by (simp add: dispatch_end_def)
  then show ?thesis using keeps_ok [OF n6(2)] keeps_remote [OF n6(2) n5(3)] by blast
qed

lemma dispatch_queue_ok:
  assumes ok: "node_ok (worker_takes (Some r) g) n" and W: "world_ok W" and up: "nd_REMOTE n \<noteq> None"
  shows "\<exists>q' n'. dispatch_queue W sm r weight n = Inr (q', n') \<and> node_ok (worker_takes q' g) n' \<and> nd_REMOTE n' \<noteq> None"
proof -
  let ?g = "worker_takes (Some r) g"
  have r: "r \<in> set (g_held ?g)" by simp
  obtain mq where mq: "mq_get r n = Inr mq" "mqs_heap (nd_mqs n) r = Some mq"
    using mqs_ok_held [OF node_okD(2) [OF ok], of r] by (auto simp: queue_view_None mq_get_def)
  have view: "queue_view (nd_mqs n) r = Some (mq_handle mq, mq_release mq, mq_list mq)" using mq(2) by (simp add: queue_view_def)
  show ?thesis
    using handle_grab_ok [OF ok, of "mq_handle mq"]
  proof (elim disjE conjE exE)
    assume "handle_grab (mq_handle mq) n = Inr (None, n)"
    moreover obtain n2 where n2: "mq_release_at W (mq_handle mq) r n = Inr n2" "keeps g n n2"
      using release_at_ok [OF ok gives_worker [OF r] launched_worker [OF ok], of "mq_handle mq"] node_okD(7) [OF ok view] up by auto
    moreover obtain q' s' where "globalmq_pop_at n2 = Inr (q', n2\<lparr>nd_mqs := s'\<rparr>)" "node_ok (worker_takes q' g) (n2\<lparr>nd_mqs := s'\<rparr>)"
      using globalmq_pop_at_ok [OF keeps_ok [OF n2(2)]] by blast
    ultimately show ?thesis using mq(1) keeps_remote [OF n2(2) up] by (simp add: dispatch_queue_def skynet_mq_handle_def)
  next
    fix c x
    let ?n2 = "ctx_put c (x\<lparr>cx_ref := cx_ref x + 1\<rparr>) n" and ?gc = "?g\<lparr>g_refs := add_mset c (g_refs g)\<rparr>"
    assume c: "c \<in> contexts (nd_handles n)" "nd_ctx n c = Some x" "cx_handle x = mq_handle mq"
      and grab: "handle_grab (mq_handle mq) n = Inr (Some c, ?n2)" and "node_ok (?g\<lparr>g_refs := add_mset c (g_refs ?g)\<rparr>) ?n2"
    then have ok2: "node_ok ?gc ?n2" by simp
    obtain l where l: "queue_view (nd_mqs n) (cx_queue x) = Some (cx_handle x, 0, l)" using context_queue [OF ok c(2)] by blast
    have xr: "cx_queue x = r" using node_okD(6) [OF ok l, of r] view c(3) by auto
    moreover have "cx_init x" using init_new [OF ok c(2) _ c(1)] held_not_new [OF ok r] xr by auto
    ultimately have w: "working ?gc c r ?n2" using ok2 by (simp add: working_def)
    obtain b n3 where n3: "dispatch_all_of W sm weight (mq_handle mq) c r ?n2 = Inr (b, n3)" "keeps (if b then ?gc else worker_gives r ?gc) ?n2 n3"
      using dispatch_all_of_ok [OF w W] by blast
    have up3: "nd_REMOTE n3 \<noteq> None" using keeps_remote [OF n3(2)] up by simp
    show ?thesis
    proof (cases b)
      case False
      then have "node_ok (g\<lparr>g_refs := add_mset c (g_refs g)\<rparr>) n3" using keeps_ok [OF n3(2)] by (simp add: worker_gives_def worker_takes_def)
      from ctx_release_ok [OF this W] obtain o' n4 where n4: "skynet_context_release W c n3 = Inr (o', n4)" "keeps g n3 n4" by metis
      obtain q' s' where "globalmq_pop_at n4 = Inr (q', n4\<lparr>nd_mqs := s'\<rparr>)" "node_ok (worker_takes q' g) (n4\<lparr>nd_mqs := s'\<rparr>)"
        using globalmq_pop_at_ok [OF keeps_ok [OF n4(2)]] by blast
      then show ?thesis using mq(1) grab n3(1) False n4(1) keeps_remote [OF n4(2) up3] by (simp add: dispatch_queue_def skynet_mq_handle_def)
    next
      case True
      then have "working ?gc c r n3" using working_keeps [OF w] n3(2) by simp
      from dispatch_end_ok [OF this W up3] show ?thesis using mq(1) grab n3(1) True by (simp add: dispatch_queue_def skynet_mq_handle_def)
    qed
  qed
qed

text \<open>A worker that may hold a queue dispatches: it does not fault and afterwards holds what it returns.\<close>

lemma message_dispatch_ok:
  assumes ok: "node_ok (worker_takes q g) n" and W: "world_ok W" and up: "nd_REMOTE n \<noteq> None"
  shows "\<exists>q' n'. skynet_context_message_dispatch W sm q weight n = Inr (q', n') \<and> node_ok (worker_takes q' g) n' \<and> nd_REMOTE n' \<noteq> None"
proof (cases q)
  case (Some r)
  then show ?thesis using dispatch_queue_ok [of r g n W] ok W up by (simp add: skynet_context_message_dispatch_def)
next
  case None
  then obtain q1 s1 where q1: "globalmq_pop_at n = Inr (q1, n\<lparr>nd_mqs := s1\<rparr>)" "node_ok (worker_takes q1 g) (n\<lparr>nd_mqs := s1\<rparr>)"
    using globalmq_pop_at_ok [of g n] ok by auto
  show ?thesis
  proof (cases q1)
    case None
    then show ?thesis using q1 up \<open>q = None\<close> by (simp add: skynet_context_message_dispatch_def)
  next
    case (Some r)
    then show ?thesis using dispatch_queue_ok [of r g "n\<lparr>nd_mqs := s1\<rparr>" W] q1 W up \<open>q = None\<close> by (simp add: skynet_context_message_dispatch_def)
  qed
qed

end
