(* ===== verification/Command.thy ===== *)
theory Command
  imports Node
begin

text \<open>
  The commands a service gives to the node by name (\<^verbatim>\<open>skynet_command\<close> of \<^verbatim>\<open>skynet-src/skynet_server.c\<close>), with
  the environment (\<^verbatim>\<open>skynet_env.c\<close>) and the opening of log files (\<^verbatim>\<open>skynet_log.c\<close>). The result of a command is
  a string, or \<open>None\<close> for \<^verbatim>\<open>NULL\<close>; so is its parameter.
\<close>

section \<open>Environment and log files\<close>

definition skynet_getenv :: "cstr \<Rightarrow> node \<Rightarrow> cstr option" where
  "skynet_getenv key n = nd_env n key"

text \<open>A key is set once.\<close>

definition skynet_setenv :: "cstr \<Rightarrow> cstr \<Rightarrow> node \<Rightarrow> node result" where
  "skynet_setenv key value n =
     rbind (cassert (nd_env n key = None)) (\<lambda>_. Inr (n\<lparr>nd_env := (nd_env n)(key \<mapsto> value)\<rparr>))"

definition skynet_log_open :: "world \<Rightarrow> ctxref \<Rightarrow> u32 \<Rightarrow> node \<Rightarrow> (fileref option \<times> node) result" where
  "skynet_log_open W ctx handle n =
     (case skynet_getenv ''logpath'' n of
        None \<Rightarrow> Inr (None, n)
      | Some logpath \<Rightarrow>
          (let tmp = logpath @ ''/'' @ fmt_08x handle @ ''.log'' in
           rbind (sprintf (length logpath + 16) tmp) (\<lambda>_.
           case w_fopen W tmp of
             Some f \<Rightarrow> rbind (skynet_error W (Some ctx) (''Open log file '' @ tmp) n) (\<lambda>n. Inr (Some f, n))
           | None \<Rightarrow> rbind (skynet_error W (Some ctx) (''Open log file '' @ tmp @ '' fail'') n) (\<lambda>n. Inr (None, n)))))"

definition skynet_log_close :: "world \<Rightarrow> ctxref \<Rightarrow> u32 \<Rightarrow> node \<Rightarrow> node result" where
  "skynet_log_close W ctx handle n = skynet_error W (Some ctx) (''Close log file :'' @ fmt_08x handle) n"

section \<open>Commands\<close>

text \<open>\<^verbatim>\<open>sprintf\<close> into the 32 bytes of \<^verbatim>\<open>context->result\<close>, which is what the command then returns.\<close>

definition set_result :: "ctxref \<Rightarrow> cstr \<Rightarrow> node \<Rightarrow> (cstr option \<times> node) result" where
  "set_result c s n =
     rbind (sprintf 32 s) (\<lambda>_.
     rbind (ctx_get c n) (\<lambda>x. Inr (Some s, ctx_put c (x\<lparr>cx_result := s\<rparr>) n)))"

text \<open>A string that is read although it may be \<^verbatim>\<open>NULL\<close>.\<close>

definition string_arg :: "cstr option \<Rightarrow> cstr result" where
  "string_arg p = (case p of None \<Rightarrow> Inl NullDeref | Some s \<Rightarrow> Inr s)"

definition handle_exit :: "world \<Rightarrow> ctxref \<Rightarrow> u32 \<Rightarrow> node \<Rightarrow> node result" where
  "handle_exit W c handle n =
     rbind (if handle = 0 then
              rbind (skynet_context_handle c n) (\<lambda>h.
              rbind (skynet_error W (Some c) ''KILL self'' n) (\<lambda>n. Inr (h, n)))
            else rbind (skynet_error W (Some c) (''KILL :'' @ fmt_x handle) n) (\<lambda>n. Inr (handle, n))) (\<lambda>(handle, n).
     rbind (if nd_monitor_exit n \<noteq> 0 then
              rbind (skynet_send W (Some c) handle (nd_monitor_exit n) PTYPE_CLIENT 0 None 0 n) (\<lambda>(_, n). Inr n)
            else Inr n) (\<lambda>n.
     rbind (handle_retire W handle n) (\<lambda>(_, n). Inr n)))"

text \<open>A timeout that is already over is pushed at once.\<close>

definition node_timeout :: "world \<Rightarrow> u32 \<Rightarrow> int \<Rightarrow> int \<Rightarrow> node \<Rightarrow> node result" where
  "node_timeout W handle time session n =
     (case skynet_timeout handle time session (nd_timer n) of
        Inl (h, m) \<Rightarrow> rbind (skynet_context_push W h m n) (\<lambda>(_, n). Inr n)
      | Inr T \<Rightarrow> Inr (n\<lparr>nd_timer := T\<rparr>))"

definition cmd_timeout :: "world \<Rightarrow> ctxref \<Rightarrow> cstr option \<Rightarrow> node \<Rightarrow> (cstr option \<times> node) result" where
  "cmd_timeout W c param n =
     rbind (string_arg param) (\<lambda>param.
     let ti = signed_take_bit 31 (strtol 10 param) in
     rbind (skynet_context_newsession c n) (\<lambda>(session, n).
     rbind (skynet_context_handle c n) (\<lambda>h.
     rbind (node_timeout W h ti session n) (\<lambda>n.
     set_result c (show_int session) n))))"

definition cmd_reg :: "world \<Rightarrow> ctxref \<Rightarrow> cstr option \<Rightarrow> node \<Rightarrow> (cstr option \<times> node) result" where
  "cmd_reg W c param n =
     rbind (skynet_context_handle c n) (\<lambda>h.
     case param of
       None \<Rightarrow> set_result c ('':'' @ fmt_x h) n
     | Some p \<Rightarrow>
         if p = [] then set_result c ('':'' @ fmt_x h) n
         else if first_char p = CHR ''.'' then
           rbind (skynet_handle_namehandle h (drop 1 p) (nd_handles n)) (\<lambda>(r, s). Inr (r, n\<lparr>nd_handles := s\<rparr>))
         else rbind (skynet_error W (Some c) (''Can't register global name '' @ p @ '' in C'') n) (\<lambda>n. Inr (None, n)))"

definition cmd_query :: "ctxref \<Rightarrow> cstr option \<Rightarrow> node \<Rightarrow> (cstr option \<times> node) result" where
  "cmd_query c param n =
     rbind (string_arg param) (\<lambda>p.
     let handle = skynet_handle_findname (drop 1 p) (nd_handles n) in
     if first_char p = CHR ''.'' \<and> handle \<noteq> 0 then set_result c ('':'' @ fmt_x handle) n else Inr (None, n))"

text \<open>
  \<^verbatim>\<open>sscanf(param,"%s %s",name,handle)\<close>: the words of the parameter. With fewer than two, \<^verbatim>\<open>handle\<close> is an
  array that nothing was written to.
\<close>

definition scan_word :: "cstr \<Rightarrow> cstr \<times> cstr" where
  "scan_word s = (let s = dropWhile isspace s in (takeWhile (\<lambda>c. \<not> isspace c) s, dropWhile (\<lambda>c. \<not> isspace c) s))"

definition cmd_name :: "world \<Rightarrow> ctxref \<Rightarrow> cstr option \<Rightarrow> node \<Rightarrow> (cstr option \<times> node) result" where
  "cmd_name W c param n =
     rbind (string_arg param) (\<lambda>p.
     let (name, rest) = scan_word p; handle = fst (scan_word rest) in
     if handle = [] then Inl Uninitialised
     else if first_char handle \<noteq> CHR '':'' then Inr (None, n)
     else
       (let handle_id = ucast (strtoul 16 (drop 1 handle)) in
        if handle_id = 0 then Inr (None, n)
        else if first_char name = CHR ''.'' then
          rbind (skynet_handle_namehandle handle_id (drop 1 name) (nd_handles n)) (\<lambda>(r, s). Inr (r, n\<lparr>nd_handles := s\<rparr>))
        else rbind (skynet_error W (Some c) (''Can't set global name '' @ name @ '' in C'') n) (\<lambda>n. Inr (None, n))))"

definition cmd_exit :: "world \<Rightarrow> ctxref \<Rightarrow> node \<Rightarrow> (cstr option \<times> node) result" where
  "cmd_exit W c n = rbind (handle_exit W c 0 n) (\<lambda>n. Inr (None, n))"

definition tohandle :: "world \<Rightarrow> ctxref \<Rightarrow> cstr \<Rightarrow> node \<Rightarrow> (u32 \<times> node) result" where
  "tohandle W c param n =
     (if first_char param = CHR '':'' then Inr (ucast (strtoul 16 (drop 1 param)), n)
      else if first_char param = CHR ''.'' then Inr (skynet_handle_findname (drop 1 param) (nd_handles n), n)
      else rbind (skynet_error W (Some c) (''Can't convert '' @ param @ '' to handle'') n) (\<lambda>n. Inr (0, n)))"

definition cmd_kill :: "world \<Rightarrow> ctxref \<Rightarrow> cstr option \<Rightarrow> node \<Rightarrow> (cstr option \<times> node) result" where
  "cmd_kill W c param n =
     rbind (string_arg param) (\<lambda>p.
     rbind (tohandle W c p n) (\<lambda>(handle, n).
     if handle \<noteq> 0 then rbind (handle_exit W c handle n) (\<lambda>n. Inr (None, n)) else Inr (None, n)))"

text \<open>\<^verbatim>\<open>strsep\<close> of a null string is null, so a line without blanks has no arguments.\<close>

definition launch_args :: "cstr \<Rightarrow> cstr \<times> cstr option" where
  "launch_args p =
     (let (md, args) = strsep [CHR '' '', CHR 0x09, CHR 0x0D, CHR 0x0A] p
      in (md, map_option (\<lambda>a. fst (strsep [CHR 0x0D, CHR 0x0A] a)) args))"

definition cmd_launch :: "world \<Rightarrow> ctxref \<Rightarrow> cstr option \<Rightarrow> node \<Rightarrow> (cstr option \<times> node) result" where
  "cmd_launch W c param n =
     rbind (string_arg param) (\<lambda>p.
     let (md, args) = launch_args p in
     rbind (skynet_context_new W md args n) (\<lambda>(inst, n).
     case inst of
       None \<Rightarrow> Inr (None, n)
     | Some i \<Rightarrow> rbind (skynet_context_handle i n) (\<lambda>h. set_result c (id_to_hex h) n)))"

definition cmd_getenv :: "cstr option \<Rightarrow> node \<Rightarrow> (cstr option \<times> node) result" where
  "cmd_getenv param n = rbind (string_arg param) (\<lambda>p. Inr (skynet_getenv p n, n))"

definition cmd_setenv :: "cstr option \<Rightarrow> node \<Rightarrow> (cstr option \<times> node) result" where
  "cmd_setenv param n =
     rbind (string_arg param) (\<lambda>p.
     case dropWhile (\<lambda>c. c \<noteq> CHR '' '') p of
       [] \<Rightarrow> Inr (None, n)
     | _ # value \<Rightarrow> rbind (skynet_setenv (takeWhile (\<lambda>c. c \<noteq> CHR '' '') p) value n) (\<lambda>n. Inr (None, n)))"

definition cmd_starttime :: "ctxref \<Rightarrow> node \<Rightarrow> (cstr option \<times> node) result" where
  "cmd_starttime c n = set_result c (fmt_u (skynet_starttime (nd_timer n))) n"

definition cmd_abort :: "world \<Rightarrow> nat \<Rightarrow> node \<Rightarrow> (cstr option \<times> node) result" where
  "cmd_abort W fuel n = rbind (skynet_handle_retireall W fuel 0 0 n) (\<lambda>n. Inr (None, n))"

definition cmd_monitor :: "world \<Rightarrow> ctxref \<Rightarrow> cstr option \<Rightarrow> node \<Rightarrow> (cstr option \<times> node) result" where
  "cmd_monitor W c param n =
     (if param = None \<or> param = Some [] then
        if nd_monitor_exit n \<noteq> 0 then set_result c ('':'' @ fmt_x (nd_monitor_exit n)) n else Inr (None, n)
      else
        rbind (string_arg param) (\<lambda>p.
        rbind (tohandle W c p n) (\<lambda>(handle, n). Inr (None, n\<lparr>nd_monitor_exit := handle\<rparr>))))"

text \<open>
  \<^verbatim>\<open>%lf\<close> of microseconds in a \<^verbatim>\<open>double\<close> divided by a million: below \<open>4.5 * 10 ^ 15\<close> microseconds the error of
  the double is less than half of the last of the six digits printed.
\<close>

definition fmt_seconds :: "u64 \<Rightarrow> cstr" where
  "fmt_seconds t =
     (let s = unat t div 1000000; f = show_base 10 (unat t mod 1000000)
      in show_base 10 s @ ''.'' @ replicate (6 - length f) (CHR ''0'') @ f)"

definition cmd_stat :: "world \<Rightarrow> ctxref \<Rightarrow> cstr option \<Rightarrow> node \<Rightarrow> (cstr option \<times> node) result" where
  "cmd_stat W c param n =
     rbind (string_arg param) (\<lambda>p.
     rbind (ctx_get c n) (\<lambda>x.
     if p = ''mqlen'' then rbind (mq_get (cx_queue x) n) (\<lambda>q. set_result c (show_int (int (skynet_mq_length q))) n)
     else if p = ''endless'' then
       if cx_endless x then set_result c ''1'' (ctx_put c (x\<lparr>cx_endless := False\<rparr>) n) else set_result c ''0'' n
     else if p = ''cpu'' then set_result c (fmt_seconds (cx_cpu_cost x)) n
     else if p = ''time'' then
       if cx_profile x then
         (let (now, n) = skynet_thread_time W n in set_result c (fmt_seconds (now - cx_cpu_start x)) n)
       else set_result c ''0'' n
     else if p = ''message'' then set_result c (show_int (cx_message_count x)) n
     else set_result c [] n))"

definition cmd_logon :: "world \<Rightarrow> ctxref \<Rightarrow> cstr option \<Rightarrow> node \<Rightarrow> (cstr option \<times> node) result" where
  "cmd_logon W c param n =
     rbind (string_arg param) (\<lambda>p.
     rbind (tohandle W c p n) (\<lambda>(handle, n).
     if handle = 0 then Inr (None, n)
     else
       rbind (handle_grab handle n) (\<lambda>(ctx, n).
       case ctx of
         None \<Rightarrow> Inr (None, n)
       | Some d \<Rightarrow>
           rbind (ctx_get d n) (\<lambda>x.
           rbind (if cx_logfile x = None then
                    rbind (skynet_log_open W c handle n) (\<lambda>(f, n).
                    rbind (ctx_get d n) (\<lambda>x.
                    Inr (if f \<noteq> None \<and> cx_logfile x = None then ctx_put d (x\<lparr>cx_logfile := f\<rparr>) n else n)))
                  else Inr n) (\<lambda>n.
           rbind (skynet_context_release W d n) (\<lambda>(_, n). Inr (None, n)))))))"

definition cmd_logoff :: "world \<Rightarrow> ctxref \<Rightarrow> cstr option \<Rightarrow> node \<Rightarrow> (cstr option \<times> node) result" where
  "cmd_logoff W c param n =
     rbind (string_arg param) (\<lambda>p.
     rbind (tohandle W c p n) (\<lambda>(handle, n).
     if handle = 0 then Inr (None, n)
     else
       rbind (handle_grab handle n) (\<lambda>(ctx, n).
       case ctx of
         None \<Rightarrow> Inr (None, n)
       | Some d \<Rightarrow>
           rbind (ctx_get d n) (\<lambda>x.
           rbind (if cx_logfile x \<noteq> None then skynet_log_close W c handle (ctx_put d (x\<lparr>cx_logfile := None\<rparr>) n) else Inr n) (\<lambda>n.
           rbind (skynet_context_release W d n) (\<lambda>(_, n). Inr (None, n)))))))"

definition cmd_signal :: "world \<Rightarrow> ctxref \<Rightarrow> cstr option \<Rightarrow> node \<Rightarrow> (cstr option \<times> node) result" where
  "cmd_signal W c param n =
     rbind (string_arg param) (\<lambda>p.
     rbind (tohandle W c p n) (\<lambda>(handle, n).
     if handle = 0 then Inr (None, n)
     else
       rbind (handle_grab handle n) (\<lambda>(ctx, n).
       case ctx of
         None \<Rightarrow> Inr (None, n)
       | Some d \<Rightarrow>
           rbind (ctx_get d n) (\<lambda>x.
           let arg = dropWhile (\<lambda>c. c \<noteq> CHR '' '') p; sig = (if arg = [] then 0 else signed_take_bit 31 (strtol 0 arg)) in
           rbind (skynet_module_instance_signal W (cx_mod x) (cx_instance x) sig n) (\<lambda>n.
           rbind (skynet_context_release W d n) (\<lambda>(_, n). Inr (None, n)))))))"

text \<open>The table \<^verbatim>\<open>cmd_funcs\<close>; \<open>fuel\<close> is for \<^verbatim>\<open>ABORT\<close>.\<close>

definition skynet_command :: "world \<Rightarrow> nat \<Rightarrow> ctxref \<Rightarrow> cstr \<Rightarrow> cstr option \<Rightarrow> node \<Rightarrow> (cstr option \<times> node) result" where
  "skynet_command W fuel c cmd param n =
     (if cmd = ''TIMEOUT'' then cmd_timeout W c param n
      else if cmd = ''REG'' then cmd_reg W c param n
      else if cmd = ''QUERY'' then cmd_query c param n
      else if cmd = ''NAME'' then cmd_name W c param n
      else if cmd = ''EXIT'' then cmd_exit W c n
      else if cmd = ''KILL'' then cmd_kill W c param n
      else if cmd = ''LAUNCH'' then cmd_launch W c param n
      else if cmd = ''GETENV'' then cmd_getenv param n
      else if cmd = ''SETENV'' then cmd_setenv param n
      else if cmd = ''STARTTIME'' then cmd_starttime c n
      else if cmd = ''ABORT'' then cmd_abort W fuel n
      else if cmd = ''MONITOR'' then cmd_monitor W c param n
      else if cmd = ''STAT'' then cmd_stat W c param n
      else if cmd = ''LOGON'' then cmd_logon W c param n
      else if cmd = ''LOGOFF'' then cmd_logoff W c param n
      else if cmd = ''SIGNAL'' then cmd_signal W c param n
      else Inr (None, n))"

end
