(* ===== verification/NodeCmd.thy ===== *)
theory NodeCmd
  imports NodeRun Command
begin

text \<open>
  The commands keep the invariant of the node. They are sequences of operations that each keep it,
  so the proofs go through the text of a command with one rule for the composition.
\<close>

section \<open>Composition\<close>

text \<open>A node in operation, and a computation that ends in a node (found by \<open>p\<close> in its result) and keeps it so.\<close>

definition up :: "hands \<Rightarrow> node \<Rightarrow> bool" where
  "up g n \<longleftrightarrow> node_ok g n \<and> nd_REMOTE n \<noteq> None"

definition ends :: "('a \<Rightarrow> node) \<Rightarrow> hands \<Rightarrow> node \<Rightarrow> 'a result \<Rightarrow> bool" where
  "ends p g n R \<longleftrightarrow> (\<exists>a. R = Inr a \<and> keeps g n (p a))"

named_theorems ends_intros

lemma up_keeps: "up g n \<Longrightarrow> keeps g n n' \<Longrightarrow> up g n'"
  using keeps_ok keeps_remote by (auto simp: up_def)

lemma ends_bind:
  assumes "up g n" "ends p g n R" "\<And>a. R = Inr a \<Longrightarrow> up g (p a) \<Longrightarrow> ends q g (p a) (F a)"
  shows "ends q g n (rbind R F)"
proof -
  obtain a where a: "R = Inr a" "keeps g n (p a)" using assms(2) by (auto simp: ends_def)
  with assms(3) [OF a(1) up_keeps [OF assms(1) a(2)]] obtain b where "F a = Inr b" "keeps g (p a) (q b)" by (auto simp: ends_def)
  then show ?thesis using a keeps_trans [OF a(2)] by (auto simp: ends_def)
qed

lemma ends_pair: "(\<And>a. R = Inr a \<Longrightarrow> up g (snd a) \<Longrightarrow> ends q g (snd a) (F (fst a) (snd a))) \<Longrightarrow> up g n \<Longrightarrow> ends snd g n R \<Longrightarrow> ends q g n (rbind R (\<lambda>(r, n). F r n))"
  by (rule ends_bind [where p = snd]) (auto simp: case_prod_beta)

lemma ends_Inr [ends_intros]: "up g (p a) \<Longrightarrow> ends p g (p a) (Inr a)"
  by (auto simp: ends_def up_def intro: keeps_refl)

lemma ends_done [ends_intros]: "up g n \<Longrightarrow> ends snd g n (Inr (r, n))" "up g n \<Longrightarrow> ends (\<lambda>n. n) g n (Inr n)"
  by (auto simp: ends_def up_def intro: keeps_refl)

lemma up_live: "up g n \<Longrightarrow> c \<in># g_refs g \<Longrightarrow> \<exists>x. nd_ctx n c = Some x"
  using held_live by (auto simp: up_def)

section \<open>The operations that commands are made of\<close>

lemma show_base_length: "2 \<le> b \<Longrightarrow> 0 < k \<Longrightarrow> n < b ^ k \<Longrightarrow> length (show_base b n) \<le> k"
proof (induction k arbitrary: n)
  case (Suc k)
  show ?case
  proof (cases "n < b")
    case False
    then have "0 < k" using Suc.prems(3) by (cases k) auto
    moreover have "n div b < b ^ k" using Suc.prems by (simp add: less_mult_imp_div_less mult.commute)
    ultimately show ?thesis using Suc.IH [of "n div b"] Suc.prems(1) False by (simp add: show_base_step)
  qed (simp add: show_base_small)
qed simp

lemma printed_lengths:
  "length (fmt_x w) \<le> 8" "length (fmt_u w) \<le> 10" "length (fmt_08x w) = 8" "length (id_to_hex w) = 9"
  "\<bar>i\<bar> < 2 ^ 31 \<Longrightarrow> length (show_int i) \<le> 11" "length (fmt_seconds t) \<le> 21"
proof -
  have w: "unat w < 2 ^ 32" using unsigned_less [of w] by simp
  show x: "length (fmt_x w) \<le> 8" using show_base_length [of 16 8 "unat w"] w by (simp add: fmt_x_def)
  show "length (fmt_u w) \<le> 10" using show_base_length [of 10 10 "unat w"] w by (simp add: fmt_u_def)
  show "length (fmt_08x w) = 8" using x by (simp add: fmt_08x_def)
  show "length (id_to_hex w) = 9" by (simp add: id_to_hex_def)
  show "length (show_int i) \<le> 11" if "\<bar>i\<bar> < 2 ^ 31"
  proof -
    have "nat \<bar>i\<bar> < 10 ^ 10" using that by simp
    then have "length (show_base 10 (nat \<bar>i\<bar>)) \<le> 10" using show_base_length [of 10 10 "nat \<bar>i\<bar>"] by simp
    then show ?thesis by (cases "i < 0") (simp_all add: show_int_def)
  qed
  have "unat t < 2 ^ 64" using unsigned_less [of t] by simp
  then have "unat t div 1000000 < 10 ^ 14" by simp
  then show "length (fmt_seconds t) \<le> 21"
    using show_base_length [of 10 14 "unat t div 1000000"] show_base_length [of 10 6 "unat t mod 1000000"]
    by (simp add: fmt_seconds_def Let_def)
qed

lemma ends_result [ends_intros]:
  assumes "up g n" "c \<in># g_refs g" "length s < 32"
  shows "ends snd g n (set_result c s n)"
proof -
  obtain x where x: "nd_ctx n c = Some x" using up_live [OF assms(1,2)] by blast
  then have "keeps g n (ctx_put c (x\<lparr>cx_result := s\<rparr>) n)" using put_keeps [of g n c x] assms(1) by (simp add: up_def)
  then show ?thesis using x assms(3) by (simp add: ends_def set_result_def sprintf_def)
qed

lemma ends_error [ends_intros]: "up g n \<Longrightarrow> c \<in># g_refs g \<Longrightarrow> ends (\<lambda>n. n) g n (skynet_error W (Some c) s n)"
  using error_keeps [of g n "Some c"] up_live by (fastforce simp: ends_def up_def)

lemma ends_retire [ends_intros]: "up g n \<Longrightarrow> world_ok W \<Longrightarrow> ends snd g n (handle_retire W h n)"
  using handle_retire_ok by (fastforce simp: ends_def up_def)

lemma ends_send [ends_intros]:
  "up g n \<Longrightarrow> send_args_ok co source type session data sz n \<Longrightarrow> ends snd g n (skynet_send W co source destination type session data sz n)"
  using send_keeps by (fastforce simp: ends_def up_def)

lemma ends_push [ends_intros]: "up g n \<Longrightarrow> ends snd g n (skynet_context_push W h m n)"
  using context_push_ok [of g n W h m] same_owners_keeps by (fastforce simp: ends_def up_def)

text \<open>Sessions are positive \<^verbatim>\<open>int\<close>s.\<close>

lemma newsession_range:
  assumes "nd_ctx n c = Some x"
  shows "\<exists>k. skynet_context_newsession c n = Inr (k, ctx_put c (x\<lparr>cx_session_id := k\<rparr>) n) \<and> 1 \<le> k \<and> k < 2 ^ 31 \<and>
    (0 \<le> cx_session_id x \<longrightarrow> cx_session_id x < 2 ^ 31 - 1 \<longrightarrow> k = cx_session_id x + 1)"
proof -
  let ?k = "signed_take_bit 31 (cx_session_id x + 1)"
  have "?k < 2 ^ 31" using signed_take_bit_int_less_exp [of 31] by simp
  moreover have "?k = cx_session_id x + 1" if "0 \<le> cx_session_id x" "cx_session_id x < 2 ^ 31 - 1"
    using that by (simp add: signed_take_bit_int_eq_self)
  ultimately show ?thesis using assms by (simp add: skynet_context_newsession_def Let_def)
qed

lemma ends_session:
  assumes "up g n" "c \<in># g_refs g"
  shows "ends snd g n (skynet_context_newsession c n)" "skynet_context_newsession c n = Inr a \<Longrightarrow> \<bar>fst a\<bar> < 2 ^ 31"
proof -
  obtain x where x: "nd_ctx n c = Some x" using up_live [OF assms] by blast
  obtain k where k: "skynet_context_newsession c n = Inr (k, ctx_put c (x\<lparr>cx_session_id := k\<rparr>) n)" "1 \<le> k" "k < 2 ^ 31"
    using newsession_range [OF x] by blast
  have "keeps g n (ctx_put c (x\<lparr>cx_session_id := k\<rparr>) n)" using put_keeps [of g n c x] x assms(1) by (simp add: up_def)
  then show "ends snd g n (skynet_context_newsession c n)" using k(1) by (simp add: ends_def)
  show "skynet_context_newsession c n = Inr a \<Longrightarrow> \<bar>fst a\<bar> < 2 ^ 31" using k by auto
qed

lemma ends_frame [ends_intros]:
  "up g n \<Longrightarrow> ends snd g n (Inr (r, n\<lparr>nd_env := e\<rparr>))" "up g n \<Longrightarrow> ends snd g n (Inr (r, n\<lparr>nd_monitor_exit := m\<rparr>))"
  "up g n \<Longrightarrow> ends (\<lambda>n. n) g n (Inr (n\<lparr>nd_timer := T\<rparr>))"
  by (auto simp: ends_def up_def intro!: keeps_same_ctx)

lemma ends_timeout [ends_intros]: "up g n \<Longrightarrow> ends (\<lambda>n. n) g n (node_timeout W h t k n)"
  by (auto simp: node_timeout_def split: sum.split intro!: ends_pair ends_intros)

text \<open>A name is added to the registry without a change of the handles.\<close>

definition names_room :: "node \<Rightarrow> bool" where
  "names_room n \<longleftrightarrow> names_ok (nd_handles n) \<and> length (hs_name (nd_handles n)) * 2 \<le> MAX_SLOT_SIZE"

lemma node_ok_names:
  assumes "node_ok g n" "hs_slot s = hs_slot (nd_handles n)" "hs_harbor s = hs_harbor (nd_handles n)" "hs_handle_index s = hs_handle_index (nd_handles n)"
  shows "node_ok g (n\<lparr>nd_handles := s\<rparr>)" (is "node_ok g ?n")
proof -
  have "contexts s = contexts (nd_handles n)" using assms(2) by (simp add: contexts_def)
  then have rc: "refcount g ?n = refcount g n" "ctx_ok g ?n = ctx_ok g n" by (simp_all add: fun_eq_iff refcount_def ctx_ok_def)
  have "hs_ok (node_hof ?n) s = hs_ok (node_hof n) (nd_handles n)"
    unfolding hs_ok_def assms(2-4) by (simp add: node_hof_def)
  then show ?thesis using assms(1) rc unfolding node_ok_def by (simp add: assms(4))
qed

lemma ends_name:
  assumes "up g n" "names_room n"
  shows "ends snd g n (rbind (skynet_handle_namehandle h nm (nd_handles n)) (\<lambda>(r, s). Inr (r, n\<lparr>nd_handles := s\<rparr>)))"
proof (cases "map_of (names (nd_handles n)) nm")
  case (Some h')
  then have "skynet_handle_namehandle h nm (nd_handles n) = Inr (None, nd_handles n)"
    using namehandle_taken assms(2) by (auto simp: names_room_def)
  then show ?thesis using ends_done(1) [OF assms(1)] by simp
next
  case None
  then obtain s where s: "skynet_handle_namehandle h nm (nd_handles n) = Inr (Some nm, s)"
    "hs_slot s = hs_slot (nd_handles n)" "hs_harbor s = hs_harbor (nd_handles n)" "hs_handle_index s = hs_handle_index (nd_handles n)"
    using namehandle_free [OF _ None] assms(2) unfolding names_room_def by metis
  have "keeps g n (n\<lparr>nd_handles := s\<rparr>)"
    using node_ok_names [OF _ s(2-4)] assms(1) by (intro keeps_same_ctx) (simp_all add: up_def)
  then show ?thesis using s(1) by (simp add: ends_def)
qed

text \<open>Looking a service up by handle, working on it with the reference in hand, giving the reference back.\<close>

lemma ends_grab:
  assumes u: "up g n" and W: "world_ok W"
    and B: "\<And>d x n1. up (grabbing d g) n1 \<Longrightarrow> nd_ctx n1 d = Some x \<Longrightarrow> ends (\<lambda>n. n) (grabbing d g) n1 (B d x n1)"
  shows "ends snd g n (rbind (handle_grab h n) (\<lambda>(ctx, n). case ctx of None \<Rightarrow> Inr (None, n)
     | Some d \<Rightarrow> rbind (ctx_get d n) (\<lambda>x. rbind (B d x n) (\<lambda>n. rbind (skynet_context_release W d n) (\<lambda>(_, n). Inr (None, n))))))"
proof -
  have ok: "node_ok g n" using u by (simp add: up_def)
  then show ?thesis
  proof (cases rule: grabbed [where h = h])
    case none
    then show ?thesis using ends_done(1) [OF u] by simp
  next
    case (some d x n1)
    have "up (grabbing d g) n1" using keeps_ok [OF some(3)] keeps_remote [OF some(3)] u by (simp add: up_def)
    from B [OF this some(2)] obtain n2 where n2: "B d x n1 = Inr n2" "keeps (grabbing d g) n1 n2" by (auto simp: ends_def)
    from released [OF keeps_trans [OF some(3) n2(2)] W] obtain ret n' where "skynet_context_release W d n2 = Inr (ret, n')" "keeps g n n'" by blast
    then show ?thesis using some(1,2) n2(1) by (simp add: ends_def)
  qed
qed

section \<open>The commands\<close>

lemma ends_handle: "up g n \<Longrightarrow> c \<in># g_refs g \<Longrightarrow> (\<And>h. ends p g n (F h)) \<Longrightarrow> ends p g n (rbind (skynet_context_handle c n) F)"
  using up_live by (fastforce simp: skynet_context_handle_def)

lemma ends_tohandle [ends_intros]: "up g n \<Longrightarrow> c \<in># g_refs g \<Longrightarrow> ends snd g n (tohandle W c p n)"
  by (auto simp: tohandle_def intro!: ends_bind [where p = "\<lambda>n. n"] ends_intros)

lemma ends_exit [ends_intros]:
  assumes u: "up g n" and c: "c \<in># g_refs g" and W: "world_ok W"
  shows "ends (\<lambda>n. n) g n (handle_exit W c h n)"
proof -
  have send: "ends snd g n (skynet_send W (Some c) h m PTYPE_CLIENT 0 None 0 n)" if "up g n" for h m n
    using ends_send [OF that, of "Some c" h PTYPE_CLIENT 0 None 0] up_live [OF that c]
    by (auto simp: send_args_ok_def has_tag_def PTYPE_CLIENT_def PTYPE_TAG_ALLOCSESSION_def invalid_type_def PTYPE_SYSTEM_def PTYPE_HARBOR_def)
  have rest: "ends (\<lambda>n. n) g n (rbind (if nd_monitor_exit n \<noteq> 0 then
       rbind (skynet_send W (Some c) h (nd_monitor_exit n) PTYPE_CLIENT 0 None 0 n) (\<lambda>(_, n). Inr n) else Inr n)
     (\<lambda>n. rbind (handle_retire W h n) (\<lambda>(_, n). Inr n)))" if "up g n" for h n
    using that W by (intro ends_bind [where p = "\<lambda>n. n"]) (auto intro!: ends_pair send ends_intros)
  have "ends snd g n (rbind (skynet_context_handle c n) (\<lambda>h. rbind (skynet_error W (Some c) ''KILL self'' n) (\<lambda>n. Inr (h, n))))"
    "ends snd g n (rbind (skynet_error W (Some c) (''KILL :'' @ fmt_x h) n) (\<lambda>n. Inr (h, n)))"
    by (intro ends_handle ends_bind [where p = "\<lambda>n. n"] ends_intros u c; assumption)+
  then show ?thesis unfolding handle_exit_def by (intro ends_pair [OF _ u] rest) simp_all
qed

lemma ends_launch:
  assumes u: "up g n" and W: "world_ok W" and room: "reg_room (node_hof n, nd_handles n)" and c: "c \<in># g_refs g"
  shows "ends snd g n (cmd_launch W c (Some p) n)"
proof -
  obtain md args where p: "launch_args p = (md, args)" by fastforce
  obtain ret n' where n': "skynet_context_new W md args n = Inr (ret, n')" "keeps g n n'" "\<forall>d. ret = Some d \<longrightarrow> (\<exists>y. nd_ctx n' d = Some y)"
    using context_new_ok [OF _ W room, of g md args] u by (auto simp: up_def)
  have u': "up g n'" by (rule up_keeps [OF u n'(2)])
  have "ends snd g n' (set_result c (id_to_hex h) n')" for h by (rule ends_result [OF u' c]) (simp add: printed_lengths)
  then have "ends snd g n' (case ret of None \<Rightarrow> Inr (None, n') | Some i \<Rightarrow> rbind (skynet_context_handle i n') (\<lambda>h. set_result c (id_to_hex h) n'))"
    using n'(3) ends_done(1) [OF u'] by (fastforce simp: skynet_context_handle_def split: option.split)
  then show ?thesis
    using n'(1,2) p keeps_trans [OF n'(2)] by (auto simp: cmd_launch_def string_arg_def ends_def)
qed

lemma ends_log_open [ends_intros]: "up g n \<Longrightarrow> c \<in># g_refs g \<Longrightarrow> ends snd g n (skynet_log_open W c h n)"
  by (auto simp: skynet_log_open_def sprintf_def printed_lengths Let_def split: option.split
      intro!: ends_bind [where p = "\<lambda>n. n"] ends_intros)

lemma ends_put: "up g n \<Longrightarrow> nd_ctx n d = Some x \<Longrightarrow> ends (\<lambda>n. n) g n (Inr (ctx_put d (x\<lparr>cx_logfile := f\<rparr>) n))"
  using put_keeps [of g n d x] by (simp add: ends_def up_def)

lemma ends_logon:
  assumes u: "up g n" and W: "world_ok W" and c: "c \<in># g_refs g"
  shows "ends snd g n (cmd_logon W c (Some p) n)"
proof -
  have "ends (\<lambda>n. n) g n (rbind (skynet_log_open W c h n) (\<lambda>(f, n). rbind (ctx_get d n) (\<lambda>x.
      Inr (if f \<noteq> None \<and> cx_logfile x = None then ctx_put d (x\<lparr>cx_logfile := f\<rparr>) n else n))))"
    if a: "up g n" "c \<in># g_refs g" "d \<in># g_refs g" for g d h n
  proof (rule ends_pair [OF _ a(1) ends_log_open [OF a(1,2)]])
    fix a :: "fileref option \<times> node"
    assume u: "up g (snd a)"
    obtain x where x: "nd_ctx (snd a) d = Some x" using up_live [OF u a(3)] by blast
    then show "ends (\<lambda>n. n) g (snd a) (rbind (ctx_get d (snd a)) (\<lambda>x. Inr (if fst a \<noteq> None \<and> cx_logfile x = None then ctx_put d (x\<lparr>cx_logfile := fst a\<rparr>) (snd a) else snd a)))"
      using ends_put [OF u x] ends_done(2) [OF u] by simp
  qed
  then show ?thesis unfolding cmd_logon_def string_arg_def
    using u W c by (auto intro!: ends_pair ends_grab ends_intros)
qed

lemma ends_logoff:
  assumes u: "up g n" and W: "world_ok W" and c: "c \<in># g_refs g"
  shows "ends snd g n (cmd_logoff W c (Some p) n)"
proof -
  have "ends (\<lambda>n. n) g n (skynet_log_close W c h (ctx_put d (x\<lparr>cx_logfile := None\<rparr>) n))" if "up g n" "c \<in># g_refs g" "nd_ctx n d = Some x" for g d h n x
    using ends_bind [OF that(1) ends_put [OF that(1,3), of None], of "\<lambda>n. n" "skynet_log_close W c h"] ends_error that(2) by (simp add: skynet_log_close_def)
  then show ?thesis unfolding cmd_logoff_def string_arg_def
    using u W c by (auto intro!: ends_pair ends_grab ends_intros)
qed

lemma ends_signal:
  assumes u: "up g n" and W: "world_ok W" and c: "c \<in># g_refs g"
  shows "ends snd g n (cmd_signal W c (Some p) n)"
proof -
  have "ends (\<lambda>n. n) g n (skynet_module_instance_signal W (cx_mod x) (cx_instance x) sig n)" if "up g n" "nd_ctx n d = Some x" for g d n x sig
  proof -
    have ok: "node_ok g n" using that(1) by (simp add: up_def)
    have "\<exists>n'. w_signal W f inst sig n = Inr n' \<and> keeps g n n'" for f inst using W ok unfolding world_ok_def by blast
    moreover have "cx_mod x < length (ms_m (nd_modules n))" using node_okD(3) [OF ok that(2)] by (simp add: ctx_ok_def)
    ultimately show ?thesis using keeps_refl [OF ok]
      by (auto simp: ends_def skynet_module_instance_signal_def module_of_def split: option.split)
  qed
  then show ?thesis unfolding cmd_signal_def string_arg_def Let_def
    using u W c by (auto intro!: ends_pair ends_grab ends_intros)
qed

lemma ends_reg:
  assumes u: "up g n" and c: "c \<in># g_refs g" and room: "names_room n"
  shows "ends snd g n (cmd_reg W c param n)"
proof -
  have "length ('':'' @ fmt_x h) < 32" for h using printed_lengths(1) [of h] by simp
  then show ?thesis unfolding cmd_reg_def
    by (auto split: option.split intro!: ends_handle [OF u c] ends_name [OF u room] ends_bind [where p = "\<lambda>n. n", OF u] ends_intros u c simp del: append.simps)
qed

lemma ends_name_cmd:
  assumes u: "up g n" and c: "c \<in># g_refs g" and room: "names_room n" and w: "fst (scan_word (snd (scan_word p))) \<noteq> []"
  shows "ends snd g n (cmd_name W c (Some p) n)"
  using w unfolding cmd_name_def
  by (auto simp: string_arg_def Let_def split: prod.split intro!: ends_name [OF u room] ends_bind [where p = "\<lambda>n. n", OF u] ends_intros u c)

lemma ends_stat:
  assumes u: "up g n" and c: "c \<in># g_refs g"
    and small: "\<And>x q. nd_ctx n c = Some x \<Longrightarrow> mqs_heap (nd_mqs n) (cx_queue x) = Some q \<Longrightarrow> \<bar>cx_message_count x\<bar> < 2 ^ 31 \<and> skynet_mq_length q < 2 ^ 31"
  shows "ends snd g n (cmd_stat W c (Some p) n)"
proof -
  obtain x where x: "nd_ctx n c = Some x" using up_live [OF u c] by blast
  obtain q where q: "mqs_heap (nd_mqs n) (cx_queue x) = Some q" using context_queue [OF _ x] u by (auto simp: up_def queue_view_Some)
  have len: "length (show_int (int (skynet_mq_length q))) < 32" "length (show_int (cx_message_count x)) < 32" "length (fmt_seconds t) < 32" for t
    using printed_lengths(5) [of "int (skynet_mq_length q)"] printed_lengths(5) [of "cx_message_count x"] printed_lengths(6) [of t] small [OF x q] by auto
  have time: "ends snd g n (set_result c s (n\<lparr>nd_clock := k\<rparr>))" if "length s < 32" for s k
  proof -
    have "keeps g n (n\<lparr>nd_clock := k\<rparr>)" using u by (intro keeps_same_ctx) (simp_all add: up_def)
    then show ?thesis using ends_bind [of g n "\<lambda>n. n" "Inr (n\<lparr>nd_clock := k\<rparr>)" snd "set_result c s"] u ends_result [OF _ c that] by (simp add: ends_def)
  qed
  have endless: "ends snd g n (set_result c s (ctx_put c (x\<lparr>cx_endless := False\<rparr>) n))" if "length s < 32" for s
  proof -
    have "keeps g n (ctx_put c (x\<lparr>cx_endless := False\<rparr>) n)" using put_keeps [of g n c x] x u by (simp add: up_def)
    then show ?thesis using ends_bind [of g n "\<lambda>n. n" "Inr (ctx_put c (x\<lparr>cx_endless := False\<rparr>) n)" snd "set_result c s"] u ends_result [OF _ c that] by (simp add: ends_def)
  qed
  note result = ends_result [OF u c]
  show ?thesis unfolding cmd_stat_def string_arg_def
    using x q len time endless result by (simp add: mq_get_def skynet_thread_time_def)
qed

lemma ends_timeout_cmd:
  assumes u: "up g n" and c: "c \<in># g_refs g"
  shows "ends snd g n (cmd_timeout W c (Some p) n)"
proof -
  have "length (show_int k) < 32" if "skynet_context_newsession c n = Inr (k, n')" for k n'
    using printed_lengths(5) [of k] ends_session(2) [OF u c that] by simp
  then show ?thesis unfolding cmd_timeout_def string_arg_def
    using c by (auto simp: Let_def intro!: ends_pair [OF _ u ends_session(1) [OF u c]] ends_handle ends_bind [where p = "\<lambda>n. n"] ends_intros)
qed

text \<open>
  What a command relies on: most of them follow their parameter without asking whether it is \<^verbatim>\<open>NULL\<close>;
  \<^verbatim>\<open>NAME\<close> needs two words; a variable of the environment is set once; there is room in the registry. The
  counters that \<^verbatim>\<open>STAT\<close> prints are \<^verbatim>\<open>int\<close>s. \<^verbatim>\<open>ABORT\<close> ends the node and is treated apart.
\<close>

definition command_ok :: "cstr \<Rightarrow> cstr option \<Rightarrow> ctxref \<Rightarrow> node \<Rightarrow> bool" where
  "command_ok cmd param c n \<longleftrightarrow>
     cmd \<noteq> ''ABORT'' \<and>
     (cmd \<in> {''REG'', ''EXIT'', ''STARTTIME'', ''MONITOR''} \<or> param \<noteq> None) \<and>
     (cmd \<in> {''REG'', ''NAME''} \<longrightarrow> names_room n) \<and>
     (cmd = ''NAME'' \<longrightarrow> fst (scan_word (snd (scan_word (the param)))) \<noteq> []) \<and>
     (cmd = ''SETENV'' \<longrightarrow> nd_env n (takeWhile (\<lambda>c. c \<noteq> CHR '' '') (the param)) = None) \<and>
     (cmd = ''LAUNCH'' \<longrightarrow> reg_room (node_hof n, nd_handles n)) \<and>
     (cmd = ''STAT'' \<longrightarrow> (\<forall>x q. nd_ctx n c = Some x \<longrightarrow> mqs_heap (nd_mqs n) (cx_queue x) = Some q \<longrightarrow>
        \<bar>cx_message_count x\<bar> < 2 ^ 31 \<and> skynet_mq_length q < 2 ^ 31))"

lemma ends_simple:
  assumes u: "up g n" and c: "c \<in># g_refs g" and W: "world_ok W"
  shows "ends snd g n (cmd_query c (Some p) n)" "ends snd g n (cmd_exit W c n)" "ends snd g n (cmd_kill W c (Some p) n)"
    "ends snd g n (cmd_getenv (Some p) n)" "ends snd g n (cmd_starttime c n)" "ends snd g n (cmd_monitor W c param n)"
    "nd_env n (takeWhile (\<lambda>c. c \<noteq> CHR '' '') p) = None \<Longrightarrow> ends snd g n (cmd_setenv (Some p) n)"
proof -
  have len: "length ('':'' @ fmt_x h) < 32" "length (fmt_u h) < 32" for h using printed_lengths(1,2) [of h] by simp_all
  show "ends snd g n (cmd_query c (Some p) n)"
    using u c len by (auto simp: cmd_query_def string_arg_def Let_def intro!: ends_intros simp del: append.simps)
  show "ends snd g n (cmd_exit W c n)"
    unfolding cmd_exit_def by (intro ends_bind [where p = "\<lambda>n. n"] ends_intros u c W)
  show "ends snd g n (cmd_kill W c (Some p) n)"
    using u c W by (auto simp: cmd_kill_def string_arg_def intro!: ends_pair ends_bind [where p = "\<lambda>n. n"] ends_intros)
  show "ends snd g n (cmd_getenv (Some p) n)" "ends snd g n (cmd_starttime c n)"
    using u c len by (auto simp: cmd_getenv_def cmd_starttime_def string_arg_def intro!: ends_intros)
  show "ends snd g n (cmd_monitor W c param n)"
    using u c len by (auto simp: cmd_monitor_def string_arg_def intro!: ends_pair ends_intros simp del: append.simps split: option.split)
  show "ends snd g n (cmd_setenv (Some p) n)" if "nd_env n (takeWhile (\<lambda>c. c \<noteq> CHR '' '') p) = None"
    using that u by (auto simp: cmd_setenv_def string_arg_def skynet_setenv_def cassert_def split: list.split intro!: ends_intros)
qed

lemma ends_if: "(b \<Longrightarrow> ends p g n R) \<Longrightarrow> (\<not> b \<Longrightarrow> ends p g n R') \<Longrightarrow> ends p g n (if b then R else R')"
  by simp

lemma command_keeps:
  assumes "up g n" "world_ok W" "c \<in># g_refs g" "command_ok cmd param c n"
  shows "ends snd g n (skynet_command W fuel c cmd param n)"
proof (cases param)
  case None
  then show ?thesis
    using assms(4) ends_simple(2,5,6) [OF assms(1,3,2)] ends_reg [OF assms(1,3)]
    unfolding command_ok_def by (elim conjE disjE insertE emptyE) (simp_all add: skynet_command_def)
next
  case (Some p)
  have ok: "cmd = ''NAME'' \<or> cmd = ''REG'' \<Longrightarrow> names_room n" "cmd = ''NAME'' \<Longrightarrow> fst (scan_word (snd (scan_word p))) \<noteq> []"
    "cmd = ''SETENV'' \<Longrightarrow> nd_env n (takeWhile (\<lambda>c. c \<noteq> CHR '' '') p) = None" "cmd = ''LAUNCH'' \<Longrightarrow> reg_room (node_hof n, nd_handles n)"
    "\<And>x q. cmd = ''STAT'' \<Longrightarrow> nd_ctx n c = Some x \<Longrightarrow> mqs_heap (nd_mqs n) (cx_queue x) = Some q \<Longrightarrow> \<bar>cx_message_count x\<bar> < 2 ^ 31 \<and> skynet_mq_length q < 2 ^ 31"
    "cmd \<noteq> ''ABORT''"
    using assms(4) by (auto simp: command_ok_def Some)
  show ?thesis unfolding skynet_command_def Some
  proof (intro ends_if)
    show "ends snd g n (cmd_stat W c (Some p) n)" if "cmd = ''STAT''" by (rule ends_stat [OF assms(1,3) ok(5) [OF that]])
    show "ends snd g n (cmd_name W c (Some p) n)" if "cmd = ''NAME''" using ends_name_cmd [OF assms(1,3) ok(1) ok(2)] that by blast
    show "ends snd g n (cmd_reg W c (Some p) n)" if "cmd = ''REG''" using ends_reg [OF assms(1,3) ok(1)] that by blast
    show "ends snd g n (cmd_launch W c (Some p) n)" if "cmd = ''LAUNCH''" by (rule ends_launch [OF assms(1,2) ok(4) [OF that] assms(3)])
    show "ends snd g n (cmd_setenv (Some p) n)" if "cmd = ''SETENV''" by (rule ends_simple(7) [OF assms(1,3,2) ok(3) [OF that]])
    show "ends snd g n (cmd_abort W fuel n)" if "cmd = ''ABORT''" using ok(6) that by (rule notE)
  qed (rule ends_simple [OF assms(1,3,2)] ends_timeout_cmd [OF assms(1,3)] ends_logon [OF assms(1-3)] ends_logoff [OF assms(1-3)]
      ends_signal [OF assms(1-3)] ends_done(1) [OF assms(1)])+
qed

end
