(* ===== verification/NodeProps.thy ===== *)
theory NodeProps
  imports NodeCmd
begin

text \<open>
  The properties of the node: messages arrive in the mailbox of the receiver and nowhere else, every
  interleaving of launches, sends, kills and dispatches is free of faults with exact reference counts, sessions
  are positive, and the handles that commands print are the handles that commands read.
\<close>

section \<open>A small node\<close>

text \<open>A node with one service, which is the harbor service too and whose queue a worker holds.\<close>

definition demo_module :: skynet_module where
  "demo_module = \<lparr>md_name = ''echo'', md_module = 0, md_create = None, md_init = Some 0, md_release = None, md_signal = None\<rparr>"

definition demo_ctx :: skynet_context where
  "demo_ctx =
     \<lparr>cx_instance = - 1, cx_mod = 0, cx_cb = Some 0, cx_queue = 0, cx_logfile = None, cx_cpu_cost = 0, cx_cpu_start = 0,
      cx_result = [], cx_handle = 0x1000001, cx_session_id = 0, cx_ref = 2, cx_message_count = 0, cx_init = True,
      cx_endless = False, cx_profile = False\<rparr>"

definition demo_node :: node where
  "demo_node = (skynet_init 1 ''./?.so'' False 1 timer_create_timer Map.empty)
     \<lparr>nd_handles := (skynet_handle_init 1)\<lparr>hs_slot := [None, Some 0, None, None], hs_handle_index := 2\<rparr>,
      nd_mqs := skynet_mq_init\<lparr>mqs_heap := [0 \<mapsto> skynet_mq_create 0x1000001]\<rparr>,
      nd_ctx := [0 \<mapsto> demo_ctx], nd_modules := \<lparr>ms_path = ''./?.so'', ms_m = [demo_module]\<rparr>,
      nd_REMOTE := Some 0, nd_alloc := 1\<rparr>"

definition demo_hands :: hands where
  "demo_hands = \<lparr>g_refs = {#}, g_dying = {}, g_held = [0], g_new = [], g_reserved = 1\<rparr>"

lemma demo_node_simps [simp]:
  "nd_handles demo_node = (skynet_handle_init 1)\<lparr>hs_slot := [None, Some 0, None, None], hs_handle_index := 2\<rparr>"
  "nd_mqs demo_node = skynet_mq_init\<lparr>mqs_heap := [0 \<mapsto> skynet_mq_create 0x1000001]\<rparr>" "nd_ctx demo_node = [0 \<mapsto> demo_ctx]"
  "nd_modules demo_node = \<lparr>ms_path = ''./?.so'', ms_m = [demo_module]\<rparr>" "nd_REMOTE demo_node = Some 0" "nd_alloc demo_node = 1"
  "nd_total demo_node = 0" "nd_HARBOR demo_node = 0x1000000"
  by (simp_all add: demo_node_def skynet_init_def HANDLE_REMOTE_SHIFT_def)

lemma demo_contexts: "contexts (nd_handles demo_node) = {0}"
  by (auto simp: contexts_def)

lemma demo_view: "queue_view (nd_mqs demo_node) = [0 \<mapsto> (0x1000001, 0, [])]"
  by (auto simp: fun_eq_iff queue_view_def mq_list_create skynet_mq_init_def) (simp_all add: skynet_mq_create_def)

lemma demo_ok: "node_ok demo_hands demo_node"
proof (rule node_okI)
  have hash: "slot_hash 4 0x1000001 = 1" by code_simp
  show "hs_ok (node_hof demo_node) (nd_handles demo_node)"
  proof (rule hs_okI [of _ 2])
    show "slot_hash (length (hs_slot (nd_handles demo_node))) (node_hof demo_node c) = i"
      if "i < length (hs_slot (nd_handles demo_node))" "hs_slot (nd_handles demo_node) ! i = Some c" for i c
    proof -
      have "i = 1 \<and> c = 0" using that by (auto simp: less_Suc_eq nth_Cons' split: if_splits)
      moreover have "length (hs_slot (nd_handles demo_node)) = 4" "node_hof demo_node 0 = 0x1000001" by (simp_all add: node_hof_def demo_ctx_def)
      ultimately show ?thesis using hash by (simp del: demo_node_simps)
    qed
    show "hs_harbor (nd_handles demo_node) AND HANDLE_MASK = 0" by (simp add: skynet_handle_init_def) code_simp
  qed (simp_all add: HANDLE_MASK_def)
  show "mqs_ok (g_held demo_hands @ g_new demo_hands) (nd_mqs demo_node)"
  proof -
    have "mqs_ok [] (skynet_mq_init :: msg mqs)" by (rule mqs_init)
    from mqs_new [OF this, of 0 "0x1000001"] show ?thesis by (simp add: demo_hands_def skynet_mq_init_def)
  qed
  show "ctx_ok demo_hands demo_node c x" if "nd_ctx demo_node c = Some x" for c x
  proof -
    have c: "c = 0" "x = demo_ctx" using that by (auto split: if_splits)
    have "refcount demo_hands demo_node 0 = 2" by (simp add: refcount_def demo_contexts demo_hands_def del: demo_node_simps(1))
    then show ?thesis unfolding ctx_ok_def c demo_view by (simp add: demo_ctx_def demo_hands_def)
  qed
  show "refcount demo_hands demo_node c = 0 \<and> c \<notin> g_dying demo_hands" if "nd_ctx demo_node c = None" for c
    using that demo_contexts by (auto simp: refcount_def demo_hands_def split: if_splits simp del: demo_node_simps(1))
  have small: "(0x1000001 :: u32) AND HANDLE_MASK < 2" by code_simp
  show "r < nd_alloc demo_node \<and> h \<noteq> 0 \<and> h AND HANDLE_MASK < hs_handle_index (nd_handles demo_node)"
    if "queue_view (nd_mqs demo_node) r = Some (h, v)" for r h v
    using that small unfolding demo_view by (auto split: if_splits)
  show "r = r'" if "queue_view (nd_mqs demo_node) r = Some (h, v)" "queue_view (nd_mqs demo_node) r' = Some (h, v')" for r r' h v v'
    using that unfolding demo_view by (auto split: if_splits)
  show "modules_ok (nd_modules demo_node)" by (simp add: modules_ok_def MAX_MODULE_TYPE_def demo_module_def)
  show "path_ok (ms_path (nd_modules demo_node))" by simp code_simp
qed (auto simp: demo_hands_def split: if_splits)

text \<open>
  Modules that keep the contract of \<^const>\<open>world_ok\<close>: they create and release without touching the node,
  and their callback answers every message with an empty response.
\<close>

definition quiet_world :: world where
  "quiet_world =
     \<lparr>w_dlopen = (\<lambda>_. Some 0), w_dlsym = (\<lambda>_ _. Some 0), w_create = (\<lambda>_ n. Inr (1, n)), w_init = (\<lambda>_ _ _ _ n. Inr (0, n)),
      w_release = (\<lambda>_ _ n. Inr n), w_signal = (\<lambda>_ _ _ n. Inr n), w_cb = (\<lambda>_ _ _ _ _ _ _ n. Inr (False, n)),
      w_thread_time = (\<lambda>i. of_nat i), w_fopen = (\<lambda>_. None)\<rparr>"

definition echo_world :: world where
  "echo_world = quiet_world\<lparr>w_cb := \<lambda>_ c _ session source _ _ n.
     if nd_REMOTE n = None then Inr (False, n)
     else rbind (skynet_send quiet_world (Some c) 0 source PTYPE_RESPONSE session None 0 n) (\<lambda>(_, n). Inr (False, n))\<rparr>"

lemma echo_world_ok: "world_ok echo_world"
proof -
  have "send_args_ok (Some c) 0 PTYPE_RESPONSE session None 0 n" if "node_ok g n" "c \<in># g_refs g" for g n c session
    using held_live [OF that]
    by (auto simp: send_args_ok_def has_tag_def PTYPE_RESPONSE_def PTYPE_TAG_ALLOCSESSION_def invalid_type_def PTYPE_SYSTEM_def PTYPE_HARBOR_def)
  then have send: "\<exists>k n'. skynet_send quiet_world (Some c) 0 source PTYPE_RESPONSE session None 0 n = Inr (k, n') \<and> keeps g n n'"
    if "node_ok g n" "c \<in># g_refs g" "nd_REMOTE n \<noteq> None" for g n c session source
    using send_keeps [OF that(1) _ that(3)] that(1,2) by blast
  have cb: "\<exists>b n'. w_cb echo_world f c type session source data sz n = Inr (b, n') \<and> keeps g n n'"
    if a: "node_ok g n" "c \<in># g_refs g" for g n f c type session source data sz
  proof (cases "nd_REMOTE n = None")
    case True
    then show ?thesis using keeps_refl [OF a(1)] by (auto simp: echo_world_def)
  next
    case False
    then obtain k n' where "skynet_send quiet_world (Some c) 0 source PTYPE_RESPONSE session None 0 n = Inr (k, n')" "keeps g n n'"
      using send [OF a] by blast
    then show ?thesis using False by (auto simp: echo_world_def)
  qed
  have "w_create echo_world = (\<lambda>_ n. Inr (1, n))" "w_init echo_world = (\<lambda>_ _ _ _ n. Inr (0, n))"
    "w_release echo_world = (\<lambda>_ _ n. Inr n)" "w_signal echo_world = (\<lambda>_ _ _ n. Inr n)"
    by (simp_all add: echo_world_def quiet_world_def)
  then show ?thesis unfolding world_ok_def using cb keeps_refl by auto
qed

section \<open>Sending\<close>

definition local_handle :: "u32 \<Rightarrow> node \<Rightarrow> bool" where
  "local_handle h n \<longleftrightarrow> h \<noteq> 0 \<and> (h AND NOT HANDLE_MASK = nd_HARBOR n \<or> h AND NOT HANDLE_MASK = 0)"

lemma isremote_local: "node_ok g n \<Longrightarrow> local_handle h n \<Longrightarrow> skynet_harbor_message_isremote h n = Inr False"
  using node_okD(13) [of g n] by (auto simp: skynet_harbor_message_isremote_def local_handle_def)

text \<open>The message that the receiver of a copied send gets.\<close>

definition sent_message :: "u32 \<Rightarrow> nat \<Rightarrow> int \<Rightarrow> bytes \<Rightarrow> u64 \<Rightarrow> msg" where
  "sent_message source type session bs sz =
     \<lparr>msg_source = source, msg_session = session, msg_data = Some (Raw (take (unat sz) bs @ [0])),
      msg_sz = sz OR push_bit MESSAGE_TYPE_SHIFT (of_nat type)\<rparr>"

lemma small_type: "type < 256 \<Longrightarrow> (type :: nat) AND 0xff = type"
proof -
  assume "type < 256"
  then have "take_bit 8 type = type" by (simp add: take_bit_nat_eq_self)
  then show ?thesis by (simp add: take_bit_eq_mask mask_eq_exp_minus_1)
qed

lemma no_tag: "type < 256 \<Longrightarrow> \<not> has_tag type PTYPE_TAG_ALLOCSESSION" "type < 256 \<Longrightarrow> \<not> has_tag type PTYPE_TAG_DONTCOPY"
proof -
  assume t: "type < 256"
  have "type AND 2 ^ k = 0" if "8 \<le> k" for k
  proof -
    have "type < 2 ^ k" using t power_increasing [OF that, of "2 :: nat"] by simp
    then have "\<not> bit type k" by (simp add: bit_iff_odd)
    then show ?thesis by (simp add: and_exp_eq_0_iff_not_bit)
  qed
  from this [of 17] this [of 16] show "\<not> has_tag type PTYPE_TAG_ALLOCSESSION" "\<not> has_tag type PTYPE_TAG_DONTCOPY"
    by (simp_all add: has_tag_def PTYPE_TAG_ALLOCSESSION_def PTYPE_TAG_DONTCOPY_def)
qed

lemma send_local:
  assumes ok: "node_ok g n" and c: "nd_ctx n c = Some x" and a: "type < 256" "unat sz \<le> length bs" "sz AND MESSAGE_TYPE_MASK = sz"
    and d: "local_handle destination n"
  shows "skynet_send W (Some c) 0 destination type session (Some bs) sz n =
    rbind (skynet_context_push W destination (sent_message (cx_handle x) type session bs sz) n) (\<lambda>(r, n). Inr (if r \<noteq> 0 then - 1 else session, n))"
  using c a d isremote_local [OF ok d] no_tag [OF a(1)] small_type [OF a(1)]
  by (simp add: skynet_send_def filter_args_def nonnull_def skynet_context_handle_def sent_message_def local_handle_def)

text \<open>
  C6: A message sent to a live service of the node is appended to that service's mailbox with the
  sender's handle, the session, a copy of the data and size and type in one word, from which the
  dispatcher takes them out again; no other mailbox and no context changes. When nobody has the
  handle the sender gets -1 and nothing changes.
\<close>

theorem skynet_send_delivers:
  assumes "node_ok g n" "nd_ctx n c = Some x" "type < 256" "unat sz \<le> length bs" "sz AND MESSAGE_TYPE_MASK = sz" "local_handle destination n"
  shows "(\<forall>d y l. d \<in> contexts (nd_handles n) \<and> nd_ctx n d = Some y \<and> cx_handle y = destination \<and>
       queue_view (nd_mqs n) (cx_queue y) = Some (destination, 0, l) \<longrightarrow>
       (\<exists>n'. skynet_send W (Some c) 0 destination type session (Some bs) sz n = Inr (session, n') \<and> node_ok g n' \<and> nd_ctx n' = nd_ctx n \<and>
         queue_view (nd_mqs n') = (queue_view (nd_mqs n))(cx_queue y \<mapsto> (destination, 0, l @ [sent_message (cx_handle x) type session bs sz])))) \<and>
    ((\<forall>d \<in> contexts (nd_handles n). node_hof n d \<noteq> destination) \<longrightarrow>
       skynet_send W (Some c) 0 destination type session (Some bs) sz n = Inr (- 1, n)) \<and>
    unat (drop_bit MESSAGE_TYPE_SHIFT (msg_sz (sent_message (cx_handle x) type session bs sz))) = type \<and>
    msg_sz (sent_message (cx_handle x) type session bs sz) AND MESSAGE_TYPE_MASK = sz"
proof (intro conjI allI impI)
  note send = send_local [OF assms, of W session]
  fix d y l
  assume d: "d \<in> contexts (nd_handles n) \<and> nd_ctx n d = Some y \<and> cx_handle y = destination \<and> queue_view (nd_mqs n) (cx_queue y) = Some (destination, 0, l)"
  then obtain s' where "skynet_context_push W destination (sent_message (cx_handle x) type session bs sz) n = Inr (0, n\<lparr>nd_mqs := s'\<rparr>)"
    "node_ok g (n\<lparr>nd_mqs := s'\<rparr>)"
    "queue_view s' = (queue_view (nd_mqs n))(cx_queue y \<mapsto> (destination, 0, l @ [sent_message (cx_handle x) type session bs sz]))"
    using context_push_live [OF assms(1), of d y l W] by auto
  then show "\<exists>n'. skynet_send W (Some c) 0 destination type session (Some bs) sz n = Inr (session, n') \<and> node_ok g n' \<and> nd_ctx n' = nd_ctx n \<and>
      queue_view (nd_mqs n') = (queue_view (nd_mqs n))(cx_queue y \<mapsto> (destination, 0, l @ [sent_message (cx_handle x) type session bs sz]))"
    unfolding send by (intro exI [of _ "n\<lparr>nd_mqs := s'\<rparr>"]) simp
next
  assume "\<forall>d \<in> contexts (nd_handles n). node_hof n d \<noteq> destination"
  then show "skynet_send W (Some c) 0 destination type session (Some bs) sz n = Inr (- 1, n)"
    unfolding send_local [OF assms] using context_push_none [OF assms(1)] by simp
next
  show "unat (drop_bit MESSAGE_TYPE_SHIFT (msg_sz (sent_message (cx_handle x) type session bs sz))) = type"
    "msg_sz (sent_message (cx_handle x) type session bs sz) AND MESSAGE_TYPE_MASK = sz"
    using msg_sz_pack [OF assms(5,3)] by (simp_all add: sent_message_def)
qed

theorem skynet_send_delivers_witness:
  "\<exists>n'. skynet_send echo_world (Some 0) 0 0x1000001 PTYPE_CLIENT 7 (Some [1, 2, 3]) 2 demo_node = Inr (7, n') \<and>
     queue_view (nd_mqs n') 0 = Some (0x1000001, 0, [sent_message 0x1000001 PTYPE_CLIENT 7 [1, 2, 3] 2])"
proof -
  have "nd_ctx demo_node 0 = Some demo_ctx" by simp
  moreover have "PTYPE_CLIENT < 256" by (simp add: PTYPE_CLIENT_def)
  moreover have "local_handle 0x1000001 demo_node" unfolding local_handle_def demo_node_simps by code_simp
  moreover have "(2 :: u64) AND MESSAGE_TYPE_MASK = 2" by code_simp
  ultimately have "\<exists>n'. skynet_send echo_world (Some 0) 0 0x1000001 PTYPE_CLIENT 7 (Some [1, 2, 3]) 2 demo_node = Inr (7, n') \<and> node_ok demo_hands n' \<and> nd_ctx n' = nd_ctx demo_node \<and>
       queue_view (nd_mqs n') = (queue_view (nd_mqs demo_node))(cx_queue demo_ctx \<mapsto> (0x1000001, 0, [] @ [sent_message (cx_handle demo_ctx) PTYPE_CLIENT 7 [1, 2, 3] 2]))"
    using skynet_send_delivers [OF demo_ok, of 0 demo_ctx PTYPE_CLIENT 2 "[1, 2, 3]" "0x1000001" echo_world 7] demo_contexts demo_view
    by (auto simp: demo_ctx_def simp del: demo_node_simps(1,2))
  then show ?thesis by (auto simp: demo_ctx_def)
qed

section \<open>All interleavings\<close>

text \<open>
  What the threads of the node do: launch and kill services, send messages, let worker \<open>i\<close> dispatch, let
  the monitor thread look at worker \<open>i\<close>. The state is the node and the queue that each worker holds.
\<close>

datatype node_op =
    Launch cstr "cstr option"
  | Retire u32
  | Send "ctxref option" u32 u32 nat int "bytes option" u64
  | Work nat int
  | Check nat

type_synonym running = "qref option list \<times> node"

fun node_step :: "world \<Rightarrow> node_op \<Rightarrow> running \<Rightarrow> running result" where
  "node_step W (Launch name param) (qs, n) = rbind (skynet_context_new W name param n) (\<lambda>(_, n). Inr (qs, n))"
| "node_step W (Retire h) (qs, n) = rbind (handle_retire W h n) (\<lambda>(_, n). Inr (qs, n))"
| "node_step W (Send co source destination type session data sz) (qs, n) =
     rbind (skynet_send W co source destination type session data sz n) (\<lambda>(_, n). Inr (qs, n))"
| "node_step W (Work i weight) (qs, n) =
     rbind (skynet_context_message_dispatch W i (qs ! i) weight n) (\<lambda>(q, n). Inr (qs[i := q], n))"
| "node_step W (Check i) (qs, n) = rbind (skynet_monitor_check W i n) (\<lambda>n. Inr (qs, n))"

text \<open>What the callers see to: handles are left, the sender is alive, the worker exists.\<close>

fun op_ok :: "node_op \<Rightarrow> running \<Rightarrow> bool" where
  "op_ok (Launch name param) (qs, n) = reg_room (node_hof n, nd_handles n)"
| "op_ok (Retire h) (qs, n) = True"
| "op_ok (Send co source destination type session data sz) (qs, n) = send_args_ok co source type session data sz n"
| "op_ok (Work i weight) (qs, n) = (i < length qs)"
| "op_ok (Check i) (qs, n) = (i < length qs)"

inductive reachable :: "world \<Rightarrow> running \<Rightarrow> running \<Rightarrow> bool" for W s0 where
  start: "reachable W s0 s0"
| step: "reachable W s0 s \<Longrightarrow> op_ok op s \<Longrightarrow> node_step W op s = Inr s' \<Longrightarrow> reachable W s0 s'"

text \<open>Between the steps threads have only the queues in their hands.\<close>

definition workers :: "int \<Rightarrow> qref option list \<Rightarrow> hands" where
  "workers k qs = \<lparr>g_refs = {#}, g_dying = {}, g_held = List.map_filter (\<lambda>q. q) qs, g_new = [], g_reserved = k\<rparr>"

definition running_ok :: "int \<Rightarrow> running \<Rightarrow> bool" where
  "running_ok k s \<longleftrightarrow> node_ok (workers k (fst s)) (snd s) \<and> nd_REMOTE (snd s) \<noteq> None"

lemma node_ok_perm:
  assumes "node_ok g n" "mset H = mset (g_held g)"
  shows "node_ok (g\<lparr>g_held := H\<rparr>) n"
proof -
  have "mqs_ok (H @ g_new g) (nd_mqs n)" by (rule mqs_ok_perm [OF node_okD(2) [OF assms(1)]]) (simp add: assms(2))
  moreover have "refcount (g\<lparr>g_held := H\<rparr>) n = refcount g n" by (simp add: fun_eq_iff refcount_def)
  moreover from this have "ctx_ok (g\<lparr>g_held := H\<rparr>) n = ctx_ok g n" by (simp add: fun_eq_iff ctx_ok_def)
  ultimately show ?thesis using assms(1) by (simp add: node_ok_def)
qed

lemma map_filter_split:
  "i < length qs \<Longrightarrow> List.map_filter (\<lambda>q. q) (qs[i := q]) =
    List.map_filter (\<lambda>q. q) (take i qs) @ (case q of None \<Rightarrow> [] | Some r \<Rightarrow> [r]) @ List.map_filter (\<lambda>q. q) (drop (Suc i) qs)"
  by (simp add: upd_conv_take_nth_drop map_filter_def split: option.splits)

lemma workers_take:
  assumes "i < length qs"
  shows "node_ok (workers k (qs[i := q])) n = node_ok (worker_takes q (workers k (qs[i := None]))) n"
proof -
  let ?g = "workers k (qs[i := None])"
  let ?A = "List.map_filter (\<lambda>q. q) (take i qs)" and ?B = "List.map_filter (\<lambda>q. q) (drop (Suc i) qs)"
  have g: "?g = workers k [] \<lparr>g_held := ?A @ ?B\<rparr>" using map_filter_split [OF assms(1)] by (simp add: workers_def)
  have q: "workers k (qs[i := q]) = workers k [] \<lparr>g_held := ?A @ (case q of None \<Rightarrow> [] | Some r \<Rightarrow> [r]) @ ?B\<rparr>"
    using map_filter_split [OF assms(1)] by (simp add: workers_def)
  have t: "worker_takes q ?g = workers k [] \<lparr>g_held := (case q of None \<Rightarrow> [] | Some r \<Rightarrow> [r]) @ ?A @ ?B\<rparr>"
    by (simp add: g worker_takes_def split: option.splits)
  show ?thesis
    unfolding q t
    using node_ok_perm [of "workers k [] \<lparr>g_held := ?A @ (case q of None \<Rightarrow> [] | Some r \<Rightarrow> [r]) @ ?B\<rparr>" n "(case q of None \<Rightarrow> [] | Some r \<Rightarrow> [r]) @ ?A @ ?B"]
      node_ok_perm [of "workers k [] \<lparr>g_held := (case q of None \<Rightarrow> [] | Some r \<Rightarrow> [r]) @ ?A @ ?B\<rparr>" n "?A @ (case q of None \<Rightarrow> [] | Some r \<Rightarrow> [r]) @ ?B"]
    by (intro iffI) (simp_all add: union_ac)
qed

lemma endless_keeps:
  assumes ok: "node_ok g n" and W: "world_ok W"
  shows "\<exists>n'. skynet_context_endless W h n = Inr n' \<and> keeps g n n'"
  using ok
proof (cases rule: grabbed [where h = h])
  case none
  then show ?thesis using keeps_refl [OF ok] by (simp add: skynet_context_endless_def)
next
  case (some c x n1)
  have "keeps (grabbing c g) n1 (ctx_put c (x\<lparr>cx_endless := True\<rparr>) n1)"
    by (rule put_keeps [OF keeps_ok [OF some(3)] some(2)]) simp_all
  from released [OF keeps_trans [OF some(3) this] W] show ?thesis
    using some(1,2) by (auto simp: skynet_context_endless_def)
qed

lemma monitor_check_keeps:
  assumes ok: "node_ok g n" and W: "world_ok W"
  shows "\<exists>n'. skynet_monitor_check W i n = Inr n' \<and> keeps g n n'"
proof -
  obtain n1 where n1: "skynet_context_endless W (sm_destination (nd_monitors n ! i)) n = Inr n1" "keeps g n n1" using endless_keeps [OF ok W] by blast
  have "\<exists>n'. skynet_error W None s n1 = Inr n' \<and> keeps g n n'" for s
    using error_keeps [OF keeps_ok [OF n1(2)], of None] keeps_trans [OF n1(2)] by blast
  moreover have "keeps g n (n\<lparr>nd_monitors := m\<rparr>)" for m by (rule keeps_same_ctx) (use ok in simp_all)
  ultimately show ?thesis using n1(1) keeps_refl [OF ok] by (auto simp: skynet_monitor_check_def Let_def)
qed

lemma running_keeps: "running_ok k (qs, n) \<Longrightarrow> keeps (workers k qs) n n' \<Longrightarrow> running_ok k (qs, n')"
  using keeps_ok keeps_remote by (auto simp: running_ok_def)

lemma node_step_ok:
  assumes ok: "running_ok k s" and W: "world_ok W" and a: "op_ok op s"
  shows "\<exists>s'. node_step W op s = Inr s' \<and> running_ok k s'"
proof -
  obtain qs n where s: "s = (qs, n)" by fastforce
  note [intro] = running_keeps [OF ok [unfolded s]]
  have n: "node_ok (workers k qs) n" "nd_REMOTE n \<noteq> None" using ok by (simp_all add: running_ok_def s)
  show ?thesis
  proof (cases op)
    case (Launch name param)
    then show ?thesis using context_new_ok [OF n(1) W, of name param] n(2) a s by fastforce
  next
    case (Retire h)
    then show ?thesis using handle_retire_ok [OF n(1) W, of h] s by fastforce
  next
    case (Send co source destination type session data sz)
    then show ?thesis using send_keeps [OF n(1) _ n(2), of co source type session data sz W destination] a s by fastforce
  next
    case (Work i weight)
    then have i: "i < length qs" using a s by simp
    then obtain q' n' where "skynet_context_message_dispatch W i (qs ! i) weight n = Inr (q', n')"
      "node_ok (worker_takes q' (workers k (qs[i := None]))) n'" "nd_REMOTE n' \<noteq> None"
      using message_dispatch_ok [of "qs ! i" "workers k (qs[i := None])" n W i weight] workers_take [OF i, of k "qs ! i" n] n W by auto
    then show ?thesis using Work s workers_take [OF i, of k q' n'] by (simp add: running_ok_def)
  next
    case (Check i)
    then show ?thesis using monitor_check_keeps [OF n(1) W, of i] s by fastforce
  qed
qed

lemma reachable_ok:
  assumes "reachable W s0 s" "world_ok W" "running_ok k s0"
  shows "running_ok k s"
  using assms
proof (induction rule: reachable.induct)
  case (step s op s')
  then show ?case using node_step_ok [of k s W op] by auto
qed


lemma demo_running: "running_ok 1 ([Some 0], demo_node)"
proof -
  have "workers 1 [Some 0] = demo_hands" by (simp add: workers_def demo_hands_def map_filter_def)
  then show ?thesis using demo_ok by (simp add: running_ok_def)
qed


section \<open>Commands\<close>


lemma demo_grab:
  "\<exists>n. handle_grab 0x1000001 demo_node = Inr (Some 0, n) \<and> node_ok (grabbing 0 demo_hands) n \<and> nd_REMOTE n = Some 0 \<and> nd_handles n = nd_handles demo_node"
proof -
  have "skynet_handle_grab (node_hof demo_node) 0x1000001 (nd_handles demo_node) = Some 0"
    using grab_iff [OF node_okD(1) [OF demo_ok], of "0x1000001" 0] demo_contexts by (simp add: node_hof_def demo_ctx_def del: demo_node_simps(1))
  moreover obtain n where "skynet_context_grab 0 demo_node = Inr n" "n = ctx_put 0 (demo_ctx\<lparr>cx_ref := cx_ref demo_ctx + 1\<rparr>) demo_node"
    by (simp add: skynet_context_grab_def)
  moreover have "handle_grab 0x1000001 demo_node = Inr (Some 0, n) \<Longrightarrow> node_ok (grabbing 0 demo_hands) n"
    using handle_grab_ok [OF demo_ok, of "0x1000001"] by auto
  ultimately show ?thesis by (auto simp: handle_grab_def)
qed


text \<open>
  Commands that faults come from: the lookup of a name, the kill and the launch read the parameter without a test for
  \<^verbatim>\<open>NULL\<close>, and a name that is given without a handle is compared with what happens to be in the memory of the
  local array.
\<close>

theorem command_faults:
  "skynet_command W fuel c ''QUERY'' None n = Inl NullDeref \<and> skynet_command W fuel c ''KILL'' None n = Inl NullDeref \<and>
   skynet_command W fuel c ''LAUNCH'' None n = Inl NullDeref \<and>
   skynet_command W fuel c ''NAME'' (Some ''.launcher'') n = Inl Uninitialised"
proof -
  have "scan_word ''.launcher'' = (''.launcher'', [])" "scan_word [] = ([], [])" by code_simp+
  then show ?thesis
    by (simp add: skynet_command_def cmd_query_def cmd_kill_def cmd_launch_def cmd_name_def string_arg_def)
qed

text \<open>
  C21: The sessions that a service hands out are between 1 and the largest \<^verbatim>\<open>int\<close>: each is the successor of the
  one before, and after the largest comes 1 again, never 0 or a negative number.
\<close>

theorem newsession_bounds:
  assumes "nd_ctx n c = Some x" "0 \<le> cx_session_id x" "cx_session_id x \<le> 2 ^ 31 - 1"
  shows "\<exists>k n'. skynet_context_newsession c n = Inr (k, n') \<and> 1 \<le> k \<and> k \<le> 2 ^ 31 - 1 \<and>
    k = (if cx_session_id x = 2 ^ 31 - 1 then 1 else cx_session_id x + 1) \<and> nd_ctx n' = (nd_ctx n)(c \<mapsto> x\<lparr>cx_session_id := k\<rparr>)"
proof (cases "cx_session_id x = 2 ^ 31 - 1")
  case True
  have "signed_take_bit 31 (2 ^ 31 :: int) = - (2 ^ 31)" by code_simp
  then show ?thesis using assms(1) True by (simp add: skynet_context_newsession_def Let_def ctx_put_def)
next
  case False
  then show ?thesis using newsession_range [OF assms(1)] assms(2,3) by (auto simp: ctx_put_def)
qed

theorem newsession_bounds_witness: "\<exists>n'. skynet_context_newsession 0 demo_node = Inr (1, n')"
  using newsession_bounds [of demo_node 0 demo_ctx] by (auto simp: demo_ctx_def)

end
