(* ===== verification/NodeEnd.thy ===== *)
theory NodeEnd
  imports NodeProps
begin

text \<open>
  The textual form of handles, and the end of a node: \<^verbatim>\<open>skynet_handle_retireall\<close>.
\<close>

section \<open>Handles as text\<close>

lemma hex_digit_val: "digit_val (hex_digit d) = Some (unat (d AND 0xf))" "hex_digit d \<noteq> CHR ''x''" "hex_digit d \<noteq> CHR ''X''"
  "hex_digit d \<noteq> CHR ''-''" "hex_digit d \<noteq> CHR ''+''" "\<not> isspace (hex_digit d)"
proof -
  have "d AND 0xf \<le> 0xf" by (rule word_and_le1)
  then have "unat (d AND 0xf) \<in> set [0..<16]" by (simp add: word_le_nat_alt)
  moreover have "\<forall>k \<in> set [0..<16]. let c = ''0123456789ABCDEF'' ! k in
      digit_val c = Some k \<and> c \<noteq> CHR ''x'' \<and> c \<noteq> CHR ''X'' \<and> c \<noteq> CHR ''-'' \<and> c \<noteq> CHR ''+'' \<and> \<not> isspace c"
    by code_simp
  ultimately have "let c = hex_digit d in digit_val c = Some (unat (d AND 0xf)) \<and> c \<noteq> CHR ''x'' \<and> c \<noteq> CHR ''X'' \<and> c \<noteq> CHR ''-'' \<and> c \<noteq> CHR ''+'' \<and> \<not> isspace c"
    unfolding hex_digit_def by (rule bspec [rotated])
  then show "digit_val (hex_digit d) = Some (unat (d AND 0xf))" "hex_digit d \<noteq> CHR ''x''" "hex_digit d \<noteq> CHR ''X''"
    "hex_digit d \<noteq> CHR ''-''" "hex_digit d \<noteq> CHR ''+''" "\<not> isspace (hex_digit d)" by (simp_all add: Let_def)
qed

lemma hex_nibble: "unat ((drop_bit k (w :: u32)) AND 0xf) = unat w div 2 ^ k mod 16"
proof -
  have "drop_bit k w AND 0xf = take_bit 4 (drop_bit k w)" by (simp add: take_bit_eq_mask mask_eq_exp_minus_1)
  then have "unat (drop_bit k w AND 0xf) = take_bit 4 (drop_bit k (unat w))" by (simp only: unsigned_take_bit_eq unat_drop_bit_eq)
  then show ?thesis by (simp only: take_bit_eq_mod drop_bit_eq_div) simp
qed

lemma nat_nibbles:
  assumes "(n :: nat) < 2 ^ 32"
  shows "16 * (16 * (16 * (16 * (16 * (16 * (16 * (n div 2 ^ 28 mod 16) + n div 2 ^ 24 mod 16) + n div 2 ^ 20 mod 16) + n div 2 ^ 16 mod 16)
    + n div 2 ^ 12 mod 16) + n div 2 ^ 8 mod 16) + n div 2 ^ 4 mod 16) + n div 2 ^ 0 mod 16 = n"
proof -
  have step: "16 * (n div 2 ^ (k + 4)) + n div 2 ^ k mod 16 = n div 2 ^ k" for k
  proof -
    have "n div 2 ^ (k + 4) = n div 2 ^ k div 16" by (simp add: power_add div_mult2_eq)
    then show ?thesis by simp
  qed
  have "n div 2 ^ 28 mod 16 = n div 2 ^ 28" using assms by simp
  then show ?thesis using step [of 24] step [of 20] step [of 16] step [of 12] step [of 8] step [of 4] step [of 0] by simp
qed

lemma read_hex: "read_number 16 (drop 1 (id_to_hex h)) = (False, unat h)"
proof -
  let ?d = "\<lambda>i. hex_digit (drop_bit ((7 - i) * 4) h)"
  have list: "drop 1 (id_to_hex h) = [?d 0, ?d 1, ?d 2, ?d 3, ?d 4, ?d 5, ?d 6, ?d 7]"
    by (simp add: id_to_hex_def upt_rec)
  have dig: "is_digit 16 (hex_digit d)" for d
    using hex_nibble [of 0 d] by (simp add: is_digit_def hex_digit_val)
  have pre: "read_prefix 16 (drop 1 (id_to_hex h)) = (16, drop 1 (id_to_hex h))"
    unfolding list by (simp add: hex_digit_val)
  have "digits_value 16 (drop 1 (id_to_hex h)) = unat h"
    unfolding list digits_value_def using nat_nibbles [of "unat h"] unsigned_less [of h, where ?'a = nat] hex_nibble [of 0 h]
    by (simp add: hex_digit_val hex_nibble)
  moreover have "takeWhile (is_digit 16) (drop 1 (id_to_hex h)) = drop 1 (id_to_hex h)" unfolding list by (simp add: dig)
  moreover have "read_sign (dropWhile isspace (drop 1 (id_to_hex h))) = (False, drop 1 (id_to_hex h))"
    unfolding list by (simp add: hex_digit_val)
  ultimately show ?thesis using pre by (simp only: read_number_def prod.case Let_def)
qed

lemma strtoul_small: "read_number 16 s = (False, unat (h :: u32)) \<Longrightarrow> ucast (strtoul 16 s) = h"
proof -
  have "ucast (ucast h :: u64) = h" by (rule bit_word_eqI) (auto simp: bit_simps)
  moreover have "unat h < 2 ^ 64" using unsigned_less [of h, where ?'a = nat] by simp
  ultimately show "read_number 16 s = (False, unat h) \<Longrightarrow> ucast (strtoul 16 s) = h"
    by (simp add: strtoul_def unsigned_of_nat take_bit_nat_eq_self)
qed

text \<open>
  C22: What \<^verbatim>\<open>LAUNCH\<close> returns for a handle (a colon and eight upper-case digits), and what \<^verbatim>\<open>REG\<close> and \<^verbatim>\<open>QUERY\<close> return
  (a colon and \<^verbatim>\<open>%x\<close>), is read back by the commands that take a handle as text.
\<close>

theorem handle_text_roundtrip:
  "tohandle W c (id_to_hex h) n = Inr (h, n) \<and> tohandle W c ('':'' @ fmt_x h) n = Inr (h, n)"
proof -
  have "read_number 16 (fmt_x h) = (False, unat h)" using read_show_base [of 16 "[]" "unat h"] by (simp add: fmt_x_def)
  then show ?thesis
    using strtoul_small [OF read_hex, of h] strtoul_small [of "fmt_x h" h] by (simp add: tohandle_def first_char_def id_to_hex_def)
qed

section \<open>Retiring everything\<close>

text \<open>Modules whose release function leaves the node alone.\<close>

definition calm :: "world \<Rightarrow> bool" where
  "calm W \<longleftrightarrow> (\<forall>f inst n. w_release W f inst n = Inr n)"

lemma release_handles: "calm W \<Longrightarrow> skynet_context_release W c n = Inr (ret, n') \<Longrightarrow> nd_handles n' = nd_handles n"
  by (auto simp: calm_def skynet_context_release_def delete_context_def skynet_module_instance_release_def rbind_Inr_iff Let_def
      context_dec_def split: if_splits option.splits)

lemma retire_slot:
  assumes ok: "node_ok g n" and W: "world_ok W" "calm W" and i: "i < length (hs_slot (nd_handles n))" "hs_slot (nd_handles n) ! i = Some c"
  shows "\<exists>h n'. skynet_context_handle c n = Inr h \<and> h \<noteq> 0 \<and> handle_retire W h n = Inr (True, n') \<and> node_ok g n' \<and>
    hs_slot (nd_handles n') = (hs_slot (nd_handles n))[i := None]"
proof -
  have c: "c \<in> contexts (nd_handles n)" using i by (auto simp: contexts_iff)
  obtain x where x: "nd_ctx n c = Some x" using registered_live [OF ok c] by blast
  have hof: "node_hof n c = cx_handle x" using x by (simp add: node_hof_def)
  have hash: "slot_hash (length (hs_slot (nd_handles n))) (cx_handle x) = i" using hs_okD(4) [OF node_okD(1) [OF ok] i] hof by simp
  obtain name j where nm: "retire_names (cx_handle x) (hs_name_count (nd_handles n)) 0 0 (hs_name (nd_handles n)) = (name, j)" by fastforce
  obtain s where s: "skynet_handle_retire (node_hof n) (cx_handle x) (nd_handles n) = (True, Some c, s)" "hs_slot s = (hs_slot (nd_handles n))[i := None]"
    using i hash hof nm by (simp add: skynet_handle_retire_def Let_def)
  obtain b n' where n': "handle_retire W (cx_handle x) n = Inr (b, n')" "keeps g n n'" using handle_retire_ok [OF ok W(1)] by blast
  then have "b = True" "nd_handles n' = s" using s(1) release_handles [OF W(2)] by (auto simp: handle_retire_def rbind_Inr_iff)
  moreover have "cx_handle x \<noteq> 0" using context_queue [OF ok x] node_okD(7) [OF ok] by blast
  ultimately show ?thesis using n' x s(2) keeps_ok [OF n'(2)] by (auto simp: skynet_context_handle_def)
qed

text \<open>One pass empties the slots from \<open>i\<close> on.\<close>

lemma retire_pass:
  assumes "node_ok g n" "world_ok W" "calm W" "length (hs_slot (nd_handles n)) - i < fuel"
  shows "\<exists>n' k'. skynet_handle_retireall W fuel i k n = (if k' = 0 then Inr n' else skynet_handle_retireall W (fuel - (length (hs_slot (nd_handles n)) - i) - 1) 0 0 n') \<and>
    node_ok g n' \<and> k \<le> k' \<and> length (hs_slot (nd_handles n')) = length (hs_slot (nd_handles n)) \<and>
    (\<forall>j < length (hs_slot (nd_handles n)). hs_slot (nd_handles n') ! j = (if i \<le> j then None else hs_slot (nd_handles n) ! j))"
  using assms
proof (induction fuel arbitrary: i k n)
  case (Suc fuel)
  show ?case
  proof (cases "i < length (hs_slot (nd_handles n))")
    case False
    then show ?thesis using Suc.prems(1) by (intro exI [of _ n] exI [of _ k]) auto
  next
    case i: True
    then have fuel: "fuel - (length (hs_slot (nd_handles n)) - (i + 1)) - 1 = Suc fuel - (length (hs_slot (nd_handles n)) - i) - 1" by simp
    from i have lt: "length (hs_slot (nd_handles n)) - (i + 1) < fuel" using Suc.prems(4) by simp
    show ?thesis
    proof (cases "hs_slot (nd_handles n) ! i")
      case None
      obtain n' k' where "skynet_handle_retireall W fuel (i + 1) k n =
          (if k' = 0 then Inr n' else skynet_handle_retireall W (fuel - (length (hs_slot (nd_handles n)) - (i + 1)) - 1) 0 0 n')"
        "node_ok g n' \<and> k \<le> k' \<and> length (hs_slot (nd_handles n')) = length (hs_slot (nd_handles n)) \<and>
         (\<forall>j < length (hs_slot (nd_handles n)). hs_slot (nd_handles n') ! j = (if i + 1 \<le> j then None else hs_slot (nd_handles n) ! j))"
        using Suc.IH [OF Suc.prems(1-3) lt, of k] by blast
      then show ?thesis using i None fuel by (intro exI [of _ n'] exI [of _ k']) (auto simp: le_Suc_eq le_eq_less_or_eq)
    next
      case (Some c)
      obtain h n1 where n1: "skynet_context_handle c n = Inr h" "h \<noteq> 0" "handle_retire W h n = Inr (True, n1)" "node_ok g n1"
        "hs_slot (nd_handles n1) = (hs_slot (nd_handles n))[i := None]" using retire_slot [OF Suc.prems(1-3) i Some] by blast
      have len: "length (hs_slot (nd_handles n1)) = length (hs_slot (nd_handles n))" using n1(5) by simp
      obtain n' k' where rest: "skynet_handle_retireall W fuel (i + 1) (k + 1) n1 =
          (if k' = 0 then Inr n' else skynet_handle_retireall W (fuel - (length (hs_slot (nd_handles n)) - (i + 1)) - 1) 0 0 n')"
        "node_ok g n' \<and> k + 1 \<le> k' \<and> length (hs_slot (nd_handles n')) = length (hs_slot (nd_handles n)) \<and>
         (\<forall>j < length (hs_slot (nd_handles n)). hs_slot (nd_handles n') ! j = (if i + 1 \<le> j then None else hs_slot (nd_handles n1) ! j))"
        using Suc.IH [OF n1(4) Suc.prems(2,3), of "i + 1" "k + 1", unfolded len, OF lt] by blast
      show ?thesis
      proof (intro exI [of _ n'] exI [of _ k'] conjI allI impI)
        show "skynet_handle_retireall W (Suc fuel) i k n =
            (if k' = 0 then Inr n' else skynet_handle_retireall W (Suc fuel - (length (hs_slot (nd_handles n)) - i) - 1) 0 0 n')"
          unfolding fuel [symmetric] rest(1) [symmetric] using i Some n1(1-3) by simp
        show "hs_slot (nd_handles n') ! j = (if i \<le> j then None else hs_slot (nd_handles n) ! j)" if "j < length (hs_slot (nd_handles n))" for j
          using rest(2) that n1(5) by (cases "j = i") (auto simp: nth_list_update)
      qed (use rest(2) in auto)
    qed
  qed
qed simp

lemma no_slots: "(\<forall>j < length (hs_slot s). hs_slot s ! j = None) \<longleftrightarrow> contexts s = {}"
proof
  assume "contexts s = {}"
  then show "\<forall>j < length (hs_slot s). hs_slot s ! j = None"
    using contexts_iff [of _ s] by (metis empty_iff option.exhaust)
qed (auto simp: contexts_iff)



end
