(* ===== verification/Hashid.thy ===== *)
theory Hashid
  imports Prelude
begin

text \<open>
  The table from socket ids to connection slots of the gate (\<^verbatim>\<open>service-src/hashid.h\<close>): an array of
  nodes, chained through indices into buckets. The contract of such a table is the locale
  \<open>id_table\<close>; the table implements a finite map that never holds more ids than it has slots.
\<close>

section \<open>Interface\<close>

locale id_table =
  fixes lookup :: "'s \<Rightarrow> int \<Rightarrow> int result"
    and insert :: "'s \<Rightarrow> int \<Rightarrow> (int \<times> 's) result"
    and remove :: "'s \<Rightarrow> int \<Rightarrow> (int \<times> 's) result"
    and full :: "'s \<Rightarrow> bool"
    and capacity :: "'s \<Rightarrow> nat"
    and ids :: "'s \<Rightarrow> int \<rightharpoonup> nat"
    and invar :: "'s \<Rightarrow> bool"
    and fits :: "'s \<Rightarrow> int \<Rightarrow> bool"
  assumes slots: "invar s \<Longrightarrow> ids s x = Some i \<Longrightarrow> i < capacity s \<and> x \<noteq> - 1"
    and slots_inj: "invar s \<Longrightarrow> ids s x = Some i \<Longrightarrow> ids s y = Some i \<Longrightarrow> x = y"
    and lookup_ids: "invar s \<Longrightarrow> lookup s x = Inr (case ids s x of None \<Rightarrow> - 1 | Some i \<Rightarrow> int i)"
    and insert_ids: "invar s \<Longrightarrow> ids s x = None \<Longrightarrow> \<not> full s \<Longrightarrow> fits s x \<Longrightarrow>
      \<exists>i s'. insert s x = Inr (int i, s') \<and> (\<forall>y. ids s y \<noteq> Some i) \<and> invar s' \<and> capacity s' = capacity s \<and>
        ids s' = (ids s)(x \<mapsto> i)"
    and remove_ids: "invar s \<Longrightarrow> x \<noteq> - 1 \<Longrightarrow>
      \<exists>s'. remove s x = Inr (case ids s x of None \<Rightarrow> - 1 | Some i \<Rightarrow> int i, s') \<and> invar s' \<and> capacity s' = capacity s \<and>
        ids s' = (ids s)(x := None)"
begin

lemma lookup_nonneg: "invar s \<Longrightarrow> lookup s x = Inr r \<Longrightarrow> 0 \<le> r \<longleftrightarrow> ids s x = Some (nat r)"
  by (auto simp: lookup_ids split: option.splits)

lemma lookup_in_range: "invar s \<Longrightarrow> lookup s x = Inr r \<Longrightarrow> 0 \<le> r \<Longrightarrow> nat r < capacity s"
  using slots lookup_nonneg by blast

end

section \<open>The code\<close>

record hashid_node =
  hn_id :: int
  hn_next :: "nat option"

record hashid =
  hi_hashmod :: int
  hi_cap :: int
  hi_count :: int
  hi_id :: "hashid_node list"
  hi_hash :: "nat option list"

text \<open>\<^verbatim>\<open>while (hashcap < max) hashcap *= 2\<close>; above \<open>2 ^ 30\<close> the product overflows and the loop does not end.\<close>

function hashcap_loop :: "int \<Rightarrow> int \<Rightarrow> int result" where
  "hashcap_loop hashcap mx =
     (if hashcap \<le> 0 \<or> mx > 2 ^ 30 then Inl Diverges
      else if hashcap < mx then hashcap_loop (hashcap * 2) mx
      else Inr hashcap)"
  by auto
termination by (relation "measure (\<lambda>(hashcap, mx). nat (mx - hashcap))") auto

declare hashcap_loop.simps [simp del]

definition empty_node :: hashid_node where
  "empty_node = \<lparr>hn_id = - 1, hn_next = None\<rparr>"

definition hashid_init :: "int \<Rightarrow> hashid result" where
  "hashid_init mx =
     rbind (hashcap_loop 16 mx) (\<lambda>hashcap.
     Inr \<lparr>hi_hashmod = hashcap - 1, hi_cap = mx, hi_count = 0,
          hi_id = replicate (nat mx) empty_node, hi_hash = replicate (nat hashcap) None\<rparr>)"

definition hashid_clear :: "hashid \<Rightarrow> hashid" where
  "hashid_clear hi = hi\<lparr>hi_id := [], hi_hash := [], hi_hashmod := 1, hi_cap := 0, hi_count := 0\<rparr>"

definition bucket :: "hashid \<Rightarrow> int \<Rightarrow> nat" where
  "bucket hi fd = nat (fd AND hi_hashmod hi)"

text \<open>The loops follow at most one pointer for each node; a longer walk would go in a circle.\<close>

fun lookup_loop :: "nat \<Rightarrow> hashid_node list \<Rightarrow> nat option \<Rightarrow> int \<Rightarrow> int result" where
  "lookup_loop n ns None fd = Inr (- 1)"
| "lookup_loop 0 ns (Some c) fd = Inl Diverges"
| "lookup_loop (Suc n) ns (Some c) fd =
     (if hn_id (ns ! c) = fd then Inr (int c) else lookup_loop n ns (hn_next (ns ! c)) fd)"

definition hashid_lookup :: "hashid \<Rightarrow> int \<Rightarrow> int result" where
  "hashid_lookup hi fd = lookup_loop (length (hi_id hi)) (hi_id hi) (hi_hash hi ! bucket hi fd) fd"

text \<open>The loop that looks one node ahead; it returns the node that was unlinked.\<close>

fun remove_loop :: "nat \<Rightarrow> hashid_node list \<Rightarrow> nat \<Rightarrow> int \<Rightarrow> (nat option \<times> hashid_node list) result" where
  "remove_loop n ns c fd =
     (case hn_next (ns ! c) of
        None \<Rightarrow> Inr (None, ns)
      | Some t \<Rightarrow>
          if hn_id (ns ! t) = fd then Inr (Some t, ns[c := (ns ! c)\<lparr>hn_next := hn_next (ns ! t)\<rparr>])
          else (case n of 0 \<Rightarrow> Inl Diverges | Suc n \<Rightarrow> remove_loop n ns t fd))"

declare remove_loop.simps [simp del]

text \<open>The code behind the label \<^verbatim>\<open>_clear\<close>.\<close>

definition clear_node :: "nat \<Rightarrow> hashid \<Rightarrow> int \<times> hashid" where
  "clear_node c hi = (int c, hi\<lparr>hi_id := (hi_id hi)[c := empty_node], hi_count := hi_count hi - 1\<rparr>)"

definition hashid_remove :: "hashid \<Rightarrow> int \<Rightarrow> (int \<times> hashid) result" where
  "hashid_remove hi fd =
     (let h = bucket hi fd in
      case hi_hash hi ! h of
        None \<Rightarrow> Inr (- 1, hi)
      | Some c \<Rightarrow>
          if hn_id (hi_id hi ! c) = fd then
            Inr (clear_node c (hi\<lparr>hi_hash := (hi_hash hi)[h := hn_next (hi_id hi ! c)]\<rparr>))
          else
            rbind (remove_loop (length (hi_id hi)) (hi_id hi) c fd) (\<lambda>(r, ns).
            case r of None \<Rightarrow> Inr (- 1, hi) | Some t \<Rightarrow> Inr (clear_node t (hi\<lparr>hi_id := ns\<rparr>))))"

text \<open>\<^verbatim>\<open>(i+id) % hi->cap\<close> on \<^verbatim>\<open>int\<close>: the sum wraps, the remainder has the sign of the sum.\<close>

definition c_rem :: "int \<Rightarrow> int \<Rightarrow> int" where
  "c_rem a b = (if a < 0 then - (- a mod b) else a mod b)"

fun free_node :: "nat \<Rightarrow> int \<Rightarrow> hashid \<Rightarrow> int \<Rightarrow> nat option result" where
  "free_node 0 i hi fd = Inr None"
| "free_node (Suc n) i hi fd =
     (let index = c_rem (signed_take_bit 31 (i + fd)) (hi_cap hi) in
      if index < 0 then Inl OutOfBounds
      else if hn_id (hi_id hi ! nat index) = - 1 then Inr (Some (nat index))
      else free_node n (i + 1) hi fd)"

definition hashid_insert :: "hashid \<Rightarrow> int \<Rightarrow> (int \<times> hashid) result" where
  "hashid_insert hi fd =
     rbind (free_node (nat (hi_cap hi)) 0 hi fd) (\<lambda>r.
     case r of
       None \<Rightarrow> Inl AssertFail
     | Some c \<Rightarrow>
         rbind (cassert (hn_next (hi_id hi ! c) = None)) (\<lambda>_.
         let h = bucket hi fd;
             ns = (hi_id hi)[c := \<lparr>hn_id = fd, hn_next = hi_hash hi ! h\<rparr>]
         in Inr (int c, hi\<lparr>hi_count := hi_count hi + 1, hi_id := ns, hi_hash := (hi_hash hi)[h := Some c]\<rparr>)))"

definition hashid_full :: "hashid \<Rightarrow> bool" where
  "hashid_full hi \<longleftrightarrow> hi_count hi = hi_cap hi"

section \<open>Chains\<close>

fun path :: "hashid_node list \<Rightarrow> nat option \<Rightarrow> nat list \<Rightarrow> bool" where
  "path ns p [] = (p = None)"
| "path ns p (i # is) = (p = Some i \<and> i < length ns \<and> path ns (hn_next (ns ! i)) is)"

lemma path_range: "path ns p is \<Longrightarrow> set is \<subseteq> {..<length ns}"
  by (induction "is" arbitrary: p) auto

lemma path_other: "path ns p is \<Longrightarrow> c \<notin> set is \<Longrightarrow> path (ns[c := x]) p is"
  by (induction "is" arbitrary: p) auto

lemma path_length:
  assumes "path ns p is" "distinct is"
  shows "length is \<le> length ns"
  using card_mono [OF _ path_range [OF assms(1)]] distinct_card [OF assms(2)] by simp

lemma lookup_path:
  "path ns p is \<Longrightarrow> length is \<le> n \<Longrightarrow>
     lookup_loop n ns p fd = Inr (case find (\<lambda>i. hn_id (ns ! i) = fd) is of None \<Rightarrow> - 1 | Some i \<Rightarrow> int i)"
proof (induction "is" arbitrary: p n)
  case (Cons i "is")
  then show ?case by (cases n) auto
qed simp

text \<open>Unlinking node \<open>t\<close> behind the first of a chain.\<close>

lemma remove_path:
  assumes "path ns (Some c) (c # is)" "distinct (c # is)" "length is \<le> n"
  shows "(case find (\<lambda>i. hn_id (ns ! i) = fd) is of
      None \<Rightarrow> remove_loop n ns c fd = Inr (None, ns)
    | Some t \<Rightarrow> \<exists>ns'. remove_loop n ns c fd = Inr (Some t, ns') \<and> path ns' (Some c) (c # removeAll t is) \<and>
        length ns' = length ns \<and> map hn_id ns' = map hn_id ns \<and> (\<forall>i. i \<notin> set (c # is) \<longrightarrow> ns' ! i = ns ! i))"
  using assms
proof (induction "is" arbitrary: c n)
  case Nil
  then show ?case by (simp add: remove_loop.simps)
next
  case (Cons t ts)
  have next_t: "hn_next (ns ! c) = Some t" "c < length ns" "t < length ns" "path ns (Some t) (t # ts)"
    using Cons.prems(1) by auto
  show ?case
  proof (cases "hn_id (ns ! t) = fd")
    case True
    let ?ns = "ns[c := (ns ! c)\<lparr>hn_next := hn_next (ns ! t)\<rparr>]"
    have "path ?ns (hn_next (ns ! t)) ts" using next_t(4) Cons.prems(2) by (intro path_other) auto
    then have "path ?ns (Some c) (c # removeAll t (t # ts))"
      using next_t Cons.prems(2) by (simp add: removeAll_id)
    moreover have "map hn_id ?ns = map hn_id ns" using next_t(2) by (auto intro!: nth_equalityI simp: nth_list_update)
    ultimately show ?thesis using True next_t by (auto simp: remove_loop.simps [of n])
  next
    case False
    then obtain m where m: "n = Suc m" "length ts \<le> m" using Cons.prems(3) by (cases n) auto
    have step: "remove_loop n ns c fd = remove_loop m ns t fd" using False next_t m by (simp add: remove_loop.simps [of "Suc m"])
    note IH = Cons.IH [OF next_t(4) _ m(2)]
    show ?thesis
    proof (cases "find (\<lambda>i. hn_id (ns ! i) = fd) ts")
      case None
      then show ?thesis using IH Cons.prems(2) False step by simp
    next
      case (Some u)
      then obtain ns' where ns': "remove_loop m ns t fd = Inr (Some u, ns')" "path ns' (Some t) (t # removeAll u ts)"
        "length ns' = length ns" "map hn_id ns' = map hn_id ns" "\<forall>i. i \<notin> set (t # ts) \<longrightarrow> ns' ! i = ns ! i"
        using IH Cons.prems(2) by auto
      have "u \<in> set ts" using Some by (auto simp: find_Some_iff)
      then have "u \<noteq> t" using Cons.prems(2) by auto
      moreover have "ns' ! c = ns ! c" using ns'(5) Cons.prems(2) by auto
      ultimately have "path ns' (Some c) (c # removeAll u (t # ts))" using ns'(2,3) next_t by auto
      then show ?thesis using Some False ns' step by simp
    qed
  qed
qed

section \<open>The table as a map\<close>

definition used :: "hashid \<Rightarrow> nat \<Rightarrow> bool" where
  "used hi i \<longleftrightarrow> i < length (hi_id hi) \<and> hn_id (hi_id hi ! i) \<noteq> - 1"

definition hashid_ids :: "hashid \<Rightarrow> int \<rightharpoonup> nat" where
  "hashid_ids hi = map_of (map (\<lambda>i. (hn_id (hi_id hi ! i), i)) (filter (used hi) [0..<length (hi_id hi)]))"

definition chains :: "hashid \<Rightarrow> (nat \<Rightarrow> nat list) \<Rightarrow> bool" where
  "chains hi ch \<longleftrightarrow>
     (\<forall>h < length (hi_hash hi). path (hi_id hi) (hi_hash hi ! h) (ch h) \<and> distinct (ch h) \<and>
        set (ch h) = {i. used hi i \<and> bucket hi (hn_id (hi_id hi ! i)) = h})"

definition hashid_ok :: "hashid \<Rightarrow> bool" where
  "hashid_ok hi \<longleftrightarrow>
     (\<exists>k. hi_hashmod hi = mask k \<and> length (hi_hash hi) = 2 ^ k) \<and> hi_cap hi = int (length (hi_id hi)) \<and> 0 < hi_cap hi \<and>
     hi_count hi = int (card {i. used hi i}) \<and>
     (\<forall>i j. used hi i \<longrightarrow> used hi j \<longrightarrow> hn_id (hi_id hi ! i) = hn_id (hi_id hi ! j) \<longrightarrow> i = j) \<and>
     (\<forall>i < length (hi_id hi). \<not> used hi i \<longrightarrow> hn_next (hi_id hi ! i) = None) \<and>
     (\<exists>ch. chains hi ch)"

lemma hashid_ids_Some:
  assumes "hashid_ok hi"
  shows "hashid_ids hi x = Some i \<longleftrightarrow> used hi i \<and> hn_id (hi_id hi ! i) = x"
proof -
  let ?xs = "filter (used hi) [0..<length (hi_id hi)]"
  have inj: "inj_on (\<lambda>i. hn_id (hi_id hi ! i)) {i. used hi i}"
    using assms by (auto simp: hashid_ok_def inj_on_def)
  have "set ?xs = {i. used hi i}" by (auto simp: used_def)
  then have "distinct (map fst (map (\<lambda>i. (hn_id (hi_id hi ! i), i)) ?xs))"
    using inj by (simp add: comp_def distinct_map)
  then have "hashid_ids hi x = Some i \<longleftrightarrow> (x, i) \<in> set (map (\<lambda>i. (hn_id (hi_id hi ! i), i)) ?xs)"
    unfolding hashid_ids_def by (rule map_of_eq_Some_iff)
  then show ?thesis by (auto simp: used_def)
qed

lemma option_eqI: "(\<And>i. a = Some i \<longleftrightarrow> b = Some i) \<Longrightarrow> a = b"
  by (cases a; cases b) auto

lemma hashid_ids_None:
  assumes "hashid_ok hi"
  shows "hashid_ids hi x = None \<longleftrightarrow> (\<forall>i. used hi i \<longrightarrow> hn_id (hi_id hi ! i) \<noteq> x)"
  using hashid_ids_Some [OF assms] by (metis option.exhaust option.distinct(1))

lemma bucket_range: "hi_hashmod hi = mask k \<Longrightarrow> bucket hi x < 2 ^ k"
  by (simp add: bucket_def nat_less_iff flip: take_bit_eq_mask)

lemma used_finite [simp]: "finite {i. used hi i}"
  by (rule finite_subset [of _ "{..<length (hi_id hi)}"]) (auto simp: used_def)

text \<open>The chain of the bucket of \<open>x\<close>, and what a walk along it finds.\<close>

lemma bucket_chain:
  assumes "hashid_ok hi" "x \<noteq> - 1"
  obtains ch where "chains hi ch" "path (hi_id hi) (hi_hash hi ! bucket hi x) (ch (bucket hi x))" "distinct (ch (bucket hi x))"
    "length (ch (bucket hi x)) \<le> length (hi_id hi)" "bucket hi x < length (hi_hash hi)"
    "find (\<lambda>i. hn_id (hi_id hi ! i) = x) (ch (bucket hi x)) = hashid_ids hi x"
proof -
  obtain ch where ch: "chains hi ch" using assms(1) by (auto simp: hashid_ok_def)
  have b: "bucket hi x < length (hi_hash hi)" using assms(1) bucket_range by (auto simp: hashid_ok_def)
  then have p: "path (hi_id hi) (hi_hash hi ! bucket hi x) (ch (bucket hi x))" "distinct (ch (bucket hi x))"
    "set (ch (bucket hi x)) = {i. used hi i \<and> bucket hi (hn_id (hi_id hi ! i)) = bucket hi x}"
    using ch by (auto simp: chains_def)
  have "find (\<lambda>i. hn_id (hi_id hi ! i) = x) (ch (bucket hi x)) = hashid_ids hi x"
  proof (cases "find (\<lambda>i. hn_id (hi_id hi ! i) = x) (ch (bucket hi x))")
    case None
    then have "hashid_ids hi x = None" using p(3) hashid_ids_None [OF assms(1)] by (auto simp: find_None_iff)
    then show ?thesis using None by simp
  next
    case (Some i)
    then have "i \<in> set (ch (bucket hi x))" "hn_id (hi_id hi ! i) = x" by (auto simp: find_Some_iff)
    then have "hashid_ids hi x = Some i" using p(3) hashid_ids_Some [OF assms(1)] by auto
    then show ?thesis using Some by simp
  qed
  then show ?thesis using that ch p b path_length by blast
qed

lemma lookup_ok:
  assumes "hashid_ok hi"
  shows "hashid_lookup hi x = Inr (case hashid_ids hi x of None \<Rightarrow> - 1 | Some i \<Rightarrow> int i)"
proof (cases "x = - 1")
  case True
  obtain ch where "chains hi ch" using assms by (auto simp: hashid_ok_def)
  moreover have b: "bucket hi x < length (hi_hash hi)" using assms bucket_range by (auto simp: hashid_ok_def)
  ultimately have p: "path (hi_id hi) (hi_hash hi ! bucket hi x) (ch (bucket hi x))" "distinct (ch (bucket hi x))"
    "\<forall>i \<in> set (ch (bucket hi x)). used hi i" by (auto simp: chains_def)
  then have "find (\<lambda>i. hn_id (hi_id hi ! i) = x) (ch (bucket hi x)) = None" using True by (auto simp: find_None_iff used_def)
  moreover have "hashid_ids hi x = None" using True hashid_ids_None [OF assms] by (auto simp: used_def)
  ultimately show ?thesis using lookup_path [OF p(1) path_length [OF p(1,2)]] by (simp add: hashid_lookup_def)
next
  case False
  then show ?thesis using bucket_chain [OF assms False] lookup_path unfolding hashid_lookup_def by metis
qed

text \<open>The scan for a free node visits every node once.\<close>

definition hashid_fits :: "hashid \<Rightarrow> int \<Rightarrow> bool" where
  "hashid_fits hi x \<longleftrightarrow> 0 \<le> x \<and> x + hi_cap hi \<le> 2 ^ 31"

lemma scan_index:
  assumes "hashid_fits hi x" "0 \<le> i" "i < hi_cap hi"
  shows "c_rem (signed_take_bit 31 (i + x)) (hi_cap hi) = (i + x) mod hi_cap hi"
  using assms by (simp add: c_rem_def hashid_fits_def signed_take_bit_int_eq_self)

lemma free_node_found:
  assumes "hashid_fits hi x" "0 \<le> i" "i + int n \<le> hi_cap hi" "i \<le> j" "j < i + int n"
    "hn_id (hi_id hi ! nat ((j + x) mod hi_cap hi)) = - 1"
  shows "\<exists>c. free_node n i hi x = Inr (Some c) \<and> int c < hi_cap hi \<and> hn_id (hi_id hi ! c) = - 1"
  using assms
proof (induction n arbitrary: i)
  case (Suc n)
  have idx: "c_rem (signed_take_bit 31 (i + x)) (hi_cap hi) = (i + x) mod hi_cap hi" using Suc.prems by (intro scan_index) auto
  have range: "0 \<le> (i + x) mod hi_cap hi" "(i + x) mod hi_cap hi < hi_cap hi" using Suc.prems by simp_all
  then have nn: "\<not> (i + x) mod hi_cap hi < 0" by linarith
  show ?case
  proof (cases "hn_id (hi_id hi ! nat ((i + x) mod hi_cap hi)) = - 1")
    case True
    then show ?thesis using idx range by (simp add: Let_def)
  next
    case False
    then have "i \<noteq> j" using Suc.prems(6) by auto
    then show ?thesis using Suc.IH [of "i + 1"] Suc.prems idx nn False by (simp add: Let_def)
  qed
qed simp

text \<open>The scan finds a free node when the table is not full.\<close>

lemma free_node_ok:
  assumes ok: "hashid_ok hi" and room: "\<not> hashid_full hi" and fits: "hashid_fits hi x"
  obtains c where "free_node (nat (hi_cap hi)) 0 hi x = Inr (Some c)" "c < length (hi_id hi)" "\<not> used hi c"
proof -
  let ?ns = "hi_id hi" and ?len = "length (hi_id hi)"
  have cap: "hi_cap hi = int ?len" "0 < hi_cap hi" "hi_count hi = int (card {i. used hi i})" using ok by (auto simp: hashid_ok_def)
  have "{i. used hi i} \<noteq> {..<?len}"
  proof
    assume "{i. used hi i} = {..<?len}"
    then have "card {i. used hi i} = ?len" by simp
    then show False using room cap by (simp add: hashid_full_def)
  qed
  then obtain f where f: "f < ?len" "\<not> used hi f" by (auto simp: used_def)
  define j where "j = (int f - x) mod hi_cap hi"
  have "(j + x) mod hi_cap hi = int f" using f cap by (simp add: j_def mod_add_left_eq)
  then have "hn_id (?ns ! nat ((j + x) mod hi_cap hi)) = - 1" using f by (simp add: used_def)
  moreover have "0 \<le> j" "j < 0 + int (nat (hi_cap hi))" using cap by (simp_all add: j_def)
  ultimately obtain c where "free_node (nat (hi_cap hi)) 0 hi x = Inr (Some c)" "int c < hi_cap hi" "hn_id (?ns ! c) = - 1"
    using free_node_found [OF fits, of 0 "nat (hi_cap hi)" j] cap by auto
  then show ?thesis using that [of c] cap by (simp add: used_def)
qed

text \<open>The table with a free node linked in front of its bucket.\<close>

definition linked_in :: "nat \<Rightarrow> int \<Rightarrow> hashid \<Rightarrow> hashid" where
  "linked_in c x hi = hi\<lparr>hi_count := hi_count hi + 1, hi_id := (hi_id hi)[c := \<lparr>hn_id = x, hn_next = hi_hash hi ! bucket hi x\<rparr>],
     hi_hash := (hi_hash hi)[bucket hi x := Some c]\<rparr>"

lemma linked_in_nodes:
  assumes "c < length (hi_id hi)" "x \<noteq> - 1"
  shows "length (hi_id (linked_in c x hi)) = length (hi_id hi)" "bucket (linked_in c x hi) y = bucket hi y"
    "hi_id (linked_in c x hi) ! i = (if i = c then \<lparr>hn_id = x, hn_next = hi_hash hi ! bucket hi x\<rparr> else hi_id hi ! i)"
    "used (linked_in c x hi) i \<longleftrightarrow> used hi i \<or> i = c"
  using assms by (auto simp: linked_in_def bucket_def nth_list_update used_def)

lemma linked_in_chains:
  assumes ch: "chains hi ch" and c: "c < length (hi_id hi)" "\<not> used hi c" and x: "x \<noteq> - 1"
  shows "chains (linked_in c x hi) (ch(bucket hi x := c # ch (bucket hi x)))"
  unfolding chains_def
proof (intro allI impI conjI)
  let ?b = "bucket hi x" and ?hi = "linked_in c x hi"
  fix h
  assume h: "h < length (hi_hash ?hi)"
  then have old: "path (hi_id hi) (hi_hash hi ! h) (ch h)" "distinct (ch h)" "set (ch h) = {i. used hi i \<and> bucket hi (hn_id (hi_id hi ! i)) = h}"
    using ch by (auto simp: chains_def linked_in_def)
  then have nin: "c \<notin> set (ch h)" using c(2) by auto
  then have p: "path (hi_id ?hi) (hi_hash hi ! h) (ch h)" unfolding linked_in_def using old(1) by (simp add: path_other)
  show "path (hi_id ?hi) (hi_hash ?hi ! h) ((ch(?b := c # ch ?b)) h)"
    using p c(1) h by (cases "h = ?b") (simp_all add: linked_in_def)
  show "distinct ((ch(?b := c # ch ?b)) h)" using old(2) nin by auto
  show "set ((ch(?b := c # ch ?b)) h) = {i. used ?hi i \<and> bucket ?hi (hn_id (hi_id ?hi ! i)) = h}"
    using old(3) c(2) by (auto simp: linked_in_nodes [OF c(1) x])
qed

lemma insert_ok:
  assumes ok: "hashid_ok hi" and new: "hashid_ids hi x = None" and room: "\<not> hashid_full hi" and fits: "hashid_fits hi x"
  shows "\<exists>i hi'. hashid_insert hi x = Inr (int i, hi') \<and> (\<forall>y. hashid_ids hi y \<noteq> Some i) \<and> hashid_ok hi' \<and>
    length (hi_id hi') = length (hi_id hi) \<and> hashid_ids hi' = (hashid_ids hi)(x \<mapsto> i)"
proof -
  have x: "x \<noteq> - 1" using fits by (auto simp: hashid_fits_def)
  obtain c where c: "free_node (nat (hi_cap hi)) 0 hi x = Inr (Some c)" "c < length (hi_id hi)" "\<not> used hi c"
    by (rule free_node_ok [OF ok room fits])
  let ?hi = "linked_in c x hi"
  note nodes = linked_in_nodes [OF c(2) x]
  have "hn_next (hi_id hi ! c) = None" using ok c(2,3) by (auto simp: hashid_ok_def)
  then have ins: "hashid_insert hi x = Inr (int c, ?hi)" by (simp add: hashid_insert_def c(1) Let_def linked_in_def)
  have unused: "hn_id (hi_id hi ! i) \<noteq> x" if "used hi i" for i using new that hashid_ids_None [OF ok] by auto
  have "{i. used ?hi i} = insert c {i. used hi i}" by (auto simp: nodes)
  then have card: "card {i. used ?hi i} = card {i. used hi i} + 1" using c(3) by simp
  have ok': "hashid_ok ?hi"
    unfolding hashid_ok_def
  proof (intro conjI)
    show "\<exists>k. hi_hashmod ?hi = mask k \<and> length (hi_hash ?hi) = 2 ^ k" "hi_cap ?hi = int (length (hi_id ?hi))" "0 < hi_cap ?hi"
      using ok by (auto simp: hashid_ok_def linked_in_def)
    show "hi_count ?hi = int (card {i. used ?hi i})" unfolding card using ok by (simp add: linked_in_def hashid_ok_def)
    show "\<forall>i j. used ?hi i \<longrightarrow> used ?hi j \<longrightarrow> hn_id (hi_id ?hi ! i) = hn_id (hi_id ?hi ! j) \<longrightarrow> i = j"
      using ok unused by (auto simp: hashid_ok_def nodes)
    show "\<forall>i < length (hi_id ?hi). \<not> used ?hi i \<longrightarrow> hn_next (hi_id ?hi ! i) = None"
      using ok by (auto simp: hashid_ok_def nodes)
    show "\<exists>ch. chains ?hi ch" using bucket_chain [OF ok x] linked_in_chains [OF _ c(2,3) x] by blast
  qed
  have "hashid_ids ?hi y = ((hashid_ids hi)(x \<mapsto> c)) y" for y
  proof (rule option_eqI)
    fix i
    show "hashid_ids ?hi y = Some i \<longleftrightarrow> ((hashid_ids hi)(x \<mapsto> c)) y = Some i"
      using unused [of i] c(3) by (cases "i = c") (auto simp: hashid_ids_Some [OF ok'] hashid_ids_Some [OF ok] nodes)
  qed
  then have "hashid_ids ?hi = (hashid_ids hi)(x \<mapsto> c)" by blast
  moreover have "hashid_ids hi y \<noteq> Some c" for y using hashid_ids_Some [OF ok] c(3) by blast
  ultimately show ?thesis using ins ok' nodes(1) by blast
qed

lemma path_cong: "path ns p is \<Longrightarrow> length ns' = length ns \<Longrightarrow> \<forall>i \<in> set is. ns' ! i = ns ! i \<Longrightarrow> path ns' p is"
  by (induction "is" arbitrary: p) auto

text \<open>Taking a used node out of its chain, however the chain was relinked.\<close>

definition unlinked :: "nat \<Rightarrow> int \<Rightarrow> hashid_node list \<Rightarrow> nat option \<Rightarrow> hashid \<Rightarrow> hashid" where
  "unlinked t x ns p hi = snd (clear_node t (hi\<lparr>hi_id := ns, hi_hash := (hi_hash hi)[bucket hi x := p]\<rparr>))"

lemma unlinked_nodes:
  assumes t: "used hi t" and ns: "length ns = length (hi_id hi)" "map hn_id ns = map hn_id (hi_id hi)"
  shows "length (hi_id (unlinked t x ns p hi)) = length (hi_id hi)" "bucket (unlinked t x ns p hi) y = bucket hi y"
    "hi_id (unlinked t x ns p hi) ! i = (if i = t then empty_node else ns ! i)"
    "used (unlinked t x ns p hi) i \<longleftrightarrow> used hi i \<and> i \<noteq> t"
    "used (unlinked t x ns p hi) i \<Longrightarrow> hn_id (hi_id (unlinked t x ns p hi) ! i) = hn_id (hi_id hi ! i)"
proof -
  let ?hi = "unlinked t x ns p hi"
  have hid: "hn_id (ns ! i) = hn_id (hi_id hi ! i)" if "i < length (hi_id hi)" for i
    using that ns by (metis nth_map)
  show len: "length (hi_id ?hi) = length (hi_id hi)" by (simp add: unlinked_def clear_node_def ns)
  show "bucket ?hi y = bucket hi y" by (simp add: bucket_def unlinked_def clear_node_def)
  show nth: "hi_id ?hi ! i = (if i = t then empty_node else ns ! i)" for i
    using t ns(1) by (auto simp: unlinked_def clear_node_def nth_list_update used_def)
  show used: "used ?hi i \<longleftrightarrow> used hi i \<and> i \<noteq> t" for i by (auto simp: used_def nth len hid empty_node_def)
  show "hn_id (hi_id ?hi ! i) = hn_id (hi_id hi ! i)" if "used ?hi i"
    using that used [of i] hid by (auto simp: nth used_def)
qed

lemma unlinked_chains:
  assumes ok: "hashid_ok hi" and t: "used hi t" and x: "hn_id (hi_id hi ! t) = x"
    and ch: "chains hi ch" and p: "path ns p (removeAll t (ch (bucket hi x)))"
    and ns: "length ns = length (hi_id hi)" "map hn_id ns = map hn_id (hi_id hi)" "\<forall>i. i \<notin> set (ch (bucket hi x)) \<longrightarrow> ns ! i = hi_id hi ! i"
  shows "chains (unlinked t x ns p hi) (ch(bucket hi x := removeAll t (ch (bucket hi x))))"
  unfolding chains_def
proof (intro allI impI conjI)
  let ?b = "bucket hi x" and ?hi = "unlinked t x ns p hi"
  note nodes = unlinked_nodes [OF t ns(1,2), of x p]
  fix h
  assume "h < length (hi_hash ?hi)"
  then have h: "h < length (hi_hash hi)" by (simp add: unlinked_def clear_node_def)
  then have old: "path (hi_id hi) (hi_hash hi ! h) (ch h)" "distinct (ch h)" "set (ch h) = {i. used hi i \<and> bucket hi (hn_id (hi_id hi ! i)) = h}"
    using ch by (auto simp: chains_def)
  show "path (hi_id ?hi) (hi_hash ?hi ! h) ((ch(?b := removeAll t (ch ?b))) h)"
  proof (cases "h = ?b")
    case True
    then show ?thesis using p h by (simp add: unlinked_def clear_node_def path_other)
  next
    case False
    have "set (ch ?b) = {i. used hi i \<and> bucket hi (hn_id (hi_id hi ! i)) = ?b}"
      using ch bucket_range ok by (auto simp: chains_def hashid_ok_def)
    then have dis: "set (ch h) \<inter> set (ch ?b) = {}" "t \<notin> set (ch h)" using old(3) False x by auto
    have "path ns (hi_hash hi ! h) (ch h)"
      using dis(1) ns(1,3) by (intro path_cong [OF old(1)]) auto
    then show ?thesis using False dis(2) by (simp add: unlinked_def clear_node_def path_other)
  qed
  show "distinct ((ch(?b := removeAll t (ch ?b))) h)" using old(2) by (auto simp: distinct_removeAll)
  have "i \<in> set ((ch(?b := removeAll t (ch ?b))) h) \<longleftrightarrow> used ?hi i \<and> bucket ?hi (hn_id (hi_id ?hi ! i)) = h" for i
  proof -
    have m: "i \<in> set (ch h) \<longleftrightarrow> used hi i \<and> bucket hi (hn_id (hi_id hi ! i)) = h" by (simp add: old(3))
    have "i \<in> set ((ch(?b := removeAll t (ch ?b))) h) \<longleftrightarrow> i \<in> set (ch h) \<and> (h = ?b \<longrightarrow> i \<noteq> t)" by auto
    then show ?thesis using m nodes(5) [of i] nodes(4) [of i] x by (cases "i = t"; cases "used hi i") (auto simp: nodes(2))
  qed
  then show "set ((ch(?b := removeAll t (ch ?b))) h) = {i. used ?hi i \<and> bucket ?hi (hn_id (hi_id ?hi ! i)) = h}" by blast
qed

lemma unlink_ok:
  assumes ok: "hashid_ok hi" and t: "used hi t" and x: "hn_id (hi_id hi ! t) = x"
    and ch: "chains hi ch" and p: "path ns p (removeAll t (ch (bucket hi x)))"
    and ns: "length ns = length (hi_id hi)" "map hn_id ns = map hn_id (hi_id hi)" "\<forall>i. i \<notin> set (ch (bucket hi x)) \<longrightarrow> ns ! i = hi_id hi ! i"
    and hi': "hi' = snd (clear_node t (hi\<lparr>hi_id := ns, hi_hash := (hi_hash hi)[bucket hi x := p]\<rparr>))"
  shows "hashid_ok hi' \<and> length (hi_id hi') = length (hi_id hi) \<and> hashid_ids hi' = (hashid_ids hi)(x := None)"
proof -
  note eq = hi' [folded unlinked_def]
  note nodes = unlinked_nodes [OF t ns(1,2), of x p, folded eq]
  have "{i. used hi' i} = {i. used hi i} - {t}" using nodes(4) by auto
  then have card: "card {i. used hi' i} = card {i. used hi i} - 1" "0 < card {i. used hi i}" using t by (auto simp: card_gt_0_iff)
  have next_None: "hn_next (hi_id hi' ! i) = None" if i: "i < length (hi_id hi)" "\<not> used hi' i" for i
  proof (cases "i = t")
    case False
    then have free: "\<not> used hi i" using i nodes(4) by blast
    then have "i \<notin> set (ch (bucket hi x))" using ch bucket_range ok by (auto simp: chains_def hashid_ok_def)
    then show ?thesis using False free ok i ns(3) by (auto simp: nodes(3) hashid_ok_def)
  qed (simp add: nodes(3) empty_node_def)
  have ok': "hashid_ok hi'"
    unfolding hashid_ok_def
  proof (intro conjI)
    show "\<exists>k. hi_hashmod hi' = mask k \<and> length (hi_hash hi') = 2 ^ k" "hi_cap hi' = int (length (hi_id hi'))" "0 < hi_cap hi'"
      using ok nodes(1) by (auto simp: hashid_ok_def hi' clear_node_def)
    show "hi_count hi' = int (card {i. used hi' i})"
      using ok card by (simp add: hashid_ok_def of_nat_diff) (simp add: hi' clear_node_def)
    show "\<forall>i j. used hi' i \<longrightarrow> used hi' j \<longrightarrow> hn_id (hi_id hi' ! i) = hn_id (hi_id hi' ! j) \<longrightarrow> i = j"
      using ok nodes(4,5) unfolding hashid_ok_def by metis
    show "\<forall>i < length (hi_id hi'). \<not> used hi' i \<longrightarrow> hn_next (hi_id hi' ! i) = None" using next_None nodes(1) by simp
    show "\<exists>ch. chains hi' ch" unfolding eq using unlinked_chains [OF ok t x ch p ns] by blast
  qed
  have only: "hn_id (hi_id hi ! i) = x \<longleftrightarrow> i = t" if "used hi i" for i
    using that t x ok unfolding hashid_ok_def by metis
  have "hashid_ids hi' y = ((hashid_ids hi)(x := None)) y" for y
  proof (rule option_eqI)
    fix i
    show "hashid_ids hi' y = Some i \<longleftrightarrow> ((hashid_ids hi)(x := None)) y = Some i"
      using only [of i] nodes(5) [of i] nodes(4) [of i] by (auto simp: hashid_ids_Some [OF ok'] hashid_ids_Some [OF ok])
  qed
  then show ?thesis using ok' nodes(1) by blast
qed

lemma remove_ok:
  assumes ok: "hashid_ok hi" and x: "x \<noteq> - 1"
  shows "\<exists>hi'. hashid_remove hi x = Inr (case hashid_ids hi x of None \<Rightarrow> - 1 | Some i \<Rightarrow> int i, hi') \<and> hashid_ok hi' \<and>
    length (hi_id hi') = length (hi_id hi) \<and> hashid_ids hi' = (hashid_ids hi)(x := None)"
proof -
  let ?b = "bucket hi x"
  obtain ch where ch: "chains hi ch" "path (hi_id hi) (hi_hash hi ! ?b) (ch ?b)" "distinct (ch ?b)"
    "length (ch ?b) \<le> length (hi_id hi)" "?b < length (hi_hash hi)"
    "find (\<lambda>i. hn_id (hi_id hi ! i) = x) (ch ?b) = hashid_ids hi x"
    using bucket_chain [OF ok x] .
  have same: "hashid_ids hi = (hashid_ids hi)(x := None)" if "hashid_ids hi x = None" using that by auto
  have mem: "used hi t" "hn_id (hi_id hi ! t) = x" if "hashid_ids hi x = Some t" for t
    using that hashid_ids_Some [OF ok] by auto
  show ?thesis
  proof (cases "ch ?b")
    case Nil
    then have "hashid_ids hi x = None" "hi_hash hi ! ?b = None" using ch by auto
    then show ?thesis using same ok by (auto simp: hashid_remove_def)
  next
    case (Cons c cs)
    then have c: "hi_hash hi ! ?b = Some c" "c < length (hi_id hi)" "path (hi_id hi) (hn_next (hi_id hi ! c)) cs" "c \<notin> set cs" "distinct cs"
      using ch(2,3) by auto
    show ?thesis
    proof (cases "hn_id (hi_id hi ! c) = x")
      case True
      then have t: "hashid_ids hi x = Some c" using ch(6) Cons by simp
      define hi' where "hi' = snd (clear_node c (hi\<lparr>hi_hash := (hi_hash hi)[?b := hn_next (hi_id hi ! c)]\<rparr>))"
      have "hashid_remove hi x = Inr (int c, hi')"
        by (simp add: hashid_remove_def c(1) True hi'_def clear_node_def)
      moreover have "hashid_ok hi' \<and> length (hi_id hi') = length (hi_id hi) \<and> hashid_ids hi' = (hashid_ids hi)(x := None)"
        using c Cons by (intro unlink_ok [OF ok mem [OF t] ch(1), of "hi_id hi" "hn_next (hi_id hi ! c)"]) (simp_all add: hi'_def removeAll_id)
      ultimately show ?thesis using t by auto
    next
      case False
      then have fnd: "find (\<lambda>i. hn_id (hi_id hi ! i) = x) cs = hashid_ids hi x" using ch(6) Cons by simp
      have rp: "path (hi_id hi) (Some c) (c # cs)" "distinct (c # cs)" "length cs \<le> length (hi_id hi)" using c ch(4) Cons by auto
      note rl = remove_path [OF rp, of x, unfolded fnd]
      show ?thesis
      proof (cases "hashid_ids hi x")
        case None
        then show ?thesis using rl same ok by (auto simp: hashid_remove_def c(1) False)
      next
        case (Some t)
        then obtain ns where ns: "remove_loop (length (hi_id hi)) (hi_id hi) c x = Inr (Some t, ns)" "path ns (Some c) (c # removeAll t cs)"
          "length ns = length (hi_id hi)" "map hn_id ns = map hn_id (hi_id hi)" "\<forall>i. i \<notin> set (c # cs) \<longrightarrow> ns ! i = hi_id hi ! i"
          using rl by auto
        define hi' where "hi' = snd (clear_node t (hi\<lparr>hi_id := ns\<rparr>))"
        have "hashid_remove hi x = Inr (int t, hi')"
          using ns(1) by (simp add: hashid_remove_def c(1) False hi'_def clear_node_def)
        have "c \<noteq> t" using mem(2) [OF Some] False by auto
        moreover have upd: "(hi_hash hi)[?b := Some c] = hi_hash hi" using c(1) by (metis list_update_id)
        ultimately have "hashid_ok hi' \<and> length (hi_id hi') = length (hi_id hi) \<and> hashid_ids hi' = (hashid_ids hi)(x := None)"
          using ns Cons c(1) by (intro unlink_ok [OF ok mem [OF Some] ch(1), of ns "Some c"]) (simp_all add: hi'_def upd)
        then have "hashid_remove hi x = Inr (int t, hi') \<and> hashid_ok hi' \<and> length (hi_id hi') = length (hi_id hi) \<and> hashid_ids hi' = (hashid_ids hi)(x := None)"
          using \<open>hashid_remove hi x = Inr (int t, hi')\<close> by blast
        then show ?thesis using Some by auto
      qed
    qed
  qed
qed

interpretation hashid: id_table hashid_lookup hashid_insert hashid_remove hashid_full "\<lambda>hi. length (hi_id hi)" hashid_ids hashid_ok hashid_fits
proof
  fix s x y i
  assume ok: "hashid_ok s"
  show "hashid_lookup s x = Inr (case hashid_ids s x of None \<Rightarrow> - 1 | Some i \<Rightarrow> int i)" using ok by (rule lookup_ok)
  show "i < length (hi_id s) \<and> x \<noteq> - 1" if "hashid_ids s x = Some i"
    using that hashid_ids_Some [OF ok] by (auto simp: used_def)
  show "x = y" if "hashid_ids s x = Some i" "hashid_ids s y = Some i" using that hashid_ids_Some [OF ok] by auto
qed (use insert_ok remove_ok in blast)+

lemma hashcap_loop_power:
  assumes "mx \<le> 2 ^ 30"
  shows "\<exists>k. hashcap_loop (2 ^ j) mx = Inr (2 ^ k)"
proof (induction "nat (mx - 2 ^ j)" arbitrary: j rule: less_induct)
  case less
  show ?case
  proof (cases "(2 :: int) ^ j < mx")
    case True
    then have "nat (mx - 2 ^ Suc j) < nat (mx - 2 ^ j)" by simp
    then obtain k where "hashcap_loop (2 ^ Suc j) mx = Inr (2 ^ k)" using less by blast
    then show ?thesis using True assms by (subst hashcap_loop.simps) (auto simp: mult.commute)
  next
    case False
    then show ?thesis using assms by (subst hashcap_loop.simps) auto
  qed
qed

lemma init_ok:
  assumes "0 < mx" "mx \<le> 2 ^ 30"
  shows "\<exists>hi. hashid_init mx = Inr hi \<and> hashid_ok hi \<and> length (hi_id hi) = nat mx \<and> hashid_ids hi = Map.empty"
proof -
  obtain k where k: "hashcap_loop 16 mx = Inr (2 ^ k)" using hashcap_loop_power [OF assms(2), of 4] by auto
  define hi where "hi = \<lparr>hi_hashmod = 2 ^ k - 1, hi_cap = mx, hi_count = 0,
    hi_id = replicate (nat mx) empty_node, hi_hash = replicate (2 ^ k) None\<rparr>"
  have unused: "\<not> used hi i" for i by (auto simp: used_def hi_def empty_node_def)
  then have "chains hi (\<lambda>_. [])" by (auto simp: chains_def hi_def)
  moreover have "\<forall>i < length (hi_id hi). hn_next (hi_id hi ! i) = None" by (simp add: hi_def empty_node_def)
  ultimately have "hashid_ok hi"
    using assms unused unfolding hashid_ok_def by (auto simp: hi_def mask_eq_exp_minus_1)
  moreover have "hashid_ids hi = Map.empty" using unused by (simp add: hashid_ids_def)
  moreover have "hashid_init mx = Inr hi" by (simp add: hashid_init_def k hi_def nat_power_eq)
  ultimately show ?thesis by (auto simp: hi_def)
qed

text \<open>
  C13: The chained table is a map from ids to slots: a new table is empty; with room, an id that is
  not in the table gets a slot that no other id has, and the other ids keep theirs; removal
  forgets exactly the id and returns its slot; a lookup returns the slot or -1. Nothing faults
  and no walk along a chain goes in a circle, for ids below \<open>2 ^ 31\<close> minus the capacity.
\<close>

theorem hashid_refines_map:
  assumes "hashid_ok hi" "hashid_fits hi x"
  shows "hashid_lookup hi x = Inr (case hashid_ids hi x of None \<Rightarrow> - 1 | Some i \<Rightarrow> int i) \<and>
    (hashid_ids hi x = None \<and> \<not> hashid_full hi \<longrightarrow>
      (\<exists>i hi'. hashid_insert hi x = Inr (int i, hi') \<and> i < length (hi_id hi) \<and> i \<notin> ran (hashid_ids hi) \<and> hashid_ok hi' \<and>
        hashid_ids hi' = (hashid_ids hi)(x \<mapsto> i))) \<and>
    (\<exists>hi'. hashid_remove hi x = Inr (case hashid_ids hi x of None \<Rightarrow> - 1 | Some i \<Rightarrow> int i, hi') \<and> hashid_ok hi' \<and>
        hashid_ids hi' = (hashid_ids hi)(x := None))"
proof (intro conjI impI)
  show "hashid_lookup hi x = Inr (case hashid_ids hi x of None \<Rightarrow> - 1 | Some i \<Rightarrow> int i)" using assms(1) by (rule hashid.lookup_ids)
  show "\<exists>hi'. hashid_remove hi x = Inr (case hashid_ids hi x of None \<Rightarrow> - 1 | Some i \<Rightarrow> int i, hi') \<and> hashid_ok hi' \<and>
      hashid_ids hi' = (hashid_ids hi)(x := None)"
    using hashid.remove_ids [OF assms(1), of x] assms(2) by (fastforce simp: hashid_fits_def)
  assume "hashid_ids hi x = None \<and> \<not> hashid_full hi"
  then obtain i hi' where *: "hashid_insert hi x = Inr (int i, hi')" "\<forall>y. hashid_ids hi y \<noteq> Some i" "hashid_ok hi'"
    "length (hi_id hi') = length (hi_id hi)" "hashid_ids hi' = (hashid_ids hi)(x \<mapsto> i)"
    using hashid.insert_ids assms by blast
  moreover have "i < length (hi_id hi)" using hashid.slots [OF *(3), of x i] *(4,5) by simp
  ultimately show "\<exists>i hi'. hashid_insert hi x = Inr (int i, hi') \<and> i < length (hi_id hi) \<and> i \<notin> ran (hashid_ids hi) \<and> hashid_ok hi' \<and>
        hashid_ids hi' = (hashid_ids hi)(x \<mapsto> i)"
    by (auto simp: ran_def)
qed

definition one_id :: hashid where
  "one_id = \<lparr>hi_hashmod = 1, hi_cap = 2, hi_count = 1, hi_id = [empty_node, \<lparr>hn_id = 5, hn_next = None\<rparr>], hi_hash = [None, Some 1]\<rparr>"

lemma one_id_ok: "hashid_ok one_id"
proof -
  have u: "used one_id i \<longleftrightarrow> i = 1" for i by (auto simp: used_def one_id_def empty_node_def less_Suc_eq)
  have "chains one_id (\<lambda>h. if h = 1 then [1] else [])"
    by (auto simp: chains_def u less_Suc_eq) (auto simp: one_id_def bucket_def less_Suc_eq)
  moreover have "\<exists>k. hi_hashmod one_id = mask k \<and> length (hi_hash one_id) = 2 ^ k" by (rule exI [of _ 1]) (simp add: one_id_def)
  moreover have "hi_cap one_id = int (length (hi_id one_id))" "hi_count one_id = 1" "hi_cap one_id = 2"
    by (simp_all add: one_id_def)
  moreover have "\<forall>i < length (hi_id one_id). \<not> used one_id i \<longrightarrow> hn_next (hi_id one_id ! i) = None"
    by (auto simp: u) (simp add: one_id_def empty_node_def less_Suc_eq)
  moreover have "Collect (used one_id) = {1}" by (auto simp: u)
  ultimately show ?thesis
    unfolding hashid_ok_def using u by auto
qed

theorem hashid_refines_map_witness:
  "hashid_lookup one_id 5 = Inr 1 \<and> (\<exists>hi'. hashid_remove one_id 5 = Inr (1, hi') \<and> hashid_ok hi' \<and> hashid_ids hi' = (hashid_ids one_id)(5 := None))"
proof -
  have "hashid_ids one_id 5 = Some 1" by code_simp
  then show ?thesis using hashid_refines_map [OF one_id_ok, of 5] by (simp add: hashid_fits_def one_id_def)
qed

text \<open>
  Socket ids go up to \<open>2 ^ 31 - 1\<close>, and the scan for a free node adds to them in \<^verbatim>\<open>int\<close>: with three
  slots, the last id finds its first slot taken, the next sum overflows, and the array is
  accessed at a negative index although two slots are free.
\<close>

theorem hashid_insert_overflow:
  "rbind (hashid_init 3) (\<lambda>hi. rbind (hashid_insert hi 1) (\<lambda>(i, hi). hashid_insert hi (2 ^ 31 - 1))) = Inl OutOfBounds"
  by code_simp

end
