(* ===== verification/Databuffer.thy ===== *)
theory Databuffer
  imports Bytes "HOL-Library.Multiset"
begin

text \<open>
  The stream of bytes of one connection (\<^verbatim>\<open>service-src/databuffer.h\<close>): the blocks read from the
  socket, in a list of message nodes that come from a pool shared by all connections. The
  contract of such a stream is the locale \<open>byte_stream\<close>: what is read is what was pushed.
\<close>

section \<open>Interface\<close>

locale byte_stream =
  fixes push :: "'d \<Rightarrow> 'p \<Rightarrow> bytes \<Rightarrow> 'd \<times> 'p"
    and take_out :: "'d \<Rightarrow> 'p \<Rightarrow> int \<Rightarrow> (bytes \<times> 'd \<times> 'p) result"
    and pending :: "'d \<Rightarrow> bytes"
    and invar :: "'d \<Rightarrow> 'p \<Rightarrow> bool"
  assumes push_pending: "invar d p \<Longrightarrow> data \<noteq> [] \<Longrightarrow> invar (fst (push d p data)) (snd (push d p data)) \<and> pending (fst (push d p data)) = pending d @ data"
    and take_out_pending: "invar d p \<Longrightarrow> 0 < n \<Longrightarrow> n \<le> int (length (pending d)) \<Longrightarrow>
      \<exists>d' p'. take_out d p n = Inr (take (nat n) (pending d), d', p') \<and> invar d' p' \<and> pending d' = drop (nat n) (pending d)"
begin

lemma take_out_push:
  assumes "invar d p" "pending d = []" "data \<noteq> []"
  shows "\<exists>d' p'. take_out (fst (push d p data)) (snd (push d p data)) (int (length data)) = Inr (data, d', p') \<and> invar d' p' \<and> pending d' = []"
  using take_out_pending [of "fst (push d p data)" "snd (push d p data)" "int (length data)"] push_pending [OF assms(1,3)] assms(2,3) by auto

end

section \<open>The code\<close>

definition MESSAGEPOOL :: nat where "MESSAGEPOOL = 1023"

text \<open>
  A message node has an address: the block of the pool it lies in and its index there. The list
  of a buffer and the free list of the pool are given by their nodes, first to last; a node that
  is in use has its data with it (\<^verbatim>\<open>buffer\<close> and \<^verbatim>\<open>size\<close>).
\<close>

type_synonym pool_node = "nat \<times> nat"

record message =
  m_node :: pool_node
  m_buffer :: bytes

record databuffer =
  db_header :: int
  db_offset :: int
  db_size :: int
  db_list :: "message list"

text \<open>The number of blocks, each of \<open>MESSAGEPOOL\<close> nodes, and the free nodes.\<close>

record messagepool =
  mp_pool :: nat
  mp_freelist :: "pool_node list"

definition messagepool_free :: "messagepool \<Rightarrow> messagepool" where
  "messagepool_free pool = pool\<lparr>mp_pool := 0, mp_freelist := []\<rparr>"

definition return_message :: "databuffer \<Rightarrow> messagepool \<Rightarrow> (databuffer \<times> messagepool) result" where
  "return_message db mp =
     (case db_list db of
        [] \<Rightarrow> Inl NullDeref
      | m # ms \<Rightarrow> Inr (db\<lparr>db_list := ms\<rparr>, mp\<lparr>mp_freelist := m_node m # mp_freelist mp\<rparr>))"

text \<open>
  The loop of \<^verbatim>\<open>databuffer_read\<close>; the result is what was copied to the caller's buffer. A copy of a
  negative number of bytes is out of bounds.
\<close>

definition copy_out :: "bytes \<Rightarrow> int \<Rightarrow> int \<Rightarrow> bytes result" where
  "copy_out buffer offset n =
     (if offset < 0 \<or> n < 0 \<or> offset + n > int (length buffer) then Inl OutOfBounds
      else Inr (take (nat n) (drop (nat offset) buffer)))"

function read_loop :: "databuffer \<Rightarrow> messagepool \<Rightarrow> int \<Rightarrow> (bytes \<times> databuffer \<times> messagepool) result" where
  "read_loop db mp sz =
     (case db_list db of
        [] \<Rightarrow> Inl NullDeref
      | current # _ \<Rightarrow>
          (let bsz = int (length (m_buffer current)) - db_offset db in
           if bsz > sz then
             rbind (copy_out (m_buffer current) (db_offset db) sz) (\<lambda>out.
             Inr (out, db\<lparr>db_offset := db_offset db + sz\<rparr>, mp))
           else if bsz = sz then
             rbind (copy_out (m_buffer current) (db_offset db) sz) (\<lambda>out.
             rbind (return_message (db\<lparr>db_offset := 0\<rparr>) mp) (\<lambda>(db, mp).
             Inr (out, db, mp)))
           else
             rbind (copy_out (m_buffer current) (db_offset db) bsz) (\<lambda>out.
             rbind (return_message db mp) (\<lambda>(db, mp).
             rbind (read_loop (db\<lparr>db_offset := 0\<rparr>) mp (sz - bsz)) (\<lambda>(out', db, mp).
             Inr (out @ out', db, mp))))))"
  by auto
termination
  by (relation "measure (\<lambda>(db, mp, sz). length (db_list db))") (auto simp: return_message_def)

declare read_loop.simps [simp del]

definition databuffer_read :: "databuffer \<Rightarrow> messagepool \<Rightarrow> int \<Rightarrow> (bytes \<times> databuffer \<times> messagepool) result" where
  "databuffer_read db mp sz =
     rbind (cassert (db_size db \<ge> sz)) (\<lambda>_. read_loop (db\<lparr>db_size := db_size db - sz\<rparr>) mp sz)"

text \<open>A node for new data: from the free list, or the first of a new block whose others become free.\<close>

definition new_message :: "messagepool \<Rightarrow> pool_node \<times> messagepool" where
  "new_message mp =
     (case mp_freelist mp of
        n # ns \<Rightarrow> (n, mp\<lparr>mp_freelist := ns\<rparr>)
      | [] \<Rightarrow> ((mp_pool mp, 0), mp\<lparr>mp_pool := mp_pool mp + 1, mp_freelist := map (Pair (mp_pool mp)) [1..<MESSAGEPOOL]\<rparr>))"

definition databuffer_push :: "databuffer \<Rightarrow> messagepool \<Rightarrow> bytes \<Rightarrow> databuffer \<times> messagepool" where
  "databuffer_push db mp data =
     (let (n, mp) = new_message mp
      in (db\<lparr>db_size := db_size db + int (length data), db_list := db_list db @ [\<lparr>m_node = n, m_buffer = data\<rparr>]\<rparr>, mp))"

text \<open>\<^verbatim>\<open>plen[0] << 24 | ...\<close> is an \<^verbatim>\<open>int\<close>.\<close>

definition header_value :: "int \<Rightarrow> bytes \<Rightarrow> int" where
  "header_value header_size plen =
     (if header_size = 2 then be_val plen else signed_take_bit 31 (be_val plen))"

definition databuffer_readheader :: "databuffer \<Rightarrow> messagepool \<Rightarrow> int \<Rightarrow> (int \<times> databuffer \<times> messagepool) result" where
  "databuffer_readheader db mp header_size =
     (let check = (\<lambda>(db, mp). if db_size db < db_header db then (- 1, db, mp) else (db_header db, db, mp)) in
      if db_header db = 0 then
        if db_size db < header_size then Inr (- 1, db, mp)
        else
          rbind (databuffer_read db mp header_size) (\<lambda>(plen, db, mp).
          Inr (check (db\<lparr>db_header := header_value header_size plen\<rparr>, mp)))
      else Inr (check (db, mp)))"

definition databuffer_reset :: "databuffer \<Rightarrow> databuffer" where
  "databuffer_reset db = db\<lparr>db_header := 0\<rparr>"

fun clear_loop :: "message list \<Rightarrow> messagepool \<Rightarrow> messagepool" where
  "clear_loop [] mp = mp"
| "clear_loop (m # ms) mp = clear_loop ms (mp\<lparr>mp_freelist := m_node m # mp_freelist mp\<rparr>)"

definition empty_buffer :: databuffer where
  "empty_buffer = \<lparr>db_header = 0, db_offset = 0, db_size = 0, db_list = []\<rparr>"

definition databuffer_clear :: "databuffer \<Rightarrow> messagepool \<Rightarrow> databuffer \<times> messagepool" where
  "databuffer_clear db mp = (empty_buffer, clear_loop (db_list db) mp)"

section \<open>The stream\<close>

definition db_bytes :: "databuffer \<Rightarrow> bytes" where
  "db_bytes db = drop (nat (db_offset db)) (concat (map m_buffer (db_list db)))"

definition db_nodes :: "databuffer \<Rightarrow> pool_node list" where
  "db_nodes db = map m_node (db_list db)"

text \<open>
  Blocks are not empty, the offset lies inside the first of them, and the size is that of the
  pending bytes.
\<close>

definition db_ok :: "databuffer \<Rightarrow> bool" where
  "db_ok db \<longleftrightarrow>
     (\<forall>m \<in> set (db_list db). m_buffer m \<noteq> []) \<and> 0 \<le> db_offset db \<and>
     (case db_list db of [] \<Rightarrow> db_offset db = 0 | m # _ \<Rightarrow> db_offset db < int (length (m_buffer m))) \<and>
     db_size db = int (length (db_bytes db))"

text \<open>
  The nodes of the blocks allocated so far are the nodes in use, given as the multiset \<open>M\<close>, and the
  free ones, each exactly once: none is used twice, used while free, or lost.
\<close>

definition pool_ok :: "pool_node multiset \<Rightarrow> messagepool \<Rightarrow> bool" where
  "pool_ok M mp \<longleftrightarrow>
     (\<forall>n. count (M + mset (mp_freelist mp)) n = (if fst n < mp_pool mp \<and> snd n < MESSAGEPOOL then 1 else 0))"

lemma empty_buffer_ok [simp]: "db_ok empty_buffer" "db_bytes empty_buffer = []" "db_nodes empty_buffer = []"
  by (simp_all add: db_ok_def db_bytes_def db_nodes_def empty_buffer_def)

lemma pool_ok_cong: "M + mset (mp_freelist mp) = M' + mset (mp_freelist mp') \<Longrightarrow> mp_pool mp' = mp_pool mp \<Longrightarrow> pool_ok M mp = pool_ok M' mp'"
  by (simp add: pool_ok_def)

lemma count_new_block:
  "count (mset (map (Pair p) [1..<MESSAGEPOOL])) n = (if fst n = p \<and> 1 \<le> snd n \<and> snd n < MESSAGEPOOL then 1 else 0)"
proof -
  have "count (mset (map (Pair p) [1..<MESSAGEPOOL])) n = (if n \<in> set (map (Pair p) [1..<MESSAGEPOOL]) then 1 else 0)"
    using distinct_count_atmost_1 [of "map (Pair p) [1..<MESSAGEPOOL]"]
    by (cases n) (auto simp: distinct_map inj_on_def simp del: mset_map)
  then show ?thesis by (cases n) auto
qed

lemma new_message_pool:
  assumes "pool_ok M mp"
  shows "pool_ok (add_mset (fst (new_message mp)) M) (snd (new_message mp))"
proof (cases "mp_freelist mp")
  case (Cons n ns)
  then show ?thesis using assms by (simp add: new_message_def pool_ok_def)
next
  case Nil
  have "0 < MESSAGEPOOL" by (simp add: MESSAGEPOOL_def)
  then show ?thesis using assms Nil
    by (auto simp: pool_ok_def new_message_def count_new_block [unfolded One_nat_def] less_Suc_eq simp del: mset_map)
qed

lemma db_push_ok:
  assumes "db_ok db" "data \<noteq> []"
  shows "db_ok (fst (databuffer_push db mp data))" "db_bytes (fst (databuffer_push db mp data)) = db_bytes db @ data"
proof -
  have off: "nat (db_offset db) \<le> length (concat (map m_buffer (db_list db)))"
    using assms(1) by (cases "db_list db") (auto simp: db_ok_def)
  then show bytes: "db_bytes (fst (databuffer_push db mp data)) = db_bytes db @ data"
    by (simp add: databuffer_push_def db_bytes_def split_beta)
  show "db_ok (fst (databuffer_push db mp data))"
    using assms bytes unfolding db_ok_def by (cases "db_list db") (auto simp: databuffer_push_def split_beta)
qed

lemma push_pool:
  assumes "pool_ok (M + mset (db_nodes db)) mp"
  shows "pool_ok (M + mset (db_nodes (fst (databuffer_push db mp data)))) (snd (databuffer_push db mp data))"
  using new_message_pool [OF assms] by (simp add: databuffer_push_def db_nodes_def split_beta)

lemma push_header [simp]: "db_header (fst (databuffer_push db mp data)) = db_header db"
  by (simp add: databuffer_push_def split_beta)

text \<open>One pass over the loop of the read, on a buffer whose size was already reduced.\<close>

lemma read_loop_ok:
  assumes "\<forall>m \<in> set (db_list db). m_buffer m \<noteq> []" "0 \<le> db_offset db"
    "case db_list db of [] \<Rightarrow> db_offset db = 0 | m # _ \<Rightarrow> db_offset db < int (length (m_buffer m))"
    "0 < sz" "sz \<le> int (length (db_bytes db))" "db_size db = int (length (db_bytes db)) - sz"
  shows "\<exists>db' mp'. read_loop db mp sz = Inr (take (nat sz) (db_bytes db), db', mp') \<and> db_ok db' \<and>
    db_bytes db' = drop (nat sz) (db_bytes db) \<and> db_header db' = db_header db \<and>
    mset (db_nodes db') + mset (mp_freelist mp') = mset (db_nodes db) + mset (mp_freelist mp) \<and> mp_pool mp' = mp_pool mp"
  using assms
proof (induction "length (db_list db)" arbitrary: db mp sz rule: less_induct)
  case less
  note 1 = less.prems
  obtain m ms where l: "db_list db = m # ms" using 1 by (cases "db_list db") (auto simp: db_bytes_def)
  define rest where "rest = concat (map m_buffer ms)"
  define k where "k = nat (db_offset db)"
  have k: "db_offset db = int k" "k < length (m_buffer m)" using 1 l by (auto simp: k_def)
  have bytes: "db_bytes db = drop k (m_buffer m) @ rest" using k by (simp add: db_bytes_def l rest_def)
  show ?case
  proof (cases "sz < int (length (m_buffer m)) - int k")
    case True
    then show ?thesis using 1 l k bytes
      by (subst read_loop.simps)
        (auto simp: copy_out_def db_ok_def db_bytes_def db_nodes_def rest_def nat_add_distrib add.commute)
  next
    case big: False
    show ?thesis
    proof (cases "int (length (m_buffer m)) - int k = sz")
      case True
      have "\<forall>x \<in> set ms. m_buffer x \<noteq> []" using 1 l by simp
      then have "case ms of [] \<Rightarrow> True | x # _ \<Rightarrow> 0 < int (length (m_buffer x))" by (cases ms) auto
      moreover have "nat sz = length (m_buffer m) - k" using True by auto
      ultimately show ?thesis using 1 l k bytes True
        by (subst read_loop.simps)
          (auto simp: copy_out_def db_ok_def db_bytes_def db_nodes_def rest_def return_message_def split: list.splits)
    next
      case False
      define db1 where "db1 = db\<lparr>db_list := ms, db_offset := 0\<rparr>"
      define mp1 where "mp1 = mp\<lparr>mp_freelist := m_node m # mp_freelist mp\<rparr>"
      define sz1 where "sz1 = sz - (int (length (m_buffer m)) - int k)"
      have b1: "db_bytes db1 = rest" by (simp add: db1_def db_bytes_def rest_def)
      have out: "copy_out (m_buffer m) (int k) (int (length (m_buffer m)) - int k) = Inr (drop k (m_buffer m))"
        using k by (auto simp: copy_out_def nat_diff_distrib)
      have step: "read_loop db mp sz = rbind (read_loop db1 mp1 sz1) (\<lambda>(out', db, mp). Inr (drop k (m_buffer m) @ out', db, mp))"
        using l k big False out by (subst read_loop.simps) (simp add: return_message_def db1_def mp1_def sz1_def)
      have "\<exists>db' mp'. read_loop db1 mp1 sz1 = Inr (take (nat sz1) (db_bytes db1), db', mp') \<and> db_ok db' \<and>
        db_bytes db' = drop (nat sz1) (db_bytes db1) \<and> db_header db' = db_header db1 \<and>
        mset (db_nodes db') + mset (mp_freelist mp') = mset (db_nodes db1) + mset (mp_freelist mp1) \<and> mp_pool mp' = mp_pool mp1"
      proof (rule less.hyps)
        have ne: "\<forall>x \<in> set ms. m_buffer x \<noteq> []" using 1 l by simp
        then show "\<forall>m \<in> set (db_list db1). m_buffer m \<noteq> []" by (simp add: db1_def)
        show "case db_list db1 of [] \<Rightarrow> db_offset db1 = 0 | m # _ \<Rightarrow> db_offset db1 < int (length (m_buffer m))"
          using ne by (cases ms) (simp_all add: db1_def)
      qed (use 1 l k bytes b1 big False in \<open>auto simp: db1_def sz1_def\<close>)
      moreover have "nat sz = length (m_buffer m) - k + nat sz1" using big k by (simp add: sz1_def)
      ultimately show ?thesis using bytes b1 l step
        by (auto simp: db1_def mp1_def db_nodes_def)
    qed
  qed
qed

lemma read_ok:
  assumes "db_ok db" "0 < sz" "sz \<le> int (length (db_bytes db))"
  shows "\<exists>db' mp'. databuffer_read db mp sz = Inr (take (nat sz) (db_bytes db), db', mp') \<and> db_ok db' \<and>
    db_bytes db' = drop (nat sz) (db_bytes db) \<and> db_header db' = db_header db \<and>
    mset (db_nodes db') + mset (mp_freelist mp') = mset (db_nodes db) + mset (mp_freelist mp) \<and> mp_pool mp' = mp_pool mp"
proof -
  have "db_bytes (db\<lparr>db_size := n\<rparr>) = db_bytes db" "db_nodes (db\<lparr>db_size := n\<rparr>) = db_nodes db" for n
    by (simp_all add: db_bytes_def db_nodes_def)
  then show ?thesis
    using read_loop_ok [of "db\<lparr>db_size := db_size db - sz\<rparr>" sz mp] assms
    by (cases "db_list db") (simp_all add: db_ok_def databuffer_read_def)
qed

lemma clear_pool:
  assumes "pool_ok (M + mset (db_nodes db)) mp"
  shows "pool_ok M (snd (databuffer_clear db mp))"
proof -
  have "mset (mp_freelist (clear_loop ms mp)) = mset (map m_node ms) + mset (mp_freelist mp) \<and> mp_pool (clear_loop ms mp) = mp_pool mp" for ms mp
    by (induction ms arbitrary: mp) auto
  then show ?thesis using assms
    by (simp add: databuffer_clear_def db_nodes_def pool_ok_cong [of M "clear_loop (db_list db) mp" "M + mset (map m_node (db_list db))" mp])
qed

definition stream_ok :: "pool_node multiset \<Rightarrow> databuffer \<Rightarrow> messagepool \<Rightarrow> bool" where
  "stream_ok M db mp \<longleftrightarrow> db_ok db \<and> pool_ok (M + mset (db_nodes db)) mp"

text \<open>Whatever the other buffers of the pool hold, \<open>M\<close>, the buffer is a stream of bytes.\<close>

interpretation databuffer: byte_stream databuffer_push databuffer_read db_bytes "stream_ok M" for M
proof
  show "stream_ok M (fst (databuffer_push d p data)) (snd (databuffer_push d p data)) \<and> db_bytes (fst (databuffer_push d p data)) = db_bytes d @ data"
    if "stream_ok M d p" "data \<noteq> []" for d p data
    using that db_push_ok push_pool by (simp add: stream_ok_def)
  show "\<exists>d' p'. databuffer_read d p n = Inr (take (nat n) (db_bytes d), d', p') \<and> stream_ok M d' p' \<and> db_bytes d' = drop (nat n) (db_bytes d)"
    if "stream_ok M d p" "0 < n" "n \<le> int (length (db_bytes d))" for d p n
  proof -
    from that obtain d' p' where "databuffer_read d p n = Inr (take (nat n) (db_bytes d), d', p')" "db_ok d'" "db_bytes d' = drop (nat n) (db_bytes d)"
      "mset (db_nodes d') + mset (mp_freelist p') = mset (db_nodes d) + mset (mp_freelist p)" "mp_pool p' = mp_pool p"
      using read_ok [of d n p] by (auto simp: stream_ok_def)
    moreover from this that(1) have "pool_ok (M + mset (db_nodes d')) p'"
      using pool_ok_cong [of "M + mset (db_nodes d)" p "M + mset (db_nodes d')" p'] by (simp add: stream_ok_def add.assoc)
    ultimately show ?thesis by (simp add: stream_ok_def)
  qed
qed

end
