(* ===== verification/Gate.thy ===== *)
theory Gate
  imports Hashid Databuffer Command
begin

text \<open>
  The gate service (\<^verbatim>\<open>service-src/service_gate.c\<close>): it accepts connections, cuts the bytes of each
  connection into packets with a length in front, and forwards the packets to an agent, a broker or
  a watchdog. It runs inside a node, so its state here is the gate, the node it sends and logs
  through, and the requests it made to the socket server.
\<close>

section \<open>State\<close>

definition BACKLOG :: int where "BACKLOG = 128"

record connection =
  cn_id :: int
  cn_agent :: u32
  cn_client :: u32
  cn_remote_name :: cstr
  cn_buffer :: databuffer

text \<open>\<^verbatim>\<open>client_tag\<close> is an \<^verbatim>\<open>int\<close> used for its bits.\<close>

record gate =
  ga_ctx :: "ctxref option"
  ga_listen_id :: int
  ga_watchdog :: u32
  ga_broker :: u32
  ga_client_tag :: u32
  ga_header_size :: int
  ga_max_connection :: int
  ga_hash :: hashid
  ga_conn :: "connection list"
  ga_mp :: messagepool

datatype socket_request =
    Socket_listen cstr int int
  | Socket_start int
  | Socket_close int
  | Socket_send int bytes

record gate_state =
  gs_gate :: gate
  gs_node :: node
  gs_out :: "socket_request list"

text \<open>
  What the socket server reports: \<^verbatim>\<open>struct skynet_socket_message\<close> by its type, with \<^verbatim>\<open>id\<close>, \<^verbatim>\<open>ud\<close>, the
  buffer of a data message and the text behind the structure of an accepted connection.
\<close>

datatype socket_message =
    Socket_DATA int bytes
  | Socket_CONNECT int
  | Socket_CLOSE int
  | Socket_ERROR int
  | Socket_ACCEPT int int cstr
  | Socket_WARNING int int
  | Socket_UDP int

datatype gate_message = Text bytes | Client bytes | Socket socket_message | Other

definition fresh_connection :: connection where
  "fresh_connection = \<lparr>cn_id = - 1, cn_agent = 0, cn_client = 0, cn_remote_name = [], cn_buffer = empty_buffer\<rparr>"

definition gate_create :: gate where
  "gate_create =
     \<lparr>ga_ctx = None, ga_listen_id = - 1, ga_watchdog = 0, ga_broker = 0, ga_client_tag = 0, ga_header_size = 0,
      ga_max_connection = 0, ga_hash = \<lparr>hi_hashmod = 0, hi_cap = 0, hi_count = 0, hi_id = [], hi_hash = []\<rparr>,
      ga_conn = [], ga_mp = \<lparr>mp_pool = 0, mp_freelist = []\<rparr>\<rparr>"

section \<open>What the gate does to its surroundings\<close>

definition request :: "socket_request \<Rightarrow> gate_state \<Rightarrow> gate_state" where
  "request r S = S\<lparr>gs_out := gs_out S @ [r]\<rparr>"

definition gate_error :: "world \<Rightarrow> cstr \<Rightarrow> gate_state \<Rightarrow> gate_state result" where
  "gate_error W s S = rbind (skynet_error W (ga_ctx (gs_gate S)) s (gs_node S)) (\<lambda>n. Inr (S\<lparr>gs_node := n\<rparr>))"

definition gate_send :: "world \<Rightarrow> u32 \<Rightarrow> u32 \<Rightarrow> nat \<Rightarrow> int \<Rightarrow> bytes \<Rightarrow> int \<Rightarrow> gate_state \<Rightarrow> gate_state result" where
  "gate_send W source destination type session data sz S =
     rbind (skynet_send W (ga_ctx (gs_gate S)) source destination type session (Some data) (of_int sz) (gs_node S)) (\<lambda>(_, n).
     Inr (S\<lparr>gs_node := n\<rparr>))"

definition gate_lookup :: "int \<Rightarrow> gate_state \<Rightarrow> int result" where
  "gate_lookup fd S = hashid_lookup (ga_hash (gs_gate S)) fd"

text \<open>\<^verbatim>\<open>&g->conn[i]\<close> and writing through it\<close>

definition conn_at :: "int \<Rightarrow> gate_state \<Rightarrow> connection result" where
  "conn_at i S =
     (if 0 \<le> i \<and> i < int (length (ga_conn (gs_gate S))) then Inr (ga_conn (gs_gate S) ! nat i) else Inl OutOfBounds)"

definition conn_put :: "int \<Rightarrow> connection \<Rightarrow> gate_state \<Rightarrow> gate_state" where
  "conn_put i c S = S\<lparr>gs_gate := (gs_gate S)\<lparr>ga_conn := (ga_conn (gs_gate S))[nat i := c]\<rparr>\<rparr>"

definition buffer_put :: "int \<Rightarrow> connection \<Rightarrow> databuffer \<times> messagepool \<Rightarrow> gate_state \<Rightarrow> gate_state" where
  "buffer_put i c = (\<lambda>(db, mp) S. (conn_put i (c\<lparr>cn_buffer := db\<rparr>) S)\<lparr>gs_gate := (gs_gate (conn_put i (c\<lparr>cn_buffer := db\<rparr>) S))\<lparr>ga_mp := mp\<rparr>\<rparr>)"

text \<open>\<^verbatim>\<open>gate_release\<close> closes what is open and gives the pool back; the data in the buffers are not freed.\<close>

definition gate_release :: "gate_state \<Rightarrow> gate_state" where
  "gate_release S =
     (let g = gs_gate S;
          conns = filter (\<lambda>c. cn_id c \<ge> 0) (take (nat (ga_max_connection g)) (ga_conn g));
          out = map (Socket_close \<circ> cn_id) conns @ (if ga_listen_id g \<ge> 0 then [Socket_close (ga_listen_id g)] else [])
      in S\<lparr>gs_gate := g\<lparr>ga_mp := messagepool_free (ga_mp g), ga_hash := hashid_clear (ga_hash g), ga_conn := []\<rparr>,
           gs_out := gs_out S @ out\<rparr>)"

section \<open>Text commands\<close>

text \<open>
  \<^verbatim>\<open>_parm\<close> moves what follows the command and the blanks behind it to the front of the buffer and ends
  it with a NUL; what was behind stays there.
\<close>

definition gate_parm :: "cstr \<Rightarrow> nat \<Rightarrow> cstr" where
  "gate_parm msg command_sz =
     (let a = dropWhile (\<lambda>c. c = CHR '' '') (drop command_sz msg)
      in a @ [CHR 0x00] @ drop (length a + 1) (msg @ [CHR 0x00]))"

definition forward_agent :: "int \<Rightarrow> u32 \<Rightarrow> u32 \<Rightarrow> gate_state \<Rightarrow> gate_state result" where
  "forward_agent fd agentaddr clientaddr S =
     rbind (gate_lookup fd S) (\<lambda>i.
     if i \<ge> 0 then
       rbind (conn_at i S) (\<lambda>c. Inr (conn_put i (c\<lparr>cn_agent := agentaddr, cn_client := clientaddr\<rparr>) S))
     else Inr S)"

text \<open>
  The arguments of \<^verbatim>\<open>forward\<close>: \<^verbatim>\<open>agent + 1\<close> of an empty string is the string behind it, \<^verbatim>\<open>client + 1\<close> of an
  empty one what is left in the buffer.
\<close>

definition forward_args :: "cstr \<Rightarrow> (int \<times> u32 \<times> u32) option" where
  "forward_args buf =
     (case strsep '' '' (c_string buf) of
        (idstr, None) \<Rightarrow> None
      | (idstr, Some client) \<Rightarrow>
          (case strsep '' '' client of
             (agent, None) \<Rightarrow> None
           | (agent, Some client) \<Rightarrow>
               (let agent1 = (if agent = [] then client else drop 1 agent);
                    client1 = (if client = [] then c_string (drop (length idstr + 1 + length agent + 1 + 1) buf) else drop 1 client)
                in Some (signed_take_bit 31 (strtol 10 idstr), ucast (strtoul 16 agent1), ucast (strtoul 16 client1)))))"

definition ctrl_kick :: "cstr \<Rightarrow> gate_state \<Rightarrow> gate_state result" where
  "ctrl_kick buf S =
     (let uid = signed_take_bit 31 (strtol 10 (c_string buf)) in
      rbind (gate_lookup uid S) (\<lambda>i. Inr (if i \<ge> 0 then request (Socket_close uid) S else S)))"

definition ctrl_start :: "cstr \<Rightarrow> gate_state \<Rightarrow> gate_state result" where
  "ctrl_start buf S =
     (let uid = signed_take_bit 31 (strtol 10 (c_string buf)) in
      rbind (gate_lookup uid S) (\<lambda>i. Inr (if i \<ge> 0 then request (Socket_start uid) S else S)))"

definition ctrl_broker :: "world \<Rightarrow> cstr \<Rightarrow> gate_state \<Rightarrow> gate_state result" where
  "ctrl_broker W buf S =
     rbind (skynet_queryname W (ga_ctx (gs_gate S)) (c_string buf) (gs_node S)) (\<lambda>(h, n).
     Inr (S\<lparr>gs_gate := (gs_gate S)\<lparr>ga_broker := h\<rparr>, gs_node := n\<rparr>))"

definition ctrl_close :: "gate_state \<Rightarrow> gate_state" where
  "ctrl_close S =
     (if ga_listen_id (gs_gate S) \<ge> 0 then
        (request (Socket_close (ga_listen_id (gs_gate S))) S)\<lparr>gs_gate := (gs_gate S)\<lparr>ga_listen_id := - 1\<rparr>\<rparr>
      else S)"

definition gate_ctrl :: "world \<Rightarrow> cstr \<Rightarrow> gate_state \<Rightarrow> gate_state result" where
  "gate_ctrl W msg S =
     (let i = length (takeWhile (\<lambda>c. c \<noteq> CHR '' '') msg); tmp = msg @ [CHR 0x00]; buf = gate_parm msg i in
      if msg = [] then Inr S
      else
        rbind (memcmp_lit tmp ''kick'' i) (\<lambda>b. if b then ctrl_kick buf S else
        rbind (memcmp_lit tmp ''forward'' i) (\<lambda>b. if b then
          (case forward_args buf of None \<Rightarrow> Inr S | Some (fd, agent, client) \<Rightarrow> forward_agent fd agent client S) else
        rbind (memcmp_lit tmp ''broker'' i) (\<lambda>b. if b then ctrl_broker W buf S else
        rbind (memcmp_lit tmp ''start'' i) (\<lambda>b. if b then ctrl_start buf S else
        rbind (memcmp_lit tmp ''close'' i) (\<lambda>b. if b then Inr (ctrl_close S) else
        gate_error W (''[gate] Unkown command : '' @ c_string msg) S))))))"

section \<open>Packets\<close>

text \<open>\<^verbatim>\<open>vsnprintf\<close> into 1024 bytes; the size sent is that of the whole text.\<close>

definition report :: "world \<Rightarrow> cstr \<Rightarrow> gate_state \<Rightarrow> gate_state result" where
  "report W s S =
     (if ga_watchdog (gs_gate S) = 0 then Inr S
      else gate_send W 0 (ga_watchdog (gs_gate S)) PTYPE_TEXT 0 (take 1023 (c_bytes s) @ [0]) (int (length s)) S)"

text \<open>A packet goes to the broker, else to the agent of the connection, else with its socket id in front to the watchdog.\<close>

definition forward_packet :: "world \<Rightarrow> int \<Rightarrow> int \<Rightarrow> gate_state \<Rightarrow> gate_state result" where
  "forward_packet W i psize S =
     rbind (conn_at i S) (\<lambda>c.
     let g = gs_gate S; fd = cn_id c; tag = unat (ga_client_tag g OR of_nat PTYPE_TAG_DONTCOPY) in
     if fd \<le> 0 then Inr S
     else if ga_broker g \<noteq> 0 then
       rbind (databuffer_read (cn_buffer c) (ga_mp g) psize) (\<lambda>(temp, dbmp).
       gate_send W 0 (ga_broker g) tag fd temp psize (buffer_put i c dbmp S))
     else if cn_agent c \<noteq> 0 then
       rbind (databuffer_read (cn_buffer c) (ga_mp g) psize) (\<lambda>(temp, dbmp).
       gate_send W (cn_client c) (cn_agent c) tag fd temp psize (buffer_put i c dbmp S))
     else if ga_watchdog g \<noteq> 0 then
       rbind (sprintf 32 (show_int (cn_id c) @ '' data '')) (\<lambda>_.
       rbind (databuffer_read (cn_buffer c) (ga_mp g) psize) (\<lambda>(temp, dbmp).
       let n = length (show_int (cn_id c) @ '' data '') in
       gate_send W 0 (ga_watchdog g) (PTYPE_TEXT OR PTYPE_TAG_DONTCOPY) fd (c_bytes (show_int (cn_id c) @ '' data '') @ temp) (psize + int n)
         (buffer_put i c dbmp S)))
     else Inr S)"

text \<open>The loop over the packets that are complete; each turn but the first reads a header.\<close>

fun packet_loop :: "world \<Rightarrow> nat \<Rightarrow> int \<Rightarrow> int \<Rightarrow> gate_state \<Rightarrow> gate_state result" where
  "packet_loop W 0 i fd S = Inl Diverges"
| "packet_loop W (Suc fuel) i fd S =
     rbind (conn_at i S) (\<lambda>c.
     rbind (databuffer_readheader (cn_buffer c) (ga_mp (gs_gate S)) (ga_header_size (gs_gate S))) (\<lambda>(psize, db, mp).
     let S = buffer_put i c (db, mp) S in
     if psize < 0 then Inr S
     else if psize > 0 then
       if psize \<ge> 0x1000000 then
         gate_error W ''Recv socket message > 16M'' (request (Socket_close fd) (buffer_put i c (databuffer_clear db mp) S))
       else
         rbind (forward_packet W i psize S) (\<lambda>S.
         rbind (conn_at i S) (\<lambda>c.
         packet_loop W fuel i fd (conn_put i (c\<lparr>cn_buffer := databuffer_reset (cn_buffer c)\<rparr>) S)))
     else packet_loop W fuel i fd S))"

definition gate_dispatch_message :: "world \<Rightarrow> int \<Rightarrow> int \<Rightarrow> bytes \<Rightarrow> gate_state \<Rightarrow> gate_state result" where
  "gate_dispatch_message W i fd data S =
     rbind (conn_at i S) (\<lambda>c.
     let dbmp = databuffer_push (cn_buffer c) (ga_mp (gs_gate S)) data in
     packet_loop W (nat (db_size (fst dbmp)) + 2) i fd (buffer_put i c dbmp S))"

section \<open>Messages\<close>

text \<open>An accepted connection; \<^verbatim>\<open>remote_name\<close> has 32 bytes.\<close>

definition accept_connection :: "world \<Rightarrow> int \<Rightarrow> cstr \<Rightarrow> gate_state \<Rightarrow> gate_state result" where
  "accept_connection W fd name S =
     rbind (hashid_insert (ga_hash (gs_gate S)) fd) (\<lambda>(i, hash).
     let S = S\<lparr>gs_gate := (gs_gate S)\<lparr>ga_hash := hash\<rparr>\<rparr> in
     rbind (conn_at i S) (\<lambda>c.
     let c = c\<lparr>cn_id := fd, cn_remote_name := take 31 name\<rparr> in
     rbind (report W (show_int fd @ '' open '' @ show_int fd @ '' '' @ c_string (cn_remote_name c) @ '':0'') (conn_put i c S)) (\<lambda>S.
     gate_error W (''socket open: '' @ fmt_x (of_int fd)) S)))"

definition close_connection :: "world \<Rightarrow> int \<Rightarrow> gate_state \<Rightarrow> gate_state result" where
  "close_connection W fd S =
     rbind (hashid_remove (ga_hash (gs_gate S)) fd) (\<lambda>(i, hash).
     let S = S\<lparr>gs_gate := (gs_gate S)\<lparr>ga_hash := hash\<rparr>\<rparr> in
     if i \<ge> 0 then
       rbind (conn_at i S) (\<lambda>c.
       let mp = snd (databuffer_clear (cn_buffer c) (ga_mp (gs_gate S))) in
       report W (show_int fd @ '' close'') (buffer_put i fresh_connection (empty_buffer, mp) S))
     else Inr S)"

fun dispatch_socket_message :: "world \<Rightarrow> socket_message \<Rightarrow> gate_state \<Rightarrow> gate_state result" where
  "dispatch_socket_message W (Socket_DATA fd data) S =
     rbind (gate_lookup fd S) (\<lambda>i.
     if i \<ge> 0 then gate_dispatch_message W i fd data S
     else
       rbind (gate_error W (''Drop unknown connection '' @ show_int fd @ '' message'') S) (\<lambda>S.
       Inr (request (Socket_close fd) S)))"
| "dispatch_socket_message W (Socket_CONNECT fd) S =
     (if fd = ga_listen_id (gs_gate S) then Inr S
      else
        rbind (gate_lookup fd S) (\<lambda>i.
        if i < 0 then
          rbind (gate_error W (''Close unknown connection '' @ show_int fd) S) (\<lambda>S. Inr (request (Socket_close fd) S))
        else Inr S))"
| "dispatch_socket_message W (Socket_CLOSE fd) S = close_connection W fd S"
| "dispatch_socket_message W (Socket_ERROR fd) S = close_connection W fd S"
| "dispatch_socket_message W (Socket_ACCEPT listen_id fd name) S =
     rbind (cassert (ga_listen_id (gs_gate S) = listen_id)) (\<lambda>_.
     if hashid_full (ga_hash (gs_gate S)) then Inr (request (Socket_close fd) S)
     else accept_connection W fd name S)"
| "dispatch_socket_message W (Socket_WARNING fd ud) S =
     gate_error W (''fd ('' @ show_int fd @ '') send buffer ('' @ show_int ud @ '')K'') S"
| "dispatch_socket_message W (Socket_UDP fd) S = Inr S"

text \<open>
  \<^verbatim>\<open>_cb\<close>: the result says whether the message was given away. The last four bytes of a client message
  are the socket it is for.
\<close>

definition client_uid :: "bytes \<Rightarrow> u32" where
  "client_uid idbuf =
     ucast (idbuf ! 0) OR push_bit 8 (ucast (idbuf ! 1)) OR push_bit 16 (ucast (idbuf ! 2)) OR push_bit 24 (ucast (idbuf ! 3))"

definition gate_client :: "world \<Rightarrow> u32 \<Rightarrow> bytes \<Rightarrow> gate_state \<Rightarrow> (bool \<times> gate_state) result" where
  "gate_client W source msg S =
     (if length msg \<le> 4 then
        rbind (gate_error W (''Invalid client message from '' @ fmt_x source) S) (\<lambda>S. Inr (False, S))
      else
        (let uid = sint (client_uid (drop (length msg - 4) msg)) in
         rbind (gate_lookup uid S) (\<lambda>i.
         if i \<ge> 0 then Inr (True, request (Socket_send uid (take (length msg - 4) msg)) S)
         else
           rbind (gate_error W (''Invalid client id '' @ show_int uid @ '' from '' @ fmt_x source) S) (\<lambda>S. Inr (False, S)))))"

fun gate_cb :: "world \<Rightarrow> u32 \<Rightarrow> gate_message \<Rightarrow> gate_state \<Rightarrow> (bool \<times> gate_state) result" where
  "gate_cb W source (Text msg) S = rbind (gate_ctrl W (map (\<lambda>b. char_of (unat b)) msg) S) (\<lambda>S. Inr (False, S))"
| "gate_cb W source (Client msg) S = gate_client W source msg S"
| "gate_cb W source (Socket msg) S = rbind (dispatch_socket_message W msg S) (\<lambda>S. Inr (False, S))"
| "gate_cb W source Other S = Inr (False, S)"

section \<open>Start\<close>

text \<open>\<open>listen\<close> is the id that \<^verbatim>\<open>skynet_socket_listen\<close> gives for a host, a port and a backlog. The port is behind the last colon.\<close>

definition split_port :: "cstr \<Rightarrow> cstr \<times> cstr" where
  "split_port a =
     (if CHR '':'' \<in> set a then
        (rev (drop 1 (dropWhile (\<lambda>c. c \<noteq> CHR '':'') (rev a))), rev (takeWhile (\<lambda>c. c \<noteq> CHR '':'') (rev a)))
      else ([], a))"

definition start_listen :: "world \<Rightarrow> (cstr \<Rightarrow> int \<Rightarrow> int \<Rightarrow> int) \<Rightarrow> cstr \<Rightarrow> gate_state \<Rightarrow> (int \<times> gate_state) result" where
  "start_listen W listen listen_addr S =
     (let (host, portstr) = split_port listen_addr; port = signed_take_bit 31 (strtol 10 portstr) in
      if port \<le> 0 then rbind (gate_error W (''Invalid gate address '' @ listen_addr) S) (\<lambda>S. Inr (1, S))
      else
        (let listen_id = listen host port BACKLOG;
             S = (request (Socket_listen host port BACKLOG) S)\<lparr>gs_gate := (gs_gate S)\<lparr>ga_listen_id := listen_id\<rparr>\<rparr> in
         if listen_id < 0 then Inr (1, S) else Inr (0, request (Socket_start listen_id) S)))"

text \<open>\<^verbatim>\<open>%d\<close> of \<^verbatim>\<open>sscanf\<close>: the number and the rest, if there is a number.\<close>

definition scan_int :: "cstr \<Rightarrow> (int \<times> cstr) option" where
  "scan_int s =
     (let r = snd (read_sign (dropWhile isspace s)) in
      if takeWhile (is_digit 10) r = [] then None
      else Some (signed_take_bit 31 (strtol 10 s), dropWhile (is_digit 10) r))"

text \<open>\<^verbatim>\<open>sscanf(parm, "%c %s %s %d %d", ...)\<close> with at least four conversions; \<^verbatim>\<open>max\<close> stays 0 when there is no fifth.\<close>

definition gate_args :: "cstr \<Rightarrow> (char \<times> cstr \<times> cstr \<times> int \<times> int) option" where
  "gate_args parm =
     (case parm of
        [] \<Rightarrow> None
      | header # s \<Rightarrow>
          (let (watchdog, s) = scan_word s; (binding, s) = scan_word s in
           if watchdog = [] \<or> binding = [] then None
           else
             (case scan_int s of
                None \<Rightarrow> None
              | Some (client_tag, s) \<Rightarrow>
                  Some (header, watchdog, binding, client_tag, case scan_int s of None \<Rightarrow> 0 | Some (mx, _) \<Rightarrow> mx))))"

definition gate_fail :: "world \<Rightarrow> ctxref \<Rightarrow> cstr \<Rightarrow> gate_state \<Rightarrow> (int \<times> gate_state) result" where
  "gate_fail W c s S = rbind (skynet_error W (Some c) s (gs_node S)) (\<lambda>n. Inr (1, S\<lparr>gs_node := n\<rparr>))"

definition gate_init ::
    "world \<Rightarrow> (cstr \<Rightarrow> int \<Rightarrow> int \<Rightarrow> int) \<Rightarrow> cbref \<Rightarrow> ctxref \<Rightarrow> cstr option \<Rightarrow> gate_state \<Rightarrow> (int \<times> gate_state) result" where
  "gate_init W listen cb c parm S =
     (case parm of
        None \<Rightarrow> Inr (1, S)
      | Some p \<Rightarrow>
          (case gate_args p of
             None \<Rightarrow> gate_fail W c (''Invalid gate parm '' @ p) S
           | Some (header, watchdog, binding, client_tag, mx) \<Rightarrow>
               if mx \<le> 0 then gate_fail W c ''Need max connection'' S
               else if header \<noteq> CHR ''S'' \<and> header \<noteq> CHR ''L'' then gate_fail W c ''Invalid data header style'' S
               else
                 rbind (if first_char watchdog = CHR ''!'' then Inr (0, gs_node S)
                        else skynet_queryname W (Some c) watchdog (gs_node S)) (\<lambda>(h, n).
                 let S = S\<lparr>gs_gate := (gs_gate S)\<lparr>ga_watchdog := h\<rparr>, gs_node := n\<rparr> in
                 if first_char watchdog \<noteq> CHR ''!'' \<and> h = 0 then gate_fail W c (''Invalid watchdog '' @ watchdog) S
                 else
                   rbind (hashid_init mx) (\<lambda>hash.
                   rbind (skynet_callback c (Some cb) (gs_node S)) (\<lambda>n.
                   let g = (gs_gate S)\<lparr>ga_ctx := Some c, ga_hash := hash, ga_conn := replicate (nat mx) fresh_connection,
                             ga_max_connection := mx, ga_client_tag := of_int (if client_tag = 0 then int PTYPE_CLIENT else client_tag),
                             ga_header_size := (if header = CHR ''S'' then 2 else 4)\<rparr>
                   in start_listen W listen binding (S\<lparr>gs_gate := g, gs_node := n\<rparr>))))))"

end
