(* ===== verification/GateStream.thy ===== *)
theory GateStream
  imports Gate NodeCmd
begin

text \<open>
  The packets of the gate: whatever pieces the bytes of a connection arrive in, each packet is sent
  on once, complete and in order. The proof rests on the contract \<open>byte_stream\<close> of the buffer.
\<close>

section \<open>The buffer with its header\<close>

lemma header_frame [simp]:
  "db_bytes (db\<lparr>db_header := h\<rparr>) = db_bytes db" "stream_ok M (db\<lparr>db_header := h\<rparr>) mp = stream_ok M db mp"
  "db_nodes (db\<lparr>db_header := h\<rparr>) = db_nodes db" "db_ok (db\<lparr>db_header := h\<rparr>) = db_ok db"
  by (simp_all add: db_bytes_def stream_ok_def db_ok_def db_nodes_def split: list.split)

lemma stream_read:
  assumes "stream_ok M db mp" "0 < n" "n \<le> int (length (db_bytes db))"
  shows "\<exists>db' mp'. databuffer_read db mp n = Inr (take (nat n) (db_bytes db), db', mp') \<and> stream_ok M db' mp' \<and>
    db_bytes db' = drop (nat n) (db_bytes db) \<and> db_header db' = db_header db"
proof -
  obtain db' mp' where *: "databuffer_read db mp n = Inr (take (nat n) (db_bytes db), db', mp')" "stream_ok M db' mp'"
    "db_bytes db' = drop (nat n) (db_bytes db)" using databuffer.take_out_pending [OF assms] by blast
  moreover have "db_header db' = db_header db" using read_ok [of db n mp] assms *(1) by (auto simp: stream_ok_def)
  ultimately show ?thesis by blast
qed

text \<open>Bytes that were not passed on yet, a header that was read already put back in front.\<close>

definition unread :: "nat \<Rightarrow> databuffer \<Rightarrow> bytes" where
  "unread hs db = (if db_header db = 0 then [] else be_bytes hs (db_header db)) @ db_bytes db"

definition frame :: "nat \<Rightarrow> bytes \<Rightarrow> bytes" where
  "frame hs p = be_bytes hs (int (length p)) @ p"

lemma length_frame [simp]: "length (frame hs p) = hs + length p"
  by (simp add: frame_def)

lemma header_value_frame:
  assumes "hs \<in> {2, 4}" "int (length p) < (if hs = 2 then 2 ^ 16 else 2 ^ 24)"
  shows "header_value (int hs) (be_bytes hs (int (length p))) = int (length p)"
  using assms by (auto simp: header_value_def be_val_bytes signed_take_bit_int_eq_self split: if_splits)

text \<open>The packets that the header can announce and the gate accepts.\<close>

definition packet_ok :: "nat \<Rightarrow> bytes \<Rightarrow> bool" where
  "packet_ok hs p \<longleftrightarrow> int (length p) < (if hs = 2 then 2 ^ 16 else 2 ^ 24)"

text \<open>The header as the code reads it: the length, and a buffer that starts behind the header.\<close>

lemma db_size_bytes: "stream_ok M db mp \<Longrightarrow> db_size db = int (length (db_bytes db))"
  by (simp add: stream_ok_def db_ok_def)

lemma header_unique:
  assumes "hs \<in> {2, 4}" "packet_ok hs p" "be_bytes hs h @ bs = frame hs p @ rest" "0 \<le> h" "h < 2 ^ 16 \<or> hs = 4 \<and> h < 2 ^ 31"
  shows "h = int (length p) \<and> bs = p @ rest"
proof -
  have e: "be_bytes hs h = be_bytes hs (int (length p))" "bs = p @ rest" using assms(3) by (simp_all add: frame_def)
  have m: "x mod 256 ^ hs = x" if "0 \<le> x" "x < 2 ^ 16 \<or> hs = 4 \<and> x < 2 ^ 31" for x :: int
    by (rule mod_pos_pos_trivial) (use that assms(1) in auto)
  have "int (length p) < 2 ^ 16 \<or> hs = 4 \<and> int (length p) < 2 ^ 31" using assms(1,2) by (auto simp: packet_ok_def)
  then have "be_val (be_bytes hs h) = h" "be_val (be_bytes hs (int (length p))) = int (length p)"
    using m [OF assms(4,5)] m [of "int (length p)"] by (simp_all only: be_val_bytes of_nat_0_le_iff)
  then show ?thesis using e by metis
qed

lemma readheader_frame:
  assumes s: "stream_ok M db mp" and hs: "hs \<in> {2, 4}" and p: "packet_ok hs p" and u: "unread hs db = frame hs p @ rest"
    and h: "0 \<le> db_header db" "db_header db < 2 ^ 16 \<or> hs = 4 \<and> db_header db < 2 ^ 31"
  shows "\<exists>db' mp'. databuffer_readheader db mp (int hs) = Inr (int (length p), db', mp') \<and> stream_ok M db' mp' \<and>
    db_bytes db' = p @ rest \<and> db_header db' = int (length p)"
proof (cases "db_header db = 0")
  case True
  then have b: "db_bytes db = frame hs p @ rest" using u by (simp add: unread_def)
  then obtain db' mp' where r: "databuffer_read db mp (int hs) = Inr (be_bytes hs (int (length p)), db', mp')" "stream_ok M db' mp'"
    "db_bytes db' = p @ rest" using stream_read [OF s, of "int hs"] hs by (auto simp: frame_def)
  have "header_value (int hs) (be_bytes hs (int (length p))) = int (length p)" using header_value_frame [OF hs] p by (simp add: packet_ok_def)
  then show ?thesis using r True b db_size_bytes [OF s] db_size_bytes [OF r(2)] by (simp add: databuffer_readheader_def Let_def)
next
  case False
  then have "db_header db = int (length p)" "db_bytes db = p @ rest"
    using header_unique [OF hs p _ h(1), of "db_bytes db" rest] u h(2) by (auto simp: unread_def)
  then show ?thesis using False s db_size_bytes [OF s] by (simp add: databuffer_readheader_def Let_def)
qed

text \<open>A packet of which a part is missing.\<close>

definition partial :: "nat \<Rightarrow> bytes \<Rightarrow> bool" where
  "partial hs r \<longleftrightarrow> (\<exists>p s. packet_ok hs p \<and> s \<noteq> [] \<and> frame hs p = r @ s)"

definition header_small :: "nat \<Rightarrow> databuffer \<Rightarrow> bool" where
  "header_small hs db \<longleftrightarrow> 0 \<le> db_header db \<and> (db_header db < 2 ^ 16 \<or> hs = 4 \<and> db_header db < 2 ^ 31)"

lemma packet_header_small: "hs \<in> {2, 4} \<Longrightarrow> packet_ok hs p \<Longrightarrow> db_header db = int (length p) \<Longrightarrow> header_small hs db"
  by (auto simp: header_small_def packet_ok_def split: if_splits)

lemma readheader_partial:
  assumes s: "stream_ok M db mp" and hs: "hs \<in> {2, 4}" and u: "unread hs db = r" and r: "partial hs r" and h: "header_small hs db"
  shows "\<exists>db' mp'. databuffer_readheader db mp (int hs) = Inr (- 1, db', mp') \<and> stream_ok M db' mp' \<and> unread hs db' = r \<and> header_small hs db'"
proof -
  obtain p t where p: "packet_ok hs p" "t \<noteq> []" "frame hs p = r @ t" using r by (auto simp: partial_def)
  have len: "length r < hs + length p" using p(2) arg_cong [OF p(3), of length] by (cases t) auto
  show ?thesis
  proof (cases "db_header db = 0")
    case z: True
    then have b: "db_bytes db = r" using u by (simp add: unread_def)
    show ?thesis
    proof (cases "length r < hs")
      case True
      then show ?thesis using z b s h u db_size_bytes [OF s] by (intro exI [of _ db] exI [of _ mp]) (simp add: databuffer_readheader_def)
    next
      case False
      then have r1: "take hs r = be_bytes hs (int (length p))" "p = drop hs r @ t"
        using arg_cong [OF p(3), of "take hs"] arg_cong [OF p(3), of "drop hs"] by (simp_all add: frame_def)
      obtain db' mp' where d: "databuffer_read db mp (int hs) = Inr (be_bytes hs (int (length p)), db', mp')" "stream_ok M db' mp'"
        "db_bytes db' = drop hs r" using stream_read [OF s, of "int hs"] hs b False r1(1) by auto
      have v: "header_value (int hs) (be_bytes hs (int (length p))) = int (length p)" using header_value_frame [OF hs] p(1) by (simp add: packet_ok_def)
      have "r = be_bytes hs (int (length p)) @ drop hs r" using r1(1) append_take_drop_id [of hs r] by simp
      moreover have "p \<noteq> []" using r1(2) p(2) by simp
      ultimately show ?thesis
        using z d v b False len db_size_bytes [OF s] db_size_bytes [OF d(2)] packet_header_small [OF hs p(1), of "db'\<lparr>db_header := int (length p)\<rparr>"]
        by (intro exI [of _ "db'\<lparr>db_header := int (length p)\<rparr>"] exI [of _ mp']) (simp add: databuffer_readheader_def Let_def unread_def)
    qed
  next
    case False
    then have "db_header db = int (length p) \<and> db_bytes db @ t = p @ []"
      using header_unique [OF hs p(1), of "db_header db" "db_bytes db @ t" "[]"] u p(3) h by (auto simp: unread_def header_small_def)
    moreover from this have "length (db_bytes db) < length p" using p(2) arg_cong [of "db_bytes db @ t" p length] by (cases t) auto
    ultimately show ?thesis using False s u h db_size_bytes [OF s] by (intro exI [of _ db] exI [of _ mp]) (simp add: databuffer_readheader_def Let_def)
  qed
qed

section \<open>Sending the packets\<close>

text \<open>What is sent for one packet; nothing for an empty one.\<close>

definition deliver :: "world \<Rightarrow> gate \<Rightarrow> connection \<Rightarrow> bytes \<Rightarrow> node \<Rightarrow> node result" where
  "deliver W g c p n =
     (let tag = unat (ga_client_tag g OR of_nat PTYPE_TAG_DONTCOPY); pre = show_int (cn_id c) @ '' data '';
          send = (\<lambda>source destination type data. rbind (skynet_send W (ga_ctx g) source destination type (cn_id c) (Some data) (of_int (int (length data))) n)
                    (\<lambda>(_, n). Inr n)) in
      if p = [] then Inr n
      else if ga_broker g \<noteq> 0 then send 0 (ga_broker g) tag p
      else if cn_agent c \<noteq> 0 then send (cn_client c) (cn_agent c) tag p
      else send 0 (ga_watchdog g) (PTYPE_TEXT OR PTYPE_TAG_DONTCOPY) (c_bytes pre @ p))"

fun deliver_all :: "world \<Rightarrow> gate \<Rightarrow> connection \<Rightarrow> bytes list \<Rightarrow> node \<Rightarrow> node result" where
  "deliver_all W g c [] n = Inr n"
| "deliver_all W g c (p # ps) n = rbind (deliver W g c p n) (deliver_all W g c ps)"

lemma rbind_assoc: "rbind (rbind R f) h = rbind R (\<lambda>x. rbind (f x) h)"
  by (cases R) simp_all

lemma deliver_all_append: "deliver_all W g c (ps @ qs) = (\<lambda>n. rbind (deliver_all W g c ps n) (deliver_all W g c qs))"
proof (induction ps)
  case (Cons p ps)
  show ?case by (rule ext) (simp add: Cons.IH rbind_assoc)
qed (simp add: fun_eq_iff)

text \<open>The gate with a buffer of one connection and the node changed.\<close>

definition with_stream :: "int \<Rightarrow> databuffer \<Rightarrow> messagepool \<Rightarrow> node \<Rightarrow> gate_state \<Rightarrow> gate_state" where
  "with_stream i db mp n S = (buffer_put i (ga_conn (gs_gate S) ! nat i) (db, mp) S)\<lparr>gs_node := n\<rparr>"

definition valid_conn :: "int \<Rightarrow> gate_state \<Rightarrow> bool" where
  "valid_conn i S \<longleftrightarrow> 0 \<le> i \<and> i < int (length (ga_conn (gs_gate S)))"

lemma with_stream_simps [simp]:
  "gs_node (with_stream i db mp n S) = n" "gs_out (with_stream i db mp n S) = gs_out S"
  "ga_mp (gs_gate (with_stream i db mp n S)) = mp" "ga_hash (gs_gate (with_stream i db mp n S)) = ga_hash (gs_gate S)"
  "ga_header_size (gs_gate (with_stream i db mp n S)) = ga_header_size (gs_gate S)"
  "ga_broker (gs_gate (with_stream i db mp n S)) = ga_broker (gs_gate S)" "ga_watchdog (gs_gate (with_stream i db mp n S)) = ga_watchdog (gs_gate S)"
  "ga_ctx (gs_gate (with_stream i db mp n S)) = ga_ctx (gs_gate S)" "ga_client_tag (gs_gate (with_stream i db mp n S)) = ga_client_tag (gs_gate S)"
  "valid_conn i (with_stream i db mp n S) = valid_conn i S"
  "ga_conn (gs_gate (with_stream i db mp n S)) = (ga_conn (gs_gate S))[nat i := (ga_conn (gs_gate S) ! nat i)\<lparr>cn_buffer := db\<rparr>]"
  by (simp_all add: with_stream_def buffer_put_def conn_put_def valid_conn_def)

lemma with_stream_conn:
  assumes "valid_conn i S"
  defines "c \<equiv> ga_conn (gs_gate S) ! nat i"
  shows "conn_at i (with_stream i db mp n S) = Inr (c\<lparr>cn_buffer := db\<rparr>)"
    "buffer_put i (c\<lparr>cn_buffer := db'\<rparr>) (db2, mp2) (with_stream i db mp n S) = with_stream i db2 mp2 n S"
    "conn_put i (c\<lparr>cn_buffer := db2\<rparr>) (with_stream i db mp n S) = with_stream i db2 mp n S"
    "(with_stream i db mp n S)\<lparr>gs_node := n'\<rparr> = with_stream i db mp n' S"
    "with_stream i (cn_buffer c) (ga_mp (gs_gate S)) (gs_node S) S = S"
proof -
  have i: "nat i < length (ga_conn (gs_gate S))" "0 \<le> i" "i < int (length (ga_conn (gs_gate S)))" using assms(1) by (auto simp: valid_conn_def)
  show "conn_at i (with_stream i db mp n S) = Inr (c\<lparr>cn_buffer := db\<rparr>)" using i by (simp add: conn_at_def c_def)
  show "buffer_put i (c\<lparr>cn_buffer := db'\<rparr>) (db2, mp2) (with_stream i db mp n S) = with_stream i db2 mp2 n S"
    "conn_put i (c\<lparr>cn_buffer := db2\<rparr>) (with_stream i db mp n S) = with_stream i db2 mp n S"
    "(with_stream i db mp n S)\<lparr>gs_node := n'\<rparr> = with_stream i db mp n' S"
    by (simp_all add: with_stream_def buffer_put_def conn_put_def c_def)
  show "with_stream i (cn_buffer c) (ga_mp (gs_gate S)) (gs_node S) S = S"
    by (simp add: with_stream_def buffer_put_def conn_put_def c_def)
qed

text \<open>A connection whose packets have somewhere to go.\<close>

definition routed :: "int \<Rightarrow> gate_state \<Rightarrow> bool" where
  "routed i S \<longleftrightarrow> (let c = ga_conn (gs_gate S) ! nat i in valid_conn i S \<and> 0 < cn_id c \<and> cn_id c < 2 ^ 31 \<and>
     (ga_broker (gs_gate S) \<noteq> 0 \<or> cn_agent c \<noteq> 0 \<or> ga_watchdog (gs_gate S) \<noteq> 0))"

lemma forward_packet_delivers:
  assumes r: "routed i S" and s: "stream_ok M db mp" and p: "db_bytes db = p @ rest" "p \<noteq> []"
  shows "\<exists>db' mp'. (\<forall>n. forward_packet W i (int (length p)) (with_stream i db mp n S) =
      rbind (deliver W (gs_gate S) (ga_conn (gs_gate S) ! nat i) p n) (\<lambda>n'. Inr (with_stream i db' mp' n' S))) \<and>
    stream_ok M db' mp' \<and> db_bytes db' = rest"
proof -
  let ?c = "ga_conn (gs_gate S) ! nat i"
  have v: "valid_conn i S" "0 < cn_id ?c" "cn_id ?c < 2 ^ 31" "ga_broker (gs_gate S) \<noteq> 0 \<or> cn_agent ?c \<noteq> 0 \<or> ga_watchdog (gs_gate S) \<noteq> 0"
    using r by (simp_all add: routed_def Let_def)
  obtain db' mp' where d: "databuffer_read db mp (int (length p)) = Inr (p, db', mp')" "stream_ok M db' mp'" "db_bytes db' = rest"
    using stream_read [OF s, of "int (length p)"] p by auto
  have len: "length (show_int (cn_id ?c)) \<le> 11" using printed_lengths(5) [of "cn_id ?c"] v(2,3) by simp
  then have pre: "\<exists>b. sprintf 32 (show_int (cn_id ?c) @ '' data '') = Inr b" by (simp add: sprintf_def)
  note ws = with_stream_conn [OF v(1)]
  have "forward_packet W i (int (length p)) (with_stream i db mp n S) =
      rbind (deliver W (gs_gate S) ?c p n) (\<lambda>n'. Inr (with_stream i db' mp' n' S))" for n
    using v(2,4) d(1) p(2) pre
    by (auto simp: forward_packet_def deliver_def gate_send_def ws rbind_assoc Let_def c_bytes_def case_prod_beta' add_ac)
  then show ?thesis using d(2,3) by blast
qed

text \<open>One turn of the loop.\<close>

lemma packet_loop_step:
  assumes "valid_conn i S" "databuffer_readheader db mp (ga_header_size (gs_gate S)) = Inr (psize, db1, mp1)"
  shows "packet_loop W (Suc k) i fd (with_stream i db mp n S) =
    (if psize < 0 then Inr (with_stream i db1 mp1 n S)
     else if psize = 0 then packet_loop W k i fd (with_stream i db1 mp1 n S)
     else if psize \<ge> 0x1000000 then
       gate_error W ''Recv socket message > 16M'' (request (Socket_close fd) (with_stream i empty_buffer (snd (databuffer_clear db1 mp1)) n S))
     else rbind (forward_packet W i psize (with_stream i db1 mp1 n S)) (\<lambda>S. rbind (conn_at i S) (\<lambda>c.
       packet_loop W k i fd (conn_put i (c\<lparr>cn_buffer := databuffer_reset (cn_buffer c)\<rparr>) S))))"
proof -
  have "with_stream i empty_buffer (snd (databuffer_clear db1 mp1)) n S =
      buffer_put i ((ga_conn (gs_gate S) ! nat i)\<lparr>cn_buffer := db\<rparr>) (databuffer_clear db1 mp1) (with_stream i db1 mp1 n S)"
    using with_stream_conn(2) [OF assms(1)] by (simp add: databuffer_clear_def)
  then show ?thesis using assms(2) by (simp add: with_stream_conn [OF assms(1)])
qed

text \<open>The loop sends the complete packets and leaves the incomplete one.\<close>

lemma packet_loop_delivers:
  assumes "routed i S" "hs \<in> {2, 4}" "ga_header_size (gs_gate S) = int hs" "stream_ok M db mp" "header_small hs db"
    "unread hs db = concat (map (frame hs) ps) @ r" "\<forall>p \<in> set ps. packet_ok hs p" "partial hs r" "length ps < fuel"
  shows "\<exists>db' mp'. (\<forall>n. packet_loop W fuel i fd (with_stream i db mp n S) =
      rbind (deliver_all W (gs_gate S) (ga_conn (gs_gate S) ! nat i) ps n) (\<lambda>n'. Inr (with_stream i db' mp' n' S))) \<and>
    stream_ok M db' mp' \<and> header_small hs db' \<and> unread hs db' = r"
  using assms(4-9)
proof (induction ps arbitrary: db mp fuel)
  case Nil
  have v: "valid_conn i S" using assms(1) by (simp add: routed_def Let_def)
  obtain k where fuel: "fuel = Suc k" using Nil.prems by (cases fuel) auto
  obtain db' mp' where d: "databuffer_readheader db mp (int hs) = Inr (- 1, db', mp')" "stream_ok M db' mp'" "unread hs db' = r" "header_small hs db'"
    using readheader_partial [OF Nil.prems(1) assms(2), of r] Nil.prems by auto
  show ?case using packet_loop_step [OF v d(1) [folded assms(3)]] d(2-4) fuel by (intro exI [of _ db'] exI [of _ mp']) simp
next
  case (Cons p ps)
  let ?c = "ga_conn (gs_gate S) ! nat i" and ?rest = "concat (map (frame hs) ps) @ r"
  have v: "valid_conn i S" using assms(1) by (simp add: routed_def Let_def)
  obtain k where fuel: "fuel = Suc k" "length ps < k" using Cons.prems(6) by (cases fuel) auto
  obtain db1 mp1 where d1: "databuffer_readheader db mp (int hs) = Inr (int (length p), db1, mp1)" "stream_ok M db1 mp1"
    "db_bytes db1 = p @ ?rest" "db_header db1 = int (length p)"
    using readheader_frame [OF Cons.prems(1) assms(2), of p ?rest] Cons.prems by (auto simp: header_small_def)
  note step = packet_loop_step [OF v d1(1) [folded assms(3)]]
  have small: "\<not> 0x1000000 \<le> int (length p)" using Cons.prems(4) by (auto simp: packet_ok_def split: if_splits)
  have again: "\<exists>db' mp'. (\<forall>n. packet_loop W k i fd (with_stream i db2 mp2 n S) =
      rbind (deliver_all W (gs_gate S) ?c ps n) (\<lambda>n'. Inr (with_stream i db' mp' n' S))) \<and>
      stream_ok M db' mp' \<and> header_small hs db' \<and> unread hs db' = r"
    if "stream_ok M db2 mp2" "db_header db2 = 0" "db_bytes db2 = ?rest" for db2 mp2
    using Cons.IH [of db2 mp2 k] that Cons.prems(4,5) fuel(2) by (simp add: unread_def header_small_def)
  show ?case
  proof (cases "p = []")
    case True
    then have "packet_loop W fuel i fd (with_stream i db mp n S) = packet_loop W k i fd (with_stream i db1 mp1 n S)" for n
      unfolding fuel(1) step by simp
    then show ?thesis using again [of db1 mp1] d1 True by (simp add: deliver_def)
  next
    case False
    obtain db2 mp2 where d2: "\<forall>n. forward_packet W i (int (length p)) (with_stream i db1 mp1 n S) =
        rbind (deliver W (gs_gate S) ?c p n) (\<lambda>n'. Inr (with_stream i db2 mp2 n' S))" "stream_ok M db2 mp2" "db_bytes db2 = ?rest"
      using forward_packet_delivers [OF assms(1) d1(2,3) False, of W] by blast
    have "packet_loop W fuel i fd (with_stream i db mp n S) =
        rbind (deliver W (gs_gate S) ?c p n) (\<lambda>n'. packet_loop W k i fd (with_stream i (databuffer_reset db2) mp2 n' S))" for n
      unfolding fuel(1) step using False small d2(1) by (simp add: rbind_assoc with_stream_conn [OF v])
    moreover obtain db' mp' where "\<forall>n. packet_loop W k i fd (with_stream i (databuffer_reset db2) mp2 n S) =
        rbind (deliver_all W (gs_gate S) ?c ps n) (\<lambda>n'. Inr (with_stream i db' mp' n' S))"
        "stream_ok M db' mp' \<and> header_small hs db' \<and> unread hs db' = r"
      using again [of "databuffer_reset db2" mp2] d2(2,3) by (auto simp: databuffer_reset_def)
    ultimately show ?thesis by (auto simp: rbind_assoc)
  qed
qed

section \<open>Pieces\<close>

definition head_partial :: "nat \<Rightarrow> bytes \<Rightarrow> bytes list \<Rightarrow> bool" where
  "head_partial hs r ps \<longleftrightarrow> (case ps of [] \<Rightarrow> r = [] | p # _ \<Rightarrow> length r < length (frame hs p))"

lemma split_prefix:
  assumes "X @ Y = concat (map (frame hs) ps)"
  shows "\<exists>ps1 ps2 r. ps = ps1 @ ps2 \<and> X = concat (map (frame hs) ps1) @ r \<and> r @ Y = concat (map (frame hs) ps2) \<and> head_partial hs r ps2"
  using assms
proof (induction ps arbitrary: X)
  case Nil
  then show ?case by (auto simp: head_partial_def)
next
  case (Cons p ps)
  show ?case
  proof (cases "length X < length (frame hs p)")
    case True
    then show ?thesis using Cons.prems by (intro exI [of _ "[]"] exI [of _ "p # ps"] exI [of _ X]) (simp add: head_partial_def)
  next
    case False
    define X' where "X' = drop (length (frame hs p)) X"
    have "take (length (frame hs p)) X = frame hs p"
      using arg_cong [OF Cons.prems, of "take (length (frame hs p))"] False by simp
    then have X: "X = frame hs p @ X'" unfolding X'_def by (metis append_take_drop_id)
    then have "X' @ Y = concat (map (frame hs) ps)" using Cons.prems by simp
    from Cons.IH [OF this] obtain ps1 ps2 r where "ps = ps1 @ ps2" "X' = concat (map (frame hs) ps1) @ r" "r @ Y = concat (map (frame hs) ps2)" "head_partial hs r ps2" by blast
    then show ?thesis using X by (intro exI [of _ "p # ps1"] exI [of _ ps2] exI [of _ r]) simp
  qed
qed

lemma head_partial_partial:
  assumes "hs \<in> {2, 4}" "head_partial hs r ps" "r @ Y = concat (map (frame hs) ps)" "\<forall>p \<in> set ps. packet_ok hs p"
  shows "partial hs r"
proof (cases ps)
  case Nil
  have "packet_ok hs []" "frame hs [] \<noteq> []" using assms(1) by (auto simp: packet_ok_def frame_def be_bytes_def simp flip: length_0_conv)
  then show ?thesis using Nil assms(2) by (auto simp: partial_def head_partial_def)
next
  case (Cons p qs)
  then have "length r < length (frame hs p)" "r @ Y = frame hs p @ concat (map (frame hs) qs)" using assms(2,3) by (simp_all add: head_partial_def)
  then have "frame hs p = r @ drop (length r) (frame hs p)" by (metis append_eq_append_conv_if append_take_drop_id less_imp_le)
  then show ?thesis using Cons assms(4) \<open>length r < _\<close> unfolding partial_def
    by (intro exI [of _ p] exI [of _ "drop (length r) (frame hs p)"]) simp
qed

lemma frames_length: "hs * length ps \<le> length (concat (map (frame hs) ps))"
  by (induction ps) simp_all

text \<open>The messages of a service, one after the other.\<close>

fun gate_run :: "world \<Rightarrow> (u32 \<times> gate_message) list \<Rightarrow> gate_state \<Rightarrow> gate_state result" where
  "gate_run W [] S = Inr S"
| "gate_run W ((source, m) # ms) S = rbind (gate_cb W source m S) (\<lambda>(_, S). gate_run W ms S)"

definition data_messages :: "int \<Rightarrow> bytes list \<Rightarrow> (u32 \<times> gate_message) list" where
  "data_messages fd ds = map (\<lambda>d. (0, Socket (Socket_DATA fd d))) ds"

lemma data_arrives:
  assumes r: "routed i S" and l: "hashid_lookup (ga_hash (gs_gate S)) fd = Inr i" and hs: "hs \<in> {2, 4}" "ga_header_size (gs_gate S) = int hs"
    and s: "stream_ok M db mp" "header_small hs db" and u: "unread hs db @ d = concat (map (frame hs) ps) @ r" "d \<noteq> []"
    and p: "\<forall>p \<in> set ps. packet_ok hs p" "partial hs r"
  shows "\<exists>db' mp'. (\<forall>n. gate_cb W source (Socket (Socket_DATA fd d)) (with_stream i db mp n S) =
      rbind (deliver_all W (gs_gate S) (ga_conn (gs_gate S) ! nat i) ps n) (\<lambda>n'. Inr (False, with_stream i db' mp' n' S))) \<and>
    stream_ok M db' mp' \<and> header_small hs db' \<and> unread hs db' = r"
proof -
  have v: "valid_conn i S" "0 \<le> i" using r by (simp_all add: routed_def Let_def valid_conn_def)
  obtain db1 mp1 where push: "databuffer_push db mp d = (db1, mp1)" by fastforce
  have s1: "stream_ok M db1 mp1" "db_bytes db1 = db_bytes db @ d" "db_header db1 = db_header db"
    using databuffer.push_pending [OF s(1) u(2)] push_header [of db mp d] push by simp_all
  have u1: "unread hs db1 = concat (map (frame hs) ps) @ r" using u(1) s1(2,3) by (simp add: unread_def split: if_splits)
  have "length (unread hs db1) \<le> hs + length (db_bytes db1)" by (simp add: unread_def)
  moreover have "hs * length ps \<le> length (unread hs db1)" using frames_length [of hs ps] u1 by simp
  moreover have "length (db_bytes db1) \<noteq> 0" using s1(2) u(2) by simp
  moreover have "nat (db_size db1) = length (db_bytes db1)" using db_size_bytes [OF s1(1)] by simp
  ultimately have fuel: "length ps < nat (db_size db1) + 2" using hs(1) by (elim insertE emptyE) auto
  obtain db' mp' where d: "\<forall>n. packet_loop W (nat (db_size db1) + 2) i fd (with_stream i db1 mp1 n S) =
      rbind (deliver_all W (gs_gate S) (ga_conn (gs_gate S) ! nat i) ps n) (\<lambda>n'. Inr (with_stream i db' mp' n' S))"
    "stream_ok M db' mp'" "header_small hs db'" "unread hs db' = r"
    using packet_loop_delivers [OF r hs s1(1) _ u1 p fuel, of W fd] s(2) s1(3) by (auto simp: header_small_def)
  have cb: "gate_cb W source (Socket (Socket_DATA fd d)) (with_stream i db mp n S) =
      rbind (packet_loop W (nat (db_size db1) + 2) i fd (with_stream i db1 mp1 n S)) (\<lambda>S. Inr (False, S))" for n
    using l v push by (simp add: gate_lookup_def gate_dispatch_message_def with_stream_conn [OF v(1)] Let_def del: packet_loop.simps)
  have "gate_cb W source (Socket (Socket_DATA fd d)) (with_stream i db mp n S) =
      rbind (deliver_all W (gs_gate S) (ga_conn (gs_gate S) ! nat i) ps n) (\<lambda>n'. Inr (False, with_stream i db' mp' n' S))" for n
    unfolding cb d(1) [rule_format] rbind_assoc by simp
  then show ?thesis using d(2-4) by blast
qed

lemma pieces_arrive:
  assumes r: "routed i S" and l: "hashid_lookup (ga_hash (gs_gate S)) fd = Inr i" and hs: "hs \<in> {2, 4}" "ga_header_size (gs_gate S) = int hs"
    and "stream_ok M db mp" "header_small hs db" "unread hs db @ concat ds = concat (map (frame hs) ps)" "head_partial hs (unread hs db) ps"
      "\<forall>d \<in> set ds. d \<noteq> []" "\<forall>p \<in> set ps. packet_ok hs p"
  shows "\<exists>db' mp'. (\<forall>n. gate_run W (data_messages fd ds) (with_stream i db mp n S) =
      rbind (deliver_all W (gs_gate S) (ga_conn (gs_gate S) ! nat i) ps n) (\<lambda>n'. Inr (with_stream i db' mp' n' S))) \<and>
    stream_ok M db' mp' \<and> header_small hs db' \<and> unread hs db' = []"
  using assms(5-10)
proof (induction ds arbitrary: db mp ps)
  case Nil
  then have "ps = []" using frames_length by (cases ps) (auto simp: head_partial_def)
  then show ?case using Nil by (intro exI [of _ db] exI [of _ mp]) (simp add: data_messages_def)
next
  case (Cons d ds)
  obtain ps1 ps2 q where q: "ps = ps1 @ ps2" "unread hs db @ d = concat (map (frame hs) ps1) @ q" "q @ concat ds = concat (map (frame hs) ps2)" "head_partial hs q ps2"
    using split_prefix [of "unread hs db @ d" "concat ds" hs ps] Cons.prems(3) by auto
  have part: "partial hs q" by (rule head_partial_partial [OF hs(1) q(4,3)]) (use Cons.prems(6) q(1) in simp)
  obtain db1 mp1 where d1: "\<forall>n. gate_cb W 0 (Socket (Socket_DATA fd d)) (with_stream i db mp n S) =
      rbind (deliver_all W (gs_gate S) (ga_conn (gs_gate S) ! nat i) ps1 n) (\<lambda>n'. Inr (False, with_stream i db1 mp1 n' S))"
    "stream_ok M db1 mp1" "header_small hs db1" "unread hs db1 = q"
    using data_arrives [OF r l hs Cons.prems(1,2) q(2) _ _ part, of W 0] Cons.prems(5,6) q(1) by auto
  obtain db2 mp2 where "\<forall>n. gate_run W (data_messages fd ds) (with_stream i db1 mp1 n S) =
      rbind (deliver_all W (gs_gate S) (ga_conn (gs_gate S) ! nat i) ps2 n) (\<lambda>n'. Inr (with_stream i db2 mp2 n' S))"
    "stream_ok M db2 mp2 \<and> header_small hs db2 \<and> unread hs db2 = []"
    using Cons.IH [OF d1(2,3), of ps2] d1(4) q Cons.prems(5,6) by auto
  then show ?case using d1(1) by (auto simp: q(1) data_messages_def deliver_all_append rbind_assoc simp del: gate_cb.simps)
qed

end
