(* ===== verification/GateOk.thy ===== *)
theory GateOk
  imports GateStream
begin

text \<open>
  The invariant of the gate: the id table and the connections agree, every byte buffer is
  consistent and the nodes of the pool are each in one buffer or free. Every message the gate
  gets keeps it, and keeps the node it runs in consistent.
\<close>

section \<open>The invariant\<close>

definition conn_nodes :: "connection list \<Rightarrow> pool_node multiset" where
  "conn_nodes cs = mset (concat (map (\<lambda>c. db_nodes (cn_buffer c)) cs))"

definition other_nodes :: "int \<Rightarrow> gate_state \<Rightarrow> pool_node multiset" where
  "other_nodes i S = conn_nodes (take (nat i) (ga_conn (gs_gate S))) + conn_nodes (drop (Suc (nat i)) (ga_conn (gs_gate S)))"

lemma conn_nodes_simps [simp]: "conn_nodes [] = {#}" "conn_nodes (c # cs) = mset (db_nodes (cn_buffer c)) + conn_nodes cs"
  "conn_nodes (cs @ ds) = conn_nodes cs + conn_nodes ds"
  by (simp_all add: conn_nodes_def)

lemma conn_nodes_upd:
  assumes "valid_conn i S"
  shows "conn_nodes ((ga_conn (gs_gate S))[nat i := c]) = other_nodes i S + mset (db_nodes (cn_buffer c))"
    "conn_nodes (ga_conn (gs_gate S)) = other_nodes i S + mset (db_nodes (cn_buffer (ga_conn (gs_gate S) ! nat i)))"
proof -
  have i: "nat i < length (ga_conn (gs_gate S))" using assms by (auto simp: valid_conn_def)
  show "conn_nodes ((ga_conn (gs_gate S))[nat i := c]) = other_nodes i S + mset (db_nodes (cn_buffer c))"
    using i by (simp add: upd_conv_take_nth_drop other_nodes_def)
  show "conn_nodes (ga_conn (gs_gate S)) = other_nodes i S + mset (db_nodes (cn_buffer (ga_conn (gs_gate S) ! nat i)))"
    using arg_cong [OF id_take_nth_drop [OF i], of conn_nodes] by (simp add: other_nodes_def)
qed

text \<open>The data: everything but the node and the context the gate runs in.\<close>

definition gate_data_ok :: "gate \<Rightarrow> bool" where
  "gate_data_ok g \<longleftrightarrow>
     hashid_ok (ga_hash g) \<and> length (ga_conn g) = length (hi_id (ga_hash g)) \<and> ga_header_size g \<in> {2, 4} \<and>
     (\<forall>fd i. hashid_ids (ga_hash g) fd = Some i \<longrightarrow> cn_id (ga_conn g ! i) = fd) \<and>
     (\<forall>i < length (ga_conn g). (\<forall>fd. hashid_ids (ga_hash g) fd \<noteq> Some i) \<longrightarrow> ga_conn g ! i = fresh_connection) \<and>
     (\<forall>c \<in> set (ga_conn g). db_ok (cn_buffer c)) \<and> pool_ok (conn_nodes (ga_conn g)) (ga_mp g)"

definition tag_ok :: "u32 \<Rightarrow> bool" where
  "tag_ok t \<longleftrightarrow> t < 256 \<and> invalid_type (unat t)"

text \<open>The gate in the service with reference \<open>c\<close>, which a worker has in its hands.\<close>

definition gate_ok :: "hands \<Rightarrow> gate_state \<Rightarrow> bool" where
  "gate_ok H S \<longleftrightarrow> gate_data_ok (gs_gate S) \<and> up H (gs_node S) \<and> tag_ok (ga_client_tag (gs_gate S)) \<and>
     (\<exists>c. ga_ctx (gs_gate S) = Some c \<and> c \<in># g_refs H)"

lemma gate_okD:
  assumes "gate_ok H S"
  shows "gate_data_ok (gs_gate S)" "up H (gs_node S)" "tag_ok (ga_client_tag (gs_gate S))"
    "\<exists>c. ga_ctx (gs_gate S) = Some c \<and> c \<in># g_refs H"
  using assms by (simp_all add: gate_ok_def)

lemma gate_ok_frame [simp]: "gate_ok H (request r S) = gate_ok H S" "gs_gate (request r S) = gs_gate S" "gs_node (request r S) = gs_node S"
  by (simp_all add: gate_ok_def request_def)

lemma gate_ok_node: "gate_ok H S \<Longrightarrow> up H n \<Longrightarrow> gate_ok H (S\<lparr>gs_node := n\<rparr>)"
  by (simp add: gate_ok_def)

text \<open>The slot of an open connection.\<close>

definition open_slot :: "int \<Rightarrow> int \<Rightarrow> gate_state \<Rightarrow> bool" where
  "open_slot fd i S \<longleftrightarrow> 0 \<le> i \<and> hashid_ids (ga_hash (gs_gate S)) fd = Some (nat i)"

lemma open_slotD:
  assumes ok: "gate_ok H S" and o: "open_slot fd i S"
  shows "valid_conn i S" "cn_id (ga_conn (gs_gate S) ! nat i) = fd" "stream_ok (other_nodes i S) (cn_buffer (ga_conn (gs_gate S) ! nat i)) (ga_mp (gs_gate S))"
proof -
  have d: "gate_data_ok (gs_gate S)" by (rule gate_okD(1) [OF ok])
  have i: "nat i < length (ga_conn (gs_gate S))" using hashid.slots [of "ga_hash (gs_gate S)" fd "nat i"] d o by (simp add: gate_data_ok_def open_slot_def)
  then show v: "valid_conn i S" using o by (simp add: valid_conn_def open_slot_def)
  show "cn_id (ga_conn (gs_gate S) ! nat i) = fd" using d o by (simp add: gate_data_ok_def open_slot_def)
  show "stream_ok (other_nodes i S) (cn_buffer (ga_conn (gs_gate S) ! nat i)) (ga_mp (gs_gate S))"
    using d i conn_nodes_upd(2) [OF v] by (simp add: gate_data_ok_def stream_ok_def)
qed

text \<open>The connection in an open slot changes, its stream stays consistent.\<close>

lemma gate_ok_conn:
  assumes ok: "gate_ok H S" and o: "open_slot fd i S" and s: "stream_ok (other_nodes i S) (cn_buffer c) mp" and c: "cn_id c = fd"
  shows "gate_data_ok ((gs_gate S)\<lparr>ga_conn := (ga_conn (gs_gate S))[nat i := c], ga_mp := mp\<rparr>)"
proof -
  let ?g = "gs_gate S"
  have d: "gate_data_ok ?g" by (rule gate_okD(1) [OF ok])
  have v: "valid_conn i S" by (rule open_slotD(1) [OF ok o])
  have used: "hashid_ids (ga_hash ?g) fd = Some (nat i)" using o by (simp add: open_slot_def)
  show ?thesis
    unfolding gate_data_ok_def
  proof (intro conjI allI impI ballI)
    show "cn_id (ga_conn (?g\<lparr>ga_conn := (ga_conn ?g)[nat i := c], ga_mp := mp\<rparr>) ! j) = x"
      if "hashid_ids (ga_hash (?g\<lparr>ga_conn := (ga_conn ?g)[nat i := c], ga_mp := mp\<rparr>)) x = Some j" for x j
      using that d used c hashid.slots_inj [of "ga_hash ?g" x j fd] v
      by (cases "j = nat i") (auto simp: gate_data_ok_def valid_conn_def)
    show "ga_conn (?g\<lparr>ga_conn := (ga_conn ?g)[nat i := c], ga_mp := mp\<rparr>) ! j = fresh_connection"
      if "j < length (ga_conn (?g\<lparr>ga_conn := (ga_conn ?g)[nat i := c], ga_mp := mp\<rparr>))"
        "\<forall>fd. hashid_ids (ga_hash (?g\<lparr>ga_conn := (ga_conn ?g)[nat i := c], ga_mp := mp\<rparr>)) fd \<noteq> Some j" for j
      using that d used by (cases "j = nat i") (auto simp: gate_data_ok_def)
    show "db_ok (cn_buffer x)" if "x \<in> set (ga_conn (?g\<lparr>ga_conn := (ga_conn ?g)[nat i := c], ga_mp := mp\<rparr>))" for x
      using that d s set_update_subset_insert [of "ga_conn ?g" "nat i" c] by (auto simp: gate_data_ok_def stream_ok_def)
    show "pool_ok (conn_nodes (ga_conn (?g\<lparr>ga_conn := (ga_conn ?g)[nat i := c], ga_mp := mp\<rparr>))) (ga_mp (?g\<lparr>ga_conn := (ga_conn ?g)[nat i := c], ga_mp := mp\<rparr>))"
      using s conn_nodes_upd(1) [OF v] by (simp add: stream_ok_def)
  qed (use d in \<open>simp_all add: gate_data_ok_def\<close>)
qed

lemma gate_ok_stream:
  assumes ok: "gate_ok H S" and o: "open_slot fd i S" and s: "stream_ok (other_nodes i S) db mp" and n: "up H n"
  shows "gate_ok H (with_stream i db mp n S)" "open_slot fd i (with_stream i db mp n S)" "other_nodes i (with_stream i db mp n S) = other_nodes i S"
proof -
  have "gate_data_ok ((gs_gate S)\<lparr>ga_conn := (ga_conn (gs_gate S))[nat i := (ga_conn (gs_gate S) ! nat i)\<lparr>cn_buffer := db\<rparr>], ga_mp := mp\<rparr>)"
    by (rule gate_ok_conn [OF ok o]) (use s open_slotD(2) [OF ok o] in simp_all)
  then show "gate_ok H (with_stream i db mp n S)"
    using gate_okD [OF ok] n by (simp add: gate_ok_def with_stream_def buffer_put_def conn_put_def)
  show "open_slot fd i (with_stream i db mp n S)" using o by (simp add: open_slot_def)
  show "other_nodes i (with_stream i db mp n S) = other_nodes i S" by (simp add: other_nodes_def)
qed

section \<open>Sending and logging\<close>

lemma gate_error_ok:
  assumes "gate_ok H S"
  shows "\<exists>n. gate_error W s S = Inr (S\<lparr>gs_node := n\<rparr>) \<and> up H n"
proof -
  obtain c where c: "ga_ctx (gs_gate S) = Some c" "c \<in># g_refs H" using gate_okD(4) [OF assms] by blast
  from ends_error [OF gate_okD(2) [OF assms] c(2), of W s] obtain n where "skynet_error W (Some c) s (gs_node S) = Inr n" "keeps H (gs_node S) n"
    by (auto simp: ends_def)
  then show ?thesis using c(1) up_keeps [OF gate_okD(2) [OF assms]] by (auto simp: gate_error_def)
qed

lemma gate_send_ok:
  assumes "gate_ok H S" "has_tag type PTYPE_TAG_DONTCOPY \<or> unat (of_int sz :: u64) \<le> length data" "\<not> has_tag type PTYPE_TAG_ALLOCSESSION" "invalid_type (type AND 0xff)"
  shows "\<exists>n. gate_send W source destination type session data sz S = Inr (S\<lparr>gs_node := n\<rparr>) \<and> up H n"
proof -
  obtain c where c: "ga_ctx (gs_gate S) = Some c" "c \<in># g_refs H" using gate_okD(4) [OF assms(1)] by blast
  note u = gate_okD(2) [OF assms(1)]
  have "send_args_ok (Some c) source type session (Some data) (of_int sz) (gs_node S)"
    using up_live [OF u c(2)] assms(2-4) by (auto simp: send_args_ok_def)
  from ends_send [OF u this, of W destination] obtain r n where
    "skynet_send W (Some c) source destination type session (Some data) (of_int sz) (gs_node S) = Inr (r, n)" "keeps H (gs_node S) n"
    by (auto simp: ends_def)
  then show ?thesis using c(1) up_keeps [OF u] by (auto simp: gate_send_def)
qed

lemma tag_and_or:
  fixes t :: nat
  assumes "t < 256"
  shows "has_tag (t OR PTYPE_TAG_DONTCOPY) PTYPE_TAG_DONTCOPY" "\<not> has_tag (t OR PTYPE_TAG_DONTCOPY) PTYPE_TAG_ALLOCSESSION"
    "(t OR PTYPE_TAG_DONTCOPY) AND 0xff = t"
proof -
  have high: "\<not> bit t k" if "8 \<le> k" for k
  proof -
    have "t < 2 ^ k" using assms power_increasing [OF that, of "2 :: nat"] by simp
    then show ?thesis by (simp add: bit_iff_odd)
  qed
  have e: "PTYPE_TAG_DONTCOPY = 2 ^ 16" "PTYPE_TAG_ALLOCSESSION = 2 ^ 17" by (simp_all add: PTYPE_TAG_DONTCOPY_def PTYPE_TAG_ALLOCSESSION_def)
  have b: "bit (t OR 2 ^ 16) k \<longleftrightarrow> bit t k \<or> k = 16" for k unfolding bit_or_iff bit_exp_iff by auto
  show "has_tag (t OR PTYPE_TAG_DONTCOPY) PTYPE_TAG_DONTCOPY" "\<not> has_tag (t OR PTYPE_TAG_DONTCOPY) PTYPE_TAG_ALLOCSESSION"
    unfolding has_tag_def e and_exp_eq_0_iff_not_bit using b high [of 17] by simp_all
  have ff: "(0xff :: nat) = mask 8" by (simp add: mask_eq_exp_minus_1)
  have low: "k < 8" if "bit t k" for k using high [of k] that by (simp add: not_le [symmetric]) blast
  show "(t OR PTYPE_TAG_DONTCOPY) AND 0xff = t"
    unfolding e ff by (rule bit_eqI) (use b low in \<open>auto simp: bit_and_iff bit_mask_iff\<close>)
qed

lemma client_tag_ok:
  assumes "tag_ok t"
  defines "type \<equiv> unat (t OR of_nat PTYPE_TAG_DONTCOPY)"
  shows "has_tag type PTYPE_TAG_DONTCOPY" "\<not> has_tag type PTYPE_TAG_ALLOCSESSION" "invalid_type (type AND 0xff)"
proof -
  have "t < 256" using assms(1) by (simp add: tag_ok_def)
  then have "unat t < unat (256 :: u32)" by (simp only: word_less_nat_alt)
  then have t: "unat t < 256" by simp
  have "type = unat t OR PTYPE_TAG_DONTCOPY"
    by (simp add: type_def unsigned_or_eq unsigned_of_nat PTYPE_TAG_DONTCOPY_def take_bit_nat_eq_self)
  then show "has_tag type PTYPE_TAG_DONTCOPY" "\<not> has_tag type PTYPE_TAG_ALLOCSESSION" "invalid_type (type AND 0xff)"
    using tag_and_or [OF t] assms(1) by (simp_all add: tag_ok_def)
qed

lemma text_tag_ok:
  "has_tag (PTYPE_TEXT OR PTYPE_TAG_DONTCOPY) PTYPE_TAG_DONTCOPY" "\<not> has_tag (PTYPE_TEXT OR PTYPE_TAG_DONTCOPY) PTYPE_TAG_ALLOCSESSION"
  "invalid_type ((PTYPE_TEXT OR PTYPE_TAG_DONTCOPY) AND 0xff)" "\<not> has_tag PTYPE_TEXT PTYPE_TAG_ALLOCSESSION" "invalid_type (PTYPE_TEXT AND 0xff)"
proof -
  have t: "PTYPE_TEXT < 256" "invalid_type PTYPE_TEXT" by (simp_all add: PTYPE_TEXT_def invalid_type_def PTYPE_SYSTEM_def PTYPE_HARBOR_def)
  show "has_tag (PTYPE_TEXT OR PTYPE_TAG_DONTCOPY) PTYPE_TAG_DONTCOPY" "\<not> has_tag (PTYPE_TEXT OR PTYPE_TAG_DONTCOPY) PTYPE_TAG_ALLOCSESSION"
    "invalid_type ((PTYPE_TEXT OR PTYPE_TAG_DONTCOPY) AND 0xff)"
    using tag_and_or [OF t(1)] t(2) by simp_all
  show "\<not> has_tag PTYPE_TEXT PTYPE_TAG_ALLOCSESSION" "invalid_type (PTYPE_TEXT AND 0xff)"
    using t(2) by (simp_all add: PTYPE_TEXT_def has_tag_def)
qed

lemma report_ok:
  assumes "gate_ok H S" "length s \<le> 1023"
  shows "\<exists>n. report W s S = Inr (S\<lparr>gs_node := n\<rparr>) \<and> up H n"
proof (cases "ga_watchdog (gs_gate S) = 0")
  case True
  then show ?thesis using gate_okD(2) [OF assms(1)] by (intro exI [of _ "gs_node S"]) (simp add: report_def)
next
  case False
  have "unat (of_int (int (length s)) :: u64) \<le> length (take 1023 (c_bytes s) @ [0])"
    using assms(2) by (simp add: c_bytes_def unsigned_of_nat take_bit_nat_less_eq_self le_SucI)
  then show ?thesis using gate_send_ok [OF assms(1) disjI2 text_tag_ok(4,5)] False by (simp add: report_def)
qed

section \<open>Packets\<close>

text \<open>Reading keeps the other buffers of the pool and does not change the header.\<close>

lemma forward_packet_ok:
  assumes ok: "gate_ok H S" and o: "open_slot fd i S" and fd: "\<bar>fd\<bar> < 2 ^ 31" and s: "stream_ok (other_nodes i S) db mp" and n: "up H n"
    and len: "0 < k" "k \<le> int (length (db_bytes db))"
  shows "\<exists>db' mp' n'. forward_packet W i k (with_stream i db mp n S) = Inr (with_stream i db' mp' n' S) \<and>
    stream_ok (other_nodes i S) db' mp' \<and> length (db_bytes db') \<le> length (db_bytes db) \<and> up H n'"
proof -
  let ?c = "ga_conn (gs_gate S) ! nat i"
  have v: "valid_conn i S" "cn_id ?c = fd" using open_slotD(1,2) [OF ok o] .
  note ws = with_stream_conn [OF v(1)] and st = gate_ok_stream [OF ok o]
  obtain db' mp' where d: "databuffer_read db mp k = Inr (take (nat k) (db_bytes db), db', mp')" "stream_ok (other_nodes i S) db' mp'"
    "db_bytes db' = drop (nat k) (db_bytes db)" using stream_read [OF s len] by blast
  have ok': "gate_ok H (with_stream i db' mp' n S)" by (rule st(1) [OF d(2) n])
  have "length (show_int fd) \<le> 11" using printed_lengths(5) [OF fd] .
  then have pre: "\<exists>b. sprintf 32 (show_int fd @ '' data '') = Inr b" by (simp add: sprintf_def)
  have client: "\<exists>n'. gate_send W source destination (unat (ga_client_tag (gs_gate S) OR of_nat PTYPE_TAG_DONTCOPY)) fd data sz (with_stream i db' mp' n S) =
      Inr (with_stream i db' mp' n' S) \<and> up H n'" for source destination data sz
    using gate_send_ok [OF ok' disjI1] client_tag_ok [OF gate_okD(3) [OF ok]] by (simp add: ws)
  have dog: "\<exists>n'. gate_send W source destination (PTYPE_TEXT OR PTYPE_TAG_DONTCOPY) fd data sz (with_stream i db' mp' n S) =
      Inr (with_stream i db' mp' n' S) \<and> up H n'" for source destination data sz
    using gate_send_ok [OF ok' disjI1 text_tag_ok(2,3)] text_tag_ok(1) by (simp add: ws)
  let ?F = "forward_packet W i k (with_stream i db mp n S)"
  have "?F = Inr (with_stream i db mp n S) \<or> (\<exists>n'. ?F = Inr (with_stream i db' mp' n' S) \<and> up H n')"
  proof (cases "fd \<le> 0 \<or> ga_broker (gs_gate S) = 0 \<and> cn_agent ?c = 0 \<and> ga_watchdog (gs_gate S) = 0")
    case True
    then show ?thesis using v(2) by (auto simp: forward_packet_def ws Let_def)
  next
    case False
    obtain b where "sprintf 32 (show_int fd @ '' data '') = Inr b" using pre by blast
    then show ?thesis
      using False v(2) d(1) client dog by (simp add: forward_packet_def ws Let_def del: append.simps append_assoc)
  qed
  then show ?thesis using s n d(2,3) by (elim disjE exE conjE) (fastforce intro: exI)+
qed

text \<open>The header as it comes: what is announced may be anything, also negative.\<close>

lemma readheader_ok:
  assumes s: "stream_ok M db mp" and hs: "hs \<in> {2, 4}"
  shows "\<exists>k db' mp'. databuffer_readheader db mp hs = Inr (k, db', mp') \<and> stream_ok M db' mp' \<and>
    (0 \<le> k \<longrightarrow> k \<le> int (length (db_bytes db')) \<and> db_header db' = k \<and>
       (if db_header db = 0 then length (db_bytes db') < length (db_bytes db) else db_bytes db' = db_bytes db))"
proof (cases "db_header db = 0 \<and> hs \<le> db_size db")
  case True
  then obtain db1 mp1 where d: "databuffer_read db mp hs = Inr (take (nat hs) (db_bytes db), db1, mp1)" "stream_ok M db1 mp1"
    "db_bytes db1 = drop (nat hs) (db_bytes db)" using stream_read [OF s, of hs] hs db_size_bytes [OF s] by auto
  let ?db = "db1\<lparr>db_header := header_value hs (take (nat hs) (db_bytes db))\<rparr>"
  have "length (db_bytes ?db) < length (db_bytes db)" using d(3) True hs db_size_bytes [OF s] by auto
  then show ?thesis
    using True d(1,2) db_size_bytes [OF d(2)]
    by (cases "db_size db1 < db_header ?db") (auto simp: databuffer_readheader_def Let_def)
next
  case False
  then show ?thesis using s db_size_bytes [OF s] by (auto simp: databuffer_readheader_def Let_def)
qed

definition turns :: "databuffer \<Rightarrow> nat" where
  "turns db = (if db_header db = 0 then 0 else 1) + length (db_bytes db)"

lemma packet_loop_ok:
  assumes ok: "gate_ok H S" and o: "open_slot fd i S" and fd: "\<bar>fd\<bar> < 2 ^ 31"
    and "stream_ok (other_nodes i S) db mp" "up H n" "turns db < fuel"
  shows "\<exists>S'. packet_loop W fuel i fd (with_stream i db mp n S) = Inr S' \<and> gate_ok H S'"
  using assms(4-6)
proof (induction fuel arbitrary: db mp n)
  case (Suc fuel)
  have v: "valid_conn i S" using open_slotD(1) [OF ok o] .
  note ws = with_stream_conn [OF v] and st = gate_ok_stream [OF ok o]
  have hs: "ga_header_size (gs_gate S) \<in> {2, 4}" using gate_okD(1) [OF ok] by (simp add: gate_data_ok_def)
  obtain k db1 mp1 where d: "databuffer_readheader db mp (ga_header_size (gs_gate S)) = Inr (k, db1, mp1)" "stream_ok (other_nodes i S) db1 mp1"
    and pos: "0 \<le> k \<Longrightarrow> k \<le> int (length (db_bytes db1)) \<and> db_header db1 = k \<and>
       (if db_header db = 0 then length (db_bytes db1) < length (db_bytes db) else db_bytes db1 = db_bytes db)"
    using readheader_ok [OF Suc.prems(1) hs] by blast
  note step = packet_loop_step [OF v d(1), of W fuel fd n]
  consider "k < 0" | "k = 0" | "0 < k" "k < 0x1000000" | "0x1000000 \<le> k" by linarith
  then show ?case
  proof cases
    case 1
    then show ?thesis using step st(1) [OF d(2) Suc.prems(2)] by simp
  next
    case 2
    then have "turns db1 < fuel" using pos Suc.prems(3) by (auto simp: turns_def split: if_splits)
    from Suc.IH [OF d(2) Suc.prems(2) this] 2 show ?thesis unfolding step by simp
  next
    case 3
    obtain db2 mp2 n2 where f: "forward_packet W i k (with_stream i db1 mp1 n S) = Inr (with_stream i db2 mp2 n2 S)"
      "stream_ok (other_nodes i S) db2 mp2" "length (db_bytes db2) \<le> length (db_bytes db1)" "up H n2"
      using forward_packet_ok [OF ok o fd d(2) Suc.prems(2)] 3 pos by (meson less_imp_le)
    have s3: "stream_ok (other_nodes i S) (databuffer_reset db2) mp2" using f(2) by (simp add: databuffer_reset_def)
    have "turns (databuffer_reset db2) < fuel"
      using f(3) pos 3(1) Suc.prems(3) by (auto simp: turns_def databuffer_reset_def split: if_splits)
    from Suc.IH [OF s3 f(4) this] show ?thesis unfolding step using 3 f(1) by (simp add: ws)
  next
    case 4
    let ?S = "with_stream i empty_buffer (snd (databuffer_clear db1 mp1)) n S"
    have "pool_ok (other_nodes i S) (snd (databuffer_clear db1 mp1))" using d(2) by (intro clear_pool) (simp add: stream_ok_def)
    then have "gate_ok H ?S" by (intro st(1) Suc.prems(2)) (simp add: stream_ok_def)
    then have c: "gate_ok H (request (Socket_close fd) ?S)" by simp
    from gate_error_ok [OF c] obtain n' where "gate_error W ''Recv socket message > 16M'' (request (Socket_close fd) ?S) = Inr ((request (Socket_close fd) ?S)\<lparr>gs_node := n'\<rparr>)" "up H n'" by blast
    then show ?thesis unfolding step using 4 gate_ok_node [OF c] by simp
  qed
qed simp

section \<open>Connections\<close>

lemma lookup_cases:
  assumes "gate_ok H S"
  obtains (known) i where "gate_lookup fd S = Inr i" "0 \<le> i" "open_slot fd i S"
    | (unknown) "gate_lookup fd S = Inr (- 1)" "hashid_ids (ga_hash (gs_gate S)) fd = None"
proof -
  have "hashid_ok (ga_hash (gs_gate S))" using gate_okD(1) [OF assms] by (simp add: gate_data_ok_def)
  then have l: "gate_lookup fd S = Inr (case hashid_ids (ga_hash (gs_gate S)) fd of None \<Rightarrow> - 1 | Some i \<Rightarrow> int i)"
    unfolding gate_lookup_def by (rule hashid.lookup_ids)
  show thesis
  proof (cases "hashid_ids (ga_hash (gs_gate S)) fd")
    case None
    then show thesis using l unknown by simp
  next
    case (Some i)
    then show thesis using l known [of "int i"] by (simp add: open_slot_def)
  qed
qed

lemma dispatch_message_data_ok:
  assumes ok: "gate_ok H S" and o: "open_slot fd i S" and fd: "\<bar>fd\<bar> < 2 ^ 31" and d: "d \<noteq> []"
  shows "\<exists>S'. gate_dispatch_message W i fd d S = Inr S' \<and> gate_ok H S'"
proof -
  let ?c = "ga_conn (gs_gate S) ! nat i"
  note v = open_slotD [OF ok o]
  obtain db mp where push: "databuffer_push (cn_buffer ?c) (ga_mp (gs_gate S)) d = (db, mp)" by fastforce
  have s: "stream_ok (other_nodes i S) db mp" using databuffer.push_pending [OF v(3) d] push by simp
  have c: "conn_at i S = Inr ?c" using v(1) by (simp add: conn_at_def valid_conn_def)
  have "turns db < nat (db_size db) + 2" using db_size_bytes [OF s] by (simp add: turns_def)
  from packet_loop_ok [OF ok o fd s gate_okD(2) [OF ok] this] obtain S' where
    S': "packet_loop W (nat (db_size db) + 2) i fd (with_stream i db mp (gs_node S) S) = Inr S'" "gate_ok H S'" by blast
  have "buffer_put i ?c (db, mp) S = with_stream i db mp (gs_node S) S" by (simp add: with_stream_def buffer_put_def conn_put_def)
  then show ?thesis using c push S' by (simp add: gate_dispatch_message_def Let_def del: packet_loop.simps)
qed

text \<open>A slot of the table is taken and its connection opened.\<close>

lemma accept_data_ok:
  assumes d: "gate_data_ok g" and new: "hashid_ids (ga_hash g) fd = None" and h: "hashid_ok hash" "length (hi_id hash) = length (hi_id (ga_hash g))"
      "hashid_ids hash = (hashid_ids (ga_hash g))(fd \<mapsto> i)" "\<forall>y. hashid_ids (ga_hash g) y \<noteq> Some i"
    and c: "cn_id c = fd" "cn_buffer c = empty_buffer"
  shows "i < length (ga_conn g)" "gate_data_ok (g\<lparr>ga_hash := hash, ga_conn := (ga_conn g)[i := c]\<rparr>)"
proof -
  have len: "length (ga_conn g) = length (hi_id (ga_hash g))" using d by (simp add: gate_data_ok_def)
  show i: "i < length (ga_conn g)" using hashid.slots [OF h(1), of fd i] h(2,3) len by simp
  have fresh: "ga_conn g ! i = fresh_connection" using d h(4) i unfolding gate_data_ok_def by blast
  have nodes: "conn_nodes ((ga_conn g)[i := c]) = conn_nodes (ga_conn g)"
  proof -
    have "conn_nodes ((ga_conn g)[i := c]) = conn_nodes (take i (ga_conn g)) + conn_nodes (drop (Suc i) (ga_conn g))"
      using i c(2) by (simp add: upd_conv_take_nth_drop)
    moreover have "conn_nodes (ga_conn g) = conn_nodes (take i (ga_conn g)) + conn_nodes (drop (Suc i) (ga_conn g))"
      using arg_cong [OF id_take_nth_drop [OF i], of conn_nodes] fresh by (simp add: fresh_connection_def)
    ultimately show ?thesis by simp
  qed
  have ids: "cn_id (ga_conn g ! j) = x" if "hashid_ids (ga_hash g) x = Some j" for x j using d that unfolding gate_data_ok_def by blast
  show "gate_data_ok (g\<lparr>ga_hash := hash, ga_conn := (ga_conn g)[i := c]\<rparr>)"
    unfolding gate_data_ok_def
  proof (intro conjI allI impI ballI)
    show "cn_id (ga_conn (g\<lparr>ga_hash := hash, ga_conn := (ga_conn g)[i := c]\<rparr>) ! j) = x"
      if "hashid_ids (ga_hash (g\<lparr>ga_hash := hash, ga_conn := (ga_conn g)[i := c]\<rparr>)) x = Some j" for x j
      using that ids h(3,4) c(1) i by (cases "x = fd") (auto simp: nth_list_update split: if_splits)
    show "ga_conn (g\<lparr>ga_hash := hash, ga_conn := (ga_conn g)[i := c]\<rparr>) ! j = fresh_connection"
      if "j < length (ga_conn (g\<lparr>ga_hash := hash, ga_conn := (ga_conn g)[i := c]\<rparr>))"
        "\<forall>fd. hashid_ids (ga_hash (g\<lparr>ga_hash := hash, ga_conn := (ga_conn g)[i := c]\<rparr>)) fd \<noteq> Some j" for j
    proof -
      have "j \<noteq> i" using that(2) [rule_format, of fd] h(3) by auto
      moreover have "\<forall>x. hashid_ids (ga_hash g) x \<noteq> Some j"
      proof
        fix x
        show "hashid_ids (ga_hash g) x \<noteq> Some j" using that(2) [rule_format, of x] h(3) new by (cases "x = fd") auto
      qed
      ultimately show ?thesis using that(1) d by (simp add: gate_data_ok_def)
    qed
    show "db_ok (cn_buffer x)" if "x \<in> set (ga_conn (g\<lparr>ga_hash := hash, ga_conn := (ga_conn g)[i := c]\<rparr>))" for x
      using that d c(2) set_update_subset_insert [of "ga_conn g" i c] by (auto simp: gate_data_ok_def)
  qed (use d h len nodes in \<open>simp_all add: gate_data_ok_def\<close>)
qed

text \<open>A slot is given back: its nodes are free and the connection is as new.\<close>

lemma close_data_ok:
  assumes ok: "gate_ok H S" and o: "open_slot fd i S" and h: "hashid_ok hash" "length (hi_id hash) = length (hi_id (ga_hash (gs_gate S)))"
      "hashid_ids hash = (hashid_ids (ga_hash (gs_gate S)))(fd := None)"
    and mp: "mp = snd (databuffer_clear (cn_buffer (ga_conn (gs_gate S) ! nat i)) (ga_mp (gs_gate S)))"
  shows "gate_data_ok ((gs_gate S)\<lparr>ga_hash := hash, ga_conn := (ga_conn (gs_gate S))[nat i := fresh_connection], ga_mp := mp\<rparr>)"
    (is "gate_data_ok ?g")
proof -
  have d: "gate_data_ok (gs_gate S)" by (rule gate_okD(1) [OF ok])
  note v = open_slotD [OF ok o]
  have used: "hashid_ids (ga_hash (gs_gate S)) fd = Some (nat i)" using o by (simp add: open_slot_def)
  have other: "j \<noteq> nat i" if "hashid_ids hash x = Some j" for x j
    using that h(3) used hashid.slots_inj [of "ga_hash (gs_gate S)" x j fd] d by (auto simp: gate_data_ok_def split: if_splits)
  have pool: "pool_ok (other_nodes i S) mp" using v(3) unfolding mp by (intro clear_pool) (simp add: stream_ok_def)
  show ?thesis
    unfolding gate_data_ok_def
  proof (intro conjI allI impI ballI)
    show "cn_id (ga_conn ?g ! j) = x" if "hashid_ids (ga_hash ?g) x = Some j" for x j
      using that other [of x j] d h(3) by (auto simp: gate_data_ok_def split: if_splits)
    show "ga_conn ?g ! j = fresh_connection" if "j < length (ga_conn ?g)" "\<forall>x. hashid_ids (ga_hash ?g) x \<noteq> Some j" for j
    proof (cases "j = nat i")
      case False
      have "hashid_ids (ga_hash (gs_gate S)) x \<noteq> Some j" for x
        using that(2) [rule_format, of x] h(3) used False by (cases "x = fd") auto
      then show ?thesis using that(1) d False by (simp add: gate_data_ok_def)
    qed (use that in simp)
    show "db_ok (cn_buffer x)" if "x \<in> set (ga_conn ?g)" for x
      using that d set_update_subset_insert [of "ga_conn (gs_gate S)" "nat i" fresh_connection]
      by (auto simp: gate_data_ok_def fresh_connection_def)
    show "pool_ok (conn_nodes (ga_conn ?g)) (ga_mp ?g)"
      using pool conn_nodes_upd(1) [OF v(1)] by (simp add: fresh_connection_def)
  qed (use d h in \<open>simp_all add: gate_data_ok_def\<close>)
qed

lemma accept_ok:
  assumes ok: "gate_ok H S" and new: "hashid_ids (ga_hash (gs_gate S)) fd = None" "hashid_fits (ga_hash (gs_gate S)) fd" "\<not> hashid_full (ga_hash (gs_gate S))"
  shows "\<exists>S'. accept_connection W fd name S = Inr S' \<and> gate_ok H S'"
proof -
  let ?g = "gs_gate S"
  have d: "gate_data_ok ?g" by (rule gate_okD(1) [OF ok])
  then have hok: "hashid_ok (ga_hash ?g)" by (simp add: gate_data_ok_def)
  obtain i hash where h: "hashid_insert (ga_hash ?g) fd = Inr (int i, hash)" "\<forall>y. hashid_ids (ga_hash ?g) y \<noteq> Some i" "hashid_ok hash"
    "length (hi_id hash) = length (hi_id (ga_hash ?g))" "hashid_ids hash = (hashid_ids (ga_hash ?g))(fd \<mapsto> i)"
    using hashid.insert_ids [OF hok new(1,3,2)] by blast
  define c where "c = (ga_conn ?g ! i)\<lparr>cn_id := fd, cn_remote_name := take 31 name\<rparr>"
  have i: "i < length (ga_conn ?g)" using accept_data_ok(1) [OF d new(1) h(3,4,5,2), of "fresh_connection\<lparr>cn_id := fd\<rparr>"] by (simp add: fresh_connection_def)
  have "ga_conn ?g ! i = fresh_connection" using d h(2) i unfolding gate_data_ok_def by blast
  then have c: "cn_id c = fd" "cn_buffer c = empty_buffer" by (simp_all add: c_def fresh_connection_def)
  define S1 where "S1 = S\<lparr>gs_gate := ?g\<lparr>ga_hash := hash, ga_conn := (ga_conn ?g)[i := c]\<rparr>\<rparr>"
  have ok1: "gate_ok H S1" using accept_data_ok(2) [OF d new(1) h(3,4,5,2) c] gate_okD [OF ok] by (simp add: gate_ok_def S1_def)
  have "length (show_int fd) \<le> 11" using printed_lengths(5) [of fd] new(2) hok by (simp add: hashid_fits_def hashid_ok_def)
  moreover have "length (c_string (take 31 name)) \<le> 31"
    using length_takeWhile_le [of "\<lambda>c. c \<noteq> CHR 0x00" "take 31 name"] by (simp add: c_string_def)
  ultimately have "length (show_int fd @ '' open '' @ show_int fd @ '' '' @ c_string (cn_remote_name c) @ '':0'') \<le> 1023" by (simp add: c_def)
  from report_ok [OF ok1 this, of W] obtain n where n: "report W (show_int fd @ '' open '' @ show_int fd @ '' '' @ c_string (cn_remote_name c) @ '':0'') S1 = Inr (S1\<lparr>gs_node := n\<rparr>)" "up H n" by blast
  note ok2 = gate_ok_node [OF ok1 n(2)]
  from gate_error_ok [OF ok2, of W "''socket open: '' @ fmt_x (of_int fd)"] obtain n2 where
    n2: "gate_error W (''socket open: '' @ fmt_x (of_int fd)) (S1\<lparr>gs_node := n\<rparr>) = Inr (S1\<lparr>gs_node := n2\<rparr>)" "up H n2" by auto
  have "accept_connection W fd name S = gate_error W (''socket open: '' @ fmt_x (of_int fd)) (S1\<lparr>gs_node := n\<rparr>)"
    unfolding accept_connection_def using h(1) i n(1) by (simp add: conn_at_def conn_put_def S1_def c_def Let_def)
  then show ?thesis using n2 gate_ok_node [OF ok1 n2(2)] by simp
qed

lemma close_ok:
  assumes ok: "gate_ok H S" and fd: "fd \<noteq> - 1" "\<bar>fd\<bar> < 2 ^ 31"
  shows "\<exists>S'. close_connection W fd S = Inr S' \<and> gate_ok H S'"
proof -
  let ?g = "gs_gate S"
  have hok: "hashid_ok (ga_hash ?g)" using gate_okD(1) [OF ok] by (simp add: gate_data_ok_def)
  obtain hash where h: "hashid_remove (ga_hash ?g) fd = Inr (case hashid_ids (ga_hash ?g) fd of None \<Rightarrow> - 1 | Some i \<Rightarrow> int i, hash)" "hashid_ok hash"
    "length (hi_id hash) = length (hi_id (ga_hash ?g))" "hashid_ids hash = (hashid_ids (ga_hash ?g))(fd := None)"
    using hashid.remove_ids [OF hok fd(1)] by blast
  show ?thesis
  proof (cases "hashid_ids (ga_hash ?g) fd")
    case None
    then have "hashid_ids hash = hashid_ids (ga_hash ?g)" using h(4) by (simp add: fun_upd_idem)
    then have "gate_ok H (S\<lparr>gs_gate := ?g\<lparr>ga_hash := hash\<rparr>\<rparr>)" using ok h(2,3) by (simp add: gate_ok_def gate_data_ok_def)
    then show ?thesis using h(1) None by (simp add: close_connection_def)
  next
    case (Some i)
    then have o: "open_slot fd (int i) S" by (simp add: open_slot_def)
    define mp where "mp = snd (databuffer_clear (cn_buffer (ga_conn ?g ! i)) (ga_mp ?g))"
    define S1 where "S1 = S\<lparr>gs_gate := ?g\<lparr>ga_hash := hash, ga_conn := (ga_conn ?g)[i := fresh_connection], ga_mp := mp\<rparr>\<rparr>"
    have ok1: "gate_ok H S1" using close_data_ok [OF ok o h(2-4), of mp] gate_okD [OF ok] by (simp add: gate_ok_def S1_def mp_def)
    have "length (show_int fd @ '' close'') \<le> 1023" using printed_lengths(5) [OF fd(2)] by simp
    from report_ok [OF ok1 this, of W] obtain n where n: "report W (show_int fd @ '' close'') S1 = Inr (S1\<lparr>gs_node := n\<rparr>)" "up H n" by blast
    have "i < length (ga_conn ?g)" using open_slotD(1) [OF ok o] by (simp add: valid_conn_def)
    then have "close_connection W fd S = report W (show_int fd @ '' close'') S1"
      unfolding close_connection_def using h(1) Some
      by (simp add: conn_at_def buffer_put_def conn_put_def S1_def mp_def Let_def fresh_connection_def)
    then show ?thesis using n gate_ok_node [OF ok1] by simp
  qed
qed

section \<open>Text commands\<close>

lemma memcmp_no_nul: "CHR 0x00 \<notin> set (take k buf) \<Longrightarrow> k \<le> length buf \<Longrightarrow> \<exists>b. memcmp_eq buf (lit @ [CHR 0x00]) k = Inr b"
proof (induction buf "lit @ [CHR 0x00]" k arbitrary: lit rule: memcmp_eq.induct)
  case (2 x xs y ys n)
  then show ?case by (cases lit) auto
qed auto

lemma forward_agent_ok:
  assumes "gate_ok H S"
  shows "\<exists>S'. forward_agent fd agent client S = Inr S' \<and> gate_ok H S'"
  using assms
proof (cases rule: lookup_cases [where fd = fd])
  case (known i)
  let ?c = "(ga_conn (gs_gate S) ! nat i)\<lparr>cn_agent := agent, cn_client := client\<rparr>"
  note v = open_slotD [OF assms known(3)]
  have "gate_data_ok ((gs_gate S)\<lparr>ga_conn := (ga_conn (gs_gate S))[nat i := ?c], ga_mp := ga_mp (gs_gate S)\<rparr>)"
    by (rule gate_ok_conn [OF assms known(3)]) (use v in simp_all)
  then have "gate_ok H (conn_put i ?c S)" using gate_okD [OF assms] by (simp add: gate_ok_def conn_put_def)
  then show ?thesis using known v(1) by (simp add: forward_agent_def conn_at_def valid_conn_def)
next
  case unknown
  then show ?thesis using assms by (simp add: forward_agent_def)
qed

lemma kick_start_ok:
  assumes "gate_ok H S"
  shows "\<exists>S'. ctrl_kick buf S = Inr S' \<and> gate_ok H S'" "\<exists>S'. ctrl_start buf S = Inr S' \<and> gate_ok H S'"
proof -
  let ?uid = "signed_take_bit 31 (strtol 10 (c_string buf))"
  obtain i where "gate_lookup ?uid S = Inr i" using assms by (cases rule: lookup_cases [where fd = ?uid]) auto
  then show "\<exists>S'. ctrl_kick buf S = Inr S' \<and> gate_ok H S'" "\<exists>S'. ctrl_start buf S = Inr S' \<and> gate_ok H S'"
    using assms by (simp_all add: ctrl_kick_def ctrl_start_def)
qed

lemma broker_ok:
  assumes ok: "gate_ok H S"
  shows "\<exists>S'. ctrl_broker W buf S = Inr S' \<and> gate_ok H S'"
proof -
  obtain c where c: "ga_ctx (gs_gate S) = Some c" "c \<in># g_refs H" using gate_okD(4) [OF ok] by blast
  have u: "up H (gs_node S)" by (rule gate_okD(2) [OF ok])
  have "ends snd H (gs_node S) (skynet_queryname W (Some c) name (gs_node S))" for name
    unfolding skynet_queryname_def using u c(2) by (auto intro!: ends_bind [where p = "\<lambda>n. n"] ends_intros)
  then obtain h n where n: "skynet_queryname W (Some c) (c_string buf) (gs_node S) = Inr (h, n)" "keeps H (gs_node S) n" by (fastforce simp: ends_def)
  have "gate_ok H (S\<lparr>gs_gate := (gs_gate S)\<lparr>ga_broker := h\<rparr>, gs_node := n\<rparr>)"
    using ok up_keeps [OF u n(2)] by (simp add: gate_ok_def gate_data_ok_def)
  then show ?thesis using n(1) c(1) by (simp add: ctrl_broker_def)
qed

lemma ctrl_ok:
  assumes ok: "gate_ok H S" and nul: "CHR 0x00 \<notin> set msg"
  shows "\<exists>S'. gate_ctrl W msg S = Inr S' \<and> gate_ok H S'"
proof -
  let ?i = "length (takeWhile (\<lambda>c. c \<noteq> CHR '' '') msg)"
  have le: "?i \<le> length msg" by (rule length_takeWhile_le)
  have "\<exists>b. memcmp_lit (msg @ [CHR 0x00]) lit ?i = Inr b" for lit
    unfolding memcmp_lit_def literal_def
    by (rule memcmp_no_nul) (use le nul in \<open>auto dest: in_set_takeD\<close>)
  then obtain b where b: "\<And>lit. memcmp_lit (msg @ [CHR 0x00]) lit ?i = Inr (b lit)" by metis
  have cl: "gate_ok H (ctrl_close S)"
    using ok by (auto simp: ctrl_close_def gate_ok_def gate_data_ok_def)
  have er: "\<exists>S'. gate_error W s S = Inr S' \<and> gate_ok H S'" for s using gate_error_ok [OF ok, of W s] gate_ok_node [OF ok] by blast
  have fw: "\<exists>S'. (case forward_args buf of None \<Rightarrow> Inr S | Some (fd, agent, client) \<Rightarrow> forward_agent fd agent client S) = Inr S' \<and> gate_ok H S'" for buf
    using forward_agent_ok [OF ok] ok by (auto split: option.split)
  show ?thesis
    unfolding gate_ctrl_def Let_def b
    using ok kick_start_ok [OF ok] broker_ok [OF ok] cl er fw by simp
qed

section \<open>Every message\<close>

text \<open>
  What the socket server and the other services see to: socket ids are \<^verbatim>\<open>int\<close>s other than -1, data
  are not empty, connections are accepted on the socket of the gate under a new id, texts have no NUL.
\<close>

fun gate_msg_ok :: "gate_message \<Rightarrow> gate_state \<Rightarrow> bool" where
  "gate_msg_ok (Text msg) S \<longleftrightarrow> 0 \<notin> set msg"
| "gate_msg_ok (Client msg) S \<longleftrightarrow> True"
| "gate_msg_ok (Socket (Socket_DATA fd d)) S \<longleftrightarrow> \<bar>fd\<bar> < 2 ^ 31 \<and> d \<noteq> []"
| "gate_msg_ok (Socket (Socket_CLOSE fd)) S \<longleftrightarrow> fd \<noteq> - 1 \<and> \<bar>fd\<bar> < 2 ^ 31"
| "gate_msg_ok (Socket (Socket_ERROR fd)) S \<longleftrightarrow> fd \<noteq> - 1 \<and> \<bar>fd\<bar> < 2 ^ 31"
| "gate_msg_ok (Socket (Socket_ACCEPT l fd name)) S \<longleftrightarrow>
     l = ga_listen_id (gs_gate S) \<and> hashid_ids (ga_hash (gs_gate S)) fd = None \<and> hashid_fits (ga_hash (gs_gate S)) fd"
| "gate_msg_ok _ S \<longleftrightarrow> True"

lemma error_then_ok: "gate_ok H S \<Longrightarrow> \<exists>S'. rbind (gate_error W s S) (\<lambda>S. Inr (request r S)) = Inr S' \<and> gate_ok H S'"
  using gate_error_ok [of H S W s] gate_ok_node [of H S] by fastforce

lemma socket_message_ok:
  assumes ok: "gate_ok H S" and m: "gate_msg_ok (Socket m) S"
  shows "\<exists>S'. dispatch_socket_message W m S = Inr S' \<and> gate_ok H S'"
proof (cases m)
  case (Socket_DATA fd d)
  show ?thesis using ok
  proof (cases rule: lookup_cases [where fd = fd])
    case (known i)
    then show ?thesis using dispatch_message_data_ok [OF ok known(3)] m Socket_DATA by simp
  next
    case unknown
    then show ?thesis using error_then_ok [OF ok] Socket_DATA by simp
  qed
next
  case (Socket_CONNECT fd)
  show ?thesis using ok
  proof (cases rule: lookup_cases [where fd = fd])
    case (known i)
    then show ?thesis using ok Socket_CONNECT by simp
  next
    case unknown
    then show ?thesis using ok error_then_ok [OF ok] Socket_CONNECT by simp
  qed
next
  case (Socket_ACCEPT l fd name)
  then show ?thesis using m ok accept_ok [OF ok] by (cases "hashid_full (ga_hash (gs_gate S))") (simp_all add: cassert_def)
next
  case (Socket_WARNING fd ud)
  then show ?thesis using gate_error_ok [OF ok] gate_ok_node [OF ok] by fastforce
qed (use ok m close_ok [OF ok] in simp_all)

lemma client_ok:
  assumes ok: "gate_ok H S"
  shows "\<exists>b S'. gate_client W source msg S = Inr (b, S') \<and> gate_ok H S'"
proof -
  have e: "\<exists>b S'. rbind (gate_error W s S) (\<lambda>S. Inr (False, S)) = Inr (b, S') \<and> gate_ok H S'" for s
    using gate_error_ok [OF ok, of W s] gate_ok_node [OF ok] by fastforce
  show ?thesis
  proof (cases "length msg \<le> 4")
    case True
    then show ?thesis using e by (simp add: gate_client_def)
  next
    case False
    let ?uid = "sint (client_uid (drop (length msg - 4) msg))"
    show ?thesis using ok
    proof (cases rule: lookup_cases [where fd = ?uid])
      case (known i)
      then show ?thesis using False ok by (auto simp: gate_client_def Let_def)
    next
      case unknown
      then show ?thesis using False e by (simp add: gate_client_def Let_def)
    qed
  qed
qed

lemma gate_cb_ok:
  assumes ok: "gate_ok H S" and m: "gate_msg_ok m S"
  shows "\<exists>b S'. gate_cb W source m S = Inr (b, S') \<and> gate_ok H S'"
proof (cases m)
  case (Text msg)
  have "CHR 0x00 \<notin> set (map (\<lambda>b. char_of (unat b)) msg)"
  proof
    assume "CHR 0x00 \<in> set (map (\<lambda>b. char_of (unat b)) msg)"
    then obtain b where b: "b \<in> set msg" "char_of (unat b) = CHR 0x00" by auto
    then have "of_char (char_of (unat b)) = (0 :: nat)" by simp
    then have "unat b mod 256 = 0" by (simp only: of_char_of)
    moreover have "unat b < 256" using unsigned_less [of b, where ?'a = nat] by simp
    ultimately have "b = 0" by (simp add: unat_eq_zero)
    then show False using b(1) m Text by simp
  qed
  from ctrl_ok [OF ok this, of W] obtain S' where "gate_ctrl W (map (\<lambda>b. char_of (unat b)) msg) S = Inr S'" "gate_ok H S'" by blast
  then show ?thesis using Text by auto
next
  case (Socket sm)
  obtain S' where "dispatch_socket_message W sm S = Inr S'" "gate_ok H S'" using socket_message_ok [OF ok] m Socket by blast
  then show ?thesis using Socket by auto
qed (use ok client_ok [OF ok] in auto)

end
