(* ===== verification/GateProps.thy ===== *)
theory GateProps
  imports GateOk NodeProps
begin

text \<open>
  The properties of the gate: packets are forwarded as they were framed, no message makes the gate
  fault, and two ways in which a connection gets stuck or out of step.
\<close>

section \<open>A small gate\<close>

text \<open>A gate in the service of the small node, with one connection, socket 5, in the second of its two slots.\<close>

definition demo_conn :: connection where
  "demo_conn = fresh_connection\<lparr>cn_id := 5, cn_agent := 0x1000001\<rparr>"

definition demo_gate :: "node \<Rightarrow> gate_state" where
  "demo_gate n =
     \<lparr>gs_gate = gate_create\<lparr>ga_ctx := Some 0, ga_listen_id := 7, ga_watchdog := 0x1000001, ga_client_tag := 3, ga_header_size := 2,
        ga_max_connection := 2, ga_hash := one_id, ga_conn := [fresh_connection, demo_conn]\<rparr>,
      gs_node = n, gs_out = []\<rparr>"

lemma demo_gate_simps [simp]:
  "ga_ctx (gs_gate (demo_gate n)) = Some 0" "ga_listen_id (gs_gate (demo_gate n)) = 7" "ga_watchdog (gs_gate (demo_gate n)) = 0x1000001"
  "ga_client_tag (gs_gate (demo_gate n)) = 3" "ga_header_size (gs_gate (demo_gate n)) = 2" "ga_hash (gs_gate (demo_gate n)) = one_id"
  "ga_conn (gs_gate (demo_gate n)) = [fresh_connection, demo_conn]" "ga_mp (gs_gate (demo_gate n)) = \<lparr>mp_pool = 0, mp_freelist = []\<rparr>"
  "gs_node (demo_gate n) = n" "gs_out (demo_gate n) = []" "ga_broker (gs_gate (demo_gate n)) = 0"
  by (simp_all add: demo_gate_def gate_create_def)

lemma one_id_ids: "hashid_ids one_id = [5 \<mapsto> 1]"
proof (rule ext)
  fix x
  have "hashid_ids one_id x = Some i \<longleftrightarrow> x = 5 \<and> i = 1" for i
    unfolding hashid_ids_Some [OF one_id_ok] by (auto simp: used_def one_id_def empty_node_def less_Suc_eq)
  then show "hashid_ids one_id x = [5 \<mapsto> 1] x" by (cases "hashid_ids one_id x") auto
qed

lemma empty_pool: "pool_ok {#} \<lparr>mp_pool = 0, mp_freelist = []\<rparr>"
  by (simp add: pool_ok_def)

lemma demo_data_ok: "gate_data_ok (gs_gate (demo_gate n))"
proof -
  have "length (hi_id one_id) = 2" by (simp add: one_id_def)
  then show ?thesis
    using one_id_ok empty_pool by (auto simp: gate_data_ok_def one_id_ids demo_conn_def fresh_connection_def less_Suc_eq nth_Cons')
qed

lemma demo_gate_ok:
  assumes "node_ok (grabbing 0 demo_hands) n" "nd_REMOTE n \<noteq> None"
  shows "gate_ok (grabbing 0 demo_hands) (demo_gate n)"
  using assms demo_data_ok
  by (simp add: gate_ok_def up_def tag_ok_def invalid_type_def PTYPE_SYSTEM_def PTYPE_HARBOR_def)

section \<open>Packets\<close>

text \<open>
  C5: However the bytes of a connection are cut into pieces by the network, the gate sends each framed
  packet on exactly once, whole and in order: to the broker if there is one, else to the agent
  of the connection, else to the watchdog with the socket id in front; an empty packet is skipped.
  Afterwards the buffer is empty, its pool nodes are free again, and nothing else of the gate has changed.
\<close>

theorem gate_forwards_packets:
  assumes "hashid_lookup (ga_hash (gs_gate S)) fd = Inr i" "routed i S" "hs \<in> {2, 4}" "ga_header_size (gs_gate S) = int hs"
    "stream_ok M (cn_buffer (ga_conn (gs_gate S) ! nat i)) (ga_mp (gs_gate S))"
    "db_bytes (cn_buffer (ga_conn (gs_gate S) ! nat i)) = []" "db_header (cn_buffer (ga_conn (gs_gate S) ! nat i)) = 0"
    "concat pieces = concat (map (frame hs) packets)" "\<forall>d \<in> set pieces. d \<noteq> []" "\<forall>p \<in> set packets. packet_ok hs p"
  shows "\<exists>db mp. gate_run W (data_messages fd pieces) S =
      rbind (deliver_all W (gs_gate S) (ga_conn (gs_gate S) ! nat i) packets (gs_node S)) (\<lambda>n. Inr (with_stream i db mp n S)) \<and>
    stream_ok M db mp \<and> db_bytes db = [] \<and> db_header db = 0"
proof -
  let ?db = "cn_buffer (ga_conn (gs_gate S) ! nat i)"
  have v: "valid_conn i S" using assms(2) by (simp add: routed_def Let_def)
  have u: "unread hs ?db = []" "header_small hs ?db" using assms(6,7) by (simp_all add: unread_def header_small_def)
  have "head_partial hs [] packets" using assms(3) by (auto simp: head_partial_def split: list.split)
  then obtain db mp where d: "\<forall>n. gate_run W (data_messages fd pieces) (with_stream i ?db (ga_mp (gs_gate S)) n S) =
      rbind (deliver_all W (gs_gate S) (ga_conn (gs_gate S) ! nat i) packets n) (\<lambda>n'. Inr (with_stream i db mp n' S))"
    "stream_ok M db mp" "unread hs db = []"
    using pieces_arrive [OF assms(2,1,3,4,5) u(2), of pieces packets W] u(1) assms(8-10) by auto
  have "db_header db = 0" "db_bytes db = []" using d(3) assms(3) by (auto simp: unread_def simp flip: length_0_conv split: if_splits)
  then show ?thesis using d(1) [rule_format, of "gs_node S"] d(2) unfolding with_stream_conn(5) [OF v] by blast
qed

theorem gate_forwards_packets_witness:
  "\<exists>db mp. gate_run echo_world (data_messages 5 [[0], [2, 65], [66, 0, 1, 67]]) (demo_gate demo_node) =
      rbind (deliver_all echo_world (gs_gate (demo_gate demo_node)) demo_conn [[65, 66], [67]] demo_node) (\<lambda>n. Inr (with_stream 1 db mp n (demo_gate demo_node))) \<and>
    stream_ok {#} db mp \<and> db_bytes db = [] \<and> db_header db = 0"
proof -
  let ?S = "demo_gate demo_node"
  have "hashid_lookup one_id 5 = Inr 1" by code_simp
  moreover have "routed 1 ?S" by (simp add: routed_def valid_conn_def demo_conn_def)
  moreover have "stream_ok {#} empty_buffer \<lparr>mp_pool = 0, mp_freelist = []\<rparr>" using empty_pool by (simp add: stream_ok_def)
  moreover have "frame 2 [65, 66] = [0, 2, 65, 66]" "frame 2 [67] = [0, 1, 67]" by code_simp+
  moreover have "db_header empty_buffer = 0" by (simp add: empty_buffer_def)
  moreover have "packet_ok 2 [65, 66]" "packet_ok 2 [67]" by (simp_all add: packet_ok_def)
  ultimately show ?thesis
    using gate_forwards_packets [of ?S 5 1 2 "{#}" "[[0], [2, 65], [66, 0, 1, 67]]" "[[65, 66], [67]]" echo_world]
    by (simp add: demo_conn_def fresh_connection_def del: deliver_all.simps gate_run.simps)
qed

section \<open>Safety\<close>

text \<open>A gate that was initialised is consistent.\<close>

lemma fresh_buffer [simp]: "cn_buffer fresh_connection = empty_buffer"
  by (simp add: fresh_connection_def)

lemma conn_nodes_fresh: "conn_nodes (replicate k fresh_connection) = {#}"
  by (induction k) simp_all

lemma fresh_gate_ok:
  assumes "hashid_ok hash" "hashid_ids hash = Map.empty" "length (hi_id hash) = k" "hs \<in> {2, 4}" "ga_mp g = \<lparr>mp_pool = 0, mp_freelist = []\<rparr>"
    "ga_hash g = hash" "ga_conn g = replicate k fresh_connection" "ga_header_size g = hs"
  shows "gate_data_ok g"
  using assms empty_pool by (auto simp: gate_data_ok_def conn_nodes_fresh)

lemma start_listen_ok:
  assumes "gate_data_ok (gs_gate S)" "start_listen W listen a S = Inr (0, S')"
  shows "gate_data_ok (gs_gate S') \<and> gs_node S' = gs_node S \<and> ga_ctx (gs_gate S') = ga_ctx (gs_gate S) \<and> ga_client_tag (gs_gate S') = ga_client_tag (gs_gate S)"
  using assms by (auto simp: start_listen_def rbind_Inr_iff Let_def request_def gate_data_ok_def split: prod.splits if_splits)

lemma queryname_ends: "up H n \<Longrightarrow> c \<in># g_refs H \<Longrightarrow> ends snd H n (skynet_queryname W (Some c) name n)"
  unfolding skynet_queryname_def by (auto intro!: ends_bind [where p = "\<lambda>n. n"] ends_intros)

lemma callback_keeps: "up H n \<Longrightarrow> skynet_callback c cb n = Inr n' \<Longrightarrow> up H n'"
proof -
  assume u: "up H n" and "skynet_callback c cb n = Inr n'"
  then obtain x where x: "nd_ctx n c = Some x" "n' = ctx_put c (x\<lparr>cx_cb := cb\<rparr>) n"
    by (auto simp: skynet_callback_def ctx_get_def rbind_Inr_iff split: option.splits)
  then have "keeps H n n'" using put_keeps [of H n c x "x\<lparr>cx_cb := cb\<rparr>"] u by (simp add: up_def)
  then show "up H n'" by (rule up_keeps [OF u])
qed

lemma gate_init_ok:
  assumes u: "up H (gs_node S)" "c \<in># g_refs H" and g: "gs_gate S = gate_create" and i: "gate_init W listen cb c parm S = Inr (0, S')"
    and t: "tag_ok (ga_client_tag (gs_gate S'))" and mx: "\<And>p h w a t k. parm = Some p \<Longrightarrow> gate_args p = Some (h, w, a, t, k) \<Longrightarrow> k \<le> 2 ^ 30"
  shows "gate_ok H S'"
proof -
  have no: "gate_fail W c s T \<noteq> Inr (0, S')" for s T by (auto simp: gate_fail_def rbind_Inr_iff)
  obtain p h w a tag k where p: "parm = Some p" "gate_args p = Some (h, w, a, tag, k)" "0 < k" "h = CHR ''S'' \<or> h = CHR ''L''"
    using i no unfolding gate_init_def by (auto split: option.splits if_splits)
  obtain v n where q: "(if first_char w = CHR ''!'' then Inr (0, gs_node S) else skynet_queryname W (Some c) w (gs_node S)) = Inr (v, n)"
    using i no p unfolding gate_init_def by (auto simp: rbind_Inr_iff)
  have un: "up H n"
    using q u queryname_ends [OF u, of W w] up_keeps [OF u(1)] by (auto simp: ends_def split: if_splits)
  obtain hash where hash: "hashid_init k = Inr hash" "hashid_ok hash" "length (hi_id hash) = nat k" "hashid_ids hash = Map.empty"
    using init_ok [OF p(3) mx [OF p(1,2)]] by blast
  obtain n' T where T: "skynet_callback c (Some cb) n = Inr n'" "start_listen W listen a T = Inr (0, S')"
    "T = S\<lparr>gs_gate := (gs_gate S)\<lparr>ga_watchdog := v, ga_ctx := Some c, ga_hash := hash, ga_conn := replicate (nat k) fresh_connection,
      ga_max_connection := k, ga_client_tag := of_int (if tag = 0 then int PTYPE_CLIENT else tag),
      ga_header_size := (if h = CHR ''S'' then 2 else 4)\<rparr>, gs_node := n'\<rparr>"
    using i no p q hash(1) unfolding gate_init_def by (auto simp: rbind_Inr_iff Let_def split: if_splits)
  have "gate_data_ok (gs_gate T)"
    by (rule fresh_gate_ok [OF hash(2,4,3), of "if h = CHR ''S'' then 2 else 4"]) (simp_all add: T(3) g gate_create_def)
  from start_listen_ok [OF this T(2)] have "gate_data_ok (gs_gate S')" "gs_node S' = n'" "ga_ctx (gs_gate S') = Some c" by (simp_all add: T(3))
  then show ?thesis using t u(2) callback_keeps [OF un T(1)] by (simp add: gate_ok_def)
qed

inductive gate_reachable :: "world \<Rightarrow> gate_state \<Rightarrow> gate_state \<Rightarrow> bool" for W S0 where
  start: "gate_reachable W S0 S0"
| step: "gate_reachable W S0 S \<Longrightarrow> gate_msg_ok m S \<Longrightarrow> gate_cb W source m S = Inr (b, S') \<Longrightarrow> gate_reachable W S0 S'"

lemma gate_reachable_ok:
  assumes "gate_reachable W S0 S" "gate_ok H S0"
  shows "gate_ok H S"
  using assms
proof (induction rule: gate_reachable.induct)
  case (step S m source b S')
  then show ?case using gate_cb_ok [of H S m W source] by auto
qed



section \<open>Connections out of order\<close>


definition stuck_gate :: gate_state where
  "stuck_gate = (demo_gate demo_node)\<lparr>gs_gate := (gs_gate (demo_gate demo_node))\<lparr>ga_header_size := 4,
     ga_conn := [fresh_connection, demo_conn\<lparr>cn_buffer := empty_buffer\<lparr>db_header := header_value 4 [0x80, 0, 0, 0]\<rparr>\<rparr>]\<rparr>\<rparr>"


text \<open>
  A connection that no broker, agent or watchdog takes packets of: the length of a packet is read but its
  body stays in the buffer, and the loop goes on to read the body as lengths.
\<close>

theorem gate_unrouted_desync:
  assumes "valid_conn i S" "ga_broker (gs_gate S) = 0" "cn_agent (ga_conn (gs_gate S) ! nat i) = 0" "ga_watchdog (gs_gate S) = 0"
    "ga_header_size (gs_gate S) = int hs" "hs \<in> {2, 4}" "stream_ok M db mp" "header_small hs db" "packet_ok hs p" "p \<noteq> []"
    "unread hs db = frame hs p @ rest"
  shows "\<exists>db' mp'. packet_loop W (Suc fuel) i fd (with_stream i db mp n S) = packet_loop W fuel i fd (with_stream i db' mp' n S) \<and>
    unread hs db' = p @ rest"
proof -
  obtain db1 mp1 where d: "databuffer_readheader db mp (int hs) = Inr (int (length p), db1, mp1)" "db_bytes db1 = p @ rest"
    using readheader_frame [OF assms(7,6,9,11)] assms(8) by (auto simp: header_small_def)
  have small: "\<not> 0x1000000 \<le> int (length p)" using assms(9) by (auto simp: packet_ok_def split: if_splits)
  have f: "forward_packet W i (int (length p)) (with_stream i db1 mp1 n S) = Inr (with_stream i db1 mp1 n S)"
    using assms(2-4) by (simp add: forward_packet_def with_stream_conn [OF assms(1)] Let_def)
  have "packet_loop W (Suc fuel) i fd (with_stream i db mp n S) = packet_loop W fuel i fd (with_stream i (databuffer_reset db1) mp1 n S)"
    unfolding packet_loop_step [OF assms(1) d(1) [folded assms(5)]] using small f assms(10) by (simp add: with_stream_conn [OF assms(1)])
  then show ?thesis using d(2) by (intro exI [of _ "databuffer_reset db1"] exI [of _ mp1]) (simp add: unread_def databuffer_reset_def db_bytes_def)
qed

end
