(* ===== verification/Spec2Isabelle.thy ===== *)
theory Spec2Isabelle
  imports AoiService Seri Netpack Crypt NodeEnd GateProps
begin

text \<open>
  A verification of the C core of a game server built on skynet: the actor runtime
  (\<^verbatim>\<open>skynet/skynet-src\<close>), services written in C (\<^verbatim>\<open>skynet/service-src\<close>) and libraries that Lua services call
  (\<^verbatim>\<open>skynet/lualib-src\<close>).

  \<^bold>\<open>The program.\<close> A node runs services. Each service has a context with a handle, a reference count and
  a mailbox. Workers take mailboxes from a global list, dispatch some messages and put the mailbox
  back. Handles are looked up in a registry, timers push messages, modules are loaded by name, and
  services speak to the node through commands. The AOI service keeps track of which objects of a
  scene see each other. The gate service cuts the byte streams of clients into packets. The libraries
  serialise Lua values, frame packets and do cryptography.

  \<^bold>\<open>Conventions.\<close> Every operation that can go wrong returns \<open>fault + 'a\<close>: a failed assertion, a null or
  freed pointer, an access out of bounds, an uninitialised read, an \<^verbatim>\<open>exit\<close>, a loop that does not end.
  Objects that are shared live in heaps indexed by addresses, so that use after free is a fault. A
  \<^verbatim>\<open>uint32_t\<close> is a word of 32 bits and so on; an \<^verbatim>\<open>int\<close> is an integer, cut to 32 bits where the code
  can leave the range. Reference counts, message counts and versions that would need \<open>2 ^ 31\<close> events to
  overflow are unbounded. Operations under a lock are one step.

  \<^bold>\<open>Theories and what they show.\<close>
  \<^item> \<open>Prelude\<close>, \<open>Bytes\<close>, \<open>CString\<close>: results, words, byte order, C strings and number formats; what a number
    prints is what is read back.
  \<^item> \<open>Mq\<close> (\<^verbatim>\<open>skynet_mq.c\<close>): the ring of a mailbox is a FIFO (locale \<open>fifo\<close>), through wrap and growth. The
    scheduling protocol as a step relation: a mailbox is in the global list or with one worker, at most
    once, no mailbox with messages is forgotten, no step faults.
  \<^item> \<open>Handle\<close> (\<^verbatim>\<open>skynet_handle.c\<close>): the registry implements a map (locale \<open>registry\<close>), the sorted name
    array a map from names; a fault after the counter wrapped.
  \<^item> \<open>Message\<close>, \<open>Timer\<close> (\<^verbatim>\<open>skynet_timer.c\<close>): the hierarchical wheel implements an agenda, with timers added
    between any two locked sections, and fires on time across the wrap of the clock.
  \<^item> \<open>Module\<close> (\<^verbatim>\<open>skynet_module.c\<close>): the module table; a query finds a loaded module or appends one.
  \<^item> \<open>Node\<close> (\<^verbatim>\<open>skynet_server.c\<close>, \<^verbatim>\<open>skynet_harbor.c\<close>, \<^verbatim>\<open>skynet_error.c\<close>, \<^verbatim>\<open>skynet_monitor.c\<close>): the record \<open>node\<close> is the state of the
    process, the record \<open>world\<close> the code of modules and callbacks, which may do to the node what they
    like. \<open>Command\<close>: the commands, \<^verbatim>\<open>skynet_env.c\<close>, \<^verbatim>\<open>skynet_log.c\<close>.
  \<^item> \<open>NodeOk\<close>, \<open>NodeRun\<close>, \<open>NodeCmd\<close>: the invariant \<open>node_ok\<close> (reference counts equal the references there are,
    among them those in the hands of threads; a context's queue lives as long as it; a service is
    not scheduled before it is initialised) and that every operation keeps it. \<open>world_ok\<close> is the contract of the
    modules: their entry points return and keep the invariant; a module that only sends and commands does
    (\<open>echo_world_ok\<close>). The harbor service is assumed to be set up, as \<^verbatim>\<open>skynet_start\<close> does before the workers run.
  \<^item> \<open>NodeProps\<close>, \<open>NodeEnd\<close>: all interleavings of launches, kills, sends, dispatches and monitor checks are
    free of faults; what a send does; commands, sessions, textual handles; \<^verbatim>\<open>ABORT\<close> ends.
  \<^item> \<open>Hashid\<close> (\<^verbatim>\<open>hashid.h\<close>, locale \<open>id_table\<close>), \<open>Databuffer\<close> (\<^verbatim>\<open>databuffer.h\<close>, locale \<open>byte_stream\<close>): the table implements a
    map, the buffer a stream, and no node of the shared pool is lost or used twice.
  \<^item> \<open>Gate\<close> (\<^verbatim>\<open>service_gate.c\<close>), \<open>GateStream\<close>, \<open>GateOk\<close>, \<open>GateProps\<close>: the gate inside a node. Packets are forwarded as they were
    framed however the stream is cut; no message makes the gate fault; two ways in which a connection gets stuck
    or out of step. The proofs use only the contracts of the two locales and the invariant of the node.
  \<^item> \<open>Float32\<close>, \<open>AoiMap\<close>, \<open>Aoi\<close>, \<open>AoiRun\<close>, \<open>AoiService\<close> (\<^verbatim>\<open>service_caoi.c\<close>): IEEE single arithmetic, the scatter table, objects
    with reference counts, the pair list and the message round, the text protocol. No fault, no leak, a
    refinement of a map of actors, what a round reports, and what it misses.
  \<^item> \<open>Seri\<close> (\<^verbatim>\<open>lua-seri.c\<close>), \<open>Netpack\<close> (\<^verbatim>\<open>lua-netpack.c\<close>): round trips and reassembly under any cutting.
  \<^item> \<open>Des\<close>, \<open>Sha1\<close>, \<open>Crypt\<close> (\<^verbatim>\<open>lua-crypt.c\<close>, \<^verbatim>\<open>lsha1.c\<close>): decryption inverts encryption, the unrolled hash equals
    the standard's definition, key agreement, text encodings.

  \<^bold>\<open>Fuel.\<close> Loops that follow chains take the length of the chain's array, which a longer walk would
  exceed only in a circle. The packet loop of the gate gets the number of buffered bytes and two, since each
  turn but the first reads a header. Unpacking gets three calls for each byte and three more. Insertion
  into the scatter table recurs through rehashing at most \<open>INSERT_DEPTH\<close> deep. In each case the theorems
  show that the result is not \<open>Diverges\<close>. \<^verbatim>\<open>skynet_handle_retireall\<close> and \<^verbatim>\<open>skynet_context_dispatchall\<close> end only when modules
  let them; their fuel is an argument, and for the first two passes over the slots are shown to be
  enough when releases launch nothing.

  \<^bold>\<open>Not modelled.\<close> The socket server, the harbor service and the logger are system calls around
  sockets and files. Thread creation and sleeping of workers are left to the step relation. The Lua bindings and
  the shared-table libraries work on the internals of a Lua state. BSON, MongoDB, TLS and sproto are
  formats of third parties; jemalloc, Lua and the other libraries under \<^verbatim>\<open>3rd\<close> are vendored. The game logic
  above is Lua and Python. Memory behind the data pointer of a message is a value, so its
  freeing is not tracked.
\<close>

end
